(* ===== verification/Prelude.thy ===== *)
theory Prelude
  imports "HOL-Library.Word" "HOL-Library.Monad_Syntax"
begin

text \<open>
  Shared vocabulary of the development: machine types, C memory blocks and the lemmas on
  words, lists and options that several components use.

  A \<^emph>\<open>block\<close> is one object obtained from the allocator: a list of cells, each an
  initialised byte (\<open>Some b\<close>) or a byte nobody has written yet (\<open>None\<close>, what
  \<open>malloc\<close> and the tail of a grown \<open>realloc\<close> hold). Reads and writes that leave the
  block are undefined behaviour in C; here they are the value \<open>None\<close> of the operation, so
  that a theorem with conclusion \<open>Some\<close> also says that no access leaves its block. The
  allocator is taken to succeed: the sources do not handle a failing \<open>malloc\<close>.
\<close>

unbundle bit_operations_syntax

section \<open>Machine types\<close>

type_synonym byte = "8 word"
type_synonym u16 = "16 word"
type_synonym u32 = "32 word"
type_synonym u64 = "64 word"
type_synonym int32 = "32 word"
type_synonym size_t = "64 word"
type_synonym cell = "byte option"
type_synonym block = "cell list"

named_theorems block_simps \<open>unfolding of the memory primitives\<close>

section \<open>Memory primitives of the C library\<close>

definition block_read :: "block \<Rightarrow> nat \<Rightarrow> nat \<Rightarrow> block option" where
  "block_read blk pos n = (if pos + n \<le> length blk then Some (take n (drop pos blk)) else None)"

text \<open>\<open>memcpy(blk + pos, src, |src|)\<close>.\<close>

definition block_write :: "block \<Rightarrow> nat \<Rightarrow> block \<Rightarrow> block option" where
  "block_write blk pos src =
     (if pos + length src \<le> length blk
      then Some (take pos blk @ src @ drop (pos + length src) blk) else None)"

text \<open>\<open>memmove(blk + dst, blk + src, n)\<close>: the source is read before anything is written.\<close>

definition block_move :: "block \<Rightarrow> nat \<Rightarrow> nat \<Rightarrow> nat \<Rightarrow> block option" where
  "block_move blk dst src n = do { xs \<leftarrow> block_read blk src n; block_write blk dst xs }"

definition malloc :: "size_t \<Rightarrow> block" where
  "malloc n = replicate (unat n) None"

definition calloc :: "size_t \<Rightarrow> block" where
  "calloc n = replicate (unat n) (Some 0)"

text \<open>
  \<open>realloc(p, n)\<close> keeps the first \<open>n\<close> cells; with \<open>n = 0\<close> glibc frees the block and
  returns \<open>NULL\<close>.
\<close>

definition realloc :: "block option \<Rightarrow> size_t \<Rightarrow> block option" where
  "realloc p n =
     (case p of
        None \<Rightarrow> Some (malloc n)
      | Some blk \<Rightarrow>
          if n = 0 then None
          else Some (take (unat n) blk @ replicate (unat n - length blk) None))"

lemmas [block_simps] = block_read_def block_write_def block_move_def malloc_def calloc_def

lemma length_malloc [simp]: "length (malloc n) = unat n"
  by (simp add: malloc_def)

lemma length_calloc [simp]: "length (calloc n) = unat n"
  by (simp add: calloc_def)

lemma block_write_Some:
  "block_write blk pos src = Some blk' \<Longrightarrow> length blk' = length blk"
  by (auto simp: block_write_def split: if_splits)

lemma option_eqI: "(\<And>x. a = Some x \<longleftrightarrow> b = Some x) \<Longrightarrow> a = b"
  by (cases a; cases b) auto

lemma fold_snoc: "fold (\<lambda>x acc. acc @ [x]) xs acc = acc @ xs"
  by (induction xs arbitrary: acc) auto

text \<open>A chain of fallible steps succeeds when each step does.\<close>

lemma bind_exI:
  "\<exists>x. m = Some x \<Longrightarrow> (\<And>x. m = Some x \<Longrightarrow> \<exists>y. f x = Some y) \<Longrightarrow> \<exists>y. Option.bind m f = Some y"
  by auto

lemma Some_exI: "\<exists>y. Some x = Some y"
  by simp

section \<open>Pointers into blocks\<close>

text \<open>
  A pointer is \<open>NULL\<close> (\<open>None\<close>) or the cells that can be reached from it upwards to the
  end of its block. Nothing can be read through \<open>NULL\<close> except zero cells.
\<close>

type_synonym ptr = "block option"

definition ptr_add :: "ptr \<Rightarrow> nat \<Rightarrow> ptr" where
  "ptr_add p n = map_option (drop n) p"

definition ptr_read :: "ptr \<Rightarrow> nat \<Rightarrow> block option" where
  "ptr_read p n =
     (case p of None \<Rightarrow> if n = 0 then Some [] else None | Some blk \<Rightarrow> block_read blk 0 n)"

text \<open>Reading values out of cells: an uninitialised cell has none.\<close>

definition ptr_bytes :: "ptr \<Rightarrow> nat \<Rightarrow> byte list option" where
  "ptr_bytes p n = Option.bind (ptr_read p n) those"

lemma those_eq_Some [simp]: "those xs = Some ys \<longleftrightarrow> xs = map Some ys"
proof (induction xs arbitrary: ys)
  case (Cons x xs)
  then show ?case by (cases ys) (auto split: option.splits)
qed auto

lemma those_map_Some [simp]: "those (map Some xs) = Some xs"
  by simp

lemma map_Some_inject [simp]: "map Some xs = map Some ys \<longleftrightarrow> xs = ys"
  by (simp add: inj_map_eq_map)

lemma ptr_read_0 [simp]: "ptr_read p 0 = Some []"
  by (simp add: ptr_read_def block_read_def split: option.splits)

lemma ptr_read_Some [simp]: "ptr_read (Some blk) n = (if n \<le> length blk then Some (take n blk) else None)"
  by (simp add: ptr_read_def block_read_def)

lemma ptr_read_NULL [simp]: "ptr_read None n = (if n = 0 then Some [] else None)"
  by (simp add: ptr_read_def)

lemma length_ptr_read: "ptr_read p n = Some xs \<Longrightarrow> length xs = n"
  by (auto simp: ptr_read_def block_read_def split: option.splits if_splits)

lemma length_ptr_bytes: "ptr_bytes p n = Some xs \<Longrightarrow> length xs = n"
  by (auto simp: ptr_bytes_def bind_eq_Some_conv dest: length_ptr_read)

lemma ptr_read_add:
  "ptr_read p n = Some xs \<Longrightarrow> k + m \<le> n \<Longrightarrow> ptr_read (ptr_add p k) m = Some (take m (drop k xs))"
  by (auto simp: ptr_add_def ptr_read_def block_read_def min_def drop_take split: option.splits if_splits)

section \<open>Words\<close>

lemma unat_add64: "unat a + unat b < 2 ^ 64 \<Longrightarrow> unat (a + b) = unat a + unat (b :: u64)"
  using unat_add_lem [of a b] by simp

lemma unat_mult64: "unat a * unat b < 2 ^ 64 \<Longrightarrow> unat (a * b) = unat a * unat (b :: u64)"
  using unat_mult_lem [of a b] by simp

lemma unat_sub64: "b \<le> a \<Longrightarrow> unat (a - b) = unat a - unat (b :: u64)"
  by (rule unat_sub)

lemma unat_of_nat64 [simp]: "n < 2 ^ 64 \<Longrightarrow> unat (of_nat n :: u64) = n"
  by (simp add: unat_of_nat)

lemma unat_lt64 [simp]: "unat (x :: u64) < 18446744073709551616"
  using unsigned_less [of x] by simp

lemma unat_eq_of_nat: "unat (w :: 'a::len word) = n \<Longrightarrow> w = of_nat n"
  by auto

lemma unat_Suc64: "unat x + 1 < 2 ^ 64 \<Longrightarrow> unat (x + 1) = Suc (unat (x :: u64))"
  using unat_add64 [of x 1] by simp

lemma unat_exp64: "k < 64 \<Longrightarrow> unat (2 ^ k :: u64) = 2 ^ k"
proof -
  assume "k < 64"
  then have "(2::nat) ^ k < 2 ^ 64" by (intro power_strict_increasing) auto
  then show ?thesis
    using unat_of_nat [where ?'a = 64, of "2 ^ k"] by simp
qed

lemma word_top_bit:
  fixes x :: u64
  assumes "2 ^ n \<le> unat x" "unat x < 2 ^ Suc n"
  shows "bit x n" and "\<And>i. bit x i \<Longrightarrow> i \<le> n"
proof -
  have small: "take_bit (Suc n) (unat x) = unat x"
    using assms(2) by (simp only: take_bit_nat_eq_self)
  show le: "i \<le> n" if "bit x i" for i
  proof -
    from that have "bit (unat x) i" by (simp add: bit_unsigned_iff bit_imp_le_length)
    with small have "bit (take_bit (Suc n) (unat x)) i" by simp
    then show ?thesis by (simp add: bit_take_bit_iff)
  qed
  show "bit x n"
  proof (rule ccontr)
    assume "\<not> bit x n"
    then have "take_bit n (unat x) = unat x"
      using le by (intro bit_eqI) (auto simp: bit_take_bit_iff bit_unsigned_iff le_less)
    then have "unat x < 2 ^ n" by (metis take_bit_nat_less_exp)
    with assms(1) show False by simp
  qed
qed

text \<open>
  Smearing the top bit of a word to the right: after steps of 1, 2, 4, 8, 16 and 32 the
  word holds, at every position, whether the original has a set bit at or above it.
\<close>

definition spread :: "u64 \<Rightarrow> nat \<Rightarrow> u64 \<Rightarrow> bool" where
  "spread x n y \<longleftrightarrow> (\<forall>i. bit y i \<longleftrightarrow> (\<exists>j. i \<le> j \<and> j < i + n \<and> bit x j))"

lemma spread_start: "spread x 1 x"
  by (auto simp: spread_def le_less_Suc_eq less_Suc_eq_le dest: le_antisym)

lemma spread_step:
  assumes "spread x n y"
  shows "spread x (n + n) (y OR drop_bit n y)"
proof -
  have "bit (y OR drop_bit n y) i \<longleftrightarrow> (\<exists>j. i \<le> j \<and> j < i + (n + n) \<and> bit x j)" for i
  proof -
    have "bit (y OR drop_bit n y) i \<longleftrightarrow> bit y i \<or> bit y (i + n)"
      by (simp add: bit_or_iff bit_drop_bit_eq add.commute)
    also have "\<dots> \<longleftrightarrow> (\<exists>j. i \<le> j \<and> j < i + n \<and> bit x j) \<or>
        (\<exists>j. i + n \<le> j \<and> j < i + n + n \<and> bit x j)"
      using assms by (simp add: spread_def)
    also have "\<dots> \<longleftrightarrow> (\<exists>j. i \<le> j \<and> j < i + (n + n) \<and> bit x j)"
      by (auto simp: add.assoc) (meson le_add1 le_trans less_le_trans nat_add_left_cancel_le not_le)+
    finally show ?thesis .
  qed
  then show ?thesis by (simp add: spread_def)
qed

lemma spread_full:
  assumes "spread x 64 y" "2 ^ n \<le> unat x" "unat x < 2 ^ Suc n"
  shows "y = mask (Suc n)"
proof (rule bit_word_eqI)
  fix i :: nat assume i: "i < LENGTH(64)"
  have "n < 64" using word_top_bit(1) [OF assms(2,3)] bit_imp_le_length [of x n] by simp
  then have "bit y i \<longleftrightarrow> i \<le> n"
    using assms(1) word_top_bit [OF assms(2,3)] unfolding spread_def
    by (metis le_less_trans linorder_not_le nat_less_le order_trans trans_less_add2)
  then show "bit y i \<longleftrightarrow> bit (mask (Suc n) :: u64) i"
    using i by (simp add: bit_mask_iff less_Suc_eq_le)
qed

text \<open>The rounding loop both \<open>buffer_roundup\<close> and \<open>map_roundup\<close> spell out.\<close>

lemma smear_roundup:
  fixes s0 n :: u64
  assumes s0: "s0 = n - 1"
    and s1: "s1 = s0 OR drop_bit 1 s0" and s2: "s2 = s1 OR drop_bit 2 s1"
    and s3: "s3 = s2 OR drop_bit 4 s2" and s4: "s4 = s3 OR drop_bit 8 s3"
    and s5: "s5 = s4 OR drop_bit 16 s4" and s6: "s6 = s5 OR drop_bit 32 s5"
    and n: "0 < unat n" "unat n \<le> 2 ^ 63"
  shows "\<exists>k\<le>63. unat (s6 + 1) = 2 ^ k \<and> unat n \<le> 2 ^ k \<and> 2 ^ k < 2 * unat n"
proof (cases "unat n = 1")
  case True
  then have "n = 1" by (metis unat_1 unsigned_word_eqI)
  then have "s6 = 0" by (simp add: s0 s1 s2 s3 s4 s5 s6)
  with True show ?thesis by (intro exI [of _ 0]) simp
next
  case False
  have u0: "unat s0 = unat n - 1"
    using n(1) by (simp add: s0 unat_sub_if')
  then have "0 < unat s0" using False n(1) by simp
  then obtain k where k: "2 ^ k \<le> unat s0" "unat s0 < 2 ^ Suc k"
    using ex_power_ivl1 [of 2 "unat s0"] by auto
  have "unat s0 < 2 ^ 63" using u0 n by simp
  then have k63: "Suc k \<le> 63"
    using k(1) by (metis Suc_leI le_less_trans nat_power_less_imp_less zero_less_numeral)
  have d: "spread s0 m z" if "spread s0 i y" "m = i + i" "z = y OR drop_bit i y" for m i y z
    using spread_step [OF that(1)] that(2,3) by simp
  have "spread s0 2 s1" by (rule d [OF spread_start]) (simp_all add: s1)
  then have "spread s0 4 s2" by (rule d) (simp_all add: s2)
  then have "spread s0 8 s3" by (rule d) (simp_all add: s3)
  then have "spread s0 16 s4" by (rule d) (simp_all add: s4)
  then have "spread s0 32 s5" by (rule d) (simp_all add: s5)
  then have "spread s0 64 s6" by (rule d) (simp_all add: s6)
  then have "s6 + 1 = 2 ^ Suc k"
    using spread_full k by (metis add.commute diff_add_cancel mask_eq_exp_minus_1)
  moreover have "unat (2 ^ Suc k :: u64) = 2 ^ Suc k"
    using k63 unat_exp64 [of "Suc k"] by simp
  moreover have "unat n \<le> 2 ^ Suc k" "2 ^ Suc k < 2 * unat n"
    using k u0 n(1) by auto
  ultimately show ?thesis using k63 by (intro exI [of _ "Suc k"]) simp
qed

section \<open>Words in memory\<close>

text \<open>Little-endian: the bytes of a word, the word a sequence of bytes stands for.\<close>

fun word_of_bytes :: "byte list \<Rightarrow> u64" where
  "word_of_bytes [] = 0"
| "word_of_bytes (b # bs) = ucast b OR push_bit 8 (word_of_bytes bs)"

definition word_bytes :: "u64 \<Rightarrow> byte list" where
  "word_bytes w = map (\<lambda>i. ucast (drop_bit (8 * i) w)) [0..<8]"

lemma length_word_bytes [simp]: "length (word_bytes w) = 8"
  by (simp add: word_bytes_def)

lemma bit_word_of_bytes:
  "bit (word_of_bytes bs) i \<longleftrightarrow> i < 64 \<and> i div 8 < length bs \<and> bit (bs ! (i div 8)) (i mod 8)"
proof (induction bs arbitrary: i)
  case (Cons b bs)
  show ?case
  proof (cases "i < 8")
    case True
    then show ?thesis by (auto simp: bit_or_iff bit_push_bit_iff bit_ucast_iff)
  next
    case False
    then have "i div 8 = Suc ((i - 8) div 8)" "i mod 8 = (i - 8) mod 8" "\<not> bit b i"
      using bit_imp_le_length [of b i] by (auto simp: div_if [of i] mod_if [of i])
    then show ?thesis using False by (auto simp: bit_or_iff bit_push_bit_iff bit_ucast_iff Cons.IH)
  qed
qed simp

lemma word_of_word_bytes [simp]: "word_of_bytes (word_bytes w) = w"
proof (rule bit_word_eqI)
  fix i :: nat assume i: "i < LENGTH(64)"
  then have d: "i div 8 < 8" by simp
  then have "word_bytes w ! (i div 8) = ucast (drop_bit (8 * (i div 8)) w)" by (simp add: word_bytes_def)
  moreover have "8 * (i div 8) + i mod 8 = i" "i mod 8 < 8" by simp_all
  ultimately show "bit (word_of_bytes (word_bytes w)) i \<longleftrightarrow> bit w i"
    using i d by (simp add: bit_word_of_bytes bit_ucast_iff bit_drop_bit_eq)
qed

text \<open>A pointer stored in memory, and read back.\<close>

definition word_cells :: "u64 \<Rightarrow> block" where
  "word_cells w = map Some (word_bytes w)"

definition cells_word :: "block \<Rightarrow> u64 option" where
  "cells_word cells = map_option word_of_bytes (those cells)"

lemma length_word_cells [simp]: "length (word_cells w) = 8"
  by (simp add: word_cells_def)

lemma cells_word_cells [simp]: "cells_word (word_cells w) = Some w"
  by (simp add: cells_word_def word_cells_def)

end
