(* ===== verification/Data.thy ===== *)
theory Data
  imports Prelude
begin

text \<open>
  Data vectors (\<^verbatim>\<open>src/reactor/data.c\<close>): a pointer and a size, the currency every other
  component passes bytes in. The operations only move the pointer and the size; the bytes
  a data vector stands for are \<open>data_bytes\<close>, present when all of them lie inside the
  block the pointer points into and are initialised.
\<close>

record data =
  iov_base :: ptr
  iov_len :: size_t

section \<open>Constructors\<close>

definition data_of :: "ptr \<Rightarrow> size_t \<Rightarrow> data" where
  "data_of base len = \<lparr>iov_base = base, iov_len = len\<rparr>"

definition data_null :: data where
  "data_null = \<lparr>iov_base = None, iov_len = 0\<rparr>"

definition data_size :: "data \<Rightarrow> size_t" where
  "data_size d = iov_len d"

definition data_empty :: "data \<Rightarrow> bool" where
  "data_empty d \<longleftrightarrow> data_size d = 0"

definition data_base :: "data \<Rightarrow> ptr" where
  "data_base d = iov_base d"

definition data_end :: "data \<Rightarrow> ptr" where
  "data_end d = ptr_add (data_base d) (unat (data_size d))"

text \<open>\<open>strlen\<close>: the cells before the first zero byte; leaving the block is an error.\<close>

fun strlen :: "block \<Rightarrow> nat option" where
  "strlen [] = None"
| "strlen (None # _) = None"
| "strlen (Some b # cs) = (if b = 0 then Some 0 else map_option Suc (strlen cs))"

definition data_string :: "block \<Rightarrow> data option" where
  "data_string chars = map_option (\<lambda>n. data_of (Some chars) (of_nat n)) (strlen chars)"

definition data_offset :: "data \<Rightarrow> size_t \<Rightarrow> data" where
  "data_offset d offset = data_of (ptr_add (data_base d) (unat offset)) (data_size d - offset)"

definition data_select :: "data \<Rightarrow> size_t \<Rightarrow> data" where
  "data_select d len = data_of (data_base d) len"

definition data_copy :: "data \<Rightarrow> data option" where
  "data_copy from = do {
     src \<leftarrow> ptr_read (data_base from) (unat (data_size from));
     blk \<leftarrow> block_write (malloc (data_size from)) 0 src;
     Some (data_of (Some blk) (data_size from)) }"

definition data_copyz :: "data \<Rightarrow> data option" where
  "data_copyz from = do {
     src \<leftarrow> ptr_read (data_base from) (unat (data_size from));
     blk \<leftarrow> block_write (malloc (data_size from + 1)) 0 src;
     blk \<leftarrow> block_write blk (unat (data_size from)) [Some 0];
     Some (data_of (Some blk) (data_size from)) }"

definition data_alloc :: "size_t \<Rightarrow> data" where
  "data_alloc len = data_of (Some (calloc len)) len"

definition data_realloc :: "data \<Rightarrow> size_t \<Rightarrow> data" where
  "data_realloc d len = data_of (realloc (data_base d) len) len"

section \<open>Comparison\<close>

text \<open>
  \<open>memcmp\<close> of the C library, on the bytes of both ranges, and the case-insensitive
  \<open>memcasecmp\<close> of \<^verbatim>\<open>data.c\<close>: the difference at the first index where the (upper-cased)
  bytes differ. \<open>toupper\<close> is the C locale's.
\<close>

fun bytes_compare :: "byte list \<Rightarrow> byte list \<Rightarrow> int" where
  "bytes_compare (x # xs) (y # ys) = (if x = y then bytes_compare xs ys else uint x - uint y)"
| "bytes_compare _ _ = 0"

definition memcmp :: "ptr \<Rightarrow> ptr \<Rightarrow> nat \<Rightarrow> int option" where
  "memcmp p q n = do { xs \<leftarrow> ptr_bytes p n; ys \<leftarrow> ptr_bytes q n; Some (bytes_compare xs ys) }"

definition toupper :: "byte \<Rightarrow> byte" where
  "toupper c = (if 97 \<le> c \<and> c \<le> 122 then c - 32 else c)"

fun bytes_casecompare :: "byte list \<Rightarrow> byte list \<Rightarrow> int" where
  "bytes_casecompare (u1 # s1) (u2 # s2) =
     (let diff = uint (toupper u1) - uint (toupper u2)
      in if diff \<noteq> 0 then diff else bytes_casecompare s1 s2)"
| "bytes_casecompare _ _ = 0"

definition memcasecmp :: "ptr \<Rightarrow> ptr \<Rightarrow> nat \<Rightarrow> int option" where
  "memcasecmp s1 s2 n = do { xs \<leftarrow> ptr_bytes s1 n; ys \<leftarrow> ptr_bytes s2 n; Some (bytes_casecompare xs ys) }"

definition data_equal :: "data \<Rightarrow> data \<Rightarrow> bool option" where
  "data_equal d1 d2 =
     (if data_size d1 = data_size d2
      then map_option (\<lambda>r. r = 0) (memcmp (data_base d1) (data_base d2) (unat (data_size d1)))
      else Some False)"

definition data_equal_case :: "data \<Rightarrow> data \<Rightarrow> bool option" where
  "data_equal_case d1 d2 =
     (if data_size d1 = data_size d2
      then map_option (\<lambda>r. r = 0) (memcasecmp (data_base d1) (data_base d2) (unat (data_size d1)))
      else Some False)"

section \<open>The bytes of a data vector\<close>

definition data_bytes :: "data \<Rightarrow> byte list option" where
  "data_bytes d = ptr_bytes (data_base d) (unat (data_size d))"

text \<open>A data vector on given bytes, the C idiom \<open>data((uint8_t[]) {...}, n)\<close>.\<close>

definition data_literal :: "byte list \<Rightarrow> data" where
  "data_literal bs = data_of (Some (map Some bs)) (of_nat (length bs))"

lemma data_fields [simp]:
  "data_base (data_of p n) = p" "data_size (data_of p n) = n"
  "data_base data_null = None" "data_size data_null = 0"
  "data_base (data_select d m) = data_base d" "data_size (data_select d m) = m"
  "data_base (data_offset d k) = ptr_add (data_base d) (unat k)"
  "data_size (data_offset d k) = data_size d - k"
  by (simp_all add: data_of_def data_null_def data_base_def data_size_def data_select_def data_offset_def)

lemma length_data_bytes: "data_bytes d = Some xs \<Longrightarrow> length xs = unat (data_size d)"
  by (simp add: data_bytes_def length_ptr_bytes)

lemma data_bytes_literal [simp]:
  "length bs < 2 ^ 64 \<Longrightarrow> data_bytes (data_literal bs) = Some bs"
  by (simp add: data_bytes_def data_literal_def ptr_bytes_def unat_of_nat)

lemma data_bytes_offset:
  assumes "data_bytes d = Some xs" "k \<le> data_size d"
  shows "data_bytes (data_offset d k) = Some (drop (unat k) xs)"
proof -
  have xs: "ptr_read (data_base d) (unat (data_size d)) = Some (map Some xs)"
    using assms(1) by (auto simp: data_bytes_def ptr_bytes_def bind_eq_Some_conv)
  have "unat k + unat (data_size d - k) = unat (data_size d)"
    using assms(2) by (simp add: unat_sub word_le_nat_alt)
  then show ?thesis
    using ptr_read_add [OF xs, of "unat k" "unat (data_size d - k)"] length_data_bytes [OF assms(1)]
    by (simp add: data_bytes_def ptr_bytes_def flip: drop_map)
qed

lemma bytes_compare_eq_0:
  "length xs = length ys \<Longrightarrow> bytes_compare xs ys = 0 \<longleftrightarrow> xs = ys"
  by (induction xs ys rule: bytes_compare.induct) (auto simp: word_uint_eq_iff)

lemma bytes_casecompare_eq_0:
  "length xs = length ys \<Longrightarrow> bytes_casecompare xs ys = 0 \<longleftrightarrow> map toupper xs = map toupper ys"
  by (induction xs ys rule: bytes_casecompare.induct) (auto simp: Let_def word_uint_eq_iff [of "toupper _"])

lemma data_equal_bytes:
  assumes "data_bytes d1 = Some xs" "data_bytes d2 = Some ys"
  shows "data_equal d1 d2 = Some (xs = ys)"
proof (cases "data_size d1 = data_size d2")
  case True
  then show ?thesis
    using assms length_data_bytes [OF assms(1)] length_data_bytes [OF assms(2)]
    by (simp add: data_equal_def memcmp_def data_bytes_def bytes_compare_eq_0)
next
  case False
  then have "length xs \<noteq> length ys"
    using length_data_bytes [OF assms(1)] length_data_bytes [OF assms(2)]
    by (metis unsigned_word_eqI)
  with False show ?thesis by (auto simp: data_equal_def)
qed

lemma data_equal_case_bytes:
  assumes "data_bytes d1 = Some xs" "data_bytes d2 = Some ys"
  shows "data_equal_case d1 d2 = Some (map toupper xs = map toupper ys)"
proof (cases "data_size d1 = data_size d2")
  case True
  then show ?thesis
    using assms length_data_bytes [OF assms(1)] length_data_bytes [OF assms(2)]
    by (simp add: data_equal_case_def memcasecmp_def data_bytes_def bytes_casecompare_eq_0)
next
  case False
  then have "length xs \<noteq> length ys"
    using length_data_bytes [OF assms(1)] length_data_bytes [OF assms(2)]
    by (metis unsigned_word_eqI)
  with False show ?thesis
    by (auto simp: data_equal_case_def dest: map_eq_imp_length_eq)
qed

lemma data_copyz_bytes:
  assumes "data_bytes d = Some xs" "length xs + 1 < 2 ^ 64"
  shows "\<exists>d'. data_copyz d = Some d' \<and> data_bytes d' = Some xs \<and>
           data_base d' = Some (map Some xs @ [Some 0])"
proof -
  have len: "length xs = unat (data_size d)" by (rule length_data_bytes [OF assms(1)])
  have suc: "unat (data_size d + 1) = Suc (unat (data_size d))"
    using assms(2) len by (simp add: unat_Suc64)
  have "ptr_read (data_base d) (unat (data_size d)) = Some (map Some xs)"
    using assms(1) by (auto simp: data_bytes_def ptr_bytes_def bind_eq_Some_conv)
  then show ?thesis
    using len suc
    by (simp add: data_copyz_def data_bytes_def ptr_bytes_def block_write_def malloc_def)
qed

section \<open>Properties\<close>

text \<open>
  \<open>data_equal\<close> and \<open>data_equal_case\<close> decide equality of the bytes, the second one up to
  \<open>toupper\<close>, and read nothing outside the two vectors.
\<close>

theorem data_equal_decides:
  assumes "data_bytes d1 = Some xs" "data_bytes d2 = Some ys"
  shows "data_equal d1 d2 = Some (xs = ys) \<and>
    data_equal_case d1 d2 = Some (map toupper xs = map toupper ys)"
  using data_equal_bytes [OF assms] data_equal_case_bytes [OF assms] by simp

lemma data_equal_decides_witness:
  "data_equal (data_literal [65, 98]) (data_literal [97, 98]) = Some False \<and>
   data_equal_case (data_literal [65, 98]) (data_literal [97, 98]) = Some True"
  using data_equal_decides [of "data_literal [65, 98]" "[65, 98]" "data_literal [97, 98]" "[97, 98]"]
  by (simp add: toupper_def)

end
