(* ===== verification/Buffer.thy ===== *)
theory Buffer
  imports Data
begin

text \<open>
  Growable byte buffers (\<^verbatim>\<open>src/reactor/buffer.c\<close>): a data vector that owns its block, and
  the capacity of that block. Sizes are 64-bit words with the C wrap-around. Operations that
  write through computed addresses return \<open>None\<close> when the access leaves the block.

  Files are the byte sequences \<open>fopen\<close> finds (\<open>None\<close>: it fails); \<open>fread\<close> on a file hands
  out its bytes in order and comes up short only at its end.
\<close>

record buffer =
  buf_data :: data
  buf_capacity :: size_t

definition buffer_roundup :: "size_t \<Rightarrow> size_t" where
  "buffer_roundup sz =
     (let s0 = sz - 1;
          s1 = s0 OR drop_bit 1 s0;
          s2 = s1 OR drop_bit 2 s1;
          s3 = s2 OR drop_bit 4 s2;
          s4 = s3 OR drop_bit 8 s3;
          s5 = s4 OR drop_bit 16 s4;
          s6 = s5 OR drop_bit 32 s5
      in s6 + 1)"

section \<open>Constructor, capacity, element access\<close>

definition buffer_construct :: buffer where
  "buffer_construct = \<lparr>buf_data = data_null, buf_capacity = 0\<rparr>"

definition buffer_size :: "buffer \<Rightarrow> size_t" where
  "buffer_size b = data_size (buf_data b)"

definition buffer_capacity :: "buffer \<Rightarrow> size_t" where
  "buffer_capacity b = buf_capacity b"

definition buffer_empty :: "buffer \<Rightarrow> bool" where
  "buffer_empty b \<longleftrightarrow> buffer_size b = 0"

definition buffer_data :: "buffer \<Rightarrow> data" where
  "buffer_data b = buf_data b"

definition buffer_base :: "buffer \<Rightarrow> ptr" where
  "buffer_base b = data_base (buf_data b)"

definition buffer_at :: "buffer \<Rightarrow> size_t \<Rightarrow> ptr" where
  "buffer_at b pos = ptr_add (buffer_base b) (unat pos)"

definition buffer_end :: "buffer \<Rightarrow> ptr" where
  "buffer_end b = buffer_at b (buffer_size b)"

text \<open>\<open>buffer_deconstruct\<close> hands the block to the caller and leaves an empty buffer.\<close>

definition buffer_deconstruct :: "buffer \<Rightarrow> ptr \<times> buffer" where
  "buffer_deconstruct b = (buffer_base b, buffer_construct)"

definition buffer_reserve :: "buffer \<Rightarrow> size_t \<Rightarrow> buffer" where
  "buffer_reserve b capacity =
     (if capacity > buf_capacity b
      then let capacity = buffer_roundup capacity
           in \<lparr>buf_data = data_of (realloc (buffer_base b) capacity) (buffer_size b),
               buf_capacity = capacity\<rparr>
      else b)"

definition buffer_resize :: "buffer \<Rightarrow> size_t \<Rightarrow> buffer" where
  "buffer_resize b sz =
     (let b = (if sz > buf_capacity b then buffer_reserve b sz else b)
      in b\<lparr>buf_data := data_select (buf_data b) sz\<rparr>)"

definition buffer_compact :: "buffer \<Rightarrow> buffer" where
  "buffer_compact b =
     (let sz = buffer_size b
      in if buf_capacity b > sz
         then if sz \<noteq> 0
              then \<lparr>buf_data = data_of (realloc (buffer_base b) sz) sz, buf_capacity = sz\<rparr>
              else \<lparr>buf_data = data_null, buf_capacity = sz\<rparr>
         else b)"

definition buffer_allocate :: "buffer \<Rightarrow> size_t \<Rightarrow> buffer \<times> data" where
  "buffer_allocate b n =
     (let sz = buffer_size b; b = buffer_resize b (sz + n)
      in (b, data_offset (buf_data b) sz))"

section \<open>Modifiers\<close>

text \<open>
  \<open>memcpy(buffer_at(b, pos), src, |src|)\<close> and \<open>memmove(buffer_at(b, dst), buffer_at(b, src), n)\<close>
  on the buffer's own block. Through \<open>NULL\<close> only zero bytes can be moved.
\<close>

definition buffer_poke :: "buffer \<Rightarrow> size_t \<Rightarrow> block \<Rightarrow> buffer option" where
  "buffer_poke b pos src =
     (case buffer_base b of
        None \<Rightarrow> if src = [] then Some b else None
      | Some blk \<Rightarrow> do {
          blk' \<leftarrow> block_write blk (unat pos) src;
          Some (b\<lparr>buf_data := data_of (Some blk') (buffer_size b)\<rparr>) })"

definition buffer_shift :: "buffer \<Rightarrow> size_t \<Rightarrow> size_t \<Rightarrow> size_t \<Rightarrow> buffer option" where
  "buffer_shift b dst src n =
     (case buffer_base b of
        None \<Rightarrow> if n = 0 then Some b else None
      | Some blk \<Rightarrow> do {
          blk' \<leftarrow> block_move blk (unat dst) (unat src) (unat n);
          Some (b\<lparr>buf_data := data_of (Some blk') (buffer_size b)\<rparr>) })"

definition buffer_insert :: "buffer \<Rightarrow> size_t \<Rightarrow> data \<Rightarrow> buffer option" where
  "buffer_insert b pos d =
     (let b = buffer_reserve b (buffer_size b + data_size d)
      in do {
        b \<leftarrow> (if pos < buffer_size b
              then buffer_shift b (pos + data_size d) pos (buffer_size b - pos)
              else Some b);
        src \<leftarrow> ptr_read (data_base d) (unat (data_size d));
        b \<leftarrow> buffer_poke b pos src;
        Some (buffer_resize b (buffer_size b + data_size d)) })"

text \<open>The copy loop of \<open>buffer_insert_fill\<close>: \<open>i\<close> counts up to \<open>count\<close>.\<close>

fun buffer_fill_loop :: "nat \<Rightarrow> size_t \<Rightarrow> size_t \<Rightarrow> data \<Rightarrow> buffer \<Rightarrow> buffer option" where
  "buffer_fill_loop 0 i pos d b = Some b"
| "buffer_fill_loop (Suc k) i pos d b = do {
     src \<leftarrow> ptr_read (data_base d) (unat (data_size d));
     b \<leftarrow> buffer_poke b (pos + i * data_size d) src;
     buffer_fill_loop k (i + 1) pos d b }"

definition buffer_insert_fill :: "buffer \<Rightarrow> size_t \<Rightarrow> size_t \<Rightarrow> data \<Rightarrow> buffer option" where
  "buffer_insert_fill b pos count d =
     (let b = buffer_reserve b (buffer_size b + count * data_size d)
      in do {
        b \<leftarrow> (if pos < buffer_size b
              then buffer_shift b (pos + count * data_size d) pos (buffer_size b - pos)
              else Some b);
        b \<leftarrow> buffer_fill_loop (unat count) 0 pos d b;
        Some (buffer_resize b (buffer_size b + count * data_size d)) })"

definition buffer_prepend :: "buffer \<Rightarrow> data \<Rightarrow> buffer option" where
  "buffer_prepend b d = buffer_insert b 0 d"

definition buffer_append :: "buffer \<Rightarrow> data \<Rightarrow> buffer option" where
  "buffer_append b d = buffer_insert b (buffer_size b) d"

definition buffer_erase :: "buffer \<Rightarrow> size_t \<Rightarrow> size_t \<Rightarrow> buffer option" where
  "buffer_erase b position sz = do {
     b \<leftarrow> buffer_shift b position (position + sz) (buffer_size b - position - sz);
     Some (buffer_resize b (buffer_size b - sz)) }"

definition buffer_clear :: "buffer \<Rightarrow> buffer" where
  "buffer_clear b = buffer_resize b 0"

definition buffer_switch :: "buffer \<Rightarrow> buffer \<Rightarrow> buffer \<times> buffer" where
  "buffer_switch b1 b2 = (b2, b1)"

section \<open>Files\<close>

text \<open>
  One pass of the \<open>do\<close> loop allocates 4096 bytes, lets \<open>fread\<close> fill what the file still
  has and shrinks the buffer to that; a full block means there may be more.
\<close>

function buffer_read :: "buffer \<Rightarrow> byte list \<Rightarrow> buffer option" where
  "buffer_read b file =
     (let sz = buffer_size b; (b, d) = buffer_allocate b 4096; got = take 4096 file; n = of_nat (length got)
      in do {
        b \<leftarrow> buffer_poke b sz (map Some got);
        let b = buffer_resize b (buffer_size b - 4096 + n);
        if n = 4096 then buffer_read b (drop 4096 file) else Some b })"
  by pat_completeness auto
termination
proof (relation "measure (\<lambda>(b, file). length file)")
  fix b b3 :: buffer and bytes got :: "byte list" and n :: size_t
  assume "got = take 4096 bytes" "n = of_nat (length got)" "n = 4096"
  then have "bytes \<noteq> []" by auto
  then show "((b3, drop 4096 bytes), b, bytes) \<in> measure (\<lambda>(b, file). length file)"
    by simp
qed simp

declare buffer_read.simps [simp del]

definition buffer_load :: "buffer \<Rightarrow> byte list option \<Rightarrow> (bool \<times> buffer) option" where
  "buffer_load b fopen =
     (case fopen of
        None \<Rightarrow> Some (False, b)
      | Some file \<Rightarrow> do {
          b \<leftarrow> buffer_read (buffer_clear b) file;
          Some (True, buffer_compact b) })"

definition buffer_loadz :: "buffer \<Rightarrow> byte list option \<Rightarrow> (bool \<times> buffer) option" where
  "buffer_loadz b fopen =
     (case fopen of
        None \<Rightarrow> Some (False, b)
      | Some file \<Rightarrow> do {
          b \<leftarrow> buffer_read (buffer_clear b) file;
          b \<leftarrow> buffer_append b (data_literal [0]);
          let b = buffer_compact b;
          Some (True, buffer_resize b (buffer_size b - 1)) })"

text \<open>\<open>buffer_write\<close> and \<open>buffer_save\<close>: the bytes \<open>fwrite\<close> is given.\<close>

definition buffer_write :: "buffer \<Rightarrow> byte list option" where
  "buffer_write b = ptr_bytes (buffer_base b) (unat (buffer_size b))"

definition buffer_save :: "buffer \<Rightarrow> bool \<Rightarrow> (bool \<times> byte list) option" where
  "buffer_save b fopen_ok = (if fopen_ok then map_option (\<lambda>bs. (True, bs)) (buffer_write b) else Some (False, []))"

section \<open>Invariant and contents\<close>

text \<open>
  The block is as long as the capacity says and the size is within it. The contents are the
  cells below the size; \<open>buffer_holds b bs\<close> says they are the bytes \<open>bs\<close>.
\<close>

definition buffer_ok :: "buffer \<Rightarrow> bool" where
  "buffer_ok b \<longleftrightarrow> unat (buffer_size b) \<le> unat (buf_capacity b) \<and>
     (case buffer_base b of None \<Rightarrow> buf_capacity b = 0 | Some blk \<Rightarrow> length blk = unat (buf_capacity b))"

definition buffer_cells :: "buffer \<Rightarrow> block" where
  "buffer_cells b = (case buffer_base b of None \<Rightarrow> [] | Some blk \<Rightarrow> take (unat (buffer_size b)) blk)"

definition buffer_holds :: "buffer \<Rightarrow> byte list \<Rightarrow> bool" where
  "buffer_holds b bs \<longleftrightarrow> buffer_ok b \<and> buffer_cells b = map Some bs"

text \<open>The largest size the rounding can serve.\<close>

definition buffer_limit :: nat where
  "buffer_limit = 2 ^ 63"

lemma buffer_roundup_pow2:
  assumes "0 < unat n" "unat n \<le> buffer_limit"
  shows "\<exists>k\<le>63. unat (buffer_roundup n) = 2 ^ k \<and> unat n \<le> 2 ^ k \<and> 2 ^ k < 2 * unat n"
  unfolding buffer_roundup_def Let_def
  by (rule smear_roundup [OF refl refl refl refl refl refl refl])
    (use assms in \<open>auto simp: buffer_limit_def\<close>)

section \<open>Lemmas\<close>

lemma block_gap:
  assumes "length A = pos" "length B = m" "n \<le> length R"
  shows "block_move (A @ B @ R) (pos + n) pos m = Some (A @ take n (B @ R) @ B @ drop n R)"
proof -
  have r: "block_read (A @ B @ R) pos m = Some B"
    using assms by (simp add: block_read_def)
  have d: "drop (pos + n + m) (A @ B @ R) = drop n R"
    using assms by (simp add: add.commute add.left_commute)
  show ?thesis using assms by (simp add: block_move_def r block_write_def d)
qed

lemma block_overwrite:
  assumes "length A = pos" "length src = length X"
  shows "block_write (A @ X @ C) pos src = Some (A @ src @ C)"
  using assms by (simp add: block_write_def)

lemma buffer_simps [simp]:
  "buffer_base (b\<lparr>buf_data := data_of p n\<rparr>) = p" "buffer_size (b\<lparr>buf_data := data_of p n\<rparr>) = n"
  "buffer_base \<lparr>buf_data = data_of p n, buf_capacity = c\<rparr> = p"
  "buffer_size \<lparr>buf_data = data_of p n, buf_capacity = c\<rparr> = n"
  "buffer_base \<lparr>buf_data = data_null, buf_capacity = c\<rparr> = None"
  "buffer_size \<lparr>buf_data = data_null, buf_capacity = c\<rparr> = 0"
  "buffer_base buffer_construct = None" "buffer_size buffer_construct = 0"
  "buf_capacity buffer_construct = 0"
  by (simp_all add: buffer_base_def buffer_size_def buffer_construct_def)

lemma buffer_construct_holds [simp]: "buffer_holds buffer_construct []"
  by (simp add: buffer_holds_def buffer_ok_def buffer_cells_def)

lemma length_buffer_cells: "buffer_ok b \<Longrightarrow> length (buffer_cells b) = unat (buffer_size b)"
  by (auto simp: buffer_ok_def buffer_cells_def split: option.splits)

lemma buffer_reserve_spec:
  assumes "buffer_ok b" "unat c \<le> buffer_limit"
  shows "buffer_ok (buffer_reserve b c)" "buffer_cells (buffer_reserve b c) = buffer_cells b"
    "buffer_size (buffer_reserve b c) = buffer_size b" "c \<le> buf_capacity (buffer_reserve b c)"
    "buf_capacity b \<le> buf_capacity (buffer_reserve b c)"
proof -
  show "buffer_size (buffer_reserve b c) = buffer_size b"
    by (simp add: buffer_reserve_def Let_def)
  have *: "buffer_ok (buffer_reserve b c) \<and> buffer_cells (buffer_reserve b c) = buffer_cells b \<and>
     c \<le> buf_capacity (buffer_reserve b c) \<and> buf_capacity b \<le> buf_capacity (buffer_reserve b c)"
  proof (cases "c > buf_capacity b")
    case True
    then have "0 < unat c" by (simp add: word_less_nat_alt)
    then obtain k where k: "unat (buffer_roundup c) = 2 ^ k" "unat c \<le> unat (buffer_roundup c)"
      using buffer_roundup_pow2 assms(2) by metis
    then have "buffer_roundup c \<noteq> 0" by auto
    moreover have "unat (buf_capacity b) \<le> unat (buffer_roundup c)"
      using True k by (simp add: word_less_nat_alt)
    ultimately show ?thesis
      using True assms(1) k
      by (auto simp: buffer_reserve_def Let_def buffer_ok_def buffer_cells_def realloc_def
          word_le_nat_alt split: option.splits)
  qed (use assms in \<open>auto simp: buffer_reserve_def\<close>)
  then show "buffer_ok (buffer_reserve b c)" "buffer_cells (buffer_reserve b c) = buffer_cells b"
    "c \<le> buf_capacity (buffer_reserve b c)" "buf_capacity b \<le> buf_capacity (buffer_reserve b c)"
    by auto
qed

lemma buffer_resize_within:
  assumes "n \<le> buf_capacity b"
  shows "buffer_resize b n = b\<lparr>buf_data := data_of (buffer_base b) n\<rparr>"
  using assms by (simp add: buffer_resize_def Let_def data_select_def buffer_base_def)

lemma buffer_resize_spec:
  assumes "buffer_ok b" "unat n \<le> buffer_limit"
  shows "buffer_ok (buffer_resize b n)" "buffer_size (buffer_resize b n) = n"
    "take (min (unat n) (unat (buffer_size b))) (buffer_cells (buffer_resize b n)) =
     take (min (unat n) (unat (buffer_size b))) (buffer_cells b)"
proof -
  define b' where "b' = (if n > buf_capacity b then buffer_reserve b n else b)"
  have b': "buffer_ok b'" "n \<le> buf_capacity b'" "buffer_cells b' = buffer_cells b" "buffer_size b' = buffer_size b"
    using assms buffer_reserve_spec [of b n] by (auto simp: b'_def)
  have eq: "buffer_resize b n = b'\<lparr>buf_data := data_of (buffer_base b') n\<rparr>"
    by (simp add: buffer_resize_def Let_def b'_def data_select_def buffer_base_def)
  show "buffer_ok (buffer_resize b n)" "buffer_size (buffer_resize b n) = n"
    using b' by (auto simp: eq buffer_ok_def word_le_nat_alt split: option.splits)
  show "take (min (unat n) (unat (buffer_size b))) (buffer_cells (buffer_resize b n)) =
     take (min (unat n) (unat (buffer_size b))) (buffer_cells b)"
    unfolding b'(3,4) [symmetric] by (auto simp: eq buffer_cells_def split: option.splits)
qed


lemma buffer_poke_simp:
  assumes "buffer_base b = Some (A @ X @ C)" "length A = unat pos" "length src = length X"
  shows "buffer_poke b pos src = Some (b\<lparr>buf_data := data_of (Some (A @ src @ C)) (buffer_size b)\<rparr>)"
  using assms block_overwrite [OF assms(2,3)] by (simp add: buffer_poke_def)

lemma buffer_open_gap:
  assumes "buffer_base b = Some (A @ B @ R)" "length A = unat pos" "length A + length B = unat (buffer_size b)"
    "unat n \<le> length R" "unat (buffer_size b) + unat n < 2 ^ 64"
  shows "(if pos < buffer_size b then buffer_shift b (pos + n) pos (buffer_size b - pos) else Some b) =
    Some (b\<lparr>buf_data := data_of (Some (A @ take (unat n) (B @ R) @ B @ drop (unat n) R)) (buffer_size b)\<rparr>)"
proof (cases "pos < buffer_size b")
  case True
  then have "unat (pos + n) = unat pos + unat n" "unat (buffer_size b - pos) = length B"
    using assms by (simp_all add: unat_add64 unat_sub64 word_less_nat_alt word_le_nat_alt)
  then show ?thesis
    using True assms block_gap [of A "unat pos" B "length B" "unat n" R] by (simp add: buffer_shift_def)
next
  case False
  then have "unat (buffer_size b) \<le> unat pos" by (simp add: word_less_nat_alt)
  then have "length B = 0" using assms(2,3) by linarith
  then have "B = []" by simp
  then show ?thesis using False assms(1) by (simp add: buffer_base_def buffer_size_def data_base_def
    data_size_def data_of_def)
qed

text \<open>The shape of a buffer that has room for a gap of \<open>n\<close> bytes at \<open>pos\<close>.\<close>

lemma buffer_split:
  assumes "buffer_ok b" "unat pos \<le> unat (buffer_size b)" "buffer_base b = Some blk"
    "unat (buffer_size b) + n \<le> unat (buf_capacity b)"
  obtains A B R where "blk = A @ B @ R" "length A = unat pos" "length A + length B = unat (buffer_size b)"
    "n \<le> length R" "A = take (unat pos) (buffer_cells b)" "B = drop (unat pos) (buffer_cells b)"
proof
  let ?s = "unat (buffer_size b)"
  have len: "length blk = unat (buf_capacity b)" using assms by (simp add: buffer_ok_def)
  have cells: "buffer_cells b = take ?s blk" using assms by (simp add: buffer_cells_def)
  show "blk = take (unat pos) (buffer_cells b) @ drop (unat pos) (buffer_cells b) @ drop ?s blk"
    by (simp only: append_assoc [symmetric] append_take_drop_id cells)
  show "length (take (unat pos) (buffer_cells b)) = unat pos"
    "length (take (unat pos) (buffer_cells b)) + length (drop (unat pos) (buffer_cells b)) = ?s"
    "n \<le> length (drop ?s blk)"
    using assms len by (auto simp: buffer_cells_def)
qed auto

lemma buffer_fill_loop_null:
  assumes "ptr_read (data_base d) (unat (data_size d)) = Some []" "buffer_base b = None"
  shows "buffer_fill_loop k i pos d b = Some b"
  using assms by (induction k arbitrary: i) (auto simp: buffer_poke_def)

lemma buffer_fill_loop_simp:
  assumes "ptr_read (data_base d) (unat (data_size d)) = Some src" "buffer_base b = Some (A @ X @ C)"
    "length X = k * length src" "length A = unat pos + unat i * length src"
    "unat pos + (unat i + k) * length src < 2 ^ 64" "unat i + k < 2 ^ 64"
  shows "buffer_fill_loop k i pos d b =
    Some (b\<lparr>buf_data := data_of (Some (A @ concat (replicate k src) @ C)) (buffer_size b)\<rparr>)"
  using assms(2-)
proof (induction k arbitrary: i A X b)
  case 0
  then show ?case
    by (simp add: buffer_base_def buffer_size_def data_base_def data_size_def data_of_def)
next
  case (Suc k)
  let ?n = "length src" and ?b = "b\<lparr>buf_data := data_of (Some (A @ src @ drop (length src) X @ C)) (buffer_size b)\<rparr>"
  have n: "unat (data_size d) = ?n" using length_ptr_read [OF assms(1)] by simp
  have "unat i * ?n \<le> (unat i + Suc k) * ?n" by (simp add: algebra_simps)
  then have at: "unat (pos + i * data_size d) = length A"
    using Suc.prems n by (simp add: unat_add64 unat_mult64)
  have i1: "unat (i + 1) = Suc (unat i)" using Suc.prems(5) by (simp add: unat_Suc64)
  have poke: "buffer_poke b (pos + i * data_size d) src = Some ?b"
    using Suc.prems at by (intro buffer_poke_simp [of _ A "take ?n X"]) (auto simp flip: append_assoc)
  have "buffer_fill_loop k (i + 1) pos d ?b = Some (?b\<lparr>buf_data :=
      data_of (Some ((A @ src) @ concat (replicate k src) @ C)) (buffer_size ?b)\<rparr>)"
    by (rule Suc.IH [where X = "drop ?n X"]) (use Suc.prems i1 in \<open>auto simp: algebra_simps\<close>)
  then show ?case using assms(1) poke by (simp del: length_drop)
qed

text \<open>Filling a gap; a single insertion is the fill with count 1.\<close>

lemma buffer_insert_fill_cells:
  assumes b: "buffer_ok b" and pos: "unat pos \<le> unat (buffer_size b)"
    and d: "ptr_read (data_base d) (unat (data_size d)) = Some src"
    and lim: "unat (buffer_size b) + unat count * length src \<le> buffer_limit"
  shows "\<exists>b'. buffer_insert_fill b pos count d = Some b' \<and> buffer_ok b' \<and>
    buffer_cells b' = take (unat pos) (buffer_cells b) @ concat (replicate (unat count) src) @
      drop (unat pos) (buffer_cells b)"
proof -
  let ?s = "buffer_size b" and ?m = "count * data_size d" and ?fill = "concat (replicate (unat count) src)"
  have n: "unat (data_size d) = length src" using length_ptr_read [OF d] by simp
  have m: "unat ?m = unat count * length src"
    using lim n by (simp add: unat_mult64 buffer_limit_def)
  have sum: "unat (?s + ?m) = unat ?s + unat count * length src"
    using lim m by (simp add: unat_add64 buffer_limit_def)
  have fill: "length ?fill = unat ?m" by (simp add: m length_concat sum_list_replicate)
  define b0 where "b0 = buffer_reserve b (?s + ?m)"
  have b0: "buffer_ok b0" "buffer_cells b0 = buffer_cells b" "buffer_size b0 = ?s"
      "?s + ?m \<le> buf_capacity b0"
    using buffer_reserve_spec [OF b, of "?s + ?m"] sum lim by (simp_all add: b0_def)
  show ?thesis
  proof (cases "buffer_base b0")
    case None
    then have "buf_capacity b0 = 0" using b0(1) by (simp add: buffer_ok_def)
    then have "?s + ?m = 0" using b0(4) by simp
    then have z: "unat ?s = 0" "unat ?m = 0" using sum m by auto
    then have s0: "?s = 0" "?m = 0" by (simp_all add: unat_eq_zero)
    have loop: "buffer_fill_loop (unat count) 0 pos d b0 = Some b0"
    proof (cases "unat count")
      case (Suc k)
      then have "src = []" using z m by simp
      then show ?thesis using buffer_fill_loop_null d None by blast
    qed simp
    have "buffer_insert_fill b pos count d = Some (buffer_resize b0 0)"
      unfolding buffer_insert_fill_def b0_def [symmetric] Let_def
      using loop b0(3) s0 by simp
    then show ?thesis
      using buffer_resize_spec [OF b0(1), of 0] length_buffer_cells [of "buffer_resize b0 0"]
        length_buffer_cells [OF b] z fill by (auto simp: buffer_limit_def)
  next
    case (Some blk)
    have room: "unat (buffer_size b0) + unat ?m \<le> unat (buf_capacity b0)"
      using b0(3,4) sum m by (simp add: word_le_nat_alt)
    obtain A B R where blk: "blk = A @ B @ R" "length A = unat pos" "length A + length B = unat (buffer_size b0)"
      "unat ?m \<le> length R" "A = take (unat pos) (buffer_cells b0)" "B = drop (unat pos) (buffer_cells b0)"
      using buffer_split [OF b0(1) _ Some room, of pos] pos b0(3) by metis
    let ?X = "take (unat ?m) (B @ R)" and ?C = "B @ drop (unat ?m) R"
    let ?b1 = "b0\<lparr>buf_data := data_of (Some (A @ ?X @ ?C)) (buffer_size b0)\<rparr>"
    have gap: "(if pos < buffer_size b0 then buffer_shift b0 (pos + ?m) pos (buffer_size b0 - pos) else Some b0) = Some ?b1"
      by (rule buffer_open_gap) (use Some blk m lim b0(3) in \<open>auto simp: buffer_limit_def\<close>)
    have loop: "buffer_fill_loop (unat count) 0 pos d ?b1 =
        Some (?b1\<lparr>buf_data := data_of (Some (A @ ?fill @ ?C)) (buffer_size ?b1)\<rparr>)"
      by (rule buffer_fill_loop_simp [where X = ?X])
        (use d blk m lim pos in \<open>auto simp: buffer_limit_def\<close>)
    have "buffer_insert_fill b pos count d =
      Some (b0\<lparr>buf_data := data_of (Some (A @ ?fill @ ?C)) (?s + ?m)\<rparr>)"
      unfolding buffer_insert_fill_def b0_def [symmetric] Let_def gap bind.bind_lunit loop
      using b0(3,4) by (simp add: buffer_resize_within)
    moreover have "length blk = unat (buf_capacity b0)"
      using b0(1) Some by (simp add: buffer_ok_def)
    ultimately show ?thesis
      using blk fill b0 sum m
      by (simp add: buffer_ok_def buffer_cells_def [of "_\<lparr>buf_data := _\<rparr>"] word_le_nat_alt)
  qed
qed

lemma buffer_insert_is_fill: "buffer_insert b pos d = buffer_insert_fill b pos 1 d"
  by (simp add: buffer_insert_def buffer_insert_fill_def Let_def)

lemma buffer_insert_cells:
  assumes "buffer_ok b" "unat pos \<le> unat (buffer_size b)"
    "ptr_read (data_base d) (unat (data_size d)) = Some src"
    "unat (buffer_size b) + length src \<le> buffer_limit"
  shows "\<exists>b'. buffer_insert b pos d = Some b' \<and> buffer_ok b' \<and>
    buffer_cells b' = take (unat pos) (buffer_cells b) @ src @ drop (unat pos) (buffer_cells b)"
  using buffer_insert_fill_cells [OF assms(1-3), of 1] assms(4) by (simp add: buffer_insert_is_fill)

lemma buffer_append_cells:
  assumes "buffer_ok b" "ptr_read (data_base d) (unat (data_size d)) = Some src"
    "unat (buffer_size b) + length src \<le> buffer_limit"
  shows "\<exists>b'. buffer_append b d = Some b' \<and> buffer_ok b' \<and> buffer_cells b' = buffer_cells b @ src"
  using buffer_insert_cells [OF assms(1) _ assms(2,3), of "buffer_size b"] length_buffer_cells [OF assms(1)]
  by (simp add: buffer_append_def)

lemma buffer_erase_cells:
  assumes b: "buffer_ok b" and within: "unat p + unat n \<le> unat (buffer_size b)"
  shows "\<exists>b'. buffer_erase b p n = Some b' \<and> buffer_ok b' \<and> buf_capacity b' = buf_capacity b \<and>
    buffer_cells b' = take (unat p) (buffer_cells b) @ drop (unat p + unat n) (buffer_cells b)"
proof -
  let ?s = "buffer_size b"
  have pn: "unat (p + n) = unat p + unat n"
  proof -
    have "unat p + unat n < 18446744073709551616" using within unat_lt64 [of ?s] by linarith
    then show ?thesis by (simp add: unat_add64)
  qed
  have "unat (?s - (p + n)) = unat ?s - (unat p + unat n)"
    using within pn by (simp add: unat_sub64 word_le_nat_alt)
  then have tail: "unat (?s - p - n) = unat ?s - (unat p + unat n)" by (simp add: diff_diff_eq)
  have sn: "unat (?s - n) = unat ?s - unat n"
    using within by (simp add: unat_sub64 word_le_nat_alt)
  have cap: "?s - n \<le> buf_capacity b"
    using b sn by (auto simp: buffer_ok_def word_le_nat_alt)
  show ?thesis
  proof (cases "buffer_base b")
    case None
    then have "unat ?s = 0" using b by (auto simp: buffer_ok_def)
    then show ?thesis using None within tail cap sn b
      by (simp add: buffer_erase_def buffer_shift_def unat_eq_zero buffer_resize_within buffer_ok_def buffer_cells_def)
  next
    case (Some blk)
    then have len: "length blk = unat (buf_capacity b)" "unat ?s \<le> length blk"
      using b by (simp_all add: buffer_ok_def)
    define B where "B = take (unat ?s - (unat p + unat n)) (drop (unat p + unat n) blk)"
    have move: "block_move blk (unat p) (unat (p + n)) (unat (?s - p - n)) =
        Some (take (unat p) blk @ B @ drop (unat p + length B) blk)"
      using within len by (simp add: block_move_def block_read_def block_write_def pn tail B_def)
    have B: "length B = unat ?s - (unat p + unat n)" using len by (simp add: B_def)
    then have "take (unat (?s - n)) (take (unat p) blk @ B @ drop (unat p + length B) blk) = take (unat p) blk @ B"
      using within len sn by simp
    moreover have "B = drop (unat p + unat n) (buffer_cells b)"
      using Some by (simp add: B_def buffer_cells_def drop_take)
    moreover have "take (unat p) blk = take (unat p) (buffer_cells b)"
      using Some within by (simp add: buffer_cells_def)
    ultimately show ?thesis
      using Some len B within cap sn length_buffer_cells [OF b]
      by (simp add: buffer_erase_def buffer_shift_def move buffer_resize_within buffer_ok_def
          buffer_cells_def [of "_\<lparr>buf_data := _\<rparr>"] word_le_nat_alt)
  qed
qed

lemma buffer_clear_spec:
  assumes "buffer_ok b"
  shows "buffer_ok (buffer_clear b)" "buffer_cells (buffer_clear b) = []" "buf_capacity (buffer_clear b) = buf_capacity b"
  using assms by (auto simp: buffer_clear_def buffer_resize_within buffer_ok_def buffer_cells_def split: option.splits)

lemma buffer_compact_spec:
  assumes b: "buffer_ok b"
  shows "buffer_ok (buffer_compact b)" "buffer_cells (buffer_compact b) = buffer_cells b"
    "buf_capacity (buffer_compact b) = buffer_size b"
proof -
  let ?s = "buffer_size b"
  have "buffer_ok (buffer_compact b) \<and> buffer_cells (buffer_compact b) = buffer_cells b \<and>
    buf_capacity (buffer_compact b) = ?s"
  proof (cases "buf_capacity b > ?s")
    case shrink: True
    then obtain blk where blk: "buffer_base b = Some blk" "length blk = unat (buf_capacity b)"
      "unat ?s < length blk"
      using b by (auto simp: buffer_ok_def word_less_nat_alt split: option.splits)
    show ?thesis
    proof (cases "?s = 0")
      case True
      then have "buffer_compact b = \<lparr>buf_data = data_null, buf_capacity = 0\<rparr>"
        using shrink by (simp add: buffer_compact_def)
      then show ?thesis using True blk by (simp add: buffer_ok_def buffer_cells_def)
    next
      case False
      then have "buffer_compact b = \<lparr>buf_data = data_of (Some (take (unat ?s) blk)) ?s, buf_capacity = ?s\<rparr>"
        using shrink blk by (simp add: buffer_compact_def Let_def realloc_def)
      then show ?thesis using blk by (simp add: buffer_ok_def buffer_cells_def)
    qed
  next
    case False
    then have "?s = buf_capacity b"
      using b by (auto simp: buffer_ok_def word_less_nat_alt intro: unsigned_word_eqI)
    then show ?thesis using b by (simp add: buffer_compact_def)
  qed
  then show "buffer_ok (buffer_compact b)" "buffer_cells (buffer_compact b) = buffer_cells b"
    "buf_capacity (buffer_compact b) = ?s" by auto
qed

section \<open>Reading files\<close>

text \<open>One pass of the read loop: the buffer grows by exactly what \<open>fread\<close> returned.\<close>

lemma buffer_read_step:
  assumes b: "buffer_ok b" and got: "length got \<le> 4096" and lim: "unat (buffer_size b) + 4096 \<le> buffer_limit"
  shows "\<exists>b'. buffer_poke (fst (buffer_allocate b 4096)) (buffer_size b) (map Some got) = Some b' \<and>
    buffer_size b' = buffer_size b + 4096 \<and>
    buffer_ok (buffer_resize b' (buffer_size b + of_nat (length got))) \<and>
    buffer_cells (buffer_resize b' (buffer_size b + of_nat (length got))) = buffer_cells b @ map Some got"
proof -
  let ?s = "buffer_size b" and ?g = "of_nat (length got) :: size_t"
  have u: "unat (?s + 4096) = unat ?s + 4096" "unat (?s + ?g) = unat ?s + length got"
    using lim got by (simp_all add: unat_add64 buffer_limit_def)
  let ?b = "buffer_resize b (?s + 4096)"
  have rs: "buffer_ok ?b" "buffer_size ?b = ?s + 4096" "take (unat ?s) (buffer_cells ?b) = buffer_cells b"
    using buffer_resize_spec [OF b, of "?s + 4096"] u lim length_buffer_cells [OF b] by (simp_all add: min_def)
  then have "unat (buf_capacity ?b) \<noteq> 0" using u by (auto simp: buffer_ok_def)
  then obtain blk where blk: "buffer_base ?b = Some blk" "length blk = unat (buf_capacity ?b)"
    using rs(1) by (auto simp: buffer_ok_def split: option.splits)
  have room: "unat ?s + 4096 \<le> length blk" using rs(1,2) blk u by (simp add: buffer_ok_def)
  have cells: "take (unat ?s) blk = buffer_cells b"
    using rs(3) blk u by (simp add: buffer_cells_def rs(2) min_def)
  let ?A = "take (unat ?s) blk" and ?X = "take (length got) (drop (unat ?s) blk)" and ?C = "drop (length got) (drop (unat ?s) blk)"
  let ?b' = "?b\<lparr>buf_data := data_of (Some (?A @ map Some got @ ?C)) (?s + 4096)\<rparr>"
  have "blk = ?A @ ?X @ ?C" by (simp only: append_take_drop_id)
  then have "buffer_base ?b = Some (?A @ ?X @ ?C)" using blk(1) by simp
  then have "buffer_poke ?b ?s (map Some got) = Some ?b'"
    using buffer_poke_simp [of ?b ?A ?X ?C ?s "map Some got"] room got rs(2) by simp
  moreover have "?s + ?g \<le> buf_capacity ?b'"
    using room blk(2) u got by (simp add: word_le_nat_alt)
  ultimately show ?thesis
    using u room got blk(2) cells length_buffer_cells [OF b]
    by (simp add: buffer_allocate_def Let_def buffer_resize_within buffer_ok_def
        buffer_cells_def [of "_\<lparr>buf_data := _\<rparr>"])
qed

lemma buffer_read_cells:
  assumes "buffer_ok b" "unat (buffer_size b) + length f + 4096 \<le> buffer_limit"
  shows "\<exists>b'. buffer_read b f = Some b' \<and> buffer_ok b' \<and> buffer_cells b' = buffer_cells b @ map Some f"
  using assms
proof (induction "length f" arbitrary: b f rule: less_induct)
  case less
  let ?got = "take 4096 f" and ?s = "buffer_size b"
  let ?g = "of_nat (length ?got) :: size_t"
  obtain b1 where b1: "buffer_poke (fst (buffer_allocate b 4096)) ?s (map Some ?got) = Some b1"
    "buffer_size b1 = ?s + 4096" "buffer_ok (buffer_resize b1 (?s + ?g))"
    "buffer_cells (buffer_resize b1 (?s + ?g)) = buffer_cells b @ map Some ?got"
    using buffer_read_step [OF less.prems(1), of ?got] less.prems(2) by (auto simp: )
  have size: "buffer_size b1 - 4096 + ?g = ?s + ?g" using b1(2) by simp
  have unfold: "buffer_read b f = (if ?g = 4096 then buffer_read (buffer_resize b1 (?s + ?g)) (drop 4096 f)
      else Some (buffer_resize b1 (?s + ?g)))"
    using b1(1) size by (subst buffer_read.simps) (simp add: Let_def case_prod_beta)
  show ?case
  proof (cases "?g = 4096")
    case True
    then have "unat ?g = 4096" by simp
    then have full: "length f \<ge> 4096"
      by (subst (asm) unat_of_nat64) (auto simp: min_def split: if_splits)
    have "unat (buffer_size (buffer_resize b1 (?s + ?g))) = unat ?s + 4096"
      using length_buffer_cells [OF b1(3)] b1(4) length_buffer_cells [OF less.prems(1)] full by simp
    then have "\<exists>b'. buffer_read (buffer_resize b1 (?s + ?g)) (drop 4096 f) = Some b' \<and> buffer_ok b' \<and>
       buffer_cells b' = buffer_cells (buffer_resize b1 (?s + ?g)) @ map Some (drop 4096 f)"
      using full less.prems(2) b1(3) by (intro less.hyps) auto
    then show ?thesis using True b1(4) unfold
      by (auto simp flip: map_append)
  next
    case False
    then have "length f \<noteq> 4096" "\<not> 4096 < length f" by (auto simp: min_def)
    then have "length f < 4096" by simp
    then show ?thesis using False b1 unfold by auto
  qed
qed

section \<open>The interface: an appendable byte sequence\<close>

text \<open>
  What the encoders rely on: appending bytes below the size limit succeeds, keeps the
  invariant and adds exactly those bytes at the end. \<open>emit\<close> appends a sequence of pieces.
\<close>

primrec emit :: "('b \<Rightarrow> byte list \<Rightarrow> 'b option) \<Rightarrow> 'b \<Rightarrow> byte list list \<Rightarrow> 'b option" where
  "emit app b [] = Some b"
| "emit app b (xs # xss) = Option.bind (app b xs) (\<lambda>b. emit app b xss)"

lemma emit_append: "emit app b (xss @ yss) = Option.bind (emit app b xss) (\<lambda>b. emit app b yss)"
  by (induction xss arbitrary: b) (auto split: bind_splits)

locale byte_sink =
  fixes app :: "'b \<Rightarrow> byte list \<Rightarrow> 'b option"
    and holds :: "'b \<Rightarrow> byte list \<Rightarrow> bool"
    and limit :: nat
  assumes app_holds: "holds b bs \<Longrightarrow> length bs + length xs \<le> limit \<Longrightarrow>
    \<exists>b'. app b xs = Some b' \<and> holds b' (bs @ xs)"
begin

lemma emit_holds:
  "holds b bs \<Longrightarrow> length bs + length (concat xss) \<le> limit \<Longrightarrow>
    \<exists>b'. emit app b xss = Some b' \<and> holds b' (bs @ concat xss)"
proof (induction xss arbitrary: b bs)
  case (Cons xs xss)
  then obtain b1 where b1: "app b xs = Some b1" "holds b1 (bs @ xs)"
    using app_holds [of b bs xs] by auto
  then obtain b2 where "emit app b1 xss = Some b2" "holds b2 ((bs @ xs) @ concat xss)"
    using Cons.IH [of b1 "bs @ xs"] Cons.prems by auto
  then show ?case using b1 by auto
qed simp

end

definition buffer_append_bytes :: "buffer \<Rightarrow> byte list \<Rightarrow> buffer option" where
  "buffer_append_bytes b bs = buffer_append b (data_literal bs)"

lemma buffer_holds_length: "buffer_holds b bs \<Longrightarrow> length bs = unat (buffer_size b)"
  using length_buffer_cells by (fastforce simp: buffer_holds_def)

lemma ptr_read_literal: "length bs < 2 ^ 64 \<Longrightarrow>
    ptr_read (data_base (data_literal bs)) (unat (data_size (data_literal bs))) = Some (map Some bs)"
  by (simp add: data_literal_def)

interpretation buffer_sink: byte_sink buffer_append_bytes buffer_holds buffer_limit
proof
  fix b :: buffer and bs xs :: "byte list"
  assume "buffer_holds b bs" "length bs + length xs \<le> buffer_limit"
  then show "\<exists>b'. buffer_append_bytes b xs = Some b' \<and> buffer_holds b' (bs @ xs)"
    using buffer_append_cells [of b "data_literal xs"] ptr_read_literal [of xs] buffer_holds_length [of b bs]
    by (auto simp: buffer_append_bytes_def buffer_holds_def buffer_limit_def)
qed

lemma buffer_base_holds: "buffer_holds b bs \<Longrightarrow> buffer_write b = Some bs"
  by (auto simp: buffer_holds_def buffer_write_def buffer_ok_def buffer_cells_def ptr_bytes_def
      split: option.splits)

section \<open>Properties\<close>

lemma buffer_holds_cells: "buffer_holds b bs \<Longrightarrow> buffer_ok b \<and> buffer_cells b = map Some bs \<and> unat (buffer_size b) = length bs"
  using buffer_holds_length [of b bs] by (simp add: buffer_holds_def)

lemma data_bytes_read: "data_bytes d = Some xs \<Longrightarrow> ptr_read (data_base d) (unat (data_size d)) = Some (map Some xs)"
  by (auto simp: data_bytes_def ptr_bytes_def bind_eq_Some_conv)

text \<open>A full buffer with given bytes.\<close>

definition buffer_of :: "byte list \<Rightarrow> buffer" where
  "buffer_of bs = \<lparr>buf_data = data_literal bs, buf_capacity = of_nat (length bs)\<rparr>"

lemma buffer_of_holds [simp]: "length bs < 2 ^ 64 \<Longrightarrow> buffer_holds (buffer_of bs) bs"
  by (simp add: buffer_of_def buffer_holds_def buffer_ok_def buffer_cells_def data_literal_def)

lemma buffer_load_bytes:
  assumes "buffer_ok b" "length f + 4096 \<le> buffer_limit"
  shows "\<exists>b'. buffer_load b (Some f) = Some (True, b') \<and> buffer_holds b' f \<and> buf_capacity b' = buffer_size b'"
proof -
  have "buffer_size (buffer_clear b) = 0"
    using length_buffer_cells [OF buffer_clear_spec(1) [OF assms(1)]] buffer_clear_spec(2) [OF assms(1)]
    by (simp add: unat_eq_0)
  then obtain b1 where b1: "buffer_read (buffer_clear b) f = Some b1" "buffer_ok b1" "buffer_cells b1 = map Some f"
    using buffer_read_cells [OF buffer_clear_spec(1) [OF assms(1)], of f] assms buffer_clear_spec(2) [OF assms(1)]
    by auto
  have cells: "buffer_cells (buffer_compact b1) = map Some f" "buffer_ok (buffer_compact b1)"
    using buffer_compact_spec [OF b1(2)] b1(3) by simp_all
  have "unat (buffer_size (buffer_compact b1)) = unat (buffer_size b1)"
    using length_buffer_cells [OF cells(2)] length_buffer_cells [OF b1(2)] cells(1) b1(3) by simp
  then have "buf_capacity (buffer_compact b1) = buffer_size (buffer_compact b1)"
    using buffer_compact_spec(3) [OF b1(2)] by (simp add: word_unat_eq_iff)
  then show ?thesis using b1(1) cells by (simp add: buffer_load_def buffer_holds_def)
qed

text \<open>
  C37: \<open>buffer_insert_fill\<close> puts \<open>count\<close> copies of the data at any position of the buffer, moves
  the bytes behind it up and loses none, growing the block when needed; no copy leaves the
  block. (\<open>buffer_insert\<close>, \<open>buffer_prepend\<close> and \<open>buffer_append\<close> are the case of one copy.)
\<close>

theorem buffer_insert_fill_bytes:
  assumes "buffer_holds b bs" "unat pos \<le> length bs" "data_bytes d = Some xs"
    "length bs + unat count * length xs \<le> buffer_limit"
  shows "\<exists>b'. buffer_insert_fill b pos count d = Some b' \<and>
    buffer_holds b' (take (unat pos) bs @ concat (replicate (unat count) xs) @ drop (unat pos) bs)"
  using buffer_insert_fill_cells [of b pos d "map Some xs" count] assms
    buffer_holds_cells [OF assms(1)] data_bytes_read [OF assms(3)]
  by (auto simp: buffer_holds_def take_map drop_map map_concat)

lemma buffer_insert_fill_bytes_witness:
  "\<exists>b'. buffer_insert_fill (buffer_of [1, 2]) 1 2 (data_literal [9]) = Some b' \<and> buffer_holds b' [1, 9, 9, 2]"
proof -
  have "concat (replicate (unat (2 :: size_t)) [9 :: byte]) = [9, 9]"
  proof -
    have u: "unat (2 :: size_t) = Suc (Suc 0)" by simp
    show ?thesis unfolding u by simp
  qed
  then show ?thesis
    using buffer_insert_fill_bytes [of "buffer_of [1, 2]" "[1, 2]" 1 "data_literal [9]" "[9]" 2]
    by (simp add: buffer_limit_def)
qed

text \<open>
  \<open>buffer_erase\<close> removes exactly the given range, whatever its position, keeps the block
  and moves the rest down.
\<close>

theorem buffer_erase_bytes:
  assumes "buffer_holds b bs" "unat p + unat n \<le> length bs"
  shows "\<exists>b'. buffer_erase b p n = Some b' \<and> buf_capacity b' = buf_capacity b \<and>
    buffer_holds b' (take (unat p) bs @ drop (unat p + unat n) bs)"
  using buffer_erase_cells [of b p n] assms buffer_holds_cells [OF assms(1)]
  by (auto simp: buffer_holds_def take_map drop_map)

lemma buffer_erase_bytes_witness:
  "\<exists>b'. buffer_erase (buffer_of [1, 2, 3]) 1 1 = Some b' \<and> buffer_holds b' [1, 3]"
  using buffer_erase_bytes [of "buffer_of [1, 2, 3]" "[1, 2, 3]" 1 1] by auto

text \<open>
  C38: A file written by \<open>buffer_save\<close> and read back by \<open>buffer_load\<close>, into any buffer,
  gives the same bytes, in a block of exactly their length; the 4096-byte read loop ends.
\<close>

theorem buffer_save_load:
  assumes "buffer_holds b bs" "length bs + 4096 \<le> buffer_limit" "buffer_ok b2"
  shows "buffer_save b True = Some (True, bs) \<and>
    (\<exists>b'. buffer_load b2 (Some bs) = Some (True, b') \<and> buffer_holds b' bs \<and> buf_capacity b' = buffer_size b')"
  using buffer_load_bytes [OF assms(3,2)] buffer_base_holds [OF assms(1)] by (simp add: buffer_save_def)

lemma buffer_save_load_witness:
  "buffer_save (buffer_of [1, 2, 3]) True = Some (True, [1, 2, 3]) \<and>
    (\<exists>b'. buffer_load buffer_construct (Some [1, 2, 3]) = Some (True, b') \<and> buffer_holds b' [1, 2, 3] \<and>
      buf_capacity b' = buffer_size b')"
  by (rule buffer_save_load) (simp_all add: buffer_limit_def buffer_ok_def)

end
