(* ===== verification/Vector.thy ===== *)
theory Vector
  imports Buffer "HOL-Library.Multiset"
begin

text \<open>
  Vectors of equal-sized objects (\<^verbatim>\<open>src/reactor/vector.c\<close>), a buffer and the object size.
  Objects are blocks of cells; an object argument is a pointer. A release callback
  receives the object's cells and acts on some state of the caller, in the order of the
  calls. \<open>vector_size\<close> divides by the object size, which \<open>vector_ok\<close> keeps from being zero.

  \<open>vector_holds v os\<close> says that \<open>v\<close> is a well-formed vector whose objects are \<open>os\<close>. The
  locale \<open>object_stack\<close> is the part of the contract the clients that use a vector as a stack
  rely on.
\<close>

record vector =
  vec_buffer :: buffer
  vec_object_size :: size_t

section \<open>Constructor, capacity, element access\<close>

definition vector_construct :: "size_t \<Rightarrow> vector" where
  "vector_construct object_size = \<lparr>vec_buffer = buffer_construct, vec_object_size = object_size\<rparr>"

definition vector_size :: "vector \<Rightarrow> size_t" where
  "vector_size v = buffer_size (vec_buffer v) div vec_object_size v"

definition vector_capacity :: "vector \<Rightarrow> size_t" where
  "vector_capacity v = buffer_capacity (vec_buffer v) div vec_object_size v"

definition vector_empty :: "vector \<Rightarrow> bool" where
  "vector_empty v \<longleftrightarrow> vector_size v = 0"

definition vector_reserve :: "vector \<Rightarrow> size_t \<Rightarrow> vector" where
  "vector_reserve v capacity =
     v\<lparr>vec_buffer := buffer_reserve (vec_buffer v) (capacity * vec_object_size v)\<rparr>"

definition vector_shrink_to_fit :: "vector \<Rightarrow> vector" where
  "vector_shrink_to_fit v = v\<lparr>vec_buffer := buffer_compact (vec_buffer v)\<rparr>"

definition vector_at :: "vector \<Rightarrow> size_t \<Rightarrow> ptr" where
  "vector_at v position = buffer_at (vec_buffer v) (position * vec_object_size v)"

definition vector_base :: "vector \<Rightarrow> ptr" where
  "vector_base v = buffer_base (vec_buffer v)"

definition vector_front :: "vector \<Rightarrow> ptr" where
  "vector_front v = vector_base v"

definition vector_back :: "vector \<Rightarrow> ptr" where
  "vector_back v = buffer_at (vec_buffer v) (buffer_size (vec_buffer v) - vec_object_size v)"

text \<open>The cells of the object a pointer points to, as a caller reads them.\<close>

definition vector_object :: "vector \<Rightarrow> ptr \<Rightarrow> block option" where
  "vector_object v p = ptr_read p (unat (vec_object_size v))"

section \<open>Modifiers\<close>

definition vector_insert :: "vector \<Rightarrow> size_t \<Rightarrow> ptr \<Rightarrow> vector option" where
  "vector_insert v position object =
     map_option (\<lambda>b. v\<lparr>vec_buffer := b\<rparr>)
       (buffer_insert (vec_buffer v) (position * vec_object_size v) (data_of object (vec_object_size v)))"

text \<open>
  \<open>(char *) last - (char *) first\<close>: both pointers must point into one block, the last not
  before the first.
\<close>

definition ptr_diff :: "ptr \<Rightarrow> ptr \<Rightarrow> size_t option" where
  "ptr_diff p q =
     (case (p, q) of
        (Some xs, Some ys) \<Rightarrow>
          if length ys \<le> length xs \<and> drop (length xs - length ys) xs = ys
          then Some (of_nat (length xs - length ys)) else None
      | (None, None) \<Rightarrow> Some 0
      | _ \<Rightarrow> None)"

definition vector_insert_range :: "vector \<Rightarrow> size_t \<Rightarrow> ptr \<Rightarrow> ptr \<Rightarrow> vector option" where
  "vector_insert_range v position p q = do {
     n \<leftarrow> ptr_diff p q;
     b \<leftarrow> buffer_insert (vec_buffer v) (position * vec_object_size v) (data_of p n);
     Some (v\<lparr>vec_buffer := b\<rparr>) }"

definition vector_insert_fill :: "vector \<Rightarrow> size_t \<Rightarrow> size_t \<Rightarrow> ptr \<Rightarrow> vector option" where
  "vector_insert_fill v position n object =
     map_option (\<lambda>b. v\<lparr>vec_buffer := b\<rparr>)
       (buffer_insert_fill (vec_buffer v) (position * vec_object_size v) n
          (data_of object (vec_object_size v)))"

text \<open>\<open>if (release) release(vector_at(v, i))\<close>.\<close>

definition vector_release_at ::
    "vector \<Rightarrow> (block \<Rightarrow> 's \<Rightarrow> 's) option \<Rightarrow> size_t \<Rightarrow> 's \<Rightarrow> 's option" where
  "vector_release_at v release i st =
     (case release of
        None \<Rightarrow> Some st
      | Some r \<Rightarrow> map_option (\<lambda>ob. r ob st) (vector_object v (vector_at v i)))"

definition vector_erase ::
    "vector \<Rightarrow> size_t \<Rightarrow> (block \<Rightarrow> 's \<Rightarrow> 's) option \<Rightarrow> 's \<Rightarrow> (vector \<times> 's) option" where
  "vector_erase v position release st = do {
     st \<leftarrow> vector_release_at v release position st;
     b \<leftarrow> buffer_erase (vec_buffer v) (position * vec_object_size v) (vec_object_size v);
     Some (v\<lparr>vec_buffer := b\<rparr>, st) }"

text \<open>The release loop of \<open>vector_erase_range\<close>, with \<open>k = last - first\<close> rounds.\<close>

fun vector_release_loop ::
    "nat \<Rightarrow> vector \<Rightarrow> (block \<Rightarrow> 's \<Rightarrow> 's) option \<Rightarrow> size_t \<Rightarrow> 's \<Rightarrow> 's option" where
  "vector_release_loop 0 v release i st = Some st"
| "vector_release_loop (Suc k) v release i st =
     Option.bind (vector_release_at v release i st) (vector_release_loop k v release (i + 1))"

definition vector_erase_range ::
    "vector \<Rightarrow> size_t \<Rightarrow> size_t \<Rightarrow> (block \<Rightarrow> 's \<Rightarrow> 's) option \<Rightarrow> 's \<Rightarrow> (vector \<times> 's) option" where
  "vector_erase_range v i j release st = do {
     st \<leftarrow> vector_release_loop (unat j - unat i) v release i st;
     b \<leftarrow> buffer_erase (vec_buffer v) (i * vec_object_size v) ((j - i) * vec_object_size v);
     Some (v\<lparr>vec_buffer := b\<rparr>, st) }"

definition vector_clear :: "vector \<Rightarrow> (block \<Rightarrow> 's \<Rightarrow> 's) option \<Rightarrow> 's \<Rightarrow> (vector \<times> 's) option" where
  "vector_clear v release st = do {
     (v, st) \<leftarrow> vector_erase_range v 0 (vector_size v) release st;
     Some (v\<lparr>vec_buffer := buffer_clear (vec_buffer v)\<rparr>, st) }"

definition vector_destruct :: "vector \<Rightarrow> (block \<Rightarrow> 's \<Rightarrow> 's) option \<Rightarrow> 's \<Rightarrow> 's option" where
  "vector_destruct v release st = map_option snd (vector_clear v release st)"

definition vector_push_back :: "vector \<Rightarrow> ptr \<Rightarrow> vector option" where
  "vector_push_back v object =
     map_option (\<lambda>b. v\<lparr>vec_buffer := b\<rparr>)
       (buffer_insert (vec_buffer v) (buffer_size (vec_buffer v)) (data_of object (vec_object_size v)))"

definition vector_pop_back :: "vector \<Rightarrow> (block \<Rightarrow> 's \<Rightarrow> 's) option \<Rightarrow> 's \<Rightarrow> (vector \<times> 's) option" where
  "vector_pop_back v release st = vector_erase v (vector_size v - 1) release st"

section \<open>Sorting\<close>

text \<open>
  \<open>qsort\<close> of the C library rearranges an array of \<open>n\<close> objects so that it is sorted by
  \<open>compare\<close>; the order of equal objects is unspecified. An insertion sort stands for it.
\<close>

fun chunks :: "nat \<Rightarrow> nat \<Rightarrow> 'a list \<Rightarrow> 'a list list" where
  "chunks k 0 xs = []"
| "chunks k (Suc n) xs = take k xs # chunks k n (drop k xs)"

fun qsort_insert :: "('a \<Rightarrow> 'a \<Rightarrow> int) \<Rightarrow> 'a \<Rightarrow> 'a list \<Rightarrow> 'a list" where
  "qsort_insert compare x [] = [x]"
| "qsort_insert compare x (y # ys) = (if compare x y \<le> 0 then x # y # ys else y # qsort_insert compare x ys)"

fun qsort :: "('a \<Rightarrow> 'a \<Rightarrow> int) \<Rightarrow> 'a list \<Rightarrow> 'a list" where
  "qsort compare [] = []"
| "qsort compare (x # xs) = qsort_insert compare x (qsort compare xs)"

definition vector_sort :: "vector \<Rightarrow> (block \<Rightarrow> block \<Rightarrow> int) \<Rightarrow> vector option" where
  "vector_sort v compare = do {
     cells \<leftarrow> ptr_read (vector_base v) (unat (vector_size v * vec_object_size v));
     b \<leftarrow> buffer_poke (vec_buffer v) 0
       (concat (qsort compare (chunks (unat (vec_object_size v)) (unat (vector_size v)) cells)));
     Some (v\<lparr>vec_buffer := b\<rparr>) }"

section \<open>Contents\<close>

definition vector_holds :: "vector \<Rightarrow> block list \<Rightarrow> bool" where
  "vector_holds v os \<longleftrightarrow> buffer_ok (vec_buffer v) \<and> 0 < vec_object_size v \<and>
     (\<forall>ob\<in>set os. length ob = unat (vec_object_size v)) \<and> buffer_cells (vec_buffer v) = concat os"

definition vector_ok :: "vector \<Rightarrow> bool" where
  "vector_ok v \<longleftrightarrow> buffer_ok (vec_buffer v) \<and> 0 < vec_object_size v \<and>
     unat (vec_object_size v) dvd unat (buffer_size (vec_buffer v))"

text \<open>All objects fit below the buffer's size limit.\<close>

definition vector_fits :: "vector \<Rightarrow> nat \<Rightarrow> bool" where
  "vector_fits v n \<longleftrightarrow> n * unat (vec_object_size v) \<le> buffer_limit"

section \<open>Lemmas\<close>

lemma uniform_concat:
  assumes "\<forall>x\<in>set xss. length x = n"
  shows "length (concat xss) = length xss * n"
    "take (k * n) (concat xss) = concat (take k xss)"
    "drop (k * n) (concat xss) = concat (drop k xss)"
proof -
  show "length (concat xss) = length xss * n"
    using assms by (induction xss) auto
  show "take (k * n) (concat xss) = concat (take k xss)"
    using assms by (induction xss arbitrary: k) (auto simp: take_Cons split: nat.split)
  show "drop (k * n) (concat xss) = concat (drop k xss)"
    using assms by (induction xss arbitrary: k) (auto simp: drop_Cons split: nat.split)
qed

lemma uniform_nth:
  assumes "\<forall>x\<in>set xss. length x = n" "i < length xss"
  shows "take n (drop (i * n) (concat xss)) = xss ! i"
proof -
  have "concat (drop i xss) = xss ! i @ concat (drop (Suc i) xss)"
    using Cons_nth_drop_Suc [OF assms(2)] by (metis concat.simps(2))
  moreover have "length (xss ! i) = n" using assms by simp
  ultimately show ?thesis using uniform_concat(3) [OF assms(1), of i] by simp
qed

lemma chunks_concat:
  "\<forall>x\<in>set xss. length x = n \<Longrightarrow> chunks n (length xss) (concat xss) = xss"
  by (induction xss) auto

lemma vector_holds_sizes:
  assumes "vector_holds v os"
  shows "unat (buffer_size (vec_buffer v)) = length os * unat (vec_object_size v)"
    "unat (vector_size v) = length os" "vector_ok v" "0 < unat (vec_object_size v)"
proof -
  have b: "buffer_ok (vec_buffer v)" "0 < vec_object_size v" using assms by (simp_all add: vector_holds_def)
  show s: "unat (buffer_size (vec_buffer v)) = length os * unat (vec_object_size v)"
    using length_buffer_cells [OF b(1)] assms uniform_concat(1) by (fastforce simp: vector_holds_def)
  show n: "0 < unat (vec_object_size v)" using b(2) by (simp add: word_less_nat_alt)
  then show "unat (vector_size v) = length os"
    by (simp add: vector_size_def unat_div s)
  show "vector_ok v" using b s by (simp add: vector_ok_def)
qed

lemma vector_ok_holds:
  assumes "vector_ok v"
  shows "\<exists>os. vector_holds v os"
proof -
  obtain k where k: "unat (buffer_size (vec_buffer v)) = unat (vec_object_size v) * k"
    using assms by (auto simp: vector_ok_def dvd_def)
  have "length xs = k * n \<Longrightarrow> concat (chunks n k xs) = xs \<and> (\<forall>x\<in>set (chunks n k xs). length x = n)" for n and xs :: block
  proof (induction k arbitrary: xs)
    case (Suc k)
    have "length (drop n xs) = k * n" using Suc.prems by simp
    then show ?case using Suc.IH [of "drop n xs"] Suc.prems by auto
  qed simp
  moreover have "length (buffer_cells (vec_buffer v)) = k * unat (vec_object_size v)"
    using assms length_buffer_cells [of "vec_buffer v"] k by (simp add: vector_ok_def)
  ultimately show ?thesis using assms unfolding vector_holds_def vector_ok_def by metis
qed

lemma vector_construct_holds: "0 < n \<Longrightarrow> vector_holds (vector_construct n) []"
  using buffer_construct_holds by (simp add: vector_holds_def vector_construct_def buffer_holds_def del: buffer_construct_holds)

text \<open>Multiples of the object size up to the vector's size do not wrap.\<close>

lemma vector_offset:
  assumes "vector_holds v os" "unat i \<le> length os"
  shows "unat (i * vec_object_size v) = unat i * unat (vec_object_size v)"
proof -
  have "unat i * unat (vec_object_size v) \<le> unat (buffer_size (vec_buffer v))"
    using vector_holds_sizes(1) [OF assms(1)] assms(2) by simp
  then have "unat i * unat (vec_object_size v) < 2 ^ 64"
    by (rule le_less_trans) (simp)
  then show ?thesis by (rule unat_mult64)
qed

lemma vector_insert_fill_objects:
  assumes v: "vector_holds v os" and pos: "unat pos \<le> length os"
    and ob: "vector_object v p = Some ob" and fits: "vector_fits v (length os + unat cnt)"
  shows "\<exists>v'. vector_insert_fill v pos cnt p = Some v' \<and> vec_object_size v' = vec_object_size v \<and>
    vector_holds v' (take (unat pos) os @ replicate (unat cnt) ob @ drop (unat pos) os)"
proof -
  let ?n = "unat (vec_object_size v)" and ?d = "data_of p (vec_object_size v)"
  have u: "\<forall>x\<in>set os. length x = ?n" using v by (simp add: vector_holds_def)
  have len: "length ob = ?n" using ob by (simp add: vector_object_def length_ptr_read)
  have off: "unat (pos * vec_object_size v) = unat pos * ?n" by (rule vector_offset [OF v pos])
  note sz = vector_holds_sizes [OF v]
  have "\<exists>b'. buffer_insert_fill (vec_buffer v) (pos * vec_object_size v) cnt ?d = Some b' \<and> buffer_ok b' \<and>
      buffer_cells b' = take (unat (pos * vec_object_size v)) (buffer_cells (vec_buffer v)) @
        concat (replicate (unat cnt) ob) @ drop (unat (pos * vec_object_size v)) (buffer_cells (vec_buffer v))"
  proof (rule buffer_insert_fill_cells)
    show "unat (pos * vec_object_size v) \<le> unat (buffer_size (vec_buffer v))" using off sz(1) pos by simp
    show "unat (buffer_size (vec_buffer v)) + unat cnt * length ob \<le> buffer_limit"
      using fits sz(1) len by (simp add: vector_fits_def add_mult_distrib)
  qed (use v ob in \<open>simp_all add: vector_holds_def vector_object_def\<close>)
  then obtain b' where b': "buffer_insert_fill (vec_buffer v) (pos * vec_object_size v) cnt ?d = Some b'"
    "buffer_ok b'" "buffer_cells b' = take (unat pos * ?n) (concat os) @
        concat (replicate (unat cnt) ob) @ drop (unat pos * ?n) (concat os)"
    using off v by (auto simp: vector_holds_def)
  then show ?thesis
    using v len by (auto simp: vector_insert_fill_def vector_holds_def uniform_concat [OF u]
        dest: in_set_takeD in_set_dropD)
qed

lemma vector_insert_is_fill: "vector_insert v pos p = vector_insert_fill v pos 1 p"
  by (simp add: vector_insert_def vector_insert_fill_def buffer_insert_is_fill)

lemma vector_insert_objects:
  assumes "vector_holds v os" "unat pos \<le> length os" "vector_object v p = Some ob" "vector_fits v (Suc (length os))"
  shows "\<exists>v'. vector_insert v pos p = Some v' \<and> vec_object_size v' = vec_object_size v \<and>
    vector_holds v' (take (unat pos) os @ ob # drop (unat pos) os)"
  using vector_insert_fill_objects [OF assms(1-3), of 1] assms(4) by (simp add: vector_insert_is_fill)

lemma vector_push_back_is_insert:
  assumes "vector_holds v os"
  shows "vector_push_back v p = vector_insert v (vector_size v) p"
proof -
  have "buffer_size (vec_buffer v) = vector_size v * vec_object_size v"
    using vector_offset [OF assms, of "vector_size v"] vector_holds_sizes(1,2) [OF assms]
    by (simp add: word_unat_eq_iff)
  then show ?thesis by (simp add: vector_push_back_def vector_insert_def)
qed

lemma vector_push_back_objects:
  assumes "vector_holds v os" "vector_object v p = Some ob" "vector_fits v (Suc (length os))"
  shows "\<exists>v'. vector_push_back v p = Some v' \<and> vec_object_size v' = vec_object_size v \<and> vector_holds v' (os @ [ob])"
  using vector_insert_objects [OF assms(1) _ assms(2,3), of "vector_size v"] vector_holds_sizes(2) [OF assms(1)]
  by (simp add: vector_push_back_is_insert [OF assms(1)])

lemma vector_object_at:
  assumes v: "vector_holds v os" and i: "unat i < length os"
  shows "vector_object v (vector_at v i) = Some (os ! unat i)"
proof -
  let ?n = "unat (vec_object_size v)"
  have u: "\<forall>x\<in>set os. length x = ?n" using v by (simp add: vector_holds_def)
  have off: "unat (i * vec_object_size v) = unat i * ?n" using i by (intro vector_offset [OF v]) simp
  note sz = vector_holds_sizes [OF v]
  have fit: "unat i * ?n + ?n \<le> length os * ?n"
    using i mult_le_mono1 [of "Suc (unat i)" "length os" ?n] by simp
  obtain blk where blk: "buffer_base (vec_buffer v) = Some blk" "unat (buffer_size (vec_buffer v)) \<le> length blk"
    using v sz i by (auto simp: vector_holds_def buffer_ok_def buffer_cells_def split: option.splits)
  have cells: "take (length os * ?n) blk = concat os"
    using v blk sz by (simp add: vector_holds_def buffer_cells_def)
  have "take ?n (drop (unat i * ?n) blk) = take ?n (drop (unat i * ?n) (take (length os * ?n) blk))"
    using fit by (simp add: drop_take min_def)
  then have "take ?n (drop (unat i * ?n) blk) = os ! unat i" using uniform_nth [OF u i] cells by simp
  moreover have "?n \<le> length blk - unat i * ?n" using fit blk(2) sz(1) by simp
  ultimately show ?thesis
    by (simp add: vector_object_def vector_at_def buffer_at_def ptr_add_def blk off)
qed

lemma vector_release_loop_objects:
  assumes v: "vector_holds v os"
  shows "unat i + k \<le> length os \<Longrightarrow>
    vector_release_loop k v release i st =
      Some (case release of None \<Rightarrow> st | Some r \<Rightarrow> fold r (take k (drop (unat i) os)) st)"
proof (induction k arbitrary: i st)
  case (Suc k)
  have "length os \<le> unat (buffer_size (vec_buffer v))"
    using vector_holds_sizes(1,4) [OF v] by simp
  then have "length os < 2 ^ 64" by (rule le_less_trans) simp
  then have i: "unat (i + 1) = Suc (unat i)" "unat i < length os"
    using Suc.prems by (simp_all add: unat_Suc64)
  have "take (Suc k) (drop (unat i) os) = os ! unat i # take k (drop (Suc (unat i)) os)"
    using Cons_nth_drop_Suc [OF i(2)] by (metis take_Suc_Cons)
  then show ?case
    using Suc.IH [of "i + 1"] Suc.prems i
    by (cases release) (simp_all add: vector_release_at_def vector_object_at [OF v i(2)])
qed (simp split: option.splits)

lemma vector_erase_buffer:
  assumes v: "vector_holds v os" and k: "unat i + unat k \<le> length os"
  shows "\<exists>b. buffer_erase (vec_buffer v) (i * vec_object_size v) (k * vec_object_size v) = Some b \<and>
    buf_capacity b = buf_capacity (vec_buffer v) \<and>
    vector_holds (v\<lparr>vec_buffer := b\<rparr>) (take (unat i) os @ drop (unat i + unat k) os)"
proof -
  let ?n = "unat (vec_object_size v)"
  have u: "\<forall>x\<in>set os. length x = ?n" using v by (simp add: vector_holds_def)
  have off: "unat (i * vec_object_size v) = unat i * ?n" "unat (k * vec_object_size v) = unat k * ?n"
    using k by (auto intro!: vector_offset [OF v])
  have "unat i * ?n + unat k * ?n \<le> length os * ?n"
    using k mult_le_mono1 [of "unat i + unat k" "length os" ?n] by (simp add: add_mult_distrib)
  then have "unat (i * vec_object_size v) + unat (k * vec_object_size v) \<le> unat (buffer_size (vec_buffer v))"
    using off vector_holds_sizes(1) [OF v] by simp
  then obtain b where b: "buffer_erase (vec_buffer v) (i * vec_object_size v) (k * vec_object_size v) = Some b"
    "buffer_ok b" "buf_capacity b = buf_capacity (vec_buffer v)"
    "buffer_cells b = take (unat i * ?n) (concat os) @ drop (unat i * ?n + unat k * ?n) (concat os)"
    using buffer_erase_cells [of "vec_buffer v" "i * vec_object_size v" "k * vec_object_size v"] v off
    by (auto simp: vector_holds_def)
  have "drop (unat i * ?n + unat k * ?n) (concat os) = concat (drop (unat i + unat k) os)"
    using uniform_concat(3) [OF u, of "unat i + unat k"] by (simp add: add_mult_distrib)
  then show ?thesis
    using b v by (auto simp: vector_holds_def uniform_concat [OF u] dest: in_set_takeD in_set_dropD)
qed

lemma vector_erase_objects:
  assumes v: "vector_holds v os" and i: "unat i < length os"
  shows "\<exists>v'. vector_erase v i release st = Some (v', case release of None \<Rightarrow> st | Some r \<Rightarrow> r (os ! unat i) st) \<and>
    vec_object_size v' = vec_object_size v \<and> vector_holds v' (take (unat i) os @ drop (Suc (unat i)) os)"
  using vector_erase_buffer [OF v, of i 1] i
  by (auto simp: vector_erase_def vector_release_at_def vector_object_at [OF v i] split: option.splits)

lemma vector_erase_range_objects:
  assumes v: "vector_holds v os" and r: "unat i \<le> unat j" "unat j \<le> length os"
  shows "\<exists>v'. vector_erase_range v i j release st =
      Some (v', case release of None \<Rightarrow> st | Some r \<Rightarrow> fold r (take (unat j - unat i) (drop (unat i) os)) st) \<and>
    vec_object_size v' = vec_object_size v \<and> vector_holds v' (take (unat i) os @ drop (unat j) os)"
proof -
  have d: "unat (j - i) = unat j - unat i" using r(1) by (simp add: unat_sub64 word_le_nat_alt)
  then show ?thesis
    using vector_erase_buffer [OF v, of i "j - i"] r vector_release_loop_objects [OF v, of i "unat j - unat i" release st]
    by (auto simp: vector_erase_range_def)
qed

lemma vector_clear_objects:
  assumes v: "vector_holds v os"
  shows "\<exists>v'. vector_clear v release st = Some (v', case release of None \<Rightarrow> st | Some r \<Rightarrow> fold r os st) \<and>
    vec_object_size v' = vec_object_size v \<and> vector_holds v' []"
proof -
  obtain v1 where v1: "vector_erase_range v 0 (vector_size v) release st =
      Some (v1, case release of None \<Rightarrow> st | Some r \<Rightarrow> fold r os st)"
    "vec_object_size v1 = vec_object_size v" "vector_holds v1 []"
    using vector_erase_range_objects [OF v, of 0 "vector_size v" release st] vector_holds_sizes(2) [OF v]
    by (cases release) auto
  then show ?thesis
    using buffer_clear_spec [of "vec_buffer v1"] by (auto simp: vector_clear_def vector_holds_def)
qed

lemma vector_back_at:
  assumes "vector_holds v (os @ [ob])"
  shows "vector_object v (vector_back v) = Some ob"
proof -
  note sz = vector_holds_sizes [OF assms]
  have s1: "unat (vector_size v - 1) = length os"
    using sz(2) by (subst unat_sub64) (simp_all add: word_le_nat_alt)
  have off: "unat ((vector_size v - 1) * vec_object_size v) = length os * unat (vec_object_size v)"
    using vector_offset [OF assms, of "vector_size v - 1"] s1 by simp
  have "vec_object_size v \<le> buffer_size (vec_buffer v)" using sz(1) by (simp add: word_le_nat_alt)
  then have "unat (buffer_size (vec_buffer v) - vec_object_size v) = length os * unat (vec_object_size v)"
    using sz(1) by (simp add: unat_sub64)
  then have "vector_back v = vector_at v (vector_size v - 1)"
    using off by (simp add: vector_back_def vector_at_def buffer_at_def)
  then show ?thesis using vector_object_at [OF assms, of "vector_size v - 1"] s1 by simp
qed

lemma vector_pop_back_objects:
  assumes v: "vector_holds v (os @ [ob])"
  shows "\<exists>v'. vector_pop_back v release st = Some (v', case release of None \<Rightarrow> st | Some r \<Rightarrow> r ob st) \<and>
    vec_object_size v' = vec_object_size v \<and> vector_holds v' os"
proof -
  have "unat (vector_size v - 1) = length os"
    using vector_holds_sizes(2) [OF v] by (subst unat_sub64) (simp_all add: word_le_nat_alt)
  then show ?thesis using vector_erase_objects [OF v, of "vector_size v - 1" release st]
    by (cases release) (simp_all add: vector_pop_back_def)
qed


section \<open>Sorting\<close>

lemma mset_qsort_insert: "mset (qsort_insert c x ys) = add_mset x (mset ys)"
  by (induction ys) auto

lemma mset_qsort: "mset (qsort c xs) = mset xs"
  by (induction xs) (auto simp: mset_qsort_insert)

lemma set_qsort: "set (qsort c xs) = set xs"
  using mset_qsort by (metis set_mset_mset)

lemma sorted_qsort:
  assumes total: "\<And>x y. c x y \<le> 0 \<or> c y x \<le> 0" and trans: "\<And>x y z. c x y \<le> 0 \<Longrightarrow> c y z \<le> 0 \<Longrightarrow> c x z \<le> 0"
  shows "sorted_wrt (\<lambda>x y. c x y \<le> 0) (qsort c xs)"
proof -
  have ins: "sorted_wrt (\<lambda>x y. c x y \<le> 0) ys \<Longrightarrow> sorted_wrt (\<lambda>x y. c x y \<le> 0) (qsort_insert c x ys)" for x ys
  proof (induction ys)
    case (Cons y ys)
    have "set (qsort_insert c x ys) = insert x (set ys)"
      using mset_qsort_insert by (metis set_mset_add_mset_insert set_mset_mset)
    moreover have "c x y \<le> 0 \<Longrightarrow> \<forall>z\<in>set ys. c x z \<le> 0" using Cons.prems trans by auto
    moreover have "\<not> c x y \<le> 0 \<Longrightarrow> c y x \<le> 0" using total [of x y] by blast
    ultimately show ?case using Cons by auto
  qed simp
  show ?thesis by (induction xs) (auto intro: ins)
qed

lemma vector_sort_objects:
  assumes v: "vector_holds v os"
  shows "\<exists>v'. vector_sort v c = Some v' \<and> vec_object_size v' = vec_object_size v \<and> vector_holds v' (qsort c os)"
proof -
  let ?b = "vec_buffer v" and ?n = "unat (vec_object_size v)" and ?qs = "concat (qsort c os)"
  note sz = vector_holds_sizes [OF v]
  have u: "\<forall>x\<in>set os. length x = ?n" using v by (simp add: vector_holds_def)
  then have u': "\<forall>x\<in>set (qsort c os). length x = ?n" by (simp add: set_qsort)
  have "length (qsort c os) = length os" by (metis mset_qsort size_mset)
  then have lq: "length ?qs = length (concat os)" using uniform_concat(1) [OF u] uniform_concat(1) [OF u'] by simp
  have len: "unat (vector_size v * vec_object_size v) = length (concat os)"
    using vector_offset [OF v, of "vector_size v"] sz(2) uniform_concat(1) [OF u] by simp
  have size: "unat (buffer_size ?b) = length (concat os)" using sz(1) uniform_concat(1) [OF u] by simp
  show ?thesis
  proof (cases "buffer_base ?b")
    case None
    then have "concat os = []" using v by (simp add: vector_holds_def buffer_cells_def)
    then have "length os * ?n = 0" using uniform_concat(1) [OF u] by (simp only: list.size)
    then have "os = []" using sz(4) by simp
    then show ?thesis
      using None v len sz(2) by (simp add: vector_sort_def vector_base_def buffer_poke_def)
  next
    case (Some blk)
    then have t: "take (length (concat os)) blk = concat os" "length (concat os) \<le> length blk"
      using v size by (auto simp: vector_holds_def buffer_cells_def buffer_ok_def)
    let ?blk = "?qs @ drop (length (concat os)) blk"
    have w: "block_write blk 0 ?qs = Some ?blk" using t(2) lq by (simp add: block_write_def)
    have "vector_sort v c = Some (v\<lparr>vec_buffer := ?b\<lparr>buf_data := data_of (Some ?blk) (buffer_size ?b)\<rparr>\<rparr>)"
      using Some t len sz(2) chunks_concat [OF u] w
      by (simp add: vector_sort_def vector_base_def buffer_poke_def)
    moreover have "vector_holds (v\<lparr>vec_buffer := ?b\<lparr>buf_data := data_of (Some ?blk) (buffer_size ?b)\<rparr>\<rparr>) (qsort c os)"
      using v Some t(2) lq u' size unfolding vector_holds_def buffer_ok_def buffer_cells_def by simp
    ultimately show ?thesis by auto
  qed
qed

section \<open>The interface: a stack of objects\<close>

primrec push_all :: "('v \<Rightarrow> 'o \<Rightarrow> 'v option) \<Rightarrow> 'v \<Rightarrow> 'o list \<Rightarrow> 'v option" where
  "push_all push v [] = Some v"
| "push_all push v (ob # obs) = Option.bind (push v ob) (\<lambda>v. push_all push v obs)"

locale object_stack =
  fixes holds :: "'v \<Rightarrow> 'o list \<Rightarrow> bool"
    and push :: "'v \<Rightarrow> 'o \<Rightarrow> 'v option"
    and pop :: "'v \<Rightarrow> 'v option"
    and top :: "'v \<Rightarrow> 'o option"
    and count :: "'v \<Rightarrow> nat"
    and valid :: "'o \<Rightarrow> bool"
    and limit :: nat
  assumes push_law: "holds v os \<Longrightarrow> valid ob \<Longrightarrow> length os < limit \<Longrightarrow> \<exists>v'. push v ob = Some v' \<and> holds v' (os @ [ob])"
    and pop_law: "holds v (os @ [ob]) \<Longrightarrow> \<exists>v'. pop v = Some v' \<and> holds v' os"
    and top_law: "holds v (os @ [ob]) \<Longrightarrow> top v = Some ob"
    and count_law: "holds v os \<Longrightarrow> count v = length os"
begin

lemma push_all_holds:
  "holds v os \<Longrightarrow> \<forall>ob\<in>set obs. valid ob \<Longrightarrow> length os + length obs \<le> limit \<Longrightarrow>
    \<exists>v'. push_all push v obs = Some v' \<and> holds v' (os @ obs)"
proof (induction obs arbitrary: v os)
  case (Cons ob obs)
  then obtain v1 where v1: "push v ob = Some v1" "holds v1 (os @ [ob])"
    using push_law [of v os ob] by auto
  then obtain v2 where "push_all push v1 obs = Some v2" "holds v2 ((os @ [ob]) @ obs)"
    using Cons.IH [of v1 "os @ [ob]"] Cons.prems by auto
  then show ?case using v1 by auto
qed simp

lemma push_top_pop:
  assumes "holds v os" "valid ob" "length os < limit"
  shows "\<exists>v1 v2. push v ob = Some v1 \<and> top v1 = Some ob \<and> count v1 = Suc (length os) \<and> pop v1 = Some v2 \<and> holds v2 os"
  using push_law [OF assms] pop_law top_law count_law by fastforce

end

definition vector_push_object :: "vector \<Rightarrow> block \<Rightarrow> vector option" where
  "vector_push_object v ob = vector_push_back v (Some ob)"

definition vector_pop_object :: "vector \<Rightarrow> vector option" where
  "vector_pop_object v = map_option fst (vector_pop_back v None ())"

interpretation vector_stack: object_stack "\<lambda>v os. vec_object_size v = n \<and> vector_holds v os"
  vector_push_object vector_pop_object "\<lambda>v. vector_object v (vector_back v)" "\<lambda>v. unat (vector_size v)"
  "\<lambda>ob. length ob = unat n" "buffer_limit div unat n" for n
proof
  fix v os and ob :: block
  assume v: "vec_object_size v = n \<and> vector_holds v os" and ob: "length ob = unat n"
    and lim: "length os < buffer_limit div unat n"
  have "Suc (length os) * unat n \<le> (buffer_limit div unat n) * unat n"
    by (rule mult_le_mono1) (use lim in simp)
  also have "\<dots> \<le> buffer_limit" by (rule div_times_less_eq_dividend)
  finally have "vector_fits v (Suc (length os))" using v by (simp add: vector_fits_def)
  then show "\<exists>v'. vector_push_object v ob = Some v' \<and> vec_object_size v' = n \<and> vector_holds v' (os @ [ob])"
    using vector_push_back_objects [of v os "Some ob" ob] v ob by (simp add: vector_push_object_def vector_object_def)
next
  fix v os and ob :: block
  assume v: "vec_object_size v = n \<and> vector_holds v (os @ [ob])"
  then show "\<exists>v'. vector_pop_object v = Some v' \<and> vec_object_size v' = n \<and> vector_holds v' os"
    using vector_pop_back_objects [of v os ob None "()"] by (auto simp: vector_pop_object_def)
  show "vector_object v (vector_back v) = Some ob" using vector_back_at [of v os ob] v by simp
next
  fix v os assume "vec_object_size v = n \<and> vector_holds v os"
  then show "unat (vector_size v) = length os" using vector_holds_sizes(2) by blast
qed

section \<open>Properties\<close>



text \<open>
  C34: \<open>vector_sort\<close> leaves a vector of the same objects, each as often as before, in an
  order the comparison accepts, whenever the comparison is a total preorder.
\<close>

theorem vector_sort_sorts:
  assumes "vector_holds v os" "\<And>x y. c x y \<le> 0 \<or> c y x \<le> 0" "\<And>x y z. c x y \<le> 0 \<Longrightarrow> c y z \<le> 0 \<Longrightarrow> c x z \<le> 0"
  shows "\<exists>v' os'. vector_sort v c = Some v' \<and> vector_holds v' os' \<and> mset os' = mset os \<and>
    sorted_wrt (\<lambda>x y. c x y \<le> 0) os'"
proof -
  have "sorted_wrt (\<lambda>x y. c x y \<le> 0) (qsort c os)" by (rule sorted_qsort) (use assms(2,3) in blast)+
  then show ?thesis using vector_sort_objects [OF assms(1), of c] mset_qsort [of c os] by blast
qed

lemma vector_sort_sorts_witness:
  "\<exists>v' os'. vector_sort \<lparr>vec_buffer = buffer_of [3, 1, 2], vec_object_size = 1\<rparr>
      (\<lambda>x y. uint (the (hd (x @ [Some 0]))) - uint (the (hd (y @ [Some 0])))) = Some v' \<and> vector_holds v' os' \<and>
    mset os' = {#[Some 3], [Some 1], [Some 2]#}"
proof -
  let ?v = "\<lparr>vec_buffer = buffer_of [3, 1, 2], vec_object_size = 1\<rparr>"
  have "vector_holds ?v [[Some 3], [Some 1], [Some 2]]"
    using buffer_of_holds [of "[3, 1, 2]"] by (simp add: vector_holds_def buffer_holds_def del: buffer_of_holds)
  from vector_sort_sorts [OF this, of "\<lambda>x y. uint (the (hd (x @ [Some 0]))) - uint (the (hd (y @ [Some 0])))"]
  show ?thesis by (simp add: linear) blast
qed

text \<open>
  \<open>vector_pop_back\<close> undoes \<open>vector_push_back\<close>: in between, \<open>vector_back\<close> is the pushed
  object and the size is one more; the release callback gets that object.
\<close>

theorem vector_push_pop:
  assumes "vector_holds v os" "vector_object v p = Some ob" "vector_fits v (Suc (length os))"
  shows "\<exists>v1 v2. vector_push_back v p = Some v1 \<and> vector_object v1 (vector_back v1) = Some ob \<and>
    unat (vector_size v1) = Suc (length os) \<and>
    vector_pop_back v1 (Some (\<lambda>ob released. released @ [ob])) [] = Some (v2, [ob]) \<and> vector_holds v2 os"
proof -
  obtain v1 where v1: "vector_push_back v p = Some v1" "vector_holds v1 (os @ [ob])"
    using vector_push_back_objects [OF assms] by blast
  then show ?thesis
    using vector_back_at [OF v1(2)] vector_holds_sizes(2) [OF v1(2)]
      vector_pop_back_objects [OF v1(2), of "Some (\<lambda>ob released. released @ [ob])" "[]"] by auto
qed

lemma vector_push_pop_witness:
  "\<exists>v1. vector_push_back (vector_construct 2) (Some [Some 7, Some 8]) = Some v1 \<and> unat (vector_size v1) = 1"
  using vector_push_pop [OF vector_construct_holds, of 2 "Some [Some 7, Some 8]" "[Some 7, Some 8]"]
  by (auto simp: vector_object_def vector_construct_def vector_fits_def buffer_limit_def)

end
