(* ===== verification/Rlist.thy ===== *)
theory Rlist
  imports Prelude
begin

text \<open>
  Doubly linked rings (\<^verbatim>\<open>src/reactor/list.c\<close>) on an explicit heap: a map from addresses to
  list items. The list head is an item without an object; an object pointer is its item's
  address plus the offset of the member \<open>object\<close>. Following a pointer to an address that
  holds no item (never allocated, or freed) is \<open>None\<close>. The address \<open>calloc\<close> returns is an
  argument of the insertions.

  \<open>ring h l xs\<close> says that from head \<open>l\<close> the items \<open>xs\<close> are linked in this order, both ways.
\<close>

type_synonym address = u64

record list_item =
  next_item :: address
  previous_item :: address
  item_object :: block

type_synonym list_heap = "address \<rightharpoonup> list_item"

section \<open>Internals\<close>

text \<open>\<open>offsetof(list_item_t, object)\<close> is 16: two pointers precede the object.\<close>

definition list_item_object :: "address \<Rightarrow> address" where
  "list_item_object item = item + 16"

definition list_object_item :: "address \<Rightarrow> address" where
  "list_object_item object = object - 16"

definition set_next :: "list_heap \<Rightarrow> address \<Rightarrow> address \<Rightarrow> list_heap option" where
  "set_next h a x = map_option (\<lambda>it. h(a \<mapsto> it\<lparr>next_item := x\<rparr>)) (h a)"

definition set_previous :: "list_heap \<Rightarrow> address \<Rightarrow> address \<Rightarrow> list_heap option" where
  "set_previous h a x = map_option (\<lambda>it. h(a \<mapsto> it\<lparr>previous_item := x\<rparr>)) (h a)"

definition get_next :: "list_heap \<Rightarrow> address \<Rightarrow> address option" where
  "get_next h a = map_option next_item (h a)"

definition get_previous :: "list_heap \<Rightarrow> address \<Rightarrow> address option" where
  "get_previous h a = map_option previous_item (h a)"

text \<open>
  \<open>list_item_new\<close>: \<open>calloc\<close> at \<open>new\<close> zeroes the item, then the object is copied in unless it
  is \<open>NULL\<close>. The assertion fails when \<open>calloc\<close> returns \<open>NULL\<close>.
\<close>

definition list_item_cells :: "ptr \<Rightarrow> size_t \<Rightarrow> block option" where
  "list_item_cells object sz = (if object \<noteq> None then ptr_read object (unat sz) else Some (calloc sz))"

definition list_item_new :: "list_heap \<Rightarrow> address \<Rightarrow> ptr \<Rightarrow> size_t \<Rightarrow> list_heap option" where
  "list_item_new h new object sz =
     (if new = 0 then None
      else do {
        cells \<leftarrow> list_item_cells object sz;
        Some (h(new \<mapsto> \<lparr>next_item = 0, previous_item = 0, item_object = cells\<rparr>)) })"

section \<open>Constructor, iterators, element access\<close>

definition list_construct :: "list_heap \<Rightarrow> address \<Rightarrow> list_heap" where
  "list_construct h l = h(l \<mapsto> \<lparr>next_item = l, previous_item = l, item_object = []\<rparr>)"

definition list_next :: "list_heap \<Rightarrow> address \<Rightarrow> address option" where
  "list_next h object = map_option list_item_object (get_next h (list_object_item object))"

definition list_previous :: "list_heap \<Rightarrow> address \<Rightarrow> address option" where
  "list_previous h object = map_option list_item_object (get_previous h (list_object_item object))"

definition list_empty :: "list_heap \<Rightarrow> address \<Rightarrow> bool option" where
  "list_empty h l = map_option (\<lambda>n. n = l) (get_next h l)"

definition list_front :: "list_heap \<Rightarrow> address \<Rightarrow> address option" where
  "list_front h l = map_option list_item_object (get_next h l)"

definition list_back :: "list_heap \<Rightarrow> address \<Rightarrow> address option" where
  "list_back h l = map_option list_item_object (get_previous h l)"

definition list_end :: "address \<Rightarrow> address" where
  "list_end l = list_item_object l"

section \<open>Modifiers\<close>

text \<open>The four assignments \<open>list_insert\<close> and \<open>list_splice\<close> put an item before \<open>to\<close> with.\<close>

definition list_link :: "list_heap \<Rightarrow> address \<Rightarrow> address \<Rightarrow> list_heap option" where
  "list_link h item to = do {
     p \<leftarrow> get_previous h to;
     h \<leftarrow> set_previous h item p;
     h \<leftarrow> set_next h item to;
     p \<leftarrow> get_previous h item;
     h \<leftarrow> set_next h p item;
     n \<leftarrow> get_next h item;
     set_previous h n item }"

text \<open>The two assignments that take an item out of its ring.\<close>

definition list_unlink :: "list_heap \<Rightarrow> address \<Rightarrow> list_heap option" where
  "list_unlink h item = do {
     p \<leftarrow> get_previous h item;
     n \<leftarrow> get_next h item;
     h \<leftarrow> set_next h p n;
     n \<leftarrow> get_next h item;
     p \<leftarrow> get_previous h item;
     set_previous h n p }"

definition list_insert ::
    "list_heap \<Rightarrow> address \<Rightarrow> ptr \<Rightarrow> size_t \<Rightarrow> address \<Rightarrow> (list_heap \<times> address) option" where
  "list_insert h list_object object sz new = do {
     let after = list_object_item list_object;
     h \<leftarrow> list_item_new h new object sz;
     h \<leftarrow> list_link h new after;
     Some (h, list_item_object new) }"

definition list_push_front ::
    "list_heap \<Rightarrow> address \<Rightarrow> ptr \<Rightarrow> size_t \<Rightarrow> address \<Rightarrow> (list_heap \<times> address) option" where
  "list_push_front h l object sz new =
     Option.bind (list_front h l) (\<lambda>front. list_insert h front object sz new)"

definition list_push_back ::
    "list_heap \<Rightarrow> address \<Rightarrow> ptr \<Rightarrow> size_t \<Rightarrow> address \<Rightarrow> (list_heap \<times> address) option" where
  "list_push_back h l object sz new = list_insert h (list_end l) object sz new"

definition list_splice :: "list_heap \<Rightarrow> address \<Rightarrow> address \<Rightarrow> list_heap option" where
  "list_splice h object1 object2 =
     (if object1 = object2 then Some h
      else do {
        let to = list_object_item object1;
        let from = list_object_item object2;
        h \<leftarrow> list_unlink h from;
        list_link h from to })"

definition list_detach :: "list_heap \<Rightarrow> address \<Rightarrow> list_heap option" where
  "list_detach h object = do {
     let item = list_object_item object;
     h \<leftarrow> list_unlink h item;
     h \<leftarrow> set_next h item item;
     set_previous h item item }"

text \<open>The release callback gets the object pointer and the object's cells.\<close>

definition list_erase ::
    "list_heap \<Rightarrow> address \<Rightarrow> (address \<Rightarrow> block \<Rightarrow> 's \<Rightarrow> 's) option \<Rightarrow> 's \<Rightarrow> (list_heap \<times> 's) option" where
  "list_erase h object release st = do {
     let item = list_object_item object;
     h \<leftarrow> list_unlink h item;
     it \<leftarrow> h item;
     let st = (case release of None \<Rightarrow> st | Some r \<Rightarrow> r object (item_object it) st);
     Some (h(item := None), st) }"

partial_function (option) list_clear ::
    "list_heap \<Rightarrow> address \<Rightarrow> (address \<Rightarrow> block \<Rightarrow> 's \<Rightarrow> 's) option \<Rightarrow> 's \<Rightarrow> (list_heap \<times> 's) option" where
  "list_clear h l release st =
     Option.bind (list_empty h l) (\<lambda>empty.
       if empty then Some (h, st)
       else Option.bind (list_front h l) (\<lambda>front.
         Option.bind (list_erase h front release st) (\<lambda>(h, st). list_clear h l release st)))"

declare list_clear.simps [code]

definition list_destruct ::
    "list_heap \<Rightarrow> address \<Rightarrow> (address \<Rightarrow> block \<Rightarrow> 's \<Rightarrow> 's) option \<Rightarrow> 's \<Rightarrow> (list_heap \<times> 's) option" where
  "list_destruct h l release st = list_clear h l release st"

section \<open>Searching\<close>

text \<open>The \<open>list_foreach\<close> loop of \<open>list_find\<close> from object pointer \<open>p\<close> on; 0 is \<open>NULL\<close>.\<close>

partial_function (option) list_find_from ::
    "list_heap \<Rightarrow> address \<Rightarrow> (block \<Rightarrow> block \<Rightarrow> int) \<Rightarrow> block \<Rightarrow> address \<Rightarrow> address option" where
  "list_find_from h l compare object p =
     (if p = list_end l then Some 0
      else Option.bind (h (list_object_item p)) (\<lambda>it.
        if compare object (item_object it) = 0 then Some p
        else Option.bind (list_next h p) (list_find_from h l compare object)))"

declare list_find_from.simps [code]

definition list_find :: "list_heap \<Rightarrow> address \<Rightarrow> (block \<Rightarrow> block \<Rightarrow> int) \<Rightarrow> block \<Rightarrow> address option" where
  "list_find h l compare object = Option.bind (list_front h l) (list_find_from h l compare object)"

section \<open>Rings\<close>

definition linked :: "list_heap \<Rightarrow> address \<Rightarrow> address \<Rightarrow> bool" where
  "linked h a b \<longleftrightarrow> get_next h a = Some b \<and> get_previous h b = Some a"

definition ring :: "list_heap \<Rightarrow> address \<Rightarrow> address list \<Rightarrow> bool" where
  "ring h l xs \<longleftrightarrow> distinct (l # xs) \<and> successively (linked h) (l # xs @ [l])"

text \<open>What the operations leave alone: the objects.\<close>

definition get_object :: "list_heap \<Rightarrow> address \<Rightarrow> block option" where
  "get_object h a = map_option item_object (h a)"

section \<open>Lemmas\<close>

lemma item_pointers [simp]:
  "list_object_item (list_item_object a) = a" "list_item_object (list_object_item p) = p"
  "list_item_object a = list_item_object b \<longleftrightarrow> a = b"
  by (simp_all add: list_object_item_def list_item_object_def)

lemma set_next_effect:
  assumes "a \<in> dom h"
  shows "\<exists>h'. set_next h a x = Some h' \<and> get_next h' = (get_next h)(a \<mapsto> x) \<and> get_previous h' = get_previous h \<and>
    get_object h' = get_object h \<and> dom h' = dom h \<and> (\<forall>b. b \<noteq> a \<longrightarrow> h' b = h b)"
proof -
  from assms obtain it where "h a = Some it" by auto
  then show ?thesis
    by (intro exI [of _ "h(a \<mapsto> it\<lparr>next_item := x\<rparr>)"])
      (auto simp: set_next_def get_next_def get_previous_def get_object_def fun_eq_iff)
qed

lemma set_previous_effect:
  assumes "a \<in> dom h"
  shows "\<exists>h'. set_previous h a x = Some h' \<and> get_previous h' = (get_previous h)(a \<mapsto> x) \<and> get_next h' = get_next h \<and>
    get_object h' = get_object h \<and> dom h' = dom h \<and> (\<forall>b. b \<noteq> a \<longrightarrow> h' b = h b)"
proof -
  from assms obtain it where "h a = Some it" by auto
  then show ?thesis
    by (intro exI [of _ "h(a \<mapsto> it\<lparr>previous_item := x\<rparr>)"])
      (auto simp: set_previous_def get_next_def get_previous_def get_object_def fun_eq_iff)
qed

lemma get_dom:
  "get_next h a = Some b \<Longrightarrow> a \<in> dom h" "get_previous h a = Some b \<Longrightarrow> a \<in> dom h"
  "a \<in> dom h \<Longrightarrow> \<exists>b. get_next h a = Some b" "a \<in> dom h \<Longrightarrow> \<exists>b. get_previous h a = Some b"
  by (auto simp: get_next_def get_previous_def)

lemma butlast_not_last: "distinct xs \<Longrightarrow> a \<in> set (butlast xs) \<Longrightarrow> a \<noteq> last xs"
  by (induction xs) (auto split: if_splits)

lemma successively_frame:
  assumes "successively (linked h) xs"
    "\<And>a. a \<in> set (butlast xs) \<Longrightarrow> get_next h' a = get_next h a"
    "\<And>a. a \<in> set (tl xs) \<Longrightarrow> get_previous h' a = get_previous h a"
  shows "successively (linked h') xs"
  using assms
proof (induction xs rule: induct_list012)
  case (3 x y zs)
  then show ?case by (auto simp: linked_def)
qed auto

text \<open>A ring cut between \<open>ys\<close> and \<open>zs\<close>: the part up to the cut, the link over it, the rest.\<close>

lemma ring_cut:
  "ring h l (ys @ zs) \<longleftrightarrow> distinct (l # ys @ zs) \<and> successively (linked h) (l # ys) \<and>
     linked h (last (l # ys)) (hd (zs @ [l])) \<and> successively (linked h) (zs @ [l])"
proof -
  have "successively (linked h) ((l # ys) @ (zs @ [l])) \<longleftrightarrow> successively (linked h) (l # ys) \<and>
      successively (linked h) (zs @ [l]) \<and> linked h (last (l # ys)) (hd (zs @ [l]))"
    by (subst successively_append_iff) simp
  then show ?thesis by (auto simp: ring_def)
qed

lemma ring_dom:
  assumes "ring h l xs"
  shows "set (l # xs) \<subseteq> dom h"
proof
  fix a assume "a \<in> set (l # xs)"
  then obtain ys zs where "l # xs = ys @ a # zs" by (meson split_list)
  then have "l # xs @ [l] = ys @ a # zs @ [l]" by simp
  then have "successively (linked h) (ys @ a # (zs @ [l]))" using assms by (simp only: ring_def)
  then have "linked h a (hd (zs @ [l]))" by (cases zs) (auto simp: successively_append_iff)
  then show "a \<in> dom h" by (auto simp: linked_def dest: get_dom)
qed

text \<open>Linking an item that is in no ring before an item of the ring (or its head).\<close>

lemma list_link_ring:
  assumes r: "ring h l (ys @ zs)" and n: "n \<in> dom h" "n \<notin> set (l # ys @ zs)"
  shows "\<exists>h'. list_link h n (hd (zs @ [l])) = Some h' \<and> ring h' l (ys @ n # zs) \<and>
    get_object h' = get_object h \<and> dom h' = dom h \<and> (\<forall>b. b \<notin> set (l # ys @ n # zs) \<longrightarrow> h' b = h b)"
proof -
  let ?p = "last (l # ys)" and ?a = "hd (zs @ [l])"
  have d: "distinct (l # ys @ zs)" and pa: "linked h ?p ?a"
    and s: "successively (linked h) (l # ys)" "successively (linked h) (zs @ [l])"
    using r by (simp_all only: ring_cut)
  have mem: "?p \<in> set (l # ys)" "?a \<in> set (l # zs)"
    by (rule last_in_set, simp) (cases zs; simp)
  then have dom: "?p \<in> dom h" "?a \<in> dom h" and np: "n \<noteq> ?p" "n \<noteq> ?a"
    using ring_dom [OF r] n(2) by auto
  have pr: "get_previous h ?a = Some ?p" using pa by (simp add: linked_def)
  obtain h1 where h1: "set_previous h n ?p = Some h1" "get_previous h1 = (get_previous h)(n \<mapsto> ?p)"
    "get_next h1 = get_next h" "get_object h1 = get_object h" "dom h1 = dom h" "\<forall>b. b \<noteq> n \<longrightarrow> h1 b = h b"
    using set_previous_effect [OF n(1)] by blast
  then obtain h2 where h2: "set_next h1 n ?a = Some h2" "get_next h2 = (get_next h)(n \<mapsto> ?a)"
    "get_previous h2 = (get_previous h)(n \<mapsto> ?p)" "get_object h2 = get_object h" "dom h2 = dom h" "\<forall>b. b \<noteq> n \<longrightarrow> h2 b = h b"
    using set_next_effect [of n h1] n(1) by metis
  then obtain h3 where h3: "set_next h2 ?p n = Some h3" "get_next h3 = (get_next h)(n \<mapsto> ?a, ?p \<mapsto> n)"
    "get_previous h3 = (get_previous h)(n \<mapsto> ?p)" "get_object h3 = get_object h" "dom h3 = dom h"
    "\<forall>b. b \<noteq> n \<and> b \<noteq> ?p \<longrightarrow> h3 b = h b"
    using set_next_effect [of ?p h2] dom(1) by metis
  then obtain h4 where h4: "set_previous h3 ?a n = Some h4" "get_next h4 = (get_next h)(n \<mapsto> ?a, ?p \<mapsto> n)"
    "get_previous h4 = (get_previous h)(n \<mapsto> ?p, ?a \<mapsto> n)" "get_object h4 = get_object h" "dom h4 = dom h"
    "\<forall>b. b \<noteq> n \<and> b \<noteq> ?p \<and> b \<noteq> ?a \<longrightarrow> h4 b = h b"
    using set_previous_effect [of ?a h3] dom(2) by metis
  have run: "list_link h n ?a = Some h4"
    using pr h1(1) h2(1,3) h3(1,2) h4(1) np by (simp add: list_link_def)
  have "successively (linked h4) (l # ys)"
  proof (rule successively_frame [OF s(1)])
    fix a assume a: "a \<in> set (butlast (l # ys))"
    moreover have "distinct (l # ys)" using d by auto
    ultimately have "a \<noteq> ?p" by (intro butlast_not_last)
    moreover have "a \<in> set (l # ys)" using a by (rule in_set_butlastD)
    ultimately show "get_next h4 a = get_next h a" using n(2) unfolding h4(2) by auto
  next
    fix a assume "a \<in> set (tl (l # ys))"
    then have "a \<noteq> ?a" "a \<noteq> n" using mem(2) d n(2) by auto
    then show "get_previous h4 a = get_previous h a" by (simp add: h4(3))
  qed
  moreover have "successively (linked h4) (zs @ [l])"
  proof (rule successively_frame [OF s(2)])
    fix a assume "a \<in> set (butlast (zs @ [l]))"
    then have "a \<in> set zs" by simp
    then have "a \<noteq> ?p" "a \<noteq> n" using mem(1) d n(2) by auto
    then show "get_next h4 a = get_next h a" by (simp add: h4(2))
  next
    fix a assume a: "a \<in> set (tl (zs @ [l]))"
    have "distinct (zs @ [l])" using d by auto
    then have "a \<noteq> ?a" using a by (cases zs) auto
    moreover have "a \<noteq> n" using a n(2) by (cases zs) auto
    ultimately show "get_previous h4 a = get_previous h a" by (simp add: h4(3))
  qed
  moreover have "linked h4 ?p n" "linked h4 n ?a" using np by (simp_all add: linked_def h4(2,3))
  ultimately have "ring h4 l (ys @ n # zs)"
    using d n(2) unfolding ring_cut by (cases zs) auto
  moreover have "h4 b = h b" if "b \<notin> set (l # ys @ n # zs)" for b
  proof -
    have "b \<notin> set (l # ys)" "b \<notin> set (l # zs)" "b \<noteq> n" using that by auto
    then have "b \<noteq> ?p" "b \<noteq> ?a" using mem by metis+
    then show ?thesis using h4(6) \<open>b \<noteq> n\<close> by blast
  qed
  ultimately show ?thesis using run h4(4,5) by blast
qed

text \<open>Unlinking an item of the ring.\<close>

lemma list_unlink_ring:
  assumes r: "ring h l (ys @ a # zs)"
  shows "\<exists>h'. list_unlink h a = Some h' \<and> ring h' l (ys @ zs) \<and> get_object h' = get_object h \<and>
    dom h' = dom h \<and> (\<forall>b. b \<notin> set (l # ys @ zs) \<longrightarrow> h' b = h b)"
proof -
  let ?p = "last (l # ys)" and ?n = "hd (zs @ [l])"
  have d: "distinct (l # ys @ a # zs)" and pa: "linked h ?p a"
    and s: "successively (linked h) (l # ys)" "successively (linked h) (a # zs @ [l])"
    using r by (simp_all only: ring_cut append_Cons list.sel)
  have an: "linked h a ?n" and s2: "successively (linked h) (zs @ [l])" using s(2) by (cases zs; simp)+
  have mem: "?p \<in> set (l # ys)" "?n \<in> set (l # zs)" by (rule last_in_set, simp) (cases zs; simp)
  have np: "a \<noteq> ?p" "a \<noteq> ?n" using mem d by auto
  have dom: "?p \<in> dom h" "?n \<in> dom h" using pa an by (auto simp: linked_def dest: get_dom)
  have an': "get_next h a = Some ?n" "get_previous h a = Some ?p" using pa an by (simp_all add: linked_def)
  obtain h1 where h1: "set_next h ?p ?n = Some h1" "get_next h1 = (get_next h)(?p \<mapsto> ?n)"
    "get_previous h1 = get_previous h" "get_object h1 = get_object h" "dom h1 = dom h" "\<forall>b. b \<noteq> ?p \<longrightarrow> h1 b = h b"
    using set_next_effect [OF dom(1)] by blast
  then obtain h2 where h2: "set_previous h1 ?n ?p = Some h2" "get_next h2 = (get_next h)(?p \<mapsto> ?n)"
    "get_previous h2 = (get_previous h)(?n \<mapsto> ?p)" "get_object h2 = get_object h" "dom h2 = dom h"
    "\<forall>b. b \<noteq> ?p \<and> b \<noteq> ?n \<longrightarrow> h2 b = h b"
    using set_previous_effect [of ?n h1] dom(2) by metis
  have run: "list_unlink h a = Some h2"
    using an' h1(1-3) h2(1) np by (simp add: list_unlink_def)
  have "successively (linked h2) (l # ys)"
  proof (rule successively_frame [OF s(1)])
    fix b assume "b \<in> set (butlast (l # ys))"
    moreover have "distinct (l # ys)" using d by auto
    ultimately have "b \<noteq> ?p" by (intro butlast_not_last)
    then show "get_next h2 b = get_next h b" unfolding h2(2) by auto
  next
    fix b assume "b \<in> set (tl (l # ys))"
    then have "b \<noteq> ?n" using mem(2) d by auto
    then show "get_previous h2 b = get_previous h b" by (simp add: h2(3))
  qed
  moreover have "successively (linked h2) (zs @ [l])"
  proof (rule successively_frame [OF s2])
    fix b assume "b \<in> set (butlast (zs @ [l]))"
    then have "b \<noteq> ?p" using mem(1) d by auto
    then show "get_next h2 b = get_next h b" by (simp add: h2(2))
  next
    fix b assume b: "b \<in> set (tl (zs @ [l]))"
    have "distinct (zs @ [l])" using d by auto
    then have "b \<noteq> ?n" using b by (cases zs) auto
    then show "get_previous h2 b = get_previous h b" by (simp add: h2(3))
  qed
  moreover have "linked h2 ?p ?n" by (simp add: linked_def h2(2,3))
  ultimately have "ring h2 l (ys @ zs)" using d unfolding ring_cut by auto
  moreover have "h2 b = h b" if "b \<notin> set (l # ys @ zs)" for b
  proof -
    have "b \<notin> set (l # ys)" "b \<notin> set (l # zs)" using that by auto
    then have "b \<noteq> ?p" "b \<noteq> ?n" using mem by metis+
    then show ?thesis using h2(6) by blast
  qed
  ultimately show ?thesis using run h2(4,5) by blast
qed


lemma ring_frame:
  assumes "ring h l xs" "\<And>b. b \<in> set (l # xs) \<Longrightarrow> h' b = h b"
  shows "ring h' l xs"
proof -
  have "successively (linked h') (l # xs @ [l])"
  proof (rule successively_frame)
    fix a assume "a \<in> set (butlast (l # xs @ [l]))"
    then have "a \<in> set (l # xs)" by (simp add: butlast_append)
    then show "get_next h' a = get_next h a" using assms(2) by (simp add: get_next_def)
  next
    fix a assume "a \<in> set (tl (l # xs @ [l]))"
    then have "a \<in> set (l # xs)" by auto
    then show "get_previous h' a = get_previous h a" using assms(2) by (simp add: get_previous_def)
  qed (use assms(1) in \<open>simp add: ring_def\<close>)
  then show ?thesis using assms(1) by (simp add: ring_def)
qed

lemma ring_Nil: "ring h l [] \<longleftrightarrow> linked h l l"
  by (simp add: ring_def)

section \<open>The operations on rings\<close>

lemma list_construct_ring: "ring (list_construct h l) l []"
  by (simp add: ring_Nil linked_def list_construct_def get_next_def get_previous_def)

lemma ring_ends:
  assumes "ring h l xs"
  shows "get_next h l = Some (hd (xs @ [l]))" "get_previous h l = Some (last (l # xs))"
  using assms ring_cut [of h l "[]" xs] ring_cut [of h l xs "[]"] by (simp_all add: linked_def)

lemma list_empty_ring:
  assumes "ring h l xs"
  shows "list_empty h l = Some (xs = [])"
proof -
  have "l \<notin> set xs" using assms by (simp add: ring_def)
  then show ?thesis using ring_ends(1) [OF assms] by (cases xs) (auto simp: list_empty_def)
qed

lemma list_front_ring: "ring h l xs \<Longrightarrow> list_front h l = Some (list_item_object (hd (xs @ [l])))"
  by (simp add: list_front_def ring_ends)

lemma list_back_ring: "ring h l xs \<Longrightarrow> list_back h l = Some (list_item_object (last (l # xs)))"
  by (simp add: list_back_def ring_ends)

lemma list_next_ring:
  "ring h l (ys @ a # zs) \<Longrightarrow> list_next h (list_item_object a) = Some (list_item_object (hd (zs @ [l])))"
  using ring_cut [of h l "ys @ [a]" zs] by (simp add: list_next_def linked_def)

lemma list_previous_ring:
  "ring h l (ys @ a # zs) \<Longrightarrow> list_previous h (list_item_object a) = Some (list_item_object (last (l # ys)))"
  using ring_cut [of h l ys "a # zs"] by (simp add: list_previous_def linked_def)

lemma list_insert_ring:
  assumes r: "ring h l (ys @ zs)" and new: "new \<notin> dom h" "new \<noteq> 0" and c: "list_item_cells object sz = Some cells"
  shows "\<exists>h'. list_insert h (list_item_object (hd (zs @ [l]))) object sz new = Some (h', list_item_object new) \<and>
    ring h' l (ys @ new # zs) \<and> get_object h' = (get_object h)(new \<mapsto> cells) \<and> dom h' = insert new (dom h) \<and>
    (\<forall>b. b \<notin> set (l # ys @ new # zs) \<longrightarrow> h' b = h b)"
proof -
  let ?h = "h(new \<mapsto> \<lparr>next_item = 0, previous_item = 0, item_object = cells\<rparr>)"
  have out: "new \<notin> set (l # ys @ zs)" using ring_dom [OF r] new(1) by auto
  have "ring ?h l (ys @ zs)" by (rule ring_frame [OF r]) (use out in auto)
  then obtain h' where h': "list_link ?h new (hd (zs @ [l])) = Some h'" "ring h' l (ys @ new # zs)"
    "get_object h' = get_object ?h" "dom h' = dom ?h" "\<forall>b. b \<notin> set (l # ys @ new # zs) \<longrightarrow> h' b = ?h b"
    using list_link_ring [of ?h l ys zs new] out by auto
  have "get_object ?h = (get_object h)(new \<mapsto> cells)" by (auto simp: get_object_def)
  then show ?thesis using h' new c by (auto simp: list_insert_def list_item_new_def Let_def)
qed

lemma list_push_back_ring:
  assumes "ring h l xs" "new \<notin> dom h" "new \<noteq> 0" "list_item_cells object sz = Some cells"
  shows "\<exists>h'. list_push_back h l object sz new = Some (h', list_item_object new) \<and>
    ring h' l (xs @ [new]) \<and> get_object h' = (get_object h)(new \<mapsto> cells) \<and> dom h' = insert new (dom h) \<and>
    (\<forall>b. b \<notin> set (l # xs @ [new]) \<longrightarrow> h' b = h b)"
  using list_insert_ring [of h l xs "[]" new object sz cells] assms by (simp add: list_push_back_def list_end_def)

lemma list_push_front_ring:
  assumes "ring h l xs" "new \<notin> dom h" "new \<noteq> 0" "list_item_cells object sz = Some cells"
  shows "\<exists>h'. list_push_front h l object sz new = Some (h', list_item_object new) \<and>
    ring h' l (new # xs) \<and> get_object h' = (get_object h)(new \<mapsto> cells) \<and> dom h' = insert new (dom h) \<and>
    (\<forall>b. b \<notin> set (l # new # xs) \<longrightarrow> h' b = h b)"
  using list_insert_ring [of h l "[]" xs new object sz cells] assms
  by (simp add: list_push_front_def list_front_ring)

text \<open>Splicing takes an item out of the ring it is in and puts it before \<open>object1\<close>.\<close>

lemma list_splice_ring:
  assumes r: "ring h l (ys @ a # zs)" and to: "ys @ zs = us @ vs"
  shows "\<exists>h'. list_splice h (list_item_object (hd (vs @ [l]))) (list_item_object a) = Some h' \<and>
    ring h' l (us @ a # vs) \<and> get_object h' = get_object h \<and> dom h' = dom h"
proof -
  obtain h1 where h1: "list_unlink h a = Some h1" "ring h1 l (us @ vs)" "get_object h1 = get_object h" "dom h1 = dom h"
    using list_unlink_ring [OF r] to by auto
  have a: "a \<notin> set (l # us @ vs)" "a \<in> dom h1" using r ring_dom [OF r] h1(4) by (auto simp: ring_def simp flip: to)
  then have "hd (vs @ [l]) \<noteq> a" by (cases vs) auto
  then show ?thesis using h1 list_link_ring [OF h1(2) a(2,1)] by (auto simp: list_splice_def)
qed

lemma list_splice_rings:
  assumes r1: "ring h l1 (us @ vs)" and r2: "ring h l2 (ys @ a # zs)"
    and disj: "set (l1 # us @ vs) \<inter> set (l2 # ys @ a # zs) = {}"
  shows "\<exists>h'. list_splice h (list_item_object (hd (vs @ [l1]))) (list_item_object a) = Some h' \<and>
    ring h' l1 (us @ a # vs) \<and> ring h' l2 (ys @ zs) \<and> get_object h' = get_object h \<and> dom h' = dom h"
proof -
  obtain h1 where h1: "list_unlink h a = Some h1" "ring h1 l2 (ys @ zs)" "get_object h1 = get_object h" "dom h1 = dom h"
    "\<forall>b. b \<notin> set (l2 # ys @ zs) \<longrightarrow> h1 b = h b"
    using list_unlink_ring [OF r2] by blast
  have "ring h1 l1 (us @ vs)" by (rule ring_frame [OF r1]) (use disj h1(5) in auto)
  moreover have a: "a \<in> dom h1" "a \<notin> set (l1 # us @ vs)" using ring_dom [OF r2] h1(4) disj by auto
  ultimately obtain h2 where h2: "list_link h1 a (hd (vs @ [l1])) = Some h2" "ring h2 l1 (us @ a # vs)"
    "get_object h2 = get_object h1" "dom h2 = dom h1" "\<forall>b. b \<notin> set (l1 # us @ a # vs) \<longrightarrow> h2 b = h1 b"
    using list_link_ring by blast
  have "a \<notin> set (l2 # ys @ zs)" using r2 by (auto simp: ring_def)
  then have "ring h2 l2 (ys @ zs)" by (intro ring_frame [OF h1(2)]) (use disj h2(5) in auto)
  moreover have "hd (vs @ [l1]) \<noteq> a" using a(2) by (cases vs) auto
  ultimately show ?thesis using h1 h2 by (auto simp: list_splice_def)
qed

text \<open>A detached item is a ring of its own.\<close>

lemma list_detach_ring:
  assumes r: "ring h l (ys @ a # zs)"
  shows "\<exists>h'. list_detach h (list_item_object a) = Some h' \<and> ring h' l (ys @ zs) \<and> ring h' a [] \<and>
    get_object h' = get_object h \<and> dom h' = dom h"
proof -
  obtain h1 where h1: "list_unlink h a = Some h1" "ring h1 l (ys @ zs)" "get_object h1 = get_object h" "dom h1 = dom h"
    using list_unlink_ring [OF r] by blast
  have a: "a \<in> dom h1" "a \<notin> set (l # ys @ zs)" using r ring_dom [OF r] h1(4) by (auto simp: ring_def)
  obtain h2 where h2: "set_next h1 a a = Some h2" "get_next h2 = (get_next h1)(a \<mapsto> a)" "get_object h2 = get_object h1"
    "dom h2 = dom h1" "\<forall>b. b \<noteq> a \<longrightarrow> h2 b = h1 b"
    using set_next_effect [OF a(1)] by blast
  then obtain h3 where h3: "set_previous h2 a a = Some h3" "get_next h3 = get_next h2"
    "get_previous h3 = (get_previous h2)(a \<mapsto> a)" "get_object h3 = get_object h2" "dom h3 = dom h2"
    "\<forall>b. b \<noteq> a \<longrightarrow> h3 b = h2 b"
    using set_previous_effect [of a h2] a(1) by metis
  have "h3 b = h1 b" if "b \<in> set (l # ys @ zs)" for b using that a(2) h2(5) h3(6) by metis
  then have "ring h3 l (ys @ zs)" by (rule ring_frame [OF h1(2)])
  moreover have "ring h3 a []" using h2(2) h3(2,3) by (simp add: ring_Nil linked_def)
  ultimately show ?thesis using h1 h2 h3 by (auto simp: list_detach_def)
qed

lemma list_erase_ring:
  assumes r: "ring h l (ys @ a # zs)"
  shows "\<exists>h' it. list_erase h (list_item_object a) release st =
      Some (h', case release of None \<Rightarrow> st | Some f \<Rightarrow> f (list_item_object a) it st) \<and>
    get_object h a = Some it \<and> ring h' l (ys @ zs) \<and> get_object h' = (get_object h)(a := None) \<and> dom h' = dom h - {a} \<and>
    (\<forall>b. b \<notin> set (l # ys @ a # zs) \<longrightarrow> h' b = h b)"
proof -
  obtain h1 where h1: "list_unlink h a = Some h1" "ring h1 l (ys @ zs)" "get_object h1 = get_object h" "dom h1 = dom h"
    "\<forall>b. b \<notin> set (l # ys @ zs) \<longrightarrow> h1 b = h b"
    using list_unlink_ring [OF r] by blast
  have a: "a \<in> dom h1" "a \<notin> set (l # ys @ zs)" using r ring_dom [OF r] h1(4) by (auto simp: ring_def)
  then obtain it where it: "h1 a = Some it" by auto
  then have "get_object h1 a = Some (item_object it)" by (simp add: get_object_def)
  then have ob: "get_object h a = Some (item_object it)" by (simp only: h1(3))
  have "get_object (h1(a := None)) = (get_object h)(a := None)"
    by (simp add: get_object_def fun_eq_iff flip: h1(3))
  moreover have "ring (h1(a := None)) l (ys @ zs)" by (rule ring_frame [OF h1(2)]) (use a(2) in auto)
  ultimately show ?thesis
    using h1(1,4,5) it ob by (intro exI [of _ "h1(a := None)"] exI [of _ "item_object it"]) (auto simp: list_erase_def)
qed

definition release_items ::
    "(address \<Rightarrow> block \<Rightarrow> 's \<Rightarrow> 's) option \<Rightarrow> list_heap \<Rightarrow> address list \<Rightarrow> 's \<Rightarrow> 's" where
  "release_items release h xs st =
     (case release of None \<Rightarrow> st
      | Some f \<Rightarrow> fold (\<lambda>a. f (list_item_object a) (the (get_object h a))) xs st)"

lemma list_clear_ring:
  "ring h l xs \<Longrightarrow> \<exists>h'. list_clear h l release st = Some (h', release_items release h xs st) \<and> ring h' l [] \<and>
    dom h' = dom h - set xs \<and> (\<forall>b. b \<notin> set (l # xs) \<longrightarrow> h' b = h b)"
proof (induction xs arbitrary: h st)
  case Nil
  then show ?case
    by (subst list_clear.simps) (simp add: list_empty_ring release_items_def split: option.splits)
next
  case (Cons a xs)
  let ?st = "\<lambda>it. case release of None \<Rightarrow> st | Some f \<Rightarrow> f (list_item_object a) it st"
  obtain h1 it where h1: "list_erase h (list_item_object a) release st = Some (h1, ?st it)" "get_object h a = Some it"
    "ring h1 l xs" "get_object h1 = (get_object h)(a := None)" "dom h1 = dom h - {a}" "\<forall>b. b \<notin> set (l # a # xs) \<longrightarrow> h1 b = h b"
    using list_erase_ring [of h l "[]" a xs release st] Cons.prems by auto
  obtain h2 where h2: "list_clear h1 l release (?st it) = Some (h2, release_items release h1 xs (?st it))" "ring h2 l []"
    "dom h2 = dom h1 - set xs" "\<forall>b. b \<notin> set (l # xs) \<longrightarrow> h2 b = h1 b"
    using Cons.IH [OF h1(3)] by blast
  have "a \<notin> set xs" using Cons.prems by (simp add: ring_def)
  then have "\<forall>b\<in>set xs. get_object h1 b = get_object h b" using h1(4) by auto
  then have rel: "release_items release h1 xs (?st it) = release_items release h (a # xs) st"
    using h1(2) by (auto simp: release_items_def split: option.splits intro: fold_cong)
  have "list_clear h l release st = list_clear h1 l release (?st it)"
    using h1(1) list_empty_ring [OF Cons.prems] list_front_ring [OF Cons.prems]
    by (subst list_clear.simps) simp
  then show ?case using h2 rel h1(5,6) by auto
qed

lemma list_find_from_ring:
  "ring h l (ys @ zs) \<Longrightarrow>
    list_find_from h l c object (list_item_object (hd (zs @ [l]))) =
      Some (case List.find (\<lambda>a. c object (the (get_object h a)) = 0) zs of None \<Rightarrow> 0 | Some a \<Rightarrow> list_item_object a)"
proof (induction zs arbitrary: ys)
  case Nil
  show ?case by (subst list_find_from.simps) (simp add: list_end_def)
next
  case (Cons a zs)
  have "a \<in> dom h" using ring_dom [OF Cons.prems] by auto
  then obtain it where it: "h a = Some it" by auto
  have "a \<noteq> l" using Cons.prems by (auto simp: ring_def)
  then show ?case
    using it list_next_ring [OF Cons.prems] Cons.IH [of "ys @ [a]"] Cons.prems
    by (subst list_find_from.simps) (simp add: list_end_def get_object_def)
qed

lemma list_find_ring:
  assumes "ring h l xs"
  shows "list_find h l c object =
    Some (case List.find (\<lambda>a. c object (the (get_object h a)) = 0) xs of None \<Rightarrow> 0 | Some a \<Rightarrow> list_item_object a)"
  using list_find_from_ring [of h l "[]" xs c object] assms by (simp add: list_find_def list_front_ring)


text \<open>A heap is determined by its ring, its objects and what lies outside the ring.\<close>

lemma ring_links:
  assumes "ring h l (ys @ a # zs)"
  shows "get_next h a = Some (hd (zs @ [l]))" "get_previous h a = Some (last (l # ys))"
  using ring_cut [of h l "ys @ [a]" zs] ring_cut [of h l ys "a # zs"] assms by (simp_all add: linked_def)

lemma heap_eqI:
  assumes "get_next h a = get_next h' a" "get_previous h a = get_previous h' a" "get_object h a = get_object h' a"
  shows "h a = h' a"
  using assms by (cases "h a"; cases "h' a") (auto simp: get_next_def get_previous_def get_object_def)

lemma ring_heap_unique:
  assumes r: "ring h l xs" "ring h' l xs" and ob: "get_object h = get_object h'"
    and out: "\<And>b. b \<notin> set (l # xs) \<Longrightarrow> h b = h' b"
  shows "h = h'"
proof
  fix a show "h a = h' a"
  proof (cases "a \<in> set xs")
    case True
    then obtain ys zs where "xs = ys @ a # zs" by (meson split_list)
    then show ?thesis using r ob by (intro heap_eqI) (simp_all add: ring_links)
  next
    case False
    show ?thesis
    proof (cases "a = l")
      case True
      then show ?thesis using r ob by (intro heap_eqI) (simp_all add: ring_ends)
    qed (use False out in auto)
  qed
qed

lemma ring_nth:
  assumes "ring h l xs" "i \<le> length xs"
  shows "get_next h ((l # xs) ! i) = Some ((xs @ [l]) ! i)"
proof -
  have "linked h ((l # xs @ [l]) ! i) ((l # xs @ [l]) ! Suc i)"
    using assms by (simp add: ring_def successively_conv_nth)
  moreover have "(l # xs @ [l]) ! i = (l # xs) ! i" using assms(2) by (cases i) (simp_all add: nth_append)
  ultimately show ?thesis by (simp add: linked_def)
qed

lemma ring_unique_le:
  assumes "ring h l xs" "ring h l ys" "length xs \<le> length ys"
  shows "xs = ys"
proof -
  have p: "i \<le> length xs \<Longrightarrow> (l # xs) ! i = (l # ys) ! i" for i
  proof (induction i)
    case (Suc i)
    then have "(l # xs) ! i = (l # ys) ! i" by simp
    then have "(xs @ [l]) ! i = (ys @ [l]) ! i"
      using ring_nth [OF assms(1), of i] ring_nth [OF assms(2), of i] Suc.prems assms(3) by simp
    then show ?case using Suc.prems assms(3) by (simp add: nth_append)
  qed simp
  have "(xs @ [l]) ! length xs = (ys @ [l]) ! length xs"
    using ring_nth [OF assms(1), of "length xs"] ring_nth [OF assms(2), of "length xs"] p [of "length xs"] assms(3) by simp
  then have "length xs = length ys"
    using assms(2,3) nth_mem [of "length xs" ys] by (cases "length xs = length ys") (auto simp: nth_append ring_def)
  moreover have "xs ! i = ys ! i" if "i < length xs" for i using p [of "Suc i"] that by simp
  ultimately show ?thesis by (intro nth_equalityI) simp_all
qed

lemma ring_unique: "ring h l xs \<Longrightarrow> ring h l ys \<Longrightarrow> xs = ys"
  using ring_unique_le [of h l xs ys] ring_unique_le [of h l ys xs] by (cases "length xs \<le> length ys") auto

text \<open>A list of one byte object, for the examples.\<close>

lemma example_list: "\<exists>h. ring h 32 [64] \<and> get_object h 64 = Some [Some 7] \<and> 128 \<notin> dom h"
proof -
  let ?c = "list_construct Map.empty 32"
  have "64 \<notin> dom ?c" by (simp add: list_construct_def)
  from list_push_back_ring [OF list_construct_ring this, of "Some [Some 7]" 1 "[Some 7]"]
  obtain h where "ring h 32 [64]" "get_object h = (get_object ?c)(64 \<mapsto> [Some 7])" "dom h = insert 64 (dom ?c)"
    by (auto simp: list_item_cells_def)
  then show ?thesis by (intro exI [of _ h]) (simp add: list_construct_def)
qed

section \<open>Properties\<close>

text \<open>
  C32: \<open>list_insert\<close> puts the new item before the given one (or at the end, before the head),
  at any position of the ring, with the object copied in or zeroed, and \<open>list_erase\<close> of that
  item gives back exactly the heap there was, after releasing the object.
\<close>

theorem list_insert_erase:
  assumes "ring h l (ys @ zs)" "new \<notin> dom h" "new \<noteq> 0" "list_item_cells object sz = Some cells"
  shows "\<exists>h'. list_insert h (list_item_object (hd (zs @ [l]))) object sz new = Some (h', list_item_object new) \<and>
    ring h' l (ys @ new # zs) \<and> get_object h' new = Some cells \<and>
    list_erase h' (list_item_object new) (Some (\<lambda>p ob released. released @ [ob])) [] = Some (h, [cells])"
proof -
  obtain h' where h': "list_insert h (list_item_object (hd (zs @ [l]))) object sz new = Some (h', list_item_object new)"
    "ring h' l (ys @ new # zs)" "get_object h' = (get_object h)(new \<mapsto> cells)"
    "\<forall>b. b \<notin> set (l # ys @ new # zs) \<longrightarrow> h' b = h b"
    using list_insert_ring [OF assms] by blast
  obtain h'' where h'': "list_erase h' (list_item_object new) (Some (\<lambda>p ob released. released @ [ob])) [] = Some (h'', [cells])"
    "ring h'' l (ys @ zs)" "get_object h'' = (get_object h')(new := None)"
    "\<forall>b. b \<notin> set (l # ys @ new # zs) \<longrightarrow> h'' b = h' b"
    using list_erase_ring [OF h'(2), of "Some (\<lambda>p ob released. released @ [ob])" "[]"] h'(3) by auto
  have n: "get_object h new = None" "h new = None" using assms(2) by (auto simp: get_object_def)
  have "get_object h'' = get_object h" using h''(3) h'(3) n(1) by (simp add: fun_upd_idem)
  moreover have "h'' new = None" using h''(3) by (metis fun_upd_same get_object_def map_option_is_None)
  ultimately have "h'' = h"
    using h''(2,4) assms(1) h'(4) n by (intro ring_heap_unique) auto
  then show ?thesis using h' h'' by auto
qed

lemma list_insert_erase_witness:
  "\<exists>h'. list_insert (list_construct Map.empty 32) (list_end 32) (Some [Some 1, Some 2]) 2 64 = Some (h', 80) \<and>
    list_erase h' 80 (Some (\<lambda>p ob released. released @ [ob])) [] = Some (list_construct Map.empty 32, [[Some 1, Some 2]])"
  using list_insert_erase [of "list_construct Map.empty 32" 32 "[]" "[]" 64 "Some [Some 1, Some 2]" 2 "[Some 1, Some 2]"]
    list_construct_ring [of Map.empty 32]
  by (auto simp: list_end_def list_construct_def list_item_object_def list_item_cells_def)

text \<open>
  \<open>list_splice\<close> takes an item out of one list and puts it before an item (or the head) of
  another; both stay well-formed rings and no object changes. Within one list the item moves.
\<close>

theorem list_splice_moves:
  assumes "ring h l2 (ys @ a # zs)"
  shows "(ring h l1 (us @ vs) \<longrightarrow> set (l1 # us @ vs) \<inter> set (l2 # ys @ a # zs) = {} \<longrightarrow>
      (\<exists>h'. list_splice h (list_item_object (hd (vs @ [l1]))) (list_item_object a) = Some h' \<and>
        ring h' l1 (us @ a # vs) \<and> ring h' l2 (ys @ zs) \<and> get_object h' = get_object h)) \<and>
    (ys @ zs = us @ vs \<longrightarrow>
      (\<exists>h'. list_splice h (list_item_object (hd (vs @ [l2]))) (list_item_object a) = Some h' \<and>
        ring h' l2 (us @ a # vs) \<and> get_object h' = get_object h))"
  using list_splice_rings [OF _ assms] list_splice_ring [OF assms] by meson

lemma list_splice_moves_witness:
  "\<exists>h h'. ring h 32 [64, 128] \<and> list_splice h (list_end 32) (list_item_object 64) = Some h' \<and> ring h' 32 [128, 64]"
proof -
  obtain h1 where h1: "ring h1 32 [64]" "128 \<notin> dom h1" using example_list by blast
  then obtain h2 where h2: "ring h2 32 ([] @ 64 # [128])"
    using list_push_back_ring [OF h1, of "Some []" 0 "[]"] by (auto simp: list_item_cells_def)
  show ?thesis
    using list_splice_moves [OF h2, of 0 "[128]" "[]"] h2 by (auto simp: list_end_def)
qed

text \<open>
  \<open>list_clear\<close> (and \<open>list_destruct\<close>) ends, calls the release callback once per object in
  list order, frees exactly the items of the list and leaves an empty ring.
\<close>

theorem list_clear_releases:
  assumes "ring h l xs" "map (get_object h) xs = map Some obs"
  shows "\<exists>h'. list_clear h l (Some (\<lambda>p ob released. released @ [(p, ob)])) [] =
      Some (h', zip (map list_item_object xs) obs) \<and>
    ring h' l [] \<and> dom h' = dom h - set xs \<and> (\<forall>b. b \<notin> set (l # xs) \<longrightarrow> h' b = h b)"
proof -
  have "map (get_object h) xs = map Some obs \<Longrightarrow>
      fold (\<lambda>a. (\<lambda>ob released. released @ [(list_item_object a, ob)]) (the (get_object h a))) xs acc =
        acc @ zip (map list_item_object xs) obs" for acc
  proof (induction xs arbitrary: acc obs)
    case (Cons a xs)
    then show ?case by (cases obs) auto
  qed simp
  from this [OF assms(2)]
  have "release_items (Some (\<lambda>p ob released. released @ [(p, ob)])) h xs [] = zip (map list_item_object xs) obs"
    by (simp add: release_items_def)
  then show ?thesis
    using list_clear_ring [OF assms(1), of "Some (\<lambda>p ob released. released @ [(p, ob)])" "[]"] by auto
qed

lemma list_clear_releases_witness:
  "\<exists>h h'. ring h 32 [64] \<and> list_clear h 32 (Some (\<lambda>p ob released. released @ [(p, ob)])) [] = Some (h', [(80, [Some 7])])"
proof -
  obtain h1 where h1: "ring h1 32 [64]" "get_object h1 64 = Some [Some 7]" using example_list by blast
  then show ?thesis
    using list_clear_releases [OF h1(1), of "[[Some 7]]"] by (auto simp: list_item_object_def)
qed

end
