(* ===== verification/Pool.thy ===== *)
theory Pool
  imports Vector Rlist
begin

text \<open>
  The object pool (\<^verbatim>\<open>src/reactor/pool.c\<close>): chunks of 128 objects, kept in a list, and a vector
  used as a stack of the free objects' addresses. An allocation that finds the stack empty
  adds a chunk; the address \<open>calloc\<close> returns for it is an argument.
\<close>

record pool =
  pool_object_size :: size_t
  pool_allocated :: size_t
  pool_chunks :: address
  pool_free_objects :: vector

definition POOL_CHUNK_SIZE :: nat where
  "POOL_CHUNK_SIZE = 128"

text \<open>The pool's list head is at address \<open>l\<close>.\<close>

definition pool_construct :: "list_heap \<Rightarrow> address \<Rightarrow> size_t \<Rightarrow> list_heap \<times> pool" where
  "pool_construct h l sz =
     (list_construct h l,
      \<lparr>pool_object_size = sz, pool_allocated = 0, pool_chunks = l, pool_free_objects = vector_construct 8\<rparr>)"

definition pool_destruct :: "list_heap \<Rightarrow> pool \<Rightarrow> list_heap option" where
  "pool_destruct h p = do {
     (h, _) \<leftarrow> list_destruct h (pool_chunks p) None ();
     _ \<leftarrow> vector_destruct (pool_free_objects p) None ();
     Some h }"

definition pool_size :: "pool \<Rightarrow> size_t" where
  "pool_size p = pool_allocated p"

text \<open>\<open>vector_push_back(&pool->free, &object)\<close>: the pushed object is the pointer itself.\<close>

definition pool_push :: "vector \<Rightarrow> address \<Rightarrow> vector option" where
  "pool_push free object = vector_push_back free (Some (word_cells object))"

text \<open>The loop that puts the \<open>k\<close> last objects of a chunk on the stack, from \<open>chunk + i * size\<close> on.\<close>

fun pool_fill :: "nat \<Rightarrow> size_t \<Rightarrow> address \<Rightarrow> size_t \<Rightarrow> vector \<Rightarrow> vector option" where
  "pool_fill 0 i chunk sz free = Some free"
| "pool_fill (Suc k) i chunk sz free =
     Option.bind (pool_push free (chunk + i * sz)) (pool_fill k (i + 1) chunk sz)"

definition pool_grow :: "list_heap \<Rightarrow> pool \<Rightarrow> address \<Rightarrow> (list_heap \<times> pool) option" where
  "pool_grow h p new =
     (if vector_size (pool_free_objects p) = 0
      then do {
        (h, chunk) \<leftarrow> list_push_back h (pool_chunks p) None (pool_object_size p * of_nat POOL_CHUNK_SIZE) new;
        free \<leftarrow> pool_fill POOL_CHUNK_SIZE 0 chunk (pool_object_size p) (pool_free_objects p);
        Some (h, p\<lparr>pool_free_objects := free\<rparr>) }
      else Some (h, p))"

definition pool_malloc :: "list_heap \<Rightarrow> pool \<Rightarrow> address \<Rightarrow> (list_heap \<times> pool \<times> address) option" where
  "pool_malloc h p new = do {
     (h, p) \<leftarrow> pool_grow h p new;
     cells \<leftarrow> vector_object (pool_free_objects p) (vector_back (pool_free_objects p));
     object \<leftarrow> cells_word cells;
     (free, _) \<leftarrow> vector_pop_back (pool_free_objects p) None ();
     Some (h, p\<lparr>pool_free_objects := free, pool_allocated := pool_allocated p + 1\<rparr>, object) }"

definition pool_free :: "pool \<Rightarrow> address \<Rightarrow> pool option" where
  "pool_free p object = do {
     free \<leftarrow> pool_push (pool_free_objects p) object;
     Some (p\<lparr>pool_free_objects := free, pool_allocated := pool_allocated p - 1\<rparr>) }"

section \<open>Invariant\<close>

text \<open>
  \<open>live\<close> are the objects handed out. Every object slot of every chunk is either live or
  free, the free stack has no duplicates, and no two chunks overlap in memory.
\<close>

definition chunk_slots :: "size_t \<Rightarrow> address \<Rightarrow> address list" where
  "chunk_slots sz c = map (\<lambda>i. list_item_object c + of_nat i * sz) [0..<POOL_CHUNK_SIZE]"

definition chunk_end :: "size_t \<Rightarrow> address \<Rightarrow> nat" where
  "chunk_end sz c = unat c + 16 + POOL_CHUNK_SIZE * unat sz"

definition chunks_apart :: "size_t \<Rightarrow> address list \<Rightarrow> bool" where
  "chunks_apart sz xs \<longleftrightarrow> (\<forall>c\<in>set xs. chunk_end sz c \<le> 2 ^ 64) \<and>
     (\<forall>c\<in>set xs. \<forall>d\<in>set xs. c \<noteq> d \<longrightarrow> chunk_end sz c \<le> unat d \<or> chunk_end sz d \<le> unat c)"

definition pool_inv :: "list_heap \<Rightarrow> pool \<Rightarrow> address set \<Rightarrow> bool" where
  "pool_inv h p live \<longleftrightarrow>
     (\<exists>xs free. ring h (pool_chunks p) xs \<and> 0 < pool_object_size p \<and> chunks_apart (pool_object_size p) xs \<and>
        vec_object_size (pool_free_objects p) = 8 \<and> vector_holds (pool_free_objects p) (map word_cells free) \<and>
        distinct free \<and> set free \<inter> live = {} \<and> finite live \<and>
        set free \<union> live = (\<Union>c\<in>set xs. set (chunk_slots (pool_object_size p) c)) \<and>
        unat (pool_allocated p) = card live)"

text \<open>
  What the allocator promises of a new chunk's address: not in use, the chunk fits below the
  top of the address space and overlaps no other. The stack stays below its size limit.
\<close>

definition fresh_chunk :: "list_heap \<Rightarrow> pool \<Rightarrow> address \<Rightarrow> bool" where
  "fresh_chunk h p new \<longleftrightarrow> new \<noteq> 0 \<and> new \<notin> dom h \<and>
     (\<forall>xs. ring h (pool_chunks p) xs \<longrightarrow>
        chunks_apart (pool_object_size p) (xs @ [new]) \<and> POOL_CHUNK_SIZE * Suc (length xs) < 2 ^ 60)"

section \<open>Lemmas\<close>

lemma pool_fill_push_all:
  "pool_fill k (of_nat i) chunk sz free =
    push_all vector_push_object free (map word_cells (map (\<lambda>i. chunk + of_nat i * sz) [i..<i + k]))"
proof (induction k arbitrary: i free)
  case (Suc k)
  have "[i..<i + Suc k] = i # [Suc i..<Suc i + k]" by (simp add: upt_rec)
  then show ?case
    using Suc [of "Suc i"]
    by (cases "vector_push_back free (Some (word_cells (chunk + of_nat i * sz)))")
      (simp_all add: pool_push_def vector_push_object_def add.commute)
qed simp

lemma chunk_slots_range:
  assumes "chunk_end sz c \<le> 2 ^ 64" "i < POOL_CHUNK_SIZE" "0 < unat sz"
  shows "unat (list_item_object c + of_nat i * sz) = unat c + 16 + i * unat sz"
    "unat c + 16 + i * unat sz + unat sz \<le> chunk_end sz c"
proof -
  have "i * unat sz + unat sz \<le> POOL_CHUNK_SIZE * unat sz"
    using assms(2) mult_le_mono1 [of "Suc i" POOL_CHUNK_SIZE "unat sz"] by simp
  then show le: "unat c + 16 + i * unat sz + unat sz \<le> chunk_end sz c"
    by (simp add: chunk_end_def)
  have i: "unat (of_nat i :: size_t) = i" using assms(2) by (simp add: POOL_CHUNK_SIZE_def)
  show "unat (list_item_object c + of_nat i * sz) = unat c + 16 + i * unat sz"
  proof -
    have "unat c + 16 + i * unat sz < 2 ^ 64" using le assms(1,3) by linarith
    then show ?thesis unfolding list_item_object_def
      using i by (simp add: unat_add64 unat_mult64)
  qed
qed


lemma chunk_slots_set:
  assumes "chunk_end sz c \<le> 2 ^ 64" "0 < unat sz"
  shows "distinct (chunk_slots sz c)" "length (chunk_slots sz c) = POOL_CHUNK_SIZE"
    "a \<in> set (chunk_slots sz c) \<Longrightarrow> unat c + 16 \<le> unat a \<and> unat a + unat sz \<le> chunk_end sz c"
    "a \<in> set (chunk_slots sz c) \<Longrightarrow> b \<in> set (chunk_slots sz c) \<Longrightarrow> a \<noteq> b \<Longrightarrow>
      unat a + unat sz \<le> unat b \<or> unat b + unat sz \<le> unat a"
proof -
  note r = chunk_slots_range [OF assms(1) _ assms(2)]
  have "inj_on (\<lambda>i. list_item_object c + of_nat i * sz) (set [0..<POOL_CHUNK_SIZE])"
  proof (rule inj_onI)
    fix i j assume "i \<in> set [0..<POOL_CHUNK_SIZE]" "j \<in> set [0..<POOL_CHUNK_SIZE]"
      "list_item_object c + of_nat i * sz = list_item_object c + of_nat j * sz"
    then have "i * unat sz = j * unat sz" using r(1) [of i] r(1) [of j] by auto
    then show "i = j" using assms(2) by simp
  qed
  then show "distinct (chunk_slots sz c)" by (simp add: chunk_slots_def distinct_map)
  show "length (chunk_slots sz c) = POOL_CHUNK_SIZE" by (simp add: chunk_slots_def)
  show "unat c + 16 \<le> unat a \<and> unat a + unat sz \<le> chunk_end sz c" if "a \<in> set (chunk_slots sz c)"
    using that r by (auto simp: chunk_slots_def)
  show "unat a + unat sz \<le> unat b \<or> unat b + unat sz \<le> unat a"
    if ab: "a \<in> set (chunk_slots sz c)" "b \<in> set (chunk_slots sz c)" "a \<noteq> b"
  proof -
    obtain i j where ij: "i < POOL_CHUNK_SIZE" "j < POOL_CHUNK_SIZE" "a = list_item_object c + of_nat i * sz"
      "b = list_item_object c + of_nat j * sz" using ab by (auto simp: chunk_slots_def)
    have "i \<noteq> j" using ab(3) ij(3,4) by blast
    then have "i < j \<or> j < i" by linarith
    then have "i * unat sz + unat sz \<le> j * unat sz \<or> j * unat sz + unat sz \<le> i * unat sz"
      using mult_le_mono1 [of "Suc i" j "unat sz"] mult_le_mono1 [of "Suc j" i "unat sz"] by auto
    then show ?thesis using r(1) [OF ij(1)] r(1) [OF ij(2)] ij by auto
  qed
qed

lemma chunks_disjoint:
  assumes "chunks_apart sz xs" "0 < unat sz" "c \<in> set xs" "d \<in> set xs" "c \<noteq> d"
    "a \<in> set (chunk_slots sz c)" "b \<in> set (chunk_slots sz d)"
  shows "unat a + unat sz \<le> unat b \<or> unat b + unat sz \<le> unat a"
proof -
  have "chunk_end sz c \<le> 2 ^ 64" "chunk_end sz d \<le> 2 ^ 64"
    "chunk_end sz c \<le> unat d \<or> chunk_end sz d \<le> unat c"
    using assms by (auto simp: chunks_apart_def)
  then show ?thesis
    using chunk_slots_set(3) [of sz c a] chunk_slots_set(3) [of sz d b] assms(2,6,7) by linarith
qed

text \<open>Two slots of the pool never share a byte.\<close>

lemma slots_apart:
  assumes "chunks_apart sz xs" "0 < unat sz" "a \<noteq> b"
    "a \<in> (\<Union>c\<in>set xs. set (chunk_slots sz c))" "b \<in> (\<Union>c\<in>set xs. set (chunk_slots sz c))"
  shows "unat a + unat sz \<le> unat b \<or> unat b + unat sz \<le> unat a"
proof -
  obtain c d where cd: "c \<in> set xs" "a \<in> set (chunk_slots sz c)" "d \<in> set xs" "b \<in> set (chunk_slots sz d)"
    using assms(4,5) by blast
  show ?thesis
  proof (cases "c = d")
    case True
    have "chunk_end sz c \<le> 2 ^ 64" using assms(1) cd(1) by (simp add: chunks_apart_def)
    then show ?thesis using chunk_slots_set(4) assms(2,3) cd True by blast
  next
    case False
    then show ?thesis using chunks_disjoint assms(1,2) cd by blast
  qed
qed

lemma card_slots:
  assumes "chunks_apart sz xs" "0 < unat sz" "distinct xs"
  shows "card (\<Union>c\<in>set xs. set (chunk_slots sz c)) = POOL_CHUNK_SIZE * length xs"
proof -
  have ends: "\<forall>c\<in>set xs. chunk_end sz c \<le> 2 ^ 64" using assms(1) by (simp add: chunks_apart_def)
  have "card (\<Union>c\<in>set xs. set (chunk_slots sz c)) = (\<Sum>c\<in>set xs. card (set (chunk_slots sz c)))"
  proof (rule card_UN_disjoint)
    show "\<forall>c\<in>set xs. \<forall>d\<in>set xs. c \<noteq> d \<longrightarrow> set (chunk_slots sz c) \<inter> set (chunk_slots sz d) = {}"
      using chunks_disjoint [OF assms(1,2)] assms(2) by fastforce
  qed simp_all
  also have "\<dots> = (\<Sum>c\<in>set xs. POOL_CHUNK_SIZE)"
    using ends chunk_slots_set(1,2) assms(2) by (intro sum.cong) (auto simp: distinct_card)
  also have "\<dots> = POOL_CHUNK_SIZE * length xs" using assms(3) by (simp add: distinct_card)
  finally show ?thesis .
qed

text \<open>Growing keeps the invariant and leaves at least one free object.\<close>

lemma pool_grow_inv:
  assumes inv: "pool_inv h p live" and fresh: "fresh_chunk h p new"
  shows "\<exists>h' p'. pool_grow h p new = Some (h', p') \<and> pool_inv h' p' live \<and> vector_size (pool_free_objects p') \<noteq> 0 \<and>
    pool_allocated p' = pool_allocated p \<and> pool_object_size p' = pool_object_size p \<and> pool_chunks p' = pool_chunks p"
proof (cases "vector_size (pool_free_objects p) = 0")
  case False
  then show ?thesis using inv by (simp add: pool_grow_def)
next
  case True
  let ?sz = "pool_object_size p" and ?l = "pool_chunks p" and ?v = "pool_free_objects p"
  obtain xs free where i: "ring h ?l xs" "0 < ?sz" "chunks_apart ?sz xs"
    "vec_object_size ?v = 8" "vector_holds ?v (map word_cells free)" "distinct free" "set free \<inter> live = {}" "finite live"
    "set free \<union> live = (\<Union>c\<in>set xs. set (chunk_slots ?sz c))" "unat (pool_allocated p) = card live"
    using inv unfolding pool_inv_def by blast
  have sz: "0 < unat ?sz" using i(2) by (simp add: word_less_nat_alt)
  have free: "free = []" using vector_holds_sizes(2) [OF i(5)] True by simp
  have apart: "chunks_apart ?sz (xs @ [new])" and new: "new \<noteq> 0" "new \<notin> dom h"
    using fresh i(1) by (auto simp: fresh_chunk_def)
  have new_end: "chunk_end ?sz new \<le> 2 ^ 64" using apart by (simp add: chunks_apart_def)
  obtain h' where h': "list_push_back h ?l None (?sz * of_nat POOL_CHUNK_SIZE) new = Some (h', list_item_object new)"
    "ring h' ?l (xs @ [new])"
    using list_push_back_ring [OF i(1) new(2,1), of None "?sz * of_nat POOL_CHUNK_SIZE"] by (auto simp: list_item_cells_def)
  have limit: "buffer_limit div 8 = 2 ^ 60" by (simp add: buffer_limit_def)
  obtain v' where v': "push_all vector_push_object ?v (map word_cells (chunk_slots ?sz new)) = Some v'"
    "vec_object_size v' = 8" "vector_holds v' (map word_cells (chunk_slots ?sz new))"
    using vector_stack.push_all_holds [of ?v 8 "[]" "map word_cells (chunk_slots ?sz new)"] i(4,5) free
    by (auto simp: limit chunk_slots_def POOL_CHUNK_SIZE_def)
  let ?p = "p\<lparr>pool_free_objects := v'\<rparr>"
  have "pool_fill POOL_CHUNK_SIZE 0 (list_item_object new) ?sz ?v = Some v'"
    using pool_fill_push_all [of POOL_CHUNK_SIZE 0 "list_item_object new" ?sz ?v] v'(1) by (simp add: chunk_slots_def)
  then have run: "pool_grow h p new = Some (h', ?p)" using True h'(1) by (simp add: pool_grow_def)
  have "set (chunk_slots ?sz new) \<inter> live = {}"
  proof -
    have "new \<notin> set xs" using ring_dom [OF i(1)] new(2) by auto
    then have "set (chunk_slots ?sz new) \<inter> set (chunk_slots ?sz c) = {}" if "c \<in> set xs" for c
      using chunks_disjoint [OF apart sz, of new c] sz that by fastforce
    then show ?thesis using i(9) free by auto
  qed
  then have "pool_inv h' ?p live"
    unfolding pool_inv_def
    using h'(2) i(2,8,9,10) apart v'(2,3) chunk_slots_set(1) [OF new_end sz] free
    by (intro exI [of _ "xs @ [new]"] exI [of _ "chunk_slots ?sz new"]) auto
  moreover have "unat (vector_size v') = POOL_CHUNK_SIZE"
    using vector_holds_sizes(2) [OF v'(3)] by (simp add: chunk_slots_def)
  then have "vector_size v' \<noteq> 0" by (auto simp: POOL_CHUNK_SIZE_def)
  ultimately show ?thesis using run by auto
qed

text \<open>Allocation from a pool that has a free object.\<close>

lemma pool_take:
  assumes inv: "pool_inv h p live" and spare: "vector_size (pool_free_objects p) \<noteq> 0"
  shows "\<exists>p' a. pool_malloc h p new = Some (h, p', a) \<and> a \<notin> live \<and> pool_inv h p' (insert a live) \<and>
    pool_object_size p' = pool_object_size p \<and> pool_chunks p' = pool_chunks p \<and>
    unat (pool_size p') = Suc (unat (pool_size p)) \<and>
    unat (vector_size (pool_free_objects p)) = Suc (unat (vector_size (pool_free_objects p')))"
proof -
  let ?sz = "pool_object_size p" and ?l = "pool_chunks p" and ?v = "pool_free_objects p"
  obtain xs free where i: "ring h ?l xs" "0 < ?sz" "chunks_apart ?sz xs"
    "vec_object_size ?v = 8" "vector_holds ?v (map word_cells free)" "distinct free" "set free \<inter> live = {}" "finite live"
    "set free \<union> live = (\<Union>c\<in>set xs. set (chunk_slots ?sz c))" "unat (pool_allocated p) = card live"
    using inv unfolding pool_inv_def by blast
  have "free \<noteq> []" using vector_holds_sizes(2) [OF i(5)] spare by (auto simp: unat_eq_0)
  then obtain rest a where fr: "free = rest @ [a]" by (metis rev_exhaust)
  then have v: "vector_holds ?v (map word_cells rest @ [word_cells a])" using i(5) by simp
  obtain v' where v': "vector_pop_back ?v None () = Some (v', ())" "vec_object_size v' = 8" "vector_holds v' (map word_cells rest)"
    using vector_pop_back_objects [OF v, of None "()"] i(4) by auto
  let ?p = "p\<lparr>pool_free_objects := v', pool_allocated := pool_allocated p + 1\<rparr>"
  have run: "pool_malloc h p new = Some (h, ?p, a)"
    using spare vector_back_at [OF v] v'(1) by (simp add: pool_malloc_def pool_grow_def)
  have a: "a \<notin> live" "a \<notin> set rest" using i(6,7) fr by auto
  have sz: "0 < unat ?sz" using i(2) by (simp add: word_less_nat_alt)
  have "card live < card (set free \<union> live)"
    using i(7,8) a fr by (intro psubset_card_mono) auto
  also have "\<dots> \<le> card (UNIV - {0 :: address})"
  proof (rule card_mono)
    have "0 \<notin> set (chunk_slots ?sz c)" if "c \<in> set xs" for c
      using chunk_slots_set(3) [of ?sz c 0] i(3) sz that by (auto simp: chunks_apart_def)
    then show "set free \<union> live \<subseteq> UNIV - {0}" unfolding i(9) by blast
  qed simp
  also have "\<dots> = 2 ^ 64 - 1" by (simp add: card_word)
  finally have "unat (pool_allocated p) + 1 < 2 ^ 64" using i(10) by simp
  then have cnt: "unat (pool_allocated p + 1) = Suc (card live)" using i(10) by (simp add: unat_Suc64)
  have "pool_inv h ?p (insert a live)"
    unfolding pool_inv_def using i v'(2,3) fr a cnt
    by (intro exI [of _ xs] exI [of _ rest]) auto
  moreover have "unat (vector_size ?v) = Suc (unat (vector_size v'))"
    using vector_holds_sizes(2) [OF i(5)] vector_holds_sizes(2) [OF v'(3)] fr by simp
  ultimately show ?thesis using run a(1) cnt i(10) by (auto simp: pool_size_def)
qed

lemma pool_grow_malloc:
  "pool_grow h p new = Some (h1, p1) \<Longrightarrow> vector_size (pool_free_objects p1) \<noteq> 0 \<Longrightarrow>
    pool_malloc h p new = pool_malloc h1 p1 new1"
  by (simp add: pool_malloc_def pool_grow_def [of h1 p1])

lemma pool_malloc_inv:
  assumes inv: "pool_inv h p live" and fresh: "fresh_chunk h p new"
  shows "\<exists>h' p' a. pool_malloc h p new = Some (h', p', a) \<and> a \<notin> live \<and> pool_inv h' p' (insert a live) \<and>
    unat (pool_size p') = Suc (unat (pool_size p)) \<and> pool_object_size p' = pool_object_size p \<and> pool_chunks p' = pool_chunks p"
proof -
  obtain h1 p1 where p1: "pool_grow h p new = Some (h1, p1)" "pool_inv h1 p1 live" "vector_size (pool_free_objects p1) \<noteq> 0"
    "pool_allocated p1 = pool_allocated p" "pool_object_size p1 = pool_object_size p" "pool_chunks p1 = pool_chunks p"
    using pool_grow_inv [OF assms] by blast
  then show ?thesis
    using pool_take [OF p1(2,3), of new] pool_grow_malloc [OF p1(1,3), of new] by (auto simp: pool_size_def)
qed

lemma pool_free_inv:
  assumes inv: "pool_inv h p live" and a: "a \<in> live" and lim: "\<forall>xs. ring h (pool_chunks p) xs \<longrightarrow> POOL_CHUNK_SIZE * length xs < 2 ^ 60"
  shows "\<exists>p'. pool_free p a = Some p' \<and> pool_inv h p' (live - {a}) \<and>
    unat (pool_size p') = unat (pool_size p) - 1 \<and> pool_object_size p' = pool_object_size p \<and> pool_chunks p' = pool_chunks p"
proof -
  let ?sz = "pool_object_size p" and ?l = "pool_chunks p" and ?v = "pool_free_objects p"
  obtain xs free where i: "ring h ?l xs" "0 < ?sz" "chunks_apart ?sz xs"
    "vec_object_size ?v = 8" "vector_holds ?v (map word_cells free)" "distinct free" "set free \<inter> live = {}" "finite live"
    "set free \<union> live = (\<Union>c\<in>set xs. set (chunk_slots ?sz c))" "unat (pool_allocated p) = card live"
    using inv unfolding pool_inv_def by blast
  have sz: "0 < unat ?sz" using i(2) by (simp add: word_less_nat_alt)
  have "length free = card (set free)" using i(6) by (simp add: distinct_card)
  also have "\<dots> \<le> card (set free \<union> live)" using i(8) by (intro card_mono) auto
  also have "\<dots> = POOL_CHUNK_SIZE * length xs"
    unfolding i(9) using i(1) by (intro card_slots [OF i(3) sz]) (simp add: ring_def)
  finally have len: "length free < 2 ^ 60" using lim i(1) by fastforce
  obtain v' where v': "vector_push_object ?v (word_cells a) = Some v'" "vec_object_size v' = 8"
    "vector_holds v' (map word_cells (free @ [a]))"
    using vector_stack.push_law [of ?v 8 "map word_cells free" "word_cells a"] i(4,5) len
    by (auto simp: buffer_limit_def)
  let ?p = "p\<lparr>pool_free_objects := v', pool_allocated := pool_allocated p - 1\<rparr>"
  have run: "pool_free p a = Some ?p"
    using v'(1) by (simp add: pool_free_def pool_push_def vector_push_object_def)
  have "0 < card live" using a i(8) by (auto simp: card_gt_0_iff)
  then have cnt: "unat (pool_allocated p - 1) = card live - 1"
    using i(10) by (subst unat_sub64) (auto simp: word_le_nat_alt)
  have "pool_inv h ?p (live - {a})"
    unfolding pool_inv_def using i v'(2,3) a cnt
    by (intro exI [of _ xs] exI [of _ "free @ [a]"]) auto
  then show ?thesis using run cnt i(10) by (auto simp: pool_size_def)
qed

lemma pool_construct_inv:
  assumes "0 < sz"
  shows "pool_inv (fst (pool_construct h l sz)) (snd (pool_construct h l sz)) {}"
  using assms list_construct_ring [of h l] vector_construct_holds [of 8]
  unfolding pool_inv_def pool_construct_def
  by (intro exI [of _ "[]"]) (simp add: chunks_apart_def vector_construct_def)

section \<open>Runs of the pool\<close>

text \<open>
  A program using a pool: it allocates (with any address the allocator may return for a new
  chunk) and frees objects it holds. \<open>live\<close> are the objects it holds.
\<close>

inductive pool_run :: "size_t \<Rightarrow> list_heap \<Rightarrow> pool \<Rightarrow> address set \<Rightarrow> bool" for sz :: size_t where
  start: "0 < sz \<Longrightarrow> pool_construct h0 l sz = (h, p) \<Longrightarrow> pool_run sz h p {}"
| malloc: "pool_run sz h p live \<Longrightarrow> fresh_chunk h p new \<Longrightarrow> pool_malloc h p new = Some (h', p', a) \<Longrightarrow>
    pool_run sz h' p' (insert a live)"
| free: "pool_run sz h p live \<Longrightarrow> a \<in> live \<Longrightarrow> \<forall>xs. ring h (pool_chunks p) xs \<longrightarrow> POOL_CHUNK_SIZE * length xs < 2 ^ 60 \<Longrightarrow>
    pool_free p a = Some p' \<Longrightarrow> pool_run sz h p' (live - {a})"

lemma pool_run_inv: "pool_run sz h p live \<Longrightarrow> pool_inv h p live \<and> pool_object_size p = sz"
proof (induction rule: pool_run.induct)
  case (start h0 l h p)
  then show ?case using pool_construct_inv [of sz h0 l] by (auto simp: pool_construct_def)
next
  case (malloc h p live new h' p' a)
  then show ?case using pool_malloc_inv [of h p live new] by auto
next
  case (free h p live a p')
  then show ?case using pool_free_inv [of h p live a] by auto
qed

lemma pool_example: "\<exists>h p. pool_run 24 h p {} \<and> fresh_chunk h p 4096 \<and> pool_chunks p = 32 \<and> h = list_construct Map.empty 32"
proof -
  let ?h = "list_construct Map.empty 32"
  obtain p where p: "pool_construct Map.empty 32 24 = (?h, p)" "pool_chunks p = 32" "pool_object_size p = 24"
    by (simp add: pool_construct_def)
  have "xs = []" if "ring ?h 32 xs" for xs
    using ring_ends(1) [OF that] that by (cases xs) (auto simp: list_construct_def get_next_def ring_def)
  then have "ring ?h 32 xs \<longleftrightarrow> xs = []" for xs using list_construct_ring by blast
  moreover have "4096 \<notin> dom ?h" by (simp add: list_construct_def)
  ultimately have "fresh_chunk ?h p 4096"
    using p by (simp add: fresh_chunk_def chunks_apart_def chunk_end_def POOL_CHUNK_SIZE_def)
  then show ?thesis using pool_run.start [OF _ p(1)] p(2) by auto
qed

section \<open>Properties\<close>



end
