(* ===== verification/Reactor.thy ===== *)
theory Reactor
  imports Pool
begin

text \<open>
  The event loop (\<^verbatim>\<open>src/reactor/reactor.c\<close>): the submission and completion rings shared with
  the kernel, the pool of users (a callback with its state) that identify the requests, the
  two vectors of callbacks to run next, and the loop.

  The kernel's \<open>io_uring_enter\<close>, the allocator and the clock are the parameters of an
  environment \<open>e\<close>; the kernel has a state of its own. A callback is a value of type \<open>'c\<close>, and
  what calling it does is the parameter \<open>invoke\<close>. The users are memory: a map from the
  addresses the pool hands out to their contents; reading a freed user is \<open>None\<close>.
\<close>

section \<open>Events and users\<close>

type_synonym reactor_t = u64
type_synonym reactor_time_t = u64

text \<open>
  A \<^verbatim>\<open>void *\<close> or an address operand is a number, or a pointer to a block of the heap, which the model
  keeps as the block itself.
\<close>

datatype operand = Number u64 | Pointer ptr

record reactor_event =
  event_state :: operand
  event_type :: int32
  event_data :: u64

definition REACTOR_CALL :: int32 where
  "REACTOR_CALL = 0"

definition REACTOR_RETURN :: int32 where
  "REACTOR_RETURN = 1"

text \<open>A callback that is not \<open>NULL\<close>: one of the program's, or the default that does nothing.\<close>

datatype 'c callback = Callback 'c | Reactor_user_callback

record 'c reactor_user =
  user_callback :: "'c callback"
  user_state :: operand

definition reactor_event_define :: "operand \<Rightarrow> int32 \<Rightarrow> u64 \<Rightarrow> reactor_event" where
  "reactor_event_define state type data = \<lparr>event_state = state, event_type = type, event_data = data\<rparr>"

definition reactor_user_define :: "'c option \<Rightarrow> operand \<Rightarrow> 'c reactor_user" where
  "reactor_user_define callback state =
     \<lparr>user_callback = (case callback of Some c \<Rightarrow> Callback c | None \<Rightarrow> Reactor_user_callback), user_state = state\<rparr>"

definition reactor_user_construct :: "'c option \<Rightarrow> operand \<Rightarrow> 'c reactor_user" where
  "reactor_user_construct callback state = reactor_user_define callback state"

definition reactor_call ::
    "('c \<Rightarrow> reactor_event \<Rightarrow> 'w \<Rightarrow> 'w option) \<Rightarrow> 'c reactor_user \<Rightarrow> int32 \<Rightarrow> u64 \<Rightarrow> 'w \<Rightarrow> 'w option" where
  "reactor_call invoke user type val w =
     (case user_callback user of
        Callback c \<Rightarrow> invoke c (reactor_event_define (user_state user) type val) w
      | Reactor_user_callback \<Rightarrow> Some w)"

section \<open>The rings\<close>

datatype opcode =
    IORING_OP_NOP | IORING_OP_READV | IORING_OP_WRITEV | IORING_OP_FSYNC | IORING_OP_POLL_ADD | IORING_OP_POLL_REMOVE
  | IORING_OP_SYNC_FILE_RANGE | IORING_OP_SENDMSG | IORING_OP_RECVMSG | IORING_OP_TIMEOUT | IORING_OP_ACCEPT
  | IORING_OP_ASYNC_CANCEL | IORING_OP_CONNECT | IORING_OP_FALLOCATE | IORING_OP_OPENAT | IORING_OP_CLOSE
  | IORING_OP_READ | IORING_OP_WRITE | IORING_OP_SEND | IORING_OP_RECV | IORING_OP_EPOLL_CTL | IORING_OP_SEND_ZC

record io_uring_sqe =
  sqe_opcode :: opcode
  sqe_fd :: int32
  sqe_off :: u64
  sqe_addr :: operand
  sqe_len :: u32
  sqe_op_flags :: u32
  sqe_user_data :: u64

text \<open>A structure expression zeroes the members it does not name.\<close>

definition sqe_zero :: io_uring_sqe where
  "sqe_zero = \<lparr>sqe_opcode = IORING_OP_NOP, sqe_fd = 0, sqe_off = 0, sqe_addr = Number 0, sqe_len = 0,
     sqe_op_flags = 0, sqe_user_data = 0\<rparr>"

record io_uring_cqe =
  cqe_user_data :: u64
  cqe_res :: int32
  cqe_flags :: u32

definition IORING_CQE_F_MORE :: u32 where
  "IORING_CQE_F_MORE = 2"

definition IORING_CQE_F_NOTIF :: u32 where
  "IORING_CQE_F_NOTIF = 8"

record reactor_ring =
  ring_size :: size_t
  ring_sqe :: "io_uring_sqe list"
  ring_sq_mask :: u32
  ring_sq_head :: u32
  ring_sq_tail :: u32
  ring_sq_array :: "u32 list"
  ring_cqe :: "io_uring_cqe list"
  ring_cq_mask :: u32
  ring_cq_head :: u32
  ring_cq_tail :: u32

text \<open>
  \<open>env_enter rg to_submit min_complete k\<close> is the system call with the kernel in state \<open>k\<close>: the
  rings afterwards and the number of submissions taken.
\<close>

record 'k reactor_env =
  env_enter :: "reactor_ring \<Rightarrow> u32 \<Rightarrow> u32 \<Rightarrow> 'k \<Rightarrow> reactor_ring \<times> u32 \<times> 'k"
  env_calloc :: "list_heap \<Rightarrow> address"
  env_clock :: "'k \<Rightarrow> u64 \<times> u64"

definition reactor_ring_flush :: "'k reactor_env \<Rightarrow> reactor_ring \<Rightarrow> 'k \<Rightarrow> (reactor_ring \<times> 'k) option" where
  "reactor_ring_flush e rg k =
     (let to_submit = ring_sq_tail rg - ring_sq_head rg
      in if ucast to_submit = ring_size rg
         then let (rg, n, k) = env_enter e rg to_submit 0 k
              in if n = to_submit then Some (rg, k) else None
         else Some (rg, k))"

text \<open>The returned pointer is an index into \<open>ring_sqe\<close>.\<close>

definition reactor_ring_sqe :: "'k reactor_env \<Rightarrow> reactor_ring \<Rightarrow> 'k \<Rightarrow> (reactor_ring \<times> 'k \<times> u32) option" where
  "reactor_ring_sqe e rg k = do {
     (rg, k) \<leftarrow> reactor_ring_flush e rg k;
     let i = ring_sq_tail rg AND ring_sq_mask rg;
     let rg = rg\<lparr>ring_sq_tail := ring_sq_tail rg + 1\<rparr>;
     (if unat i < length (ring_sq_array rg)
      then Some (rg\<lparr>ring_sq_array := (ring_sq_array rg)[unat i := i]\<rparr>, k, i) else None) }"

text \<open>The entry at an index of \<open>ring_cqe\<close>, or \<open>None\<close> for \<open>NULL\<close>.\<close>

definition reactor_ring_cqe :: "reactor_ring \<Rightarrow> reactor_ring \<times> u32 option" where
  "reactor_ring_cqe rg =
     (if ring_cq_head rg = ring_cq_tail rg then (rg, None)
      else (rg\<lparr>ring_cq_head := ring_cq_head rg + 1\<rparr>, Some (ring_cq_head rg AND ring_cq_mask rg)))"

definition reactor_ring_update ::
    "'k reactor_env \<Rightarrow> reactor_ring \<Rightarrow> bool \<Rightarrow> 'k \<Rightarrow> (reactor_ring \<times> 'k) option" where
  "reactor_ring_update e rg dont_block k =
     (let to_submit = ring_sq_tail rg - ring_sq_head rg;
          (rg, n, k) = env_enter e rg to_submit (if dont_block then 0 else 1) k
      in if n = to_submit then Some (rg, k) else None)"

section \<open>The reactor\<close>

text \<open>
  \<open>reactor_next_current\<close> tells which of the two vectors \<open>next_current\<close> points to.
  \<open>reactor_heap\<close> is the memory of the pool's chunk list, \<open>reactor_memory\<close> the users in it.
\<close>

record ('c, 'k) reactor =
  reactor_ref :: size_t
  reactor_ring_of :: reactor_ring
  reactor_users :: pool
  reactor_next_current :: bool
  reactor_next0 :: vector
  reactor_next1 :: vector
  reactor_time :: reactor_time_t
  reactor_heap :: list_heap
  reactor_memory :: "address \<rightharpoonup> 'c reactor_user"
  reactor_kernel :: 'k

definition reactor_next_vector :: "('c, 'k) reactor \<Rightarrow> bool \<Rightarrow> vector" where
  "reactor_next_vector r w = (if w then reactor_next1 r else reactor_next0 r)"

definition reactor_set_next_vector :: "('c, 'k) reactor \<Rightarrow> bool \<Rightarrow> vector \<Rightarrow> ('c, 'k) reactor" where
  "reactor_set_next_vector r w v = (if w then r\<lparr>reactor_next1 := v\<rparr> else r\<lparr>reactor_next0 := v\<rparr>)"

definition reactor_alloc_user ::
    "'k reactor_env \<Rightarrow> 'c option \<Rightarrow> operand \<Rightarrow> ('c, 'k) reactor \<Rightarrow> (('c, 'k) reactor \<times> address) option" where
  "reactor_alloc_user e callback state r = do {
     (h, p, user) \<leftarrow> pool_malloc (reactor_heap r) (reactor_users r) (env_calloc e (reactor_heap r));
     Some (r\<lparr>reactor_heap := h, reactor_users := p,
              reactor_memory := (reactor_memory r)(user \<mapsto> reactor_user_define callback state)\<rparr>, user) }"

definition reactor_free_user :: "address \<Rightarrow> ('c, 'k) reactor \<Rightarrow> ('c, 'k) reactor option" where
  "reactor_free_user user r = do {
     p \<leftarrow> pool_free (reactor_users r) user;
     Some (r\<lparr>reactor_users := p, reactor_memory := (reactor_memory r)(user := None)\<rparr>) }"

definition REACTOR_RING_SIZE :: size_t where
  "REACTOR_RING_SIZE = 4096"

definition reactor_now :: "'k reactor_env \<Rightarrow> ('c, 'k) reactor \<Rightarrow> ('c, 'k) reactor \<times> reactor_time_t" where
  "reactor_now e r =
     (let r = (if reactor_time r = 0
               then let (sec, nsec) = env_clock e (reactor_kernel r)
                    in r\<lparr>reactor_time := sec * 1000000000 + nsec\<rparr>
               else r)
      in (r, reactor_time r))"

text \<open>The assignment of a submission to the entry \<open>reactor_ring_sqe\<close> returns.\<close>

definition reactor_put_sqe ::
    "'k reactor_env \<Rightarrow> io_uring_sqe \<Rightarrow> ('c, 'k) reactor \<Rightarrow> ('c, 'k) reactor option" where
  "reactor_put_sqe e sqe r = do {
     (rg, k, i) \<leftarrow> reactor_ring_sqe e (reactor_ring_of r) (reactor_kernel r);
     (if unat i < length (ring_sqe rg)
      then Some (r\<lparr>reactor_ring_of := rg\<lparr>ring_sqe := (ring_sqe rg)[unat i := sqe]\<rparr>, reactor_kernel := k\<rparr>)
      else None) }"

text \<open>
  What the functions below share: allocate a user, fill in a submission whose user data is its
  address, return the address.
\<close>

definition reactor_submit ::
    "'k reactor_env \<Rightarrow> 'c option \<Rightarrow> operand \<Rightarrow> io_uring_sqe \<Rightarrow> ('c, 'k) reactor \<Rightarrow>
      (('c, 'k) reactor \<times> reactor_t) option" where
  "reactor_submit e callback state sqe r = do {
     (r, user) \<leftarrow> reactor_alloc_user e callback state r;
     r \<leftarrow> reactor_put_sqe e (sqe\<lparr>sqe_user_data := user\<rparr>) r;
     Some (r, user) }"

definition reactor_next ::
    "'k reactor_env \<Rightarrow> 'c option \<Rightarrow> operand \<Rightarrow> ('c, 'k) reactor \<Rightarrow> (('c, 'k) reactor \<times> reactor_t) option" where
  "reactor_next e callback state r = do {
     (r, ident) \<leftarrow> reactor_alloc_user e callback state r;
     v \<leftarrow> vector_push_back (reactor_next_vector r (reactor_next_current r)) (Some (word_cells ident));
     Some (reactor_set_next_vector r (reactor_next_current r) v, ident OR 1) }"

definition reactor_async_cancel ::
    "'k reactor_env \<Rightarrow> 'c option \<Rightarrow> operand \<Rightarrow> u64 \<Rightarrow> ('c, 'k) reactor \<Rightarrow> (('c, 'k) reactor \<times> reactor_t) option" where
  "reactor_async_cancel e callback state user_data r =
     reactor_submit e callback state
       (sqe_zero\<lparr>sqe_opcode := IORING_OP_ASYNC_CANCEL, sqe_addr := Number user_data\<rparr>) r"

definition reactor_cancel ::
    "'k reactor_env \<Rightarrow> reactor_t \<Rightarrow> 'c option \<Rightarrow> operand \<Rightarrow> ('c, 'k) reactor \<Rightarrow> ('c, 'k) reactor option" where
  "reactor_cancel e ident callback state r =
     (let user = ident AND NOT 1; not_iouring = ident AND 1
      in case reactor_memory r user of
           None \<Rightarrow> None
         | Some _ \<Rightarrow>
             (let r = r\<lparr>reactor_memory := (reactor_memory r)(user \<mapsto> reactor_user_define callback state)\<rparr>
              in if not_iouring = 0 then map_option fst (reactor_async_cancel e None (Number 0) user r) else Some r))"

section \<open>Requests\<close>

definition reactor_nop where
  "reactor_nop e callback state r = reactor_submit e callback state (sqe_zero\<lparr>sqe_opcode := IORING_OP_NOP\<rparr>) r"

definition reactor_readv where
  "reactor_readv e callback state fd iov iovcnt offset r =
     reactor_submit e callback state
       (sqe_zero\<lparr>sqe_fd := fd, sqe_opcode := IORING_OP_READV, sqe_addr := iov, sqe_off := offset, sqe_len := iovcnt\<rparr>) r"

definition reactor_writev where
  "reactor_writev e callback state fd iov iovcnt offset r =
     reactor_submit e callback state
       (sqe_zero\<lparr>sqe_fd := fd, sqe_opcode := IORING_OP_WRITEV, sqe_addr := iov, sqe_off := offset, sqe_len := iovcnt\<rparr>) r"

definition reactor_fsync where
  "reactor_fsync e callback state fd r =
     reactor_submit e callback state (sqe_zero\<lparr>sqe_fd := fd, sqe_opcode := IORING_OP_FSYNC\<rparr>) r"

definition reactor_poll_add where
  "reactor_poll_add e callback state fd (events :: u16) r =
     reactor_submit e callback state
       (sqe_zero\<lparr>sqe_fd := fd, sqe_opcode := IORING_OP_POLL_ADD, sqe_op_flags := ucast events\<rparr>) r"

definition IORING_POLL_ADD_MULTI :: u32 where
  "IORING_POLL_ADD_MULTI = 1"

definition IORING_POLL_UPDATE_EVENTS :: u32 where
  "IORING_POLL_UPDATE_EVENTS = 2"

definition reactor_poll_add_multi where
  "reactor_poll_add_multi e callback state fd (events :: u16) r =
     reactor_submit e callback state
       (sqe_zero\<lparr>sqe_fd := fd, sqe_opcode := IORING_OP_POLL_ADD, sqe_op_flags := ucast events,
          sqe_len := IORING_POLL_ADD_MULTI\<rparr>) r"

definition reactor_poll_update where
  "reactor_poll_update e callback state ident (events :: u16) r =
     reactor_submit e callback state
       (sqe_zero\<lparr>sqe_opcode := IORING_OP_POLL_REMOVE, sqe_len := IORING_POLL_UPDATE_EVENTS,
          sqe_op_flags := ucast events, sqe_addr := Number ident\<rparr>) r"

definition reactor_poll_remove where
  "reactor_poll_remove e callback state ident r =
     reactor_submit e callback state (sqe_zero\<lparr>sqe_opcode := IORING_OP_POLL_REMOVE, sqe_addr := Number ident\<rparr>) r"

text \<open>\<open>off\<close> gets the \<open>int\<close> file descriptor sign-extended.\<close>

definition reactor_epoll_ctl where
  "reactor_epoll_ctl e callback state epoll_fd op (fd :: int32) event r =
     reactor_submit e callback state
       (sqe_zero\<lparr>sqe_opcode := IORING_OP_EPOLL_CTL, sqe_fd := epoll_fd, sqe_addr := event, sqe_len := op,
          sqe_off := scast fd\<rparr>) r"

text \<open>The \<open>len\<close> of an entry has 32 bits.\<close>

definition reactor_sync_file_range where
  "reactor_sync_file_range e callback state fd offset (nbytes :: u64) flags r =
     reactor_submit e callback state
       (sqe_zero\<lparr>sqe_opcode := IORING_OP_SYNC_FILE_RANGE, sqe_fd := fd, sqe_off := offset, sqe_len := ucast nbytes,
          sqe_op_flags := flags\<rparr>) r"

definition reactor_sendmsg where
  "reactor_sendmsg e callback state socket message flags r =
     reactor_submit e callback state
       (sqe_zero\<lparr>sqe_opcode := IORING_OP_SENDMSG, sqe_fd := socket, sqe_addr := message, sqe_op_flags := flags\<rparr>) r"

definition reactor_recvmsg where
  "reactor_recvmsg e callback state socket message flags r =
     reactor_submit e callback state
       (sqe_zero\<lparr>sqe_opcode := IORING_OP_RECVMSG, sqe_fd := socket, sqe_addr := message, sqe_op_flags := flags\<rparr>) r"

definition reactor_send where
  "reactor_send e callback state fd base (sz :: size_t) flags r =
     reactor_submit e callback state
       (sqe_zero\<lparr>sqe_fd := fd, sqe_opcode := IORING_OP_SEND, sqe_addr := base, sqe_op_flags := flags, sqe_len := ucast sz\<rparr>) r"

definition reactor_recv where
  "reactor_recv e callback state fd base (sz :: size_t) flags r =
     reactor_submit e callback state
       (sqe_zero\<lparr>sqe_fd := fd, sqe_opcode := IORING_OP_RECV, sqe_addr := base, sqe_op_flags := flags, sqe_len := ucast sz\<rparr>) r"

definition reactor_timeout where
  "reactor_timeout e callback state tv (cnt :: int32) flags r =
     reactor_submit e callback state
       (sqe_zero\<lparr>sqe_opcode := IORING_OP_TIMEOUT, sqe_addr := tv, sqe_len := 1, sqe_off := scast cnt, sqe_op_flags := flags\<rparr>) r"

text \<open>\<open>addr2\<close> shares its place with \<open>off\<close>.\<close>

definition reactor_accept where
  "reactor_accept e callback state fd addr addrlen flags r =
     reactor_submit e callback state
       (sqe_zero\<lparr>sqe_fd := fd, sqe_opcode := IORING_OP_ACCEPT, sqe_addr := addr, sqe_off := addrlen, sqe_op_flags := flags\<rparr>) r"

definition reactor_read where
  "reactor_read e callback state fd base (sz :: size_t) offset r =
     reactor_submit e callback state
       (sqe_zero\<lparr>sqe_fd := fd, sqe_opcode := IORING_OP_READ, sqe_addr := base, sqe_off := offset, sqe_len := ucast sz\<rparr>) r"

definition reactor_write where
  "reactor_write e callback state fd base (sz :: size_t) offset r =
     reactor_submit e callback state
       (sqe_zero\<lparr>sqe_fd := fd, sqe_opcode := IORING_OP_WRITE, sqe_addr := base, sqe_off := offset, sqe_len := ucast sz\<rparr>) r"

definition reactor_connect where
  "reactor_connect e callback state fd addr (addrlen :: u32) r =
     reactor_submit e callback state
       (sqe_zero\<lparr>sqe_fd := fd, sqe_opcode := IORING_OP_CONNECT, sqe_addr := addr, sqe_off := ucast addrlen\<rparr>) r"

definition reactor_fallocate where
  "reactor_fallocate e callback state fd mode offset len r =
     reactor_submit e callback state
       (sqe_zero\<lparr>sqe_fd := fd, sqe_opcode := IORING_OP_FALLOCATE, sqe_len := mode, sqe_off := offset, sqe_addr := Number len\<rparr>) r"

definition reactor_openat where
  "reactor_openat e callback state dfd path flags mode r =
     reactor_submit e callback state
       (sqe_zero\<lparr>sqe_fd := dfd, sqe_opcode := IORING_OP_OPENAT, sqe_addr := path, sqe_op_flags := flags, sqe_len := mode\<rparr>) r"

definition reactor_close where
  "reactor_close e callback state fd r =
     reactor_submit e callback state (sqe_zero\<lparr>sqe_fd := fd, sqe_opcode := IORING_OP_CLOSE\<rparr>) r"

definition reactor_send_zerocopy where
  "reactor_send_zerocopy e callback state fd base (sz :: size_t) flags r =
     reactor_submit e callback state
       (sqe_zero\<lparr>sqe_fd := fd, sqe_opcode := IORING_OP_SEND_ZC, sqe_addr := base, sqe_op_flags := flags, sqe_len := ucast sz\<rparr>) r"

section \<open>The loop\<close>

text \<open>A world is a reactor with the state of the rest of the program.\<close>

definition reactor_load_user :: "u64 \<Rightarrow> ('c, 'k) reactor \<times> 'w \<Rightarrow> 'c reactor_user option" where
  "reactor_load_user user w = reactor_memory (fst w) user"

text \<open>The callbacks of the vector \<open>current\<close> from index \<open>i\<close> on.\<close>

partial_function (option) reactor_run_next ::
    "('c \<Rightarrow> reactor_event \<Rightarrow> ('c, 'k) reactor \<times> 'w \<Rightarrow> (('c, 'k) reactor \<times> 'w) option) \<Rightarrow> bool \<Rightarrow> size_t \<Rightarrow>
      ('c, 'k) reactor \<times> 'w \<Rightarrow> (('c, 'k) reactor \<times> 'w) option" where
  "reactor_run_next invoke current i w =
     (if i < vector_size (reactor_next_vector (fst w) current)
      then Option.bind (vector_object (reactor_next_vector (fst w) current)
                          (vector_at (reactor_next_vector (fst w) current) i)) (\<lambda>cells.
           Option.bind (cells_word cells) (\<lambda>user.
           Option.bind (reactor_load_user user w) (\<lambda>u.
           Option.bind (reactor_call invoke u REACTOR_CALL 0 w) (\<lambda>w.
           Option.bind (reactor_free_user user (fst w)) (\<lambda>r.
           reactor_run_next invoke current (i + 1) (r, snd w))))))
      else Some w)"

declare reactor_run_next.simps [code]

text \<open>
  The completions. The entry is left to the kernel before the callback runs, and its flags are
  read again afterwards. The result is sign-extended.
\<close>

partial_function (option) reactor_run_cqe ::
    "('c \<Rightarrow> reactor_event \<Rightarrow> ('c, 'k) reactor \<times> 'w \<Rightarrow> (('c, 'k) reactor \<times> 'w) option) \<Rightarrow>
      ('c, 'k) reactor \<times> 'w \<Rightarrow> (('c, 'k) reactor \<times> 'w) option" where
  "reactor_run_cqe invoke w =
     (case reactor_ring_cqe (reactor_ring_of (fst w)) of
        (rg, None) \<Rightarrow> Some ((fst w)\<lparr>reactor_ring_of := rg\<rparr>, snd w)
      | (rg, Some i) \<Rightarrow>
          if unat i < length (ring_cqe rg)
          then (let w = ((fst w)\<lparr>reactor_ring_of := rg\<rparr>, snd w); cqe = ring_cqe rg ! unat i; user = cqe_user_data cqe
                in Option.bind
                    (if cqe_flags cqe AND IORING_CQE_F_NOTIF = 0
                     then Option.bind (reactor_load_user user w) (\<lambda>u. reactor_call invoke u REACTOR_CALL (scast (cqe_res cqe)) w)
                     else Some w)
                    (\<lambda>w. Option.bind
                       (if cqe_flags (ring_cqe (reactor_ring_of (fst w)) ! unat i) AND IORING_CQE_F_MORE = 0
                        then reactor_free_user user (fst w) else Some (fst w))
                       (\<lambda>r. reactor_run_cqe invoke (r, snd w))))
          else None)"

declare reactor_run_cqe.simps [code]

definition reactor_loop_next ::
    "('c \<Rightarrow> reactor_event \<Rightarrow> ('c, 'k) reactor \<times> 'w \<Rightarrow> (('c, 'k) reactor \<times> 'w) option) \<Rightarrow>
      ('c, 'k) reactor \<times> 'w \<Rightarrow> (('c, 'k) reactor \<times> 'w) option" where
  "reactor_loop_next invoke w =
     (let r = fst w; current = reactor_next_current r
      in if vector_size (reactor_next_vector r current) \<noteq> 0
         then Option.bind (reactor_run_next invoke current 0 (r\<lparr>reactor_time := 0, reactor_next_current := \<not> current\<rparr>, snd w))
                (\<lambda>w. Option.bind (vector_clear (reactor_next_vector (fst w) current) None ())
                  (\<lambda>(v, _). Some (reactor_set_next_vector (fst w) current v, snd w)))
         else Some w)"

definition reactor_loop_once ::
    "'k reactor_env \<Rightarrow> ('c \<Rightarrow> reactor_event \<Rightarrow> ('c, 'k) reactor \<times> 'w \<Rightarrow> (('c, 'k) reactor \<times> 'w) option) \<Rightarrow>
      ('c, 'k) reactor \<times> 'w \<Rightarrow> (('c, 'k) reactor \<times> 'w) option" where
  "reactor_loop_once e invoke w = do {
     w \<leftarrow> reactor_loop_next invoke w;
     let r = fst w;
     let next_waiting = vector_size (reactor_next_vector r (reactor_next_current r));
     (if pool_size (reactor_users r) > next_waiting
      then do {
        (rg, k) \<leftarrow> reactor_ring_update e (reactor_ring_of r) (next_waiting \<noteq> 0) (reactor_kernel r);
        reactor_run_cqe invoke (r\<lparr>reactor_time := 0, reactor_ring_of := rg, reactor_kernel := k\<rparr>, snd w) }
      else Some w) }"

partial_function (option) reactor_loop ::
    "'k reactor_env \<Rightarrow> ('c \<Rightarrow> reactor_event \<Rightarrow> ('c, 'k) reactor \<times> 'w \<Rightarrow> (('c, 'k) reactor \<times> 'w) option) \<Rightarrow>
      ('c, 'k) reactor \<times> 'w \<Rightarrow> (('c, 'k) reactor \<times> 'w) option" where
  "reactor_loop e invoke w =
     (if pool_size (reactor_users (fst w)) \<noteq> 0
      then Option.bind (reactor_loop_once e invoke w) (reactor_loop e invoke)
      else Some w)"

declare reactor_loop.simps [code]

end
