(* ===== verification/Reactor_Requests.thy ===== *)
theory Reactor_Requests
  imports Reactor
begin

text \<open>
  The submission ring, the pool of users and the requests: what each operation of
  \<^verbatim>\<open>src/reactor/reactor.c\<close> but the loop keeps of the reactor's invariant, and what it adds to
  the users and to the entries pending for the kernel.
\<close>

section \<open>The submission ring\<close>

definition sq_count :: "reactor_ring \<Rightarrow> nat" where
  "sq_count rg = unat (ring_sq_tail rg - ring_sq_head rg)"

definition sq_slot :: "reactor_ring \<Rightarrow> nat \<Rightarrow> nat" where
  "sq_slot rg i = unat ((ring_sq_head rg + of_nat i) AND ring_sq_mask rg)"

definition ring_pending :: "reactor_ring \<Rightarrow> io_uring_sqe list" where
  "ring_pending rg = map (\<lambda>i. ring_sqe rg ! unat (ring_sq_array rg ! sq_slot rg i)) [0..<sq_count rg]"

definition ring_ok :: "reactor_ring \<Rightarrow> bool" where
  "ring_ok rg \<longleftrightarrow>
     (\<exists>k<32. ring_size rg = 2 ^ k \<and> ring_sq_mask rg = mask k \<and> length (ring_sq_array rg) = 2 ^ k \<and>
        length (ring_sqe rg) = 2 ^ k \<and> sq_count rg \<le> 2 ^ k) \<and>
     (\<forall>i < sq_count rg. unat (ring_sq_array rg ! sq_slot rg i) = sq_slot rg i) \<and>
     (\<exists>k<32. ring_cq_mask rg = mask k \<and> length (ring_cqe rg) = 2 ^ k)"

text \<open>What the documentation of \<open>io_uring_enter\<close> promises of the submission ring.\<close>

definition enter_ok :: "'k reactor_env \<Rightarrow> bool" where
  "enter_ok e \<longleftrightarrow>
     (\<forall>rg m k. ring_ok rg \<longrightarrow>
        (let (rg', n, k') = env_enter e rg (ring_sq_tail rg - ring_sq_head rg) m k
         in n = ring_sq_tail rg - ring_sq_head rg \<and> ring_sq_head rg' = ring_sq_tail rg \<and>
            ring_sq_tail rg' = ring_sq_tail rg \<and> ring_ok rg' \<and> ring_size rg' = ring_size rg))"

lemma unat_and_mask32: "unat (w AND mask k :: u32) = unat w mod 2 ^ k"
proof -
  have "w AND mask k = take_bit k w" by (simp add: take_bit_eq_mask)
  then have "unat (w AND mask k) = take_bit k (unat w)" by (simp only: unsigned_take_bit_eq)
  then show ?thesis by (simp add: take_bit_eq_mod)
qed

lemma sq_slot_mod:
  assumes "ring_sq_mask rg = mask k" "k < 32" "i \<le> 2 ^ k"
  shows "sq_slot rg i = (unat (ring_sq_head rg) + i) mod 2 ^ k"
proof -
  have p: "(2::nat) ^ k < 2 ^ 32" using assms(2) by (intro power_strict_increasing) auto
  have "unat (of_nat i :: u32) = i"
    unfolding unat_of_nat by (rule mod_less) (use le_less_trans [OF assms(3) p] in simp)
  then have "unat (ring_sq_head rg + of_nat i) = (unat (ring_sq_head rg) + i) mod 2 ^ 32"
    by (simp add: unat_word_ariths)
  moreover have "(2::nat) ^ k dvd 2 ^ 32" using assms(2) by (intro le_imp_power_dvd) simp
  ultimately show ?thesis by (simp only: sq_slot_def assms(1) unat_and_mask32 mod_mod_cancel)
qed

lemma sq_slot_inj:
  assumes "ring_sq_mask rg = mask k" "k < 32" "i < 2 ^ k" "j < 2 ^ k" "sq_slot rg i = sq_slot rg j"
  shows "i = j"
proof -
  have "(unat (ring_sq_head rg) + i) mod 2 ^ k = (unat (ring_sq_head rg) + j) mod 2 ^ k"
    using assms sq_slot_mod [OF assms(1,2), of i] sq_slot_mod [OF assms(1,2), of j] by simp
  then have "i mod 2 ^ k = j mod 2 ^ k" by (simp add: nat_mod_eq_iff)
  then show ?thesis using assms(3,4) by simp
qed

lemma tail_slot: "unat (ring_sq_tail rg AND ring_sq_mask rg) = sq_slot rg (sq_count rg)"
  by (simp add: sq_slot_def sq_count_def)

text \<open>An entry put into a ring that is not full goes behind the pending ones.\<close>

lemma ring_put:
  fixes sqe :: io_uring_sqe
  assumes ok: "ring_ok rg" and room: "sq_count rg < unat (ring_size rg)"
  defines "i \<equiv> ring_sq_tail rg AND ring_sq_mask rg"
  defines "rg' \<equiv> rg\<lparr>ring_sq_tail := ring_sq_tail rg + 1, ring_sq_array := (ring_sq_array rg)[unat i := i],
     ring_sqe := (ring_sqe rg)[unat i := sqe]\<rparr>"
  shows "unat i < length (ring_sq_array rg)" "unat i < length (ring_sqe rg)" "ring_ok rg'"
    "ring_pending rg' = ring_pending rg @ [sqe]" "sq_count rg' = Suc (sq_count rg)"
proof -
  obtain k where k: "k < 32" "ring_size rg = 2 ^ k" "ring_sq_mask rg = mask k" "length (ring_sq_array rg) = 2 ^ k"
    "length (ring_sqe rg) = 2 ^ k" "sq_count rg \<le> 2 ^ k"
    using ok by (auto simp: ring_ok_def)
  have p: "(2::nat) ^ k < 2 ^ 32" using k(1) by (intro power_strict_increasing) auto
  have n: "sq_count rg < 2 ^ k" using room k(1,2) by (simp add: unat_exp64)
  have i: "unat i = sq_slot rg (sq_count rg)" by (simp add: i_def tail_slot)
  then have lt: "unat i < 2 ^ k" using sq_slot_mod [OF k(3,1)] k(6) by simp
  then show "unat i < length (ring_sq_array rg)" "unat i < length (ring_sqe rg)" using k by simp_all
  have "unat (ring_sq_tail rg - ring_sq_head rg + 1) = Suc (sq_count rg)"
    using n p by (simp add: sq_count_def unat_word_ariths)
  then show c: "sq_count rg' = Suc (sq_count rg)" by (simp add: sq_count_def rg'_def algebra_simps)
  have slot: "sq_slot rg' j = sq_slot rg j" for j by (simp add: sq_slot_def rg'_def)
  have other: "unat i \<noteq> sq_slot rg j" if "j < sq_count rg" for j
    using sq_slot_inj [OF k(3,1), of j "sq_count rg"] that n i by auto
  have arr: "\<forall>j < sq_count rg. unat (ring_sq_array rg ! sq_slot rg j) = sq_slot rg j"
    using ok by (simp add: ring_ok_def)
  have arr': "unat (ring_sq_array rg' ! sq_slot rg j) = sq_slot rg j" if "j \<le> sq_count rg" for j
  proof (cases "j = sq_count rg")
    case True
    then show ?thesis using lt k(4) i by (simp add: rg'_def)
  next
    case False
    then have "j < sq_count rg" using that by simp
    then show ?thesis using other arr by (simp add: rg'_def)
  qed
  have "\<exists>k<32. ring_cq_mask rg = mask k \<and> length (ring_cqe rg) = 2 ^ k" using ok by (simp add: ring_ok_def)
  moreover have "\<exists>k<32. ring_size rg' = 2 ^ k \<and> ring_sq_mask rg' = mask k \<and> length (ring_sq_array rg') = 2 ^ k \<and>
      length (ring_sqe rg') = 2 ^ k \<and> Suc (sq_count rg) \<le> 2 ^ k"
    using k n by (intro exI [of _ k]) (simp add: rg'_def)
  ultimately show "ring_ok rg'"
    unfolding ring_ok_def c slot using arr' by (simp add: rg'_def less_Suc_eq_le)
  have "map (\<lambda>j. ring_sqe rg' ! unat (ring_sq_array rg' ! sq_slot rg' j)) [0..<sq_count rg] = ring_pending rg"
    unfolding ring_pending_def slot using arr arr' other by (auto simp: rg'_def intro!: map_cong)
  moreover have "ring_sqe rg' ! unat (ring_sq_array rg' ! sq_slot rg' (sq_count rg)) = sqe"
    unfolding slot using arr' [of "sq_count rg"] i lt k(5) by (simp add: rg'_def)
  ultimately show "ring_pending rg' = ring_pending rg @ [sqe]" unfolding ring_pending_def c by simp
qed


text \<open>A full ring is handed to the kernel first.\<close>

definition ring_after_flush :: "'k reactor_env \<Rightarrow> reactor_ring \<Rightarrow> 'k \<Rightarrow> reactor_ring" where
  "ring_after_flush e rg k =
     (if sq_count rg = unat (ring_size rg) then fst (env_enter e rg (ring_sq_tail rg - ring_sq_head rg) 0 k) else rg)"

lemma ring_full: "ring_ok rg \<Longrightarrow> ucast (ring_sq_tail rg - ring_sq_head rg) = ring_size rg \<longleftrightarrow> sq_count rg = unat (ring_size rg)"
proof -
  have "unat (ucast (w :: u32) :: size_t) = unat w" for w
    using unsigned_less [of w, where ?'a = nat] by (simp add: unsigned_ucast_eq take_bit_nat_eq_self)
  then show ?thesis unfolding sq_count_def word_unat_eq_iff by simp
qed

lemma reactor_ring_flush_spec:
  assumes ok: "ring_ok rg" and room: "sq_count rg < unat (ring_size rg) \<or> enter_ok e"
  shows "(\<exists>k'. reactor_ring_flush e rg k = Some (ring_after_flush e rg k, k')) \<and> ring_ok (ring_after_flush e rg k) \<and>
    sq_count (ring_after_flush e rg k) < unat (ring_size (ring_after_flush e rg k)) \<and>
    ring_size (ring_after_flush e rg k) = ring_size rg"
proof -
  have le: "sq_count rg \<le> unat (ring_size rg)" "0 < unat (ring_size rg)" using ok by (auto simp: ring_ok_def unat_exp64)
  show ?thesis
  proof (cases "sq_count rg = unat (ring_size rg)")
    case True
    then have "enter_ok e" using room by simp
    moreover obtain rg' n k' where en: "env_enter e rg (ring_sq_tail rg - ring_sq_head rg) 0 k = (rg', n, k')"
      by (cases "env_enter e rg (ring_sq_tail rg - ring_sq_head rg) 0 k") auto
    ultimately have "n = ring_sq_tail rg - ring_sq_head rg \<and> ring_sq_head rg' = ring_sq_tail rg \<and>
        ring_sq_tail rg' = ring_sq_tail rg \<and> ring_ok rg' \<and> ring_size rg' = ring_size rg"
      using ok by (auto simp: enter_ok_def dest!: spec [of _ rg] spec [of _ 0] spec [of _ k])
    then show ?thesis
      using True en ring_full [OF ok] le by (simp add: ring_after_flush_def reactor_ring_flush_def Let_def sq_count_def)
  next
    case False
    then show ?thesis using ok ring_full [OF ok] le by (simp add: ring_after_flush_def reactor_ring_flush_def Let_def)
  qed
qed

lemma reactor_put_sqe_spec:
  assumes ok: "ring_ok (reactor_ring_of r)"
    and room: "sq_count (reactor_ring_of r) < unat (ring_size (reactor_ring_of r)) \<or> enter_ok e"
  shows "\<exists>rg k. reactor_put_sqe e sqe r = Some (r\<lparr>reactor_ring_of := rg, reactor_kernel := k\<rparr>) \<and> ring_ok rg \<and>
    ring_size rg = ring_size (reactor_ring_of r) \<and>
    ring_pending rg = ring_pending (ring_after_flush e (reactor_ring_of r) (reactor_kernel r)) @ [sqe] \<and>
    sq_count rg = Suc (sq_count (ring_after_flush e (reactor_ring_of r) (reactor_kernel r)))"
proof -
  let ?rg = "ring_after_flush e (reactor_ring_of r) (reactor_kernel r)"
  note fl = reactor_ring_flush_spec [OF assms, where k = "reactor_kernel r"]
  then obtain k' where k': "reactor_ring_flush e (reactor_ring_of r) (reactor_kernel r) = Some (?rg, k')" by blast
  have ok': "ring_ok ?rg" "sq_count ?rg < unat (ring_size ?rg)" "ring_size ?rg = ring_size (reactor_ring_of r)"
    using fl by blast+
  define i where "i = ring_sq_tail ?rg AND ring_sq_mask ?rg"
  define rg' where "rg' = ?rg\<lparr>ring_sq_tail := ring_sq_tail ?rg + 1, ring_sq_array := (ring_sq_array ?rg)[unat i := i],
     ring_sqe := (ring_sqe ?rg)[unat i := sqe]\<rparr>"
  note put = ring_put(1,2) [OF ok'(1,2), folded i_def] ring_put(3-5) [OF ok'(1,2), of sqe, folded i_def, folded rg'_def]
  have "reactor_put_sqe e sqe r = Some (r\<lparr>reactor_ring_of := rg', reactor_kernel := k'\<rparr>)"
    using k' put(1,2) by (simp add: reactor_put_sqe_def reactor_ring_sqe_def Let_def rg'_def flip: i_def)
  moreover have "ring_size rg' = ring_size ?rg" by (simp add: rg'_def)
  ultimately show ?thesis using put(3-5) ok'(3) by (intro exI [of _ rg'] exI [of _ k']) simp
qed

section \<open>The users\<close>

text \<open>The pool of users, with what the tagging of ids and the size of the free stack rest on.\<close>

definition users_ok :: "list_heap \<Rightarrow> pool \<Rightarrow> address set \<Rightarrow> bool" where
  "users_ok h p live \<longleftrightarrow> pool_inv h p live \<and> pool_object_size p = 16 \<and>
     (\<forall>xs. ring h (pool_chunks p) xs \<longrightarrow> POOL_CHUNK_SIZE * length xs < 2 ^ 60 \<and> (\<forall>c\<in>set xs. even (unat c)))"

definition users_spare :: "pool \<Rightarrow> nat" where
  "users_spare p = unat (vector_size (pool_free_objects p))"

lemma users_live:
  assumes "users_ok h p live"
  shows "finite live" "card live < 2 ^ 60" "a \<in> live \<Longrightarrow> a \<noteq> 0 \<and> even (unat a)" "unat (pool_size p) = card live"
proof -
  let ?sz = "pool_object_size p" and ?l = "pool_chunks p" and ?v = "pool_free_objects p"
  obtain xs free where i: "ring h ?l xs" "0 < ?sz" "chunks_apart ?sz xs"
    "vec_object_size ?v = 8" "vector_holds ?v (map word_cells free)" "distinct free" "set free \<inter> live = {}" "finite live"
    "set free \<union> live = (\<Union>c\<in>set xs. set (chunk_slots ?sz c))" "unat (pool_allocated p) = card live"
    using assms unfolding users_ok_def pool_inv_def by blast
  then show "finite live" "unat (pool_size p) = card live" by (simp_all add: pool_size_def)
  have sz: "?sz = 16" "0 < unat ?sz" using assms by (simp_all add: users_ok_def)
  have lim: "POOL_CHUNK_SIZE * length xs < 2 ^ 60" "\<forall>c\<in>set xs. even (unat c)"
    using assms i(1) by (simp_all add: users_ok_def)
  have "card live \<le> card (set free \<union> live)" using i(8) by (intro card_mono) auto
  also have "\<dots> = POOL_CHUNK_SIZE * length xs"
    unfolding i(9) using i(1) by (intro card_slots [OF i(3) sz(2)]) (simp add: ring_def)
  finally show "card live < 2 ^ 60" using lim(1) by (rule le_less_trans)
  show "a \<noteq> 0 \<and> even (unat a)" if "a \<in> live"
  proof -
    have "a \<in> (\<Union>c\<in>set xs. set (chunk_slots ?sz c))" using that unfolding i(9) [symmetric] by simp
    then obtain c where c: "c \<in> set xs" "a \<in> set (chunk_slots ?sz c)" by blast
    then have ce: "chunk_end ?sz c \<le> 2 ^ 64" using i(3) by (simp add: chunks_apart_def)
    obtain j where j: "j < POOL_CHUNK_SIZE" "a = list_item_object c + of_nat j * ?sz"
      using c(2) by (auto simp: chunk_slots_def)
    have "unat a = unat c + 16 + j * 16"
      using chunk_slots_range(1) [OF ce j(1) sz(2)] j(2) sz(1) by simp
    then show ?thesis using lim(2) c(1) by auto
  qed
qed

lemma users_take:
  assumes "users_ok h p live" "0 < users_spare p"
  shows "\<exists>p' a. pool_malloc h p new = Some (h, p', a) \<and> a \<notin> live \<and> users_ok h p' (insert a live) \<and>
    users_spare p = Suc (users_spare p')"
proof -
  have "vector_size (pool_free_objects p) \<noteq> 0" using assms(2) by (auto simp: users_spare_def)
  then show ?thesis using pool_take [of h p live new] assms by (auto simp: users_ok_def users_spare_def)
qed

definition fresh_users :: "list_heap \<Rightarrow> pool \<Rightarrow> address \<Rightarrow> bool" where
  "fresh_users h p new \<longleftrightarrow> fresh_chunk h p new \<and> even (unat new)"

lemma pool_grow_chunks:
  assumes "pool_inv h p live" "fresh_chunk h p new" "pool_grow h p new = Some (h', p')" "ring h' (pool_chunks p') ys"
  shows "\<exists>xs. ring h (pool_chunks p) xs \<and> (ys = xs \<or> ys = xs @ [new])"
proof -
  obtain xs where xs: "ring h (pool_chunks p) xs" using assms(1) by (auto simp: pool_inv_def)
  show ?thesis
  proof (cases "vector_size (pool_free_objects p) = 0")
    case True
    obtain h1 where h1: "list_push_back h (pool_chunks p) None (pool_object_size p * of_nat POOL_CHUNK_SIZE) new =
        Some (h1, list_item_object new)" "ring h1 (pool_chunks p) (xs @ [new])"
      using list_push_back_ring [OF xs, of new None "pool_object_size p * of_nat POOL_CHUNK_SIZE"] assms(2)
      by (auto simp: list_item_cells_def fresh_chunk_def)
    then have "h' = h1" "pool_chunks p' = pool_chunks p"
      using assms(3) True by (auto simp: pool_grow_def bind_eq_Some_conv)
    then have "ys = xs @ [new]" using ring_unique [of h1 "pool_chunks p" ys "xs @ [new]"] assms(4) h1(2) by simp
    then show ?thesis using xs by blast
  next
    case False
    then show ?thesis using assms(3,4) by (auto simp: pool_grow_def)
  qed
qed

lemma users_malloc:
  assumes ok: "users_ok h p live" and mem: "0 < users_spare p \<or> fresh_users h p new"
  shows "\<exists>h' p' a. pool_malloc h p new = Some (h', p', a) \<and> a \<notin> live \<and> users_ok h' p' (insert a live)"
proof (cases "0 < users_spare p")
  case True
  then show ?thesis using users_take [OF ok] by blast
next
  case False
  then have new: "fresh_chunk h p new" "even (unat new)" using mem by (auto simp: fresh_users_def)
  have inv: "pool_inv h p live" using ok by (simp add: users_ok_def)
  obtain h1 p1 where p1: "pool_grow h p new = Some (h1, p1)" "pool_inv h1 p1 live" "vector_size (pool_free_objects p1) \<noteq> 0"
    "pool_object_size p1 = pool_object_size p"
    using pool_grow_inv [OF inv new(1)] by blast
  have "users_ok h1 p1 live"
    unfolding users_ok_def
  proof (intro conjI allI impI)
    fix ys assume "ring h1 (pool_chunks p1) ys"
    then obtain xs where xs: "ring h (pool_chunks p) xs" "ys = xs \<or> ys = xs @ [new]"
      using pool_grow_chunks [OF inv new(1) p1(1)] by blast
    then show "POOL_CHUNK_SIZE * length ys < 2 ^ 60" "\<forall>c\<in>set ys. even (unat c)"
      using ok new by (auto simp: users_ok_def fresh_chunk_def)
  qed (use p1 ok in \<open>simp_all add: users_ok_def\<close>)
  moreover have "0 < users_spare p1" using p1(3) by (simp add: users_spare_def unat_gt_0)
  ultimately show ?thesis using users_take [of h1 p1 live new] pool_grow_malloc [OF p1(1,3), of new] by auto
qed

lemma users_free:
  assumes "users_ok h p live" "a \<in> live"
  shows "\<exists>p'. pool_free p a = Some p' \<and> users_ok h p' (live - {a})"
  using pool_free_inv [of h p live a] assms by (fastforce simp: users_ok_def)

section \<open>The invariant of the reactor\<close>

definition waiting_ok :: "vector \<Rightarrow> address list \<Rightarrow> bool" where
  "waiting_ok v us \<longleftrightarrow> vec_object_size v = 8 \<and> vector_holds v (map word_cells us)"

text \<open>
  \<open>waiting\<close> are the users in the vector \<open>next_current\<close> points to. The other vector is the one
  the loop is running: \<open>gone\<close> have been called and freed, \<open>running\<close> have not been called yet.
\<close>

definition reactor_inv :: "('c, 'k) reactor \<Rightarrow> address list \<Rightarrow> address list \<Rightarrow> address list \<Rightarrow> bool" where
  "reactor_inv r waiting gone running \<longleftrightarrow>
     users_ok (reactor_heap r) (reactor_users r) (dom (reactor_memory r)) \<and> ring_ok (reactor_ring_of r) \<and>
     waiting_ok (reactor_next_vector r (reactor_next_current r)) waiting \<and>
     waiting_ok (reactor_next_vector r (\<not> reactor_next_current r)) (gone @ running) \<and>
     distinct (waiting @ running) \<and> set (waiting @ running) \<subseteq> dom (reactor_memory r)"

definition can_alloc :: "'k reactor_env \<Rightarrow> ('c, 'k) reactor \<Rightarrow> bool" where
  "can_alloc e r \<longleftrightarrow> 0 < users_spare (reactor_users r) \<or>
     fresh_users (reactor_heap r) (reactor_users r) (env_calloc e (reactor_heap r))"

definition can_submit :: "'k reactor_env \<Rightarrow> ('c, 'k) reactor \<Rightarrow> bool" where
  "can_submit e r \<longleftrightarrow> can_alloc e r \<and>
     (sq_count (reactor_ring_of r) < unat (ring_size (reactor_ring_of r)) \<or> enter_ok e)"

lemma reactor_next_vector_simps [simp]:
  "reactor_next_vector (r\<lparr>reactor_heap := h\<rparr>) b = reactor_next_vector r b"
  "reactor_next_vector (r\<lparr>reactor_users := p\<rparr>) b = reactor_next_vector r b"
  "reactor_next_vector (r\<lparr>reactor_memory := m\<rparr>) b = reactor_next_vector r b"
  "reactor_next_vector (r\<lparr>reactor_ring_of := rg\<rparr>) b = reactor_next_vector r b"
  "reactor_next_vector (r\<lparr>reactor_kernel := k\<rparr>) b = reactor_next_vector r b"
  "reactor_next_vector (r\<lparr>reactor_time := t\<rparr>) b = reactor_next_vector r b"
  "reactor_next_vector (r\<lparr>reactor_next_current := c\<rparr>) b = reactor_next_vector r b"
  "reactor_next_vector (reactor_set_next_vector r c v) b = (if b = c then v else reactor_next_vector r b)"
  by (auto simp: reactor_next_vector_def reactor_set_next_vector_def)

lemma reactor_set_next_vector_simps [simp]:
  "reactor_heap (reactor_set_next_vector r c v) = reactor_heap r"
  "reactor_users (reactor_set_next_vector r c v) = reactor_users r"
  "reactor_memory (reactor_set_next_vector r c v) = reactor_memory r"
  "reactor_ring_of (reactor_set_next_vector r c v) = reactor_ring_of r"
  "reactor_kernel (reactor_set_next_vector r c v) = reactor_kernel r"
  "reactor_time (reactor_set_next_vector r c v) = reactor_time r"
  "reactor_ref (reactor_set_next_vector r c v) = reactor_ref r"
  "reactor_next_current (reactor_set_next_vector r c v) = reactor_next_current r"
  by (simp_all add: reactor_set_next_vector_def)

text \<open>The loop's own fields.\<close>

definition same_loop :: "('c, 'k) reactor \<Rightarrow> ('c, 'k) reactor \<Rightarrow> bool" where
  "same_loop r r' \<longleftrightarrow> reactor_next_current r' = reactor_next_current r \<and> reactor_next0 r' = reactor_next0 r \<and>
     reactor_next1 r' = reactor_next1 r \<and> reactor_time r' = reactor_time r \<and> reactor_ref r' = reactor_ref r"

lemma same_loop_next: "same_loop r r' \<Longrightarrow> reactor_next_vector r' b = reactor_next_vector r b"
  by (simp add: same_loop_def reactor_next_vector_def)

text \<open>What an allocation of a user does: the new user, the other users, and one free object less.\<close>

definition new_user :: "'c option \<Rightarrow> operand \<Rightarrow> ('c, 'k) reactor \<Rightarrow> address \<Rightarrow> ('c, 'k) reactor \<Rightarrow> bool" where
  "new_user callback state r a r' \<longleftrightarrow> a \<notin> dom (reactor_memory r) \<and> a \<noteq> 0 \<and> even (unat a) \<and>
     reactor_memory r' = (reactor_memory r)(a \<mapsto> reactor_user_define callback state)"

definition takes_spare :: "('c, 'k) reactor \<Rightarrow> ('c, 'k) reactor \<Rightarrow> bool" where
  "takes_spare r r' \<longleftrightarrow>
     (users_spare (reactor_users r) = 0 \<or> users_spare (reactor_users r) = Suc (users_spare (reactor_users r')))"

lemma reactor_alloc_user_spec:
  assumes inv: "reactor_inv r waiting gone running" and mem: "can_alloc e r"
  shows "\<exists>r' a. reactor_alloc_user e callback state r = Some (r', a) \<and> new_user callback state r a r' \<and>
    reactor_inv r' waiting gone running \<and> same_loop r r' \<and> takes_spare r r' \<and>
    reactor_ring_of r' = reactor_ring_of r \<and> reactor_kernel r' = reactor_kernel r"
proof -
  let ?new = "env_calloc e (reactor_heap r)"
  have ok: "users_ok (reactor_heap r) (reactor_users r) (dom (reactor_memory r))" using inv by (simp add: reactor_inv_def)
  have "\<exists>h p a. pool_malloc (reactor_heap r) (reactor_users r) ?new = Some (h, p, a) \<and> a \<notin> dom (reactor_memory r) \<and>
    users_ok h p (insert a (dom (reactor_memory r))) \<and>
    (users_spare (reactor_users r) = 0 \<or> users_spare (reactor_users r) = Suc (users_spare p))"
  proof (cases "0 < users_spare (reactor_users r)")
    case True
    then show ?thesis using users_take [OF ok True, of ?new] by blast
  next
    case False
    then show ?thesis using users_malloc [OF ok, of ?new] mem by (auto simp: can_alloc_def)
  qed
  then obtain h p a where m: "pool_malloc (reactor_heap r) (reactor_users r) ?new = Some (h, p, a)"
    "a \<notin> dom (reactor_memory r)" "users_ok h p (insert a (dom (reactor_memory r)))"
    "users_spare (reactor_users r) = 0 \<or> users_spare (reactor_users r) = Suc (users_spare p)"
    by (elim exE conjE) (rule that)
  define r' where "r' = r\<lparr>reactor_heap := h, reactor_users := p,
      reactor_memory := (reactor_memory r)(a \<mapsto> reactor_user_define callback state)\<rparr>"
  have "reactor_alloc_user e callback state r = Some (r', a)"
    using m(1) by (simp add: reactor_alloc_user_def r'_def)
  moreover have "new_user callback state r a r'"
    using m(2) users_live(3) [OF m(3), of a] by (simp add: new_user_def r'_def)
  moreover have "reactor_inv r' waiting gone running" using inv m(3) by (auto simp: reactor_inv_def r'_def)
  moreover have "same_loop r r'" "takes_spare r r'" using m(4) by (simp_all add: same_loop_def takes_spare_def r'_def)
  moreover have "reactor_ring_of r' = reactor_ring_of r" "reactor_kernel r' = reactor_kernel r" by (simp_all add: r'_def)
  ultimately show ?thesis by blast
qed

text \<open>A submission: a new user, and an entry for it behind the pending ones.\<close>

definition submitted ::
    "'k reactor_env \<Rightarrow> 'c option \<Rightarrow> operand \<Rightarrow> io_uring_sqe \<Rightarrow> ('c, 'k) reactor \<Rightarrow> reactor_t \<Rightarrow> ('c, 'k) reactor \<Rightarrow> bool" where
  "submitted e callback state sqe r ident r' \<longleftrightarrow> new_user callback state r ident r' \<and> same_loop r r' \<and>
     ring_pending (reactor_ring_of r') =
       ring_pending (ring_after_flush e (reactor_ring_of r) (reactor_kernel r)) @ [sqe\<lparr>sqe_user_data := ident\<rparr>]"

lemma reactor_submit_spec:
  assumes inv: "reactor_inv r waiting gone running" and can: "can_submit e r"
  shows "\<exists>r' ident. reactor_submit e callback state sqe r = Some (r', ident) \<and>
    submitted e callback state sqe r ident r' \<and> reactor_inv r' waiting gone running \<and> takes_spare r r' \<and>
    sq_count (reactor_ring_of r') = Suc (sq_count (ring_after_flush e (reactor_ring_of r) (reactor_kernel r))) \<and>
    ring_size (reactor_ring_of r') = ring_size (reactor_ring_of r)"
proof -
  obtain r1 a where a: "reactor_alloc_user e callback state r = Some (r1, a)" "new_user callback state r a r1"
    "reactor_inv r1 waiting gone running" "same_loop r r1" "takes_spare r r1"
    "reactor_ring_of r1 = reactor_ring_of r" "reactor_kernel r1 = reactor_kernel r"
    using reactor_alloc_user_spec [OF inv, of e callback state] can by (auto simp: can_submit_def)
  have ok: "ring_ok (reactor_ring_of r1)"
    "sq_count (reactor_ring_of r1) < unat (ring_size (reactor_ring_of r1)) \<or> enter_ok e"
    using a(3) can by (auto simp: a(6) reactor_inv_def can_submit_def)
  obtain rg k where rg: "reactor_put_sqe e (sqe\<lparr>sqe_user_data := a\<rparr>) r1 = Some (r1\<lparr>reactor_ring_of := rg, reactor_kernel := k\<rparr>)"
    "ring_ok rg" "ring_size rg = ring_size (reactor_ring_of r)"
    "ring_pending rg = ring_pending (ring_after_flush e (reactor_ring_of r) (reactor_kernel r)) @ [sqe\<lparr>sqe_user_data := a\<rparr>]"
    "sq_count rg = Suc (sq_count (ring_after_flush e (reactor_ring_of r) (reactor_kernel r)))"
    using reactor_put_sqe_spec [OF ok, of "sqe\<lparr>sqe_user_data := a\<rparr>"] unfolding a(6,7) by blast
  let ?r = "r1\<lparr>reactor_ring_of := rg, reactor_kernel := k\<rparr>"
  have "reactor_submit e callback state sqe r = Some (?r, a)"
    using a(1) rg(1) by (simp add: reactor_submit_def)
  moreover have "submitted e callback state sqe r a ?r" "takes_spare r ?r"
    using a(2,4,5) rg(4) by (simp_all add: submitted_def new_user_def same_loop_def takes_spare_def)
  moreover have "reactor_inv ?r waiting gone running"
    using a(3) rg(2) by (simp add: reactor_inv_def)
  ultimately show ?thesis using rg(3,5) by (intro exI [of _ ?r] exI [of _ a]) simp
qed

text \<open>With spare users and free entries neither the allocator nor the kernel is needed.\<close>

definition reactor_spare :: "('c, 'k) reactor \<Rightarrow> nat \<Rightarrow> bool" where
  "reactor_spare r n \<longleftrightarrow> n \<le> users_spare (reactor_users r) \<and>
     sq_count (reactor_ring_of r) + n \<le> unat (ring_size (reactor_ring_of r))"

lemma reactor_spare_can: "reactor_spare r (Suc n) \<Longrightarrow> can_submit e r"
  by (auto simp: reactor_spare_def can_submit_def can_alloc_def)

lemma reactor_submit_spare:
  assumes inv: "reactor_inv r waiting gone running" and sp: "reactor_spare r (Suc n)"
  shows "\<exists>r' ident. reactor_submit e callback state sqe r = Some (r', ident) \<and>
    submitted e callback state sqe r ident r' \<and> reactor_inv r' waiting gone running \<and> reactor_spare r' n \<and>
    ring_pending (reactor_ring_of r') = ring_pending (reactor_ring_of r) @ [sqe\<lparr>sqe_user_data := ident\<rparr>]"
proof -
  have "ring_after_flush e (reactor_ring_of r) (reactor_kernel r) = reactor_ring_of r"
    using sp by (auto simp: ring_after_flush_def reactor_spare_def)
  then show ?thesis
    using reactor_submit_spec [OF inv reactor_spare_can [OF sp], of e callback state sqe] sp
    by (fastforce simp: reactor_spare_def submitted_def takes_spare_def)
qed

lemma reactor_free_user_spec:
  assumes inv: "reactor_inv r waiting gone (u # running)"
  shows "\<exists>r'. reactor_free_user u r = Some r' \<and> reactor_memory r' = (reactor_memory r)(u := None) \<and>
    reactor_inv r' waiting (gone @ [u]) running \<and> reactor_ring_of r' = reactor_ring_of r"
proof -
  have ok: "users_ok (reactor_heap r) (reactor_users r) (dom (reactor_memory r))" "u \<in> dom (reactor_memory r)"
    using inv by (simp_all add: reactor_inv_def)
  obtain p where p: "pool_free (reactor_users r) u = Some p" "users_ok (reactor_heap r) p (dom (reactor_memory r) - {u})"
    using users_free [OF ok] by blast
  then show ?thesis using inv by (auto simp: reactor_free_user_def reactor_inv_def)
qed

lemma waiting_room:
  assumes "users_ok h p live" "distinct us" "set us \<subseteq> live" "waiting_ok v us"
  shows "\<exists>v'. vector_push_back v (Some (word_cells u)) = Some v' \<and> waiting_ok v' (us @ [u])"
proof -
  have "length us = card (set us)" using assms(2) by (simp add: distinct_card)
  also have "\<dots> \<le> card live" using users_live(1) [OF assms(1)] assms(3) by (intro card_mono) auto
  finally have len: "length us < 2 ^ 60" using users_live(2) [OF assms(1)] by (rule le_less_trans)
  have lim: "buffer_limit div unat (8 :: size_t) = 2 ^ 60" by (simp add: buffer_limit_def)
  show ?thesis
    using vector_stack.push_law [of v 8 "map word_cells us" "word_cells u"] assms(4) len
    unfolding lim by (auto simp: waiting_ok_def vector_push_object_def)
qed

lemma reactor_next_spec:
  assumes inv: "reactor_inv r waiting gone running" and mem: "can_alloc e r"
  shows "\<exists>r' a. reactor_next e callback state r = Some (r', a OR 1) \<and> new_user callback state r a r' \<and>
    reactor_inv r' (waiting @ [a]) gone running \<and> takes_spare r r' \<and> reactor_ring_of r' = reactor_ring_of r \<and>
    reactor_next_current r' = reactor_next_current r"
proof -
  obtain r1 a where a: "reactor_alloc_user e callback state r = Some (r1, a)" "new_user callback state r a r1"
    "reactor_inv r1 waiting gone running" "same_loop r r1" "takes_spare r r1"
    "reactor_ring_of r1 = reactor_ring_of r"
    using reactor_alloc_user_spec [OF assms, of callback state] by auto
  let ?v = "reactor_next_vector r1 (reactor_next_current r1)"
  have w: "users_ok (reactor_heap r1) (reactor_users r1) (dom (reactor_memory r1))" "distinct waiting"
    "set waiting \<subseteq> dom (reactor_memory r1)" "waiting_ok ?v waiting"
    using a(3) by (auto simp: reactor_inv_def)
  obtain v where v: "vector_push_back ?v (Some (word_cells a)) = Some v" "waiting_ok v (waiting @ [a])"
    using waiting_room [OF w] by blast
  let ?r = "reactor_set_next_vector r1 (reactor_next_current r1) v"
  have "a \<notin> set (waiting @ running)" "a \<in> dom (reactor_memory r1)"
    using inv a(2) by (auto simp: reactor_inv_def new_user_def)
  then have "reactor_inv ?r (waiting @ [a]) gone running"
    using a(3) v(2) by (auto simp: reactor_inv_def)
  moreover have "reactor_next e callback state r = Some (?r, a OR 1)"
    using a(1) v(1) by (simp add: reactor_next_def)
  moreover have "new_user callback state r a ?r" "takes_spare r ?r" "reactor_ring_of ?r = reactor_ring_of r"
    "reactor_next_current ?r = reactor_next_current r"
    using a(2,4-6) by (simp_all add: new_user_def takes_spare_def same_loop_def)
  ultimately show ?thesis by blast
qed

lemma untag:
  assumes "even (unat (a :: u64))"
  shows "a AND 1 = 0" "a AND NOT 1 = a" "(a OR 1) AND 1 = 1" "(a OR 1) AND NOT 1 = a"
proof -
  have "\<not> bit (unat a) 0" using assms by (simp add: bit_0)
  then have "\<not> bit a 0" by (simp add: bit_unsigned_iff)
  then have b: "bit a n \<Longrightarrow> 0 < n" for n by (cases n) simp_all
  show "a AND 1 = 0" "a AND NOT 1 = a" "(a OR 1) AND 1 = 1" "(a OR 1) AND NOT 1 = a"
    by (rule bit_word_eqI; auto simp: bit_and_iff bit_or_iff bit_not_iff bit_1_iff dest: b)+
qed

end
