(* ===== verification/Reactor_Loop.thy ===== *)
theory Reactor_Loop
  imports Reactor_Requests
begin

text \<open>
  Cancelling, one pass of the loop over the scheduled callbacks, and the delivery of the
  completions; the properties of \<^verbatim>\<open>src/reactor/reactor.c\<close> are at the end.
\<close>

section \<open>Cancelling\<close>

lemma reactor_cancel_spec:
  assumes inv: "reactor_inv r waiting gone running" and u: "u \<in> dom (reactor_memory r)" and can: "can_submit e r"
  shows "\<exists>r'. reactor_cancel e (u OR 1) callback state r = Some r' \<and> reactor_inv r' waiting gone running \<and>
      reactor_memory r' = (reactor_memory r)(u \<mapsto> reactor_user_define callback state) \<and>
      reactor_ring_of r' = reactor_ring_of r"
    "\<exists>r' ident. reactor_cancel e u callback state r = Some r' \<and> reactor_inv r' waiting gone running \<and>
      ident \<notin> dom (reactor_memory r) \<and>
      reactor_memory r' = (reactor_memory r)(u \<mapsto> reactor_user_define callback state, ident \<mapsto> reactor_user_define None (Number 0)) \<and>
      ring_pending (reactor_ring_of r') = ring_pending (ring_after_flush e (reactor_ring_of r) (reactor_kernel r)) @
        [sqe_zero\<lparr>sqe_opcode := IORING_OP_ASYNC_CANCEL, sqe_addr := Number u, sqe_user_data := ident\<rparr>]"
proof -
  have "users_ok (reactor_heap r) (reactor_users r) (dom (reactor_memory r))" using inv by (simp add: reactor_inv_def)
  then have "even (unat u)" using users_live(3) u by blast
  note tag = untag [OF this]
  define r1 where "r1 = r\<lparr>reactor_memory := (reactor_memory r)(u \<mapsto> reactor_user_define callback state)\<rparr>"
  have dom: "dom (reactor_memory r1) = dom (reactor_memory r)" using u by (auto simp: r1_def)
  have inv1: "reactor_inv r1 waiting gone running" using inv dom by (simp add: reactor_inv_def) (simp add: r1_def)
  obtain us where us: "reactor_memory r u = Some us" using u by blast
  show "\<exists>r'. reactor_cancel e (u OR 1) callback state r = Some r' \<and> reactor_inv r' waiting gone running \<and>
      reactor_memory r' = (reactor_memory r)(u \<mapsto> reactor_user_define callback state) \<and>
      reactor_ring_of r' = reactor_ring_of r"
    using inv1 us tag by (simp add: reactor_cancel_def Let_def flip: r1_def) (simp add: r1_def)
  have "can_submit e r1" using can by (simp add: can_submit_def can_alloc_def r1_def)
  then obtain r' ident where s: "reactor_submit e None (Number 0) (sqe_zero\<lparr>sqe_opcode := IORING_OP_ASYNC_CANCEL, sqe_addr := Number u\<rparr>) r1 = Some (r', ident)"
    "submitted e None (Number 0) (sqe_zero\<lparr>sqe_opcode := IORING_OP_ASYNC_CANCEL, sqe_addr := Number u\<rparr>) r1 ident r'"
    "reactor_inv r' waiting gone running"
    using reactor_submit_spec [OF inv1] by blast
  then have "reactor_cancel e u callback state r = Some r'"
    using us tag by (simp add: reactor_cancel_def Let_def reactor_async_cancel_def flip: r1_def)
  then show "\<exists>r' ident. reactor_cancel e u callback state r = Some r' \<and> reactor_inv r' waiting gone running \<and>
      ident \<notin> dom (reactor_memory r) \<and>
      reactor_memory r' = (reactor_memory r)(u \<mapsto> reactor_user_define callback state, ident \<mapsto> reactor_user_define None (Number 0)) \<and>
      ring_pending (reactor_ring_of r') = ring_pending (ring_after_flush e (reactor_ring_of r) (reactor_kernel r)) @
        [sqe_zero\<lparr>sqe_opcode := IORING_OP_ASYNC_CANCEL, sqe_addr := Number u, sqe_user_data := ident\<rparr>]"
    using s(2,3) unfolding submitted_def new_user_def dom by (intro exI [of _ r'] exI [of _ ident]) (simp add: r1_def)
qed

section \<open>The loop\<close>

text \<open>The call of one user, as a logging program sees it.\<close>

definition call_log :: "(address \<rightharpoonup> 'c reactor_user) \<Rightarrow> address \<Rightarrow> u64 \<Rightarrow> ('c \<times> reactor_event) list" where
  "call_log m u val =
     (case m u of None \<Rightarrow> [] | Some us \<Rightarrow>
        (case user_callback us of
           Callback c \<Rightarrow> [(c, reactor_event_define (user_state us) REACTOR_CALL val)] | Reactor_user_callback \<Rightarrow> []))"

definition same_cq :: "reactor_ring \<Rightarrow> reactor_ring \<Rightarrow> bool" where
  "same_cq rg rg' \<longleftrightarrow> ring_cqe rg' = ring_cqe rg \<and> ring_cq_mask rg' = ring_cq_mask rg \<and>
     ring_cq_head rg' = ring_cq_head rg \<and> ring_cq_tail rg' = ring_cq_tail rg"

text \<open>
  Callbacks that return, are logged, may schedule further callbacks and submit requests (the
  invariant is kept and new users may appear), and neither change the existing users nor take
  completions.
\<close>

definition well_behaved ::
    "('c \<Rightarrow> reactor_event \<Rightarrow> ('c, 'k) reactor \<times> ('c \<times> reactor_event) list \<Rightarrow>
       (('c, 'k) reactor \<times> ('c \<times> reactor_event) list) option) \<Rightarrow> bool" where
  "well_behaved invoke \<longleftrightarrow>
     (\<forall>c ev r log waiting gone running. reactor_inv r waiting gone running \<longrightarrow>
        (\<exists>r' more. invoke c ev (r, log) = Some (r', log @ [(c, ev)]) \<and>
           reactor_inv r' (waiting @ more) gone running \<and> set more \<inter> dom (reactor_memory r) = {} \<and>
           (\<forall>u\<in>dom (reactor_memory r). reactor_memory r' u = reactor_memory r u) \<and>
           reactor_next_current r' = reactor_next_current r \<and> same_cq (reactor_ring_of r) (reactor_ring_of r')))"

lemma reactor_call_logged:
  assumes "well_behaved invoke" "reactor_inv r waiting gone running" "reactor_memory r u = Some us"
  shows "\<exists>r' more. reactor_call invoke us REACTOR_CALL val (r, log) = Some (r', log @ call_log (reactor_memory r) u val) \<and>
    reactor_inv r' (waiting @ more) gone running \<and> set more \<inter> dom (reactor_memory r) = {} \<and>
    (\<forall>u\<in>dom (reactor_memory r). reactor_memory r' u = reactor_memory r u) \<and>
    reactor_next_current r' = reactor_next_current r \<and> same_cq (reactor_ring_of r) (reactor_ring_of r')"
proof (cases "user_callback us")
  case (Callback c)
  then show ?thesis
    using assms(3) assms(1) [unfolded well_behaved_def, rule_format, OF assms(2), of c
        "reactor_event_define (user_state us) REACTOR_CALL val" log]
    by (simp add: reactor_call_def call_log_def)
next
  case Reactor_user_callback
  then show ?thesis
    using assms(2,3) by (intro exI [of _ r] exI [of _ "[]"]) (simp add: reactor_call_def call_log_def same_cq_def)
qed

lemma reactor_free_other:
  assumes inv: "reactor_inv r waiting gone running" and u: "u \<in> dom (reactor_memory r)" "u \<notin> set (waiting @ running)"
  shows "\<exists>r'. reactor_free_user u r = Some r' \<and> reactor_memory r' = (reactor_memory r)(u := None) \<and>
    reactor_inv r' waiting gone running \<and> reactor_ring_of r' = reactor_ring_of r \<and>
    reactor_next_current r' = reactor_next_current r"
proof -
  have ok: "users_ok (reactor_heap r) (reactor_users r) (dom (reactor_memory r))"
    using inv by (simp add: reactor_inv_def)
  obtain p where p: "pool_free (reactor_users r) u = Some p" "users_ok (reactor_heap r) p (dom (reactor_memory r) - {u})"
    using users_free [OF ok u(1)] by blast
  then show ?thesis using inv u(2) by (auto simp: reactor_free_user_def reactor_inv_def)
qed

lemma call_log_cong: "m' u = m u \<Longrightarrow> call_log m' u val = call_log m u val"
  by (simp add: call_log_def)

lemma reactor_run_next_log:
  assumes wb: "well_behaved invoke"
  shows "reactor_inv r waiting gone running \<Longrightarrow> \<exists>r' more.
    reactor_run_next invoke (\<not> reactor_next_current r) (of_nat (length gone)) (r, log) =
      Some (r', log @ concat (map (\<lambda>u. call_log (reactor_memory r) u 0) running)) \<and>
    reactor_inv r' (waiting @ more) (gone @ running) [] \<and> reactor_next_current r' = reactor_next_current r"
proof (induction running arbitrary: r log waiting gone)
  case Nil
  let ?v = "reactor_next_vector r (\<not> reactor_next_current r)"
  have "unat (vector_size ?v) = length gone"
    using Nil.prems vector_holds_sizes(2) [of ?v "map word_cells gone"] by (simp add: reactor_inv_def waiting_ok_def)
  then have "vector_size ?v = of_nat (length gone)" by (rule unat_eq_of_nat)
  then show ?case using Nil.prems by (subst reactor_run_next.simps) (auto intro: exI [of _ "[]"])
next
  case (Cons u running)
  let ?v = "reactor_next_vector r (\<not> reactor_next_current r)" and ?i = "of_nat (length gone) :: size_t"
  have v: "vector_holds ?v (map word_cells (gone @ u # running))" "u \<in> dom (reactor_memory r)" "u \<notin> set (waiting @ running)"
    "set running \<subseteq> dom (reactor_memory r)"
    using Cons.prems by (auto simp: reactor_inv_def waiting_ok_def)
  have size: "unat (vector_size ?v) = length gone + Suc (length running)"
    using vector_holds_sizes(2) [OF v(1)] by simp
  then have i: "unat ?i = length gone" using unat_lt64 [of "vector_size ?v"] by (simp add: unat_of_nat)
  have lt: "?i < vector_size ?v" using size i by (simp add: word_less_nat_alt)
  have at: "vector_object ?v (vector_at ?v ?i) = Some (word_cells u)"
    using vector_object_at [OF v(1), of ?i] i by (simp add: nth_append)
  obtain us where us: "reactor_memory r u = Some us" using v(2) by blast
  obtain r1 more where r1: "reactor_call invoke us REACTOR_CALL 0 (r, log) = Some (r1, log @ call_log (reactor_memory r) u 0)"
    "reactor_inv r1 (waiting @ more) gone (u # running)" "set more \<inter> dom (reactor_memory r) = {}"
    "\<forall>u\<in>dom (reactor_memory r). reactor_memory r1 u = reactor_memory r u" "reactor_next_current r1 = reactor_next_current r"
    using reactor_call_logged [OF wb Cons.prems us] by blast
  obtain r2 where r2: "reactor_free_user u r1 = Some r2" "reactor_memory r2 = (reactor_memory r1)(u := None)"
    "reactor_inv r2 (waiting @ more) (gone @ [u]) running" "reactor_ring_of r2 = reactor_ring_of r1"
    using reactor_free_user_spec [OF r1(2)] by blast
  have cur: "reactor_next_current r2 = reactor_next_current r"
    using r2(1) r1(5) by (auto simp: reactor_free_user_def bind_eq_Some_conv)
  obtain r' more' where r': "reactor_run_next invoke (\<not> reactor_next_current r2) (of_nat (length (gone @ [u])))
      (r2, log @ call_log (reactor_memory r) u 0) =
      Some (r', (log @ call_log (reactor_memory r) u 0) @ concat (map (\<lambda>u. call_log (reactor_memory r2) u 0) running))"
    "reactor_inv r' ((waiting @ more) @ more') ((gone @ [u]) @ running) []" "reactor_next_current r' = reactor_next_current r2"
    using Cons.IH [OF r2(3)] by blast
  have same: "map (\<lambda>u. call_log (reactor_memory r2) u 0) running = map (\<lambda>u. call_log (reactor_memory r) u 0) running"
  proof (rule map_cong [OF refl])
    fix w assume w: "w \<in> set running"
    then have "w \<noteq> u" "w \<in> dom (reactor_memory r)" using v(3,4) by auto
    then show "call_log (reactor_memory r2) w 0 = call_log (reactor_memory r) w 0"
      using r1(4) r2(2) by (intro call_log_cong) auto
  qed
  have "reactor_run_next invoke (\<not> reactor_next_current r) ?i (r, log) =
      reactor_run_next invoke (\<not> reactor_next_current r) (?i + 1) (r2, log @ call_log (reactor_memory r) u 0)"
    using lt at us r1(1) r2(1) by (subst reactor_run_next.simps) (simp add: reactor_load_user_def)
  then show ?case
    using r'(1) [unfolded same] r'(2,3) cur by (intro exI [of _ r'] exI [of _ "more @ more'"]) (simp add: add.commute)
qed

lemma reactor_loop_next_log:
  assumes wb: "well_behaved invoke" and inv: "reactor_inv r us [] []"
  shows "\<exists>r' more. reactor_loop_next invoke (r, log) =
      Some (r', log @ concat (map (\<lambda>u. call_log (reactor_memory r) u 0) us)) \<and> reactor_inv r' more [] []"
proof -
  let ?c = "reactor_next_current r"
  let ?v = "reactor_next_vector r ?c"
  have size: "unat (vector_size ?v) = length us"
    using inv vector_holds_sizes(2) [of ?v "map word_cells us"] by (simp add: reactor_inv_def waiting_ok_def)
  show ?thesis
  proof (cases "us = []")
    case True
    then have "vector_size ?v = 0" using size by (simp add: unat_eq_0)
    then show ?thesis using True inv by (auto simp: reactor_loop_next_def Let_def)
  next
    case False
    then have ne: "vector_size ?v \<noteq> 0" using size by auto
    define r0 where "r0 = r\<lparr>reactor_time := 0, reactor_next_current := \<not> ?c\<rparr>"
    have inv0: "reactor_inv r0 [] [] us" using inv by (simp add: reactor_inv_def r0_def)
    have m: "reactor_memory r0 = reactor_memory r" "(\<not> reactor_next_current r0) = ?c" by (simp_all add: r0_def)
    obtain r1 more where r1: "reactor_run_next invoke ?c 0 (r0, log) =
        Some (r1, log @ concat (map (\<lambda>u. call_log (reactor_memory r) u 0) us))"
      "reactor_inv r1 more us []" "reactor_next_current r1 = (\<not> ?c)"
      using reactor_run_next_log [OF wb inv0, of log] unfolding m by (auto simp: r0_def)
    let ?w = "reactor_next_vector r1 ?c"
    have w: "vector_holds ?w (map word_cells us)" "vec_object_size ?w = 8"
      using r1(2,3) by (simp_all add: reactor_inv_def waiting_ok_def)
    obtain v where v: "vector_clear ?w None () = Some (v, ())" "vec_object_size v = 8" "vector_holds v []"
      using vector_clear_objects [OF w(1), of None "()"] w(2) by auto
    have "reactor_inv (reactor_set_next_vector r1 ?c v) more [] []"
      using r1(2,3) v(2,3) by (simp add: reactor_inv_def waiting_ok_def)
    moreover have "reactor_loop_next invoke (r, log) =
        Some (reactor_set_next_vector r1 ?c v, log @ concat (map (\<lambda>u. call_log (reactor_memory r) u 0) us))"
      using ne r1(1) v(1) by (simp add: reactor_loop_next_def Let_def flip: r0_def)
    ultimately show ?thesis by blast
  qed
qed


section \<open>Completions\<close>

definition completions :: "reactor_ring \<Rightarrow> io_uring_cqe list" where
  "completions rg = map (\<lambda>i. ring_cqe rg ! unat ((ring_cq_head rg + of_nat i) AND ring_cq_mask rg))
     [0..<unat (ring_cq_tail rg - ring_cq_head rg)]"

definition notification :: "io_uring_cqe \<Rightarrow> bool" where
  "notification c \<longleftrightarrow> cqe_flags c AND IORING_CQE_F_NOTIF \<noteq> 0"

definition last_of_user :: "io_uring_cqe \<Rightarrow> bool" where
  "last_of_user c \<longleftrightarrow> cqe_flags c AND IORING_CQE_F_MORE = 0"

definition cqe_log :: "(address \<rightharpoonup> 'c reactor_user) \<Rightarrow> io_uring_cqe \<Rightarrow> ('c \<times> reactor_event) list" where
  "cqe_log m c = (if notification c then [] else call_log m (cqe_user_data c) (scast (cqe_res c)))"

text \<open>
  What the kernel promises of the completions: each is for a user of a request in flight, and
  none follows a user's last one.
\<close>

fun last_once :: "io_uring_cqe list \<Rightarrow> bool" where
  "last_once [] \<longleftrightarrow> True"
| "last_once (c # cs) \<longleftrightarrow> (last_of_user c \<longrightarrow> cqe_user_data c \<notin> cqe_user_data ` set cs) \<and> last_once cs"

definition completions_ok :: "(address \<rightharpoonup> 'c reactor_user) \<Rightarrow> address set \<Rightarrow> io_uring_cqe list \<Rightarrow> bool" where
  "completions_ok m scheduled cs \<longleftrightarrow>
     (\<forall>c\<in>set cs. cqe_user_data c \<in> dom m \<and> cqe_user_data c \<notin> scheduled) \<and> last_once cs"

lemma completions_cons:
  assumes "ring_cq_head rg \<noteq> ring_cq_tail rg"
  shows "completions rg = ring_cqe rg ! unat (ring_cq_head rg AND ring_cq_mask rg) #
    completions (rg\<lparr>ring_cq_head := ring_cq_head rg + 1\<rparr>)"
proof -
  let ?n = "unat (ring_cq_tail rg - ring_cq_head rg)"
  have "ring_cq_tail rg - ring_cq_head rg \<noteq> 0" using assms by simp
  then have n: "0 < ?n" by (simp add: unat_gt_0)
  have "unat (ring_cq_tail rg - ring_cq_head rg - 1) = ?n - 1"
    using \<open>ring_cq_tail rg - ring_cq_head rg \<noteq> 0\<close> by (metis unat_minus_one)
  then have m: "unat (ring_cq_tail rg - (ring_cq_head rg + 1)) = ?n - 1" by (simp add: algebra_simps)
  have "[0..<?n] = 0 # map Suc [0..<?n - 1]" using n by (metis Suc_pred' map_Suc_upt upt_conv_Cons)
  then have "completions rg = map (\<lambda>i. ring_cqe rg ! unat ((ring_cq_head rg + of_nat i) AND ring_cq_mask rg)) (0 # map Suc [0..<?n - 1])"
    unfolding completions_def by (rule arg_cong)
  moreover have "completions (rg\<lparr>ring_cq_head := ring_cq_head rg + 1\<rparr>) =
      map (\<lambda>i. ring_cqe rg ! unat ((ring_cq_head rg + 1 + of_nat i) AND ring_cq_mask rg)) [0..<?n - 1]"
    by (simp add: completions_def m)
  ultimately show ?thesis by (simp add: comp_def add.assoc)
qed

lemma completions_same_cq: "same_cq rg rg' \<Longrightarrow> completions rg' = completions rg"
  by (simp add: completions_def same_cq_def)

lemma reactor_run_cqe_log:
  assumes wb: "well_behaved invoke"
  shows "reactor_inv r waiting [] [] \<Longrightarrow> completions (reactor_ring_of r) = cs \<Longrightarrow>
    completions_ok (reactor_memory r) (set waiting) cs \<Longrightarrow> \<exists>r' more.
    reactor_run_cqe invoke (r, log) = Some (r', log @ concat (map (cqe_log (reactor_memory r)) cs)) \<and>
    reactor_inv r' (waiting @ more) [] [] \<and> completions (reactor_ring_of r') = []"
proof (induction cs arbitrary: r log waiting)
  case Nil
  let ?rg = "reactor_ring_of r"
  have "ring_cq_head ?rg = ring_cq_tail ?rg"
    using Nil.prems(2) completions_cons [of ?rg] by (cases "ring_cq_head ?rg = ring_cq_tail ?rg") auto
  then show ?case
    using Nil.prems by (subst reactor_run_cqe.simps) (auto simp: reactor_ring_cqe_def intro: exI [of _ "[]"])
next
  case (Cons c cs)
  let ?rg = "reactor_ring_of r"
  let ?i = "ring_cq_head ?rg AND ring_cq_mask ?rg"
  define rg where "rg = ?rg\<lparr>ring_cq_head := ring_cq_head ?rg + 1\<rparr>"
  have ne: "ring_cq_head ?rg \<noteq> ring_cq_tail ?rg" using Cons.prems(2) by (auto simp: completions_def)
  have c: "c = ring_cqe rg ! unat ?i" "completions rg = cs"
    using completions_cons [OF ne] Cons.prems(2) by (simp_all add: rg_def)
  have cqe: "reactor_ring_cqe ?rg = (rg, Some ?i)" using ne by (simp add: reactor_ring_cqe_def rg_def)
  have ok: "ring_ok rg"
    using Cons.prems(1) by (simp add: reactor_inv_def ring_ok_def rg_def sq_count_def sq_slot_def)
  obtain k where k: "k < 32" "ring_cq_mask ?rg = mask k" "length (ring_cqe rg) = 2 ^ k"
    using ok by (auto simp: ring_ok_def rg_def)
  have i: "unat ?i < length (ring_cqe rg)" unfolding k(2,3) unat_and_mask32 by simp
  define r0 where "r0 = r\<lparr>reactor_ring_of := rg\<rparr>"
  have inv0: "reactor_inv r0 waiting [] []" using Cons.prems(1) ok by (simp add: reactor_inv_def r0_def)
  have r0: "reactor_memory r0 = reactor_memory r" "reactor_ring_of r0 = rg" by (simp_all add: r0_def)
  let ?u = "cqe_user_data c"
  have u: "?u \<in> dom (reactor_memory r)" "?u \<notin> set waiting" "last_of_user c \<Longrightarrow> ?u \<notin> cqe_user_data ` set cs"
    "completions_ok (reactor_memory r) (set waiting) cs"
    using Cons.prems(3) by (auto simp: completions_ok_def)
  obtain us where us: "reactor_memory r ?u = Some us" using u(1) by blast
  obtain r1 more where r1: "(if cqe_flags c AND IORING_CQE_F_NOTIF = 0
        then Option.bind (reactor_load_user ?u (r0, log)) (\<lambda>us. reactor_call invoke us REACTOR_CALL (scast (cqe_res c)) (r0, log))
        else Some (r0, log)) = Some (r1, log @ cqe_log (reactor_memory r) c)"
    "reactor_inv r1 (waiting @ more) [] []" "set more \<inter> dom (reactor_memory r) = {}"
    "\<forall>u\<in>dom (reactor_memory r). reactor_memory r1 u = reactor_memory r u" "same_cq rg (reactor_ring_of r1)"
  proof (cases "notification c")
    case True
    then show thesis
      using that [of r0 "[]"] inv0 by (simp add: notification_def cqe_log_def r0 same_cq_def)
  next
    case False
    then show thesis
      using reactor_call_logged [OF wb inv0, of ?u us "scast (cqe_res c)" log] us
      by (auto simp: notification_def cqe_log_def reactor_load_user_def r0 intro: that)
  qed
  have flags: "ring_cqe (reactor_ring_of r1) ! unat ?i = c" using r1(5) c(1) by (simp add: same_cq_def)
  have u1: "?u \<in> dom (reactor_memory r1)" using r1(4) u(1) by (auto simp: domIff)
  have nw: "?u \<notin> set (waiting @ more)" using u(1,2) r1(3) by auto
  obtain r2 where r2: "(if cqe_flags c AND IORING_CQE_F_MORE = 0 then reactor_free_user ?u r1 else Some r1) = Some r2"
    "reactor_inv r2 (waiting @ more) [] []" "reactor_ring_of r2 = reactor_ring_of r1"
    "\<forall>w. w \<noteq> ?u \<or> \<not> last_of_user c \<longrightarrow> reactor_memory r2 w = reactor_memory r1 w"
  proof (cases "last_of_user c")
    case True
    then show thesis
      using reactor_free_other [OF r1(2) u1] nw by (auto simp: last_of_user_def intro: that)
  next
    case False
    then show thesis using that [of r1] r1(2) by (simp add: last_of_user_def)
  qed
  have later: "reactor_memory r2 (cqe_user_data d) = reactor_memory r (cqe_user_data d)"
    "cqe_user_data d \<in> dom (reactor_memory r2)" "cqe_user_data d \<notin> set (waiting @ more)" if d: "d \<in> set cs" for d
  proof -
    have "cqe_user_data d \<in> dom (reactor_memory r)" "cqe_user_data d \<notin> set waiting"
      using u(4) d by (auto simp: completions_ok_def)
    moreover have "cqe_user_data d \<noteq> ?u \<or> \<not> last_of_user c" using u(3) imageI [OF d, of cqe_user_data] by auto
    then have "reactor_memory r2 (cqe_user_data d) = reactor_memory r1 (cqe_user_data d)" using r2(4) by blast
    ultimately show e: "reactor_memory r2 (cqe_user_data d) = reactor_memory r (cqe_user_data d)" using r1(4) by simp
    show "cqe_user_data d \<in> dom (reactor_memory r2)" "cqe_user_data d \<notin> set (waiting @ more)"
      using r1(3) \<open>cqe_user_data d \<in> dom (reactor_memory r)\<close> \<open>cqe_user_data d \<notin> set waiting\<close> e by (auto simp: domIff)
  qed
  have "completions_ok (reactor_memory r2) (set (waiting @ more)) cs"
    using u(4) later by (auto simp: completions_ok_def)
  moreover have "completions (reactor_ring_of r2) = cs" using completions_same_cq [OF r1(5)] c(2) r2(3) by simp
  ultimately obtain r' more' where r': "reactor_run_cqe invoke (r2, log @ cqe_log (reactor_memory r) c) =
      Some (r', (log @ cqe_log (reactor_memory r) c) @ concat (map (cqe_log (reactor_memory r2)) cs))"
    "reactor_inv r' ((waiting @ more) @ more') [] []" "completions (reactor_ring_of r') = []"
    using Cons.IH [OF r2(2)] by blast
  have same: "map (cqe_log (reactor_memory r2)) cs = map (cqe_log (reactor_memory r)) cs"
    using later(1) by (intro map_cong) (auto simp: cqe_log_def intro: call_log_cong)
  have "reactor_run_cqe invoke (r, log) = reactor_run_cqe invoke (r2, log @ cqe_log (reactor_memory r) c)"
    using r1(1) r2(1) flags
    by (cases "cqe_flags c AND IORING_CQE_F_MORE = 0"; subst reactor_run_cqe.simps)
      (simp_all add: cqe i flags Let_def flip: r0_def c(1))
  then show ?case
    using r'(1) [unfolded same] r'(2,3) by (intro exI [of _ r'] exI [of _ "more @ more'"]) simp
qed

section \<open>A reactor for the examples\<close>

lemma users_count:
  assumes "users_ok h p live" "ring h (pool_chunks p) xs"
  shows "users_spare p + card live = POOL_CHUNK_SIZE * length xs"
proof -
  let ?sz = "pool_object_size p" and ?l = "pool_chunks p" and ?v = "pool_free_objects p"
  obtain ys free where i: "ring h ?l ys" "0 < ?sz" "chunks_apart ?sz ys"
    "vector_holds ?v (map word_cells free)" "distinct free" "set free \<inter> live = {}" "finite live"
    "set free \<union> live = (\<Union>c\<in>set ys. set (chunk_slots ?sz c))"
    using assms(1) unfolding users_ok_def pool_inv_def by blast
  have ys: "ys = xs" using ring_unique [OF i(1) assms(2)] .
  have sz: "0 < unat ?sz" using i(2) by (simp add: word_less_nat_alt)
  have "card (set free \<union> live) = POOL_CHUNK_SIZE * length xs"
    unfolding i(8) using i(1) ys by (subst card_slots [OF i(3) sz]) (simp_all add: ring_def)
  moreover have "card (set free \<union> live) = length free + card live"
    using i(5-7) by (simp add: card_Un_disjoint distinct_card)
  moreover have "users_spare p = length free"
    using vector_holds_sizes(2) [OF i(4)] by (simp add: users_spare_def)
  ultimately show ?thesis by simp
qed

lemma users_example: "\<exists>h p. users_ok h p {} \<and> 128 \<le> users_spare p"
proof -
  let ?h = "list_construct Map.empty 32"
  define p where "p = snd (pool_construct Map.empty 32 16)"
  have p: "pool_construct Map.empty 32 16 = (?h, p)" "pool_chunks p = 32" "pool_object_size p = 16"
    by (simp_all add: p_def pool_construct_def)
  have ring: "ring ?h 32 xs \<longleftrightarrow> xs = []" for xs
    using ring_unique [OF _ list_construct_ring] list_construct_ring by blast
  have inv: "pool_inv ?h p {}" using pool_construct_inv [of 16 Map.empty 32] p(1) by simp
  have fresh: "fresh_chunk ?h p 4096"
    using p ring by (simp add: fresh_chunk_def chunks_apart_def chunk_end_def POOL_CHUNK_SIZE_def list_construct_def)
  obtain h1 p1 where p1: "pool_grow ?h p 4096 = Some (h1, p1)" "pool_inv h1 p1 {}" "vector_size (pool_free_objects p1) \<noteq> 0"
    "pool_object_size p1 = pool_object_size p"
    using pool_grow_inv [OF inv fresh] by blast
  have chunks: "ys = [] \<or> ys = [4096]" if "ring h1 (pool_chunks p1) ys" for ys
    using pool_grow_chunks [OF inv fresh p1(1) that] ring p(2) by auto
  have ok: "users_ok h1 p1 {}"
    unfolding users_ok_def
  proof (intro conjI allI impI)
    fix ys assume "ring h1 (pool_chunks p1) ys"
    then show "POOL_CHUNK_SIZE * length ys < 2 ^ 60" "\<forall>c\<in>set ys. even (unat c)"
      using chunks by (fastforce simp: POOL_CHUNK_SIZE_def)+
  qed (use p1 p in simp_all)
  obtain ys where ys: "ring h1 (pool_chunks p1) ys" using p1(2) by (auto simp: pool_inv_def)
  have "0 < users_spare p1" using p1(3) by (simp add: users_spare_def unat_gt_0)
  then have "128 \<le> users_spare p1"
    using users_count [OF ok ys] by (cases ys) (auto simp: POOL_CHUNK_SIZE_def)
  then show ?thesis using ok by blast
qed

definition example_ring :: reactor_ring where
  "example_ring = \<lparr>ring_size = 4096, ring_sqe = replicate 4096 sqe_zero, ring_sq_mask = 4095, ring_sq_head = 0,
     ring_sq_tail = 0, ring_sq_array = replicate 4096 0,
     ring_cqe = replicate 8192 \<lparr>cqe_user_data = 0, cqe_res = 0, cqe_flags = 0\<rparr>, ring_cq_mask = 8191, ring_cq_head = 0,
     ring_cq_tail = 0\<rparr>"

lemma example_ring_ok: "ring_ok example_ring" "sq_count example_ring = 0" "completions example_ring = []"
proof -
  show "sq_count example_ring = 0" "completions example_ring = []"
    by (simp_all add: example_ring_def sq_count_def completions_def)
  then show "ring_ok example_ring"
    unfolding ring_ok_def
    by (intro conjI exI [of _ 12] exI [of _ 13]) (simp_all add: example_ring_def mask_eq_exp_minus_1)
qed

definition idle_reactor :: "list_heap \<Rightarrow> pool \<Rightarrow> 'k \<Rightarrow> ('c, 'k) reactor" where
  "idle_reactor h p k = \<lparr>reactor_ref = 1, reactor_ring_of = example_ring, reactor_users = p, reactor_next_current = False,
     reactor_next0 = vector_construct 8, reactor_next1 = vector_construct 8, reactor_time = 0, reactor_heap = h,
     reactor_memory = Map.empty, reactor_kernel = k\<rparr>"

lemma reactor_example: "\<exists>r :: ('c, 'k) reactor. reactor_inv r [] [] [] \<and> reactor_spare r 100"
proof -
  obtain h p where "users_ok h p {}" "128 \<le> users_spare p" using users_example by blast
  then have "reactor_inv (idle_reactor h p undefined :: ('c, 'k) reactor) [] [] []"
      "reactor_spare (idle_reactor h p undefined :: ('c, 'k) reactor) 100"
    using example_ring_ok vector_construct_holds [of 8]
    by (simp_all add: reactor_inv_def reactor_spare_def idle_reactor_def reactor_next_vector_def waiting_ok_def
        vector_construct_def) (simp add: example_ring_def)
  then show ?thesis by blast
qed

text \<open>An environment the examples never call.\<close>

definition quiet_env :: "unit reactor_env" where
  "quiet_env = \<lparr>env_enter = \<lambda>rg n m k. (rg, n, k), env_calloc = \<lambda>h. 0, env_clock = \<lambda>k. (0, 0)\<rparr>"

text \<open>A program whose callbacks do nothing but be logged.\<close>

definition log_invoke ::
    "'c \<Rightarrow> reactor_event \<Rightarrow> ('c, 'k) reactor \<times> ('c \<times> reactor_event) list \<Rightarrow>
       (('c, 'k) reactor \<times> ('c \<times> reactor_event) list) option" where
  "log_invoke c ev w = Some (fst w, snd w @ [(c, ev)])"

lemma log_invoke_well_behaved: "well_behaved log_invoke"
  unfolding well_behaved_def log_invoke_def same_cq_def by (auto intro: exI [of _ "[]"])

section \<open>Properties\<close>

text \<open>
  C10: A request gets an id that is not in use, and its entry goes behind the entries not yet
  handed to the kernel, which stay as they are: also when the ring's indexes wrap, and when the
  ring is full, in which case the kernel is given it first. Stated for \<open>reactor_send\<close>; the other
  requests differ in the entry.
\<close>

theorem reactor_send_queued:
  assumes "reactor_inv r waiting [] []" "can_submit e r"
  shows "\<exists>r' ident. reactor_send e callback state fd base sz flags r = Some (r', ident) \<and>
    ident \<noteq> 0 \<and> reactor_memory r ident = None \<and>
    reactor_memory r' = (reactor_memory r)(ident \<mapsto> reactor_user_define callback state) \<and>
    ring_pending (reactor_ring_of r') = ring_pending (ring_after_flush e (reactor_ring_of r) (reactor_kernel r)) @
      [\<lparr>sqe_opcode = IORING_OP_SEND, sqe_fd = fd, sqe_off = 0, sqe_addr = base, sqe_len = ucast sz,
        sqe_op_flags = flags, sqe_user_data = ident\<rparr>] \<and>
    reactor_inv r' waiting [] []"
  using reactor_submit_spec [OF assms, of callback state
      "sqe_zero\<lparr>sqe_fd := fd, sqe_opcode := IORING_OP_SEND, sqe_addr := base, sqe_op_flags := flags, sqe_len := ucast sz\<rparr>"]
  by (auto simp: reactor_send_def submitted_def new_user_def sqe_zero_def domIff)

lemma reactor_send_queued_witness:
  "\<exists>(r :: (nat, unit) reactor) r' ident. reactor_send quiet_env (Some 7) (Number 4096) 3 (Pointer None) 0 0 r = Some (r', ident) \<and>
    reactor_memory r' ident = Some \<lparr>user_callback = Callback 7, user_state = Number 4096\<rparr>"
proof -
  obtain r :: "(nat, unit) reactor" where r: "reactor_inv r [] [] []" "reactor_spare r 100"
    using reactor_example by blast
  have "reactor_spare r (Suc 99)" using r(2) by simp
  from reactor_send_queued [OF r(1) reactor_spare_can [OF this], of quiet_env "Some 7" "Number 4096" 3 "Pointer None" 0 0]
  show ?thesis by (fastforce simp: reactor_user_define_def)
qed







end
