(* ===== verification/Handlers.thy ===== *)
theory Handlers
  imports Reactor_Loop
begin

text \<open>
  What the components on top of the event loop share: the handlers they give it, the world in which
  a handler runs, and requests submitted and cancelled on a reactor with room for them.
\<close>

section \<open>Handlers\<close>

text \<open>The library's own handlers, and the program's.\<close>

datatype 'a reactor_handler =
    Stream_recv | Stream_send | Stream_release_buffer
  | Timeout_timeout | Signal_read
  | Queue_producer_write | Queue_consumer_read | Queue_cancel
  | Server_session_stream | Server_session_next | Server_timeout
  | User 'a

text \<open>
  The world of a handler: the reactor, the memory of the object whose handler it is (\<open>None\<close> once it is
  freed), the \<open>abort\<close> variables of the handlers that have not returned, and what else there is. The
  member \<open>abort\<close> of an object is an index into these variables, or \<open>None\<close> for \<open>NULL\<close>.
\<close>

record ('o, 'a, 'k, 'w) object_world =
  object_reactor :: "('a reactor_handler, 'k) reactor"
  object_memory :: "'o option"
  object_abort :: "bool list"
  object_rest :: 'w

text \<open>A function on the reactor and the object, in a world where the object is allocated.\<close>

definition object_at ::
    "(('a reactor_handler, 'k) reactor \<times> 'o \<Rightarrow> (('a reactor_handler, 'k) reactor \<times> 'o) option) \<Rightarrow>
      ('o, 'a, 'k, 'w) object_world \<Rightarrow> ('o, 'a, 'k, 'w) object_world option" where
  "object_at f w = do {
     x \<leftarrow> object_memory w;
     (r, x) \<leftarrow> f (object_reactor w, x);
     Some (w\<lparr>object_reactor := r, object_memory := Some x\<rparr>) }"

text \<open>\<open>if (abort) *abort = true\<close>.\<close>

definition set_abort :: "nat option \<Rightarrow> ('o, 'a, 'k, 'w) object_world \<Rightarrow> ('o, 'a, 'k, 'w) object_world option" where
  "set_abort abort w =
     (case abort of
        None \<Rightarrow> Some w
      | Some i \<Rightarrow> if i < length (object_abort w) then Some (w\<lparr>object_abort := (object_abort w)[i := True]\<rparr>) else None)"

section \<open>Requests with room for them\<close>

text \<open>The invariant holds, and there are \<open>n\<close> free users and \<open>n\<close> free entries.\<close>

definition reactor_ready :: "('c, 'k) reactor \<Rightarrow> nat \<Rightarrow> bool" where
  "reactor_ready r n \<longleftrightarrow> (\<exists>waiting gone running. reactor_inv r waiting gone running) \<and> reactor_spare r n"

lemma reactor_ready_less: "reactor_ready r n \<Longrightarrow> m \<le> n \<Longrightarrow> reactor_ready r m"
  by (auto simp: reactor_ready_def reactor_spare_def)

lemma reactor_submit_ready:
  assumes "reactor_ready r (Suc n)"
  obtains r' ident where "reactor_submit e callback state sqe r = Some (r', ident)" "reactor_ready r' n"
    "submitted e callback state sqe r ident r'" "ident \<noteq> 0"
    "ring_pending (reactor_ring_of r') = ring_pending (reactor_ring_of r) @ [sqe\<lparr>sqe_user_data := ident\<rparr>]"
proof -
  obtain waiting gone running where inv: "reactor_inv r waiting gone running" and sp: "reactor_spare r (Suc n)"
    using assms by (auto simp: reactor_ready_def)
  show ?thesis
    using reactor_submit_spare [OF inv sp, of e callback state sqe]
    by (elim exE conjE) (rule that, auto simp: reactor_ready_def submitted_def new_user_def)
qed

lemma reactor_cancel_ready:
  assumes r: "reactor_ready r (Suc n)" and u: "u \<in> dom (reactor_memory r)"
  shows "\<exists>r' ident. reactor_cancel e u callback state r = Some r' \<and> reactor_ready r' n \<and> ident \<notin> dom (reactor_memory r) \<and>
    reactor_memory r' = (reactor_memory r)(u \<mapsto> reactor_user_define callback state, ident \<mapsto> reactor_user_define None (Number 0)) \<and>
    ring_pending (reactor_ring_of r') = ring_pending (reactor_ring_of r) @
      [sqe_zero\<lparr>sqe_opcode := IORING_OP_ASYNC_CANCEL, sqe_addr := Number u, sqe_user_data := ident\<rparr>]"
proof -
  obtain waiting gone running where inv: "reactor_inv r waiting gone running" and sp: "reactor_spare r (Suc n)"
    using r by (auto simp: reactor_ready_def)
  have "users_ok (reactor_heap r) (reactor_users r) (dom (reactor_memory r))" using inv by (simp add: reactor_inv_def)
  then have "even (unat u)" using users_live(3) u by blast
  note tag = untag [OF this]
  define r1 where "r1 = r\<lparr>reactor_memory := (reactor_memory r)(u \<mapsto> reactor_user_define callback state)\<rparr>"
  have dom: "dom (reactor_memory r1) = dom (reactor_memory r)" using u by (auto simp: r1_def)
  have inv1: "reactor_inv r1 waiting gone running" using inv dom by (simp add: reactor_inv_def) (simp add: r1_def)
  have sp1: "reactor_spare r1 (Suc n)" using sp by (simp add: reactor_spare_def r1_def)
  obtain us where us: "reactor_memory r u = Some us" using u by blast
  let ?sqe = "sqe_zero\<lparr>sqe_opcode := IORING_OP_ASYNC_CANCEL, sqe_addr := Number u\<rparr>"
  obtain r' ident where s: "reactor_submit e None (Number 0) ?sqe r1 = Some (r', ident)"
    "submitted e None (Number 0) ?sqe r1 ident r'" "reactor_inv r' waiting gone running" "reactor_spare r' n"
    "ring_pending (reactor_ring_of r') = ring_pending (reactor_ring_of r1) @ [?sqe\<lparr>sqe_user_data := ident\<rparr>]"
    using reactor_submit_spare [OF inv1 sp1, of e None "Number 0" ?sqe] by (elim exE conjE) (rule that)
  have "reactor_cancel e u callback state r = Some r'"
    using us tag s(1) by (simp add: reactor_cancel_def Let_def reactor_async_cancel_def flip: r1_def)
  moreover have "ident \<notin> dom (reactor_memory r)" "reactor_memory r' = (reactor_memory r1)(ident \<mapsto> reactor_user_define None (Number 0))"
    using s(2) dom by (simp_all add: submitted_def new_user_def)
  moreover have "reactor_ready r' n" using s(3,4) by (auto simp: reactor_ready_def)
  ultimately show ?thesis using s(5) by (intro exI [of _ r'] exI [of _ ident]) (simp add: r1_def)
qed

end
