(* ===== verification/Timeout.thy ===== *)
theory Timeout
  imports Handlers
begin

text \<open>
  Timers (\<^verbatim>\<open>src/reactor/timeout.c\<close>). A timer that is set has one request in the kernel, for an
  absolute time; when it completes, a periodic timer is set again before the callback is called.

  The address of the local variable \<open>time\<close> that is given to the callback is represented by the value
  of the variable, and the address of \<open>tv\<close> in a request by its contents.
\<close>

section \<open>State and operations\<close>

definition TIMEOUT_ALERT :: int32 where
  "TIMEOUT_ALERT = 0"

record 'a timeout =
  timeout_user :: "'a reactor_handler reactor_user"
  timeout_time :: reactor_time_t
  timeout_delay :: reactor_time_t
  timeout_request :: reactor_t
  timeout_tv :: "u64 \<times> u64"

type_synonym ('a, 'k) timeout_state = "('a reactor_handler, 'k) reactor \<times> 'a timeout"

definition timespec_cells :: "u64 \<times> u64 \<Rightarrow> block" where
  "timespec_cells tv = word_cells (fst tv) @ word_cells (snd tv)"

definition IORING_TIMEOUT_ABS :: u32 where
  "IORING_TIMEOUT_ABS = 1"

definition IORING_TIMEOUT_REALTIME :: u32 where
  "IORING_TIMEOUT_REALTIME = 8"

definition timeout_submit :: "'k reactor_env \<Rightarrow> operand \<Rightarrow> ('a, 'k) timeout_state \<Rightarrow> ('a, 'k) timeout_state option" where
  "timeout_submit e self rt = (case rt of (r, t) \<Rightarrow> do {
     let t = t\<lparr>timeout_tv := (timeout_time t div 1000000000, timeout_time t mod 1000000000)\<rparr>;
     (r, ident) \<leftarrow> reactor_timeout e (Some Timeout_timeout) self (Pointer (Some (timespec_cells (timeout_tv t)))) 0
       (IORING_TIMEOUT_ABS OR IORING_TIMEOUT_REALTIME) r;
     Some (r, t\<lparr>timeout_request := ident\<rparr>) })"

definition timeout_timeout ::
    "('a reactor_handler \<Rightarrow> reactor_event \<Rightarrow> ('a timeout, 'a, 'k, 'w) object_world \<Rightarrow> ('a timeout, 'a, 'k, 'w) object_world option) \<Rightarrow>
      'k reactor_env \<Rightarrow> reactor_event \<Rightarrow> ('a timeout, 'a, 'k, 'w) object_world \<Rightarrow> ('a timeout, 'a, 'k, 'w) object_world option" where
  "timeout_timeout invoke e event w = do {
     t \<leftarrow> object_memory w;
     let time = timeout_time t;
     let t = t\<lparr>timeout_request := 0\<rparr>;
     w \<leftarrow> (if timeout_delay t \<noteq> 0
          then object_at (timeout_submit e (event_state event))
                 (w\<lparr>object_memory := Some (t\<lparr>timeout_time := timeout_time t + timeout_delay t\<rparr>)\<rparr>)
          else Some (w\<lparr>object_memory := Some t\<rparr>));
     reactor_call invoke (timeout_user t) TIMEOUT_ALERT time w }"

definition timeout_construct :: "'a reactor_handler option \<Rightarrow> operand \<Rightarrow> 'a timeout" where
  "timeout_construct callback state =
     \<lparr>timeout_user = reactor_user_define callback state, timeout_time = 0, timeout_delay = 0, timeout_request = 0,
      timeout_tv = (0, 0)\<rparr>"

definition timeout_clear :: "'k reactor_env \<Rightarrow> ('a, 'k) timeout_state \<Rightarrow> ('a, 'k) timeout_state option" where
  "timeout_clear e rt = (case rt of (r, t) \<Rightarrow>
     if timeout_request t \<noteq> 0
     then do {
       r \<leftarrow> reactor_cancel e (timeout_request t) None (Number 0) r;
       Some (r, t\<lparr>timeout_request := 0\<rparr>) }
     else Some (r, t))"

definition timeout_destruct :: "'k reactor_env \<Rightarrow> ('a, 'k) timeout_state \<Rightarrow> ('a, 'k) timeout_state option" where
  "timeout_destruct e rt = timeout_clear e rt"

definition timeout_set ::
    "'k reactor_env \<Rightarrow> operand \<Rightarrow> reactor_time_t \<Rightarrow> reactor_time_t \<Rightarrow> ('a, 'k) timeout_state \<Rightarrow> ('a, 'k) timeout_state option" where
  "timeout_set e self time delay rt = do {
     (r, t) \<leftarrow> timeout_clear e rt;
     timeout_submit e self (r, t\<lparr>timeout_time := time, timeout_delay := delay\<rparr>) }"

section \<open>Requests\<close>

definition timeout_sqe :: "reactor_time_t \<Rightarrow> reactor_t \<Rightarrow> io_uring_sqe" where
  "timeout_sqe time ident = sqe_zero\<lparr>sqe_opcode := IORING_OP_TIMEOUT, sqe_len := 1, sqe_op_flags := 9,
     sqe_addr := Pointer (Some (word_cells (time div 1000000000) @ word_cells (time mod 1000000000))), sqe_user_data := ident\<rparr>"

text \<open>A timer has no request, or one that calls its handler.\<close>

definition timeout_ok :: "operand \<Rightarrow> ('a reactor_handler, 'k) reactor \<Rightarrow> 'a timeout \<Rightarrow> bool" where
  "timeout_ok self r t \<longleftrightarrow> timeout_request t = 0 \<or>
     reactor_memory r (timeout_request t) = Some (reactor_user_define (Some Timeout_timeout) self)"

lemma timeout_submit_spec:
  assumes "reactor_ready r (Suc n)"
  shows "\<exists>r' ident. timeout_submit e self (r, t) =
      Some (r', t\<lparr>timeout_tv := (timeout_time t div 1000000000, timeout_time t mod 1000000000), timeout_request := ident\<rparr>) \<and>
    ident \<noteq> 0 \<and> reactor_ready r' n \<and> new_user (Some Timeout_timeout) self r ident r' \<and>
    ring_pending (reactor_ring_of r') = ring_pending (reactor_ring_of r) @ [timeout_sqe (timeout_time t) ident]"
proof -
  let ?sqe = "timeout_sqe (timeout_time t) 0"
  obtain r' ident where s: "reactor_submit e (Some Timeout_timeout) self ?sqe r = Some (r', ident)" "reactor_ready r' n"
    "submitted e (Some Timeout_timeout) self ?sqe r ident r'" "ident \<noteq> 0"
    "ring_pending (reactor_ring_of r') = ring_pending (reactor_ring_of r) @ [?sqe\<lparr>sqe_user_data := ident\<rparr>]"
    using assms by (rule reactor_submit_ready)
  have "sqe_zero\<lparr>sqe_opcode := IORING_OP_TIMEOUT,
      sqe_addr := Pointer (Some (timespec_cells (timeout_time t div 1000000000, timeout_time t mod 1000000000))),
      sqe_len := 1, sqe_off := scast (0 :: int32), sqe_op_flags := IORING_TIMEOUT_ABS OR IORING_TIMEOUT_REALTIME\<rparr> = ?sqe"
    by (simp add: timeout_sqe_def sqe_zero_def timespec_cells_def IORING_TIMEOUT_ABS_def IORING_TIMEOUT_REALTIME_def)
  then show ?thesis using s
    by (intro exI [of _ r'] exI [of _ ident])
      (simp add: timeout_submit_def reactor_timeout_def Let_def submitted_def timeout_sqe_def)
qed

lemma timeout_clear_spec:
  assumes "reactor_ready r (Suc n)" "timeout_ok self r t"
  shows "\<exists>r' ident. timeout_clear e (r, t) = Some (r', t\<lparr>timeout_request := 0\<rparr>) \<and> reactor_ready r' n \<and>
    (timeout_request t = 0 \<longrightarrow> r' = r) \<and>
    (timeout_request t \<noteq> 0 \<longrightarrow> ident \<notin> dom (reactor_memory r) \<and>
      reactor_memory r' = (reactor_memory r)(timeout_request t \<mapsto> reactor_user_define None (Number 0), ident \<mapsto> reactor_user_define None (Number 0)) \<and>
      ring_pending (reactor_ring_of r') = ring_pending (reactor_ring_of r) @
        [sqe_zero\<lparr>sqe_opcode := IORING_OP_ASYNC_CANCEL, sqe_addr := Number (timeout_request t), sqe_user_data := ident\<rparr>])"
proof (cases "timeout_request t = 0")
  case True
  then show ?thesis using reactor_ready_less [OF assms(1), of n] by (intro exI [of _ r]) (simp add: timeout_clear_def)
next
  case False
  then have "timeout_request t \<in> dom (reactor_memory r)" using assms(2) by (auto simp: timeout_ok_def)
  from reactor_cancel_ready [OF assms(1) this, of e None "Number 0"] False show ?thesis
    by (elim exE conjE) (rule exI, rule exI, auto simp: timeout_clear_def)
qed

section \<open>Properties\<close>

text \<open>
  C18: When the request of a timer completes, a periodic timer has the next one under way before its
  callback is called: for the time one delay later, whatever the time now is, so that alerts do not
  drift. A timer without delay is off when its callback runs. The callback is told the time the
  alert was set for, and after it nothing of the timer is touched any more, so it may free the timer.
\<close>

theorem timeout_timeout_alerts:
  assumes t: "object_memory w = Some t" and r: "reactor_ready (object_reactor w) (Suc n)"
    and u: "timeout_user t = reactor_user_define (Some callback) state"
  shows "\<exists>w' t'. timeout_timeout invoke e event w = invoke callback (reactor_event_define state TIMEOUT_ALERT (timeout_time t)) w' \<and>
    object_memory w' = Some t' \<and> object_rest w' = object_rest w \<and> reactor_ready (object_reactor w') n \<and>
    timeout_ok (event_state event) (object_reactor w') t' \<and>
    (if timeout_delay t = 0 then timeout_request t' = 0 \<and> object_reactor w' = object_reactor w
     else timeout_request t' \<noteq> 0 \<and> timeout_time t' = timeout_time t + timeout_delay t \<and>
       ring_pending (reactor_ring_of (object_reactor w')) = ring_pending (reactor_ring_of (object_reactor w)) @
         [timeout_sqe (timeout_time t + timeout_delay t) (timeout_request t')])"
proof (cases "timeout_delay t = 0")
  case True
  then show ?thesis using t u reactor_ready_less [OF r, of n]
    by (intro exI [of _ "w\<lparr>object_memory := Some (t\<lparr>timeout_request := 0\<rparr>)\<rparr>"] exI [of _ "t\<lparr>timeout_request := 0\<rparr>"])
      (simp add: timeout_timeout_def timeout_ok_def reactor_call_def reactor_user_define_def)
next
  case False
  let ?t = "t\<lparr>timeout_request := 0, timeout_time := timeout_time t + timeout_delay t\<rparr>"
  obtain r' ident where s: "timeout_submit e (event_state event) (object_reactor w, ?t) =
      Some (r', ?t\<lparr>timeout_tv := (timeout_time ?t div 1000000000, timeout_time ?t mod 1000000000), timeout_request := ident\<rparr>)"
    "ident \<noteq> 0" "reactor_ready r' n" "new_user (Some Timeout_timeout) (event_state event) (object_reactor w) ident r'"
    "ring_pending (reactor_ring_of r') = ring_pending (reactor_ring_of (object_reactor w)) @ [timeout_sqe (timeout_time ?t) ident]"
    using timeout_submit_spec [OF r, of e "event_state event" ?t] by blast
  let ?t' = "?t\<lparr>timeout_tv := (timeout_time ?t div 1000000000, timeout_time ?t mod 1000000000), timeout_request := ident\<rparr>"
  show ?thesis using False t u s
    by (intro exI [of _ "w\<lparr>object_reactor := r', object_memory := Some ?t'\<rparr>"] exI [of _ ?t'])
      (simp add: timeout_timeout_def object_at_def timeout_ok_def new_user_def reactor_call_def reactor_user_define_def)
qed

lemma timeout_timeout_alerts_witness:
  "\<exists>(w :: (nat timeout, nat, unit, unit) object_world) w' t'.
    timeout_timeout (\<lambda>c event w. Some w) quiet_env (reactor_event_define (Number 64) REACTOR_CALL 0) w = Some w' \<and>
    object_memory w' = Some t' \<and> timeout_time t' = 7 \<and> timeout_request t' \<noteq> 0 \<and>
    last (ring_pending (reactor_ring_of (object_reactor w'))) = timeout_sqe 7 (timeout_request t')"
proof -
  obtain r :: "(nat reactor_handler, unit) reactor" where r: "reactor_inv r [] [] []" "reactor_spare r 100"
    using reactor_example by blast
  define t :: "nat timeout" where "t = (timeout_construct (Some (User 1)) (Number 0))\<lparr>timeout_time := 5, timeout_delay := 2\<rparr>"
  define w :: "(nat timeout, nat, unit, unit) object_world" where
    "w = \<lparr>object_reactor = r, object_memory = Some t, object_abort = [], object_rest = ()\<rparr>"
  have "reactor_ready (object_reactor w) (Suc 99)" using r by (auto simp: w_def reactor_ready_def)
  moreover have "object_memory w = Some t" "timeout_user t = reactor_user_define (Some (User 1)) (Number 0)"
    by (simp_all add: w_def t_def timeout_construct_def)
  ultimately show ?thesis
    using timeout_timeout_alerts [of w t 99 "User 1" "Number 0" "\<lambda>c event w. Some w" quiet_env "reactor_event_define (Number 64) REACTOR_CALL 0"]
    by (simp add: t_def timeout_construct_def) (elim exE conjE, intro exI [of _ w] exI conjI, assumption+, simp)
qed

text \<open>
  Setting a timer replaces what it was set to: the former request, if there is one, is cancelled
  and calls nothing any more, and exactly one request, for the new time, calls the timer.
\<close>

theorem timeout_set_replaces:
  assumes r: "reactor_ready r (Suc (Suc n))" and ok: "timeout_ok self r t"
  shows "\<exists>r' t' ident. timeout_set e self time delay (r, t) = Some (r', t') \<and> reactor_ready r' n \<and> timeout_ok self r' t' \<and>
    timeout_request t' \<noteq> 0 \<and> timeout_request t' \<noteq> timeout_request t \<and> timeout_time t' = time \<and> timeout_delay t' = delay \<and>
    (timeout_request t \<noteq> 0 \<longrightarrow> (\<forall>val. call_log (reactor_memory r') (timeout_request t) val = [])) \<and>
    ring_pending (reactor_ring_of r') = ring_pending (reactor_ring_of r) @
      (if timeout_request t \<noteq> 0
       then [sqe_zero\<lparr>sqe_opcode := IORING_OP_ASYNC_CANCEL, sqe_addr := Number (timeout_request t), sqe_user_data := ident\<rparr>] else []) @
      [timeout_sqe time (timeout_request t')]"
proof -
  obtain r1 i where c: "timeout_clear e (r, t) = Some (r1, t\<lparr>timeout_request := 0\<rparr>)" "reactor_ready r1 (Suc n)"
    "timeout_request t = 0 \<longrightarrow> r1 = r"
    "timeout_request t \<noteq> 0 \<longrightarrow> i \<notin> dom (reactor_memory r) \<and>
      reactor_memory r1 = (reactor_memory r)(timeout_request t \<mapsto> reactor_user_define None (Number 0), i \<mapsto> reactor_user_define None (Number 0)) \<and>
      ring_pending (reactor_ring_of r1) = ring_pending (reactor_ring_of r) @
        [sqe_zero\<lparr>sqe_opcode := IORING_OP_ASYNC_CANCEL, sqe_addr := Number (timeout_request t), sqe_user_data := i\<rparr>]"
    using timeout_clear_spec [OF r ok, of e] by blast
  let ?t = "t\<lparr>timeout_request := 0, timeout_time := time, timeout_delay := delay\<rparr>"
  obtain r2 j where s: "timeout_submit e self (r1, ?t) =
      Some (r2, ?t\<lparr>timeout_tv := (timeout_time ?t div 1000000000, timeout_time ?t mod 1000000000), timeout_request := j\<rparr>)"
    "j \<noteq> 0" "reactor_ready r2 n" "new_user (Some Timeout_timeout) self r1 j r2"
    "ring_pending (reactor_ring_of r2) = ring_pending (reactor_ring_of r1) @ [timeout_sqe (timeout_time ?t) j]"
    using timeout_submit_spec [OF c(2), of e self ?t] by blast
  have old: "timeout_request t \<noteq> 0 \<Longrightarrow> timeout_request t \<in> dom (reactor_memory r) \<and> timeout_request t \<noteq> i \<and> timeout_request t \<noteq> j"
    using ok c(4) s(4) by (auto simp: timeout_ok_def new_user_def)
  have j: "j \<noteq> timeout_request t" using old s(2) by (cases "timeout_request t = 0") auto
  have "call_log (reactor_memory r2) (timeout_request t) val = []" if "timeout_request t \<noteq> 0" for val
    using c(4) s(4) old [OF that] that by (auto simp: call_log_def new_user_def reactor_user_define_def)
  then show ?thesis using c s j
    by (intro exI [of _ r2] exI [of _ "?t\<lparr>timeout_tv := (timeout_time ?t div 1000000000, timeout_time ?t mod 1000000000), timeout_request := j\<rparr>"] exI [of _ i])
      (auto simp: timeout_set_def timeout_ok_def new_user_def)
qed

lemma timeout_set_replaces_witness:
  "\<exists>(r :: (nat reactor_handler, unit) reactor) t r' t'. timeout_request t \<noteq> 0 \<and>
    timeout_set quiet_env (Number 64) 9 0 (r, t) = Some (r', t') \<and>
    (\<forall>val. call_log (reactor_memory r') (timeout_request t) val = []) \<and> timeout_time t' = 9"
proof -
  obtain r0 :: "(nat reactor_handler, unit) reactor" where r0: "reactor_inv r0 [] [] []" "reactor_spare r0 100"
    using reactor_example by blast
  define t0 :: "nat timeout" where "t0 = timeout_construct (Some (User 1)) (Number 0)"
  have "reactor_ready r0 (Suc 99)" using r0 by (auto simp: reactor_ready_def)
  from timeout_submit_spec [OF this, of quiet_env "Number 64" t0] obtain r i where
    r: "reactor_ready r 99" "i \<noteq> 0" "new_user (Some Timeout_timeout) (Number 64) r0 i r" by blast
  define t where "t = t0\<lparr>timeout_request := i\<rparr>"
  have t: "reactor_ready r (Suc (Suc 97))" "timeout_request t \<noteq> 0" "timeout_ok (Number 64) r t"
    using r by (simp_all add: t_def timeout_ok_def new_user_def)
  show ?thesis using timeout_set_replaces [OF t(1,3), of quiet_env 9 0] t(2) by blast
qed

end
