(* ===== verification/Signal.thy ===== *)
theory Signal
  imports Handlers
begin

text \<open>
  Signals between threads (\<^verbatim>\<open>src/reactor/signal.c\<close>): an event counter of the kernel that is read
  into \<open>counter\<close> over and over. \<open>eventfd\<close> and \<open>write\<close> are parameters; the address of \<open>counter\<close> is
  represented by its contents, and what a completed read has stored there is part of the world in
  which the handler runs.
\<close>

section \<open>State and operations\<close>

definition SIGNAL_RECEIVE :: int32 where
  "SIGNAL_RECEIVE = 0"

record 'a signal =
  signal_user :: "'a reactor_handler reactor_user"
  signal_fd :: int32
  signal_reading :: reactor_t
  signal_counter :: u64
  signal_abort :: "nat option"

type_synonym ('a, 'k) signal_state = "('a reactor_handler, 'k) reactor \<times> 'a signal"

text \<open>The assignment of \<open>reactor_read\<close> that \<open>signal_read\<close> and \<open>signal_open\<close> share.\<close>

definition signal_start :: "'k reactor_env \<Rightarrow> operand \<Rightarrow> ('a, 'k) signal_state \<Rightarrow> ('a, 'k) signal_state option" where
  "signal_start e self rs = (case rs of (r, s) \<Rightarrow> do {
     (r, ident) \<leftarrow> reactor_read e (Some Signal_read) self (signal_fd s) (Pointer (Some (word_cells (signal_counter s)))) 8 0 r;
     Some (r, s\<lparr>signal_reading := ident\<rparr>) })"

definition signal_read ::
    "('a reactor_handler \<Rightarrow> reactor_event \<Rightarrow> ('a signal, 'a, 'k, 'w) object_world \<Rightarrow> ('a signal, 'a, 'k, 'w) object_world option) \<Rightarrow>
      'k reactor_env \<Rightarrow> reactor_event \<Rightarrow> ('a signal, 'a, 'k, 'w) object_world \<Rightarrow> ('a signal, 'a, 'k, 'w) object_world option" where
  "signal_read invoke e event w = do {
     s \<leftarrow> object_memory w;
     let s = s\<lparr>signal_reading := 0\<rparr>;
     (if event_data event \<noteq> 8 then None
      else do {
        let s = s\<lparr>signal_abort := Some (length (object_abort w))\<rparr>;
        w \<leftarrow> reactor_call invoke (signal_user s) SIGNAL_RECEIVE (signal_counter s)
               (w\<lparr>object_memory := Some s, object_abort := object_abort w @ [False]\<rparr>);
        let abort = last (object_abort w);
        let w = w\<lparr>object_abort := butlast (object_abort w)\<rparr>;
        (if abort then Some w
         else do {
           s \<leftarrow> object_memory w;
           object_at (signal_start e (event_state event)) (w\<lparr>object_memory := Some (s\<lparr>signal_abort := None\<rparr>)\<rparr>) }) }) }"

definition signal_construct :: "'a reactor_handler option \<Rightarrow> operand \<Rightarrow> 'a signal" where
  "signal_construct callback state =
     \<lparr>signal_user = reactor_user_define callback state, signal_fd = - 1, signal_reading = 0, signal_counter = 0, signal_abort = None\<rparr>"

definition signal_open ::
    "'k reactor_env \<Rightarrow> (u32 \<Rightarrow> int32 \<Rightarrow> int32) \<Rightarrow> operand \<Rightarrow> ('a, 'k) signal_state \<Rightarrow> ('a, 'k) signal_state option" where
  "signal_open e eventfd self rs = (case rs of (r, s) \<Rightarrow>
     signal_start e self (r, s\<lparr>signal_fd := eventfd 0 (ucast (signal_counter s))\<rparr>))"

definition signal_send :: "'k reactor_env \<Rightarrow> ('a, 'k) signal_state \<Rightarrow> ('a, 'k) signal_state option" where
  "signal_send e rs = (case rs of (r, s) \<Rightarrow> do {
     (r, _) \<leftarrow> reactor_write e None (Number 0) (signal_fd s) (Pointer (Some (word_cells 1))) 8 0 r;
     Some (r, s) })"

text \<open>\<open>write\<close> answers with its result and the new state of the kernel.\<close>

definition signal_send_sync :: "(int32 \<Rightarrow> block \<Rightarrow> 'k \<Rightarrow> int \<times> 'k) \<Rightarrow> 'a signal \<Rightarrow> 'k \<Rightarrow> 'k option" where
  "signal_send_sync write_fd s k = (let (n, k) = write_fd (signal_fd s) (word_cells 1) k in if n = 8 then Some k else None)"

definition signal_close :: "'k reactor_env \<Rightarrow> ('a signal, 'a, 'k, 'w) object_world \<Rightarrow> ('a signal, 'a, 'k, 'w) object_world option" where
  "signal_close e w = do {
     s \<leftarrow> object_memory w;
     (if signal_fd s = - 1 then Some w
      else do {
        w \<leftarrow> set_abort (signal_abort s) w;
        object_at (\<lambda>(r, s). do {
          r \<leftarrow> (if signal_reading s \<noteq> 0 then reactor_cancel e (signal_reading s) None (Number 0) r else Some r);
          (r, _) \<leftarrow> reactor_close e None (Number 0) (signal_fd s) r;
          Some (r, s\<lparr>signal_fd := - 1\<rparr>) }) w }) }"

definition signal_destruct :: "'k reactor_env \<Rightarrow> ('a signal, 'a, 'k, 'w) object_world \<Rightarrow> ('a signal, 'a, 'k, 'w) object_world option" where
  "signal_destruct e w = signal_close e w"

section \<open>Requests\<close>

definition signal_sqe :: "'a signal \<Rightarrow> reactor_t \<Rightarrow> io_uring_sqe" where
  "signal_sqe s ident = sqe_zero\<lparr>sqe_fd := signal_fd s, sqe_opcode := IORING_OP_READ,
     sqe_addr := Pointer (Some (word_cells (signal_counter s))), sqe_len := 8, sqe_user_data := ident\<rparr>"

lemma signal_start_spec:
  assumes "reactor_ready r (Suc n)"
  shows "\<exists>r' ident. signal_start e self (r, s) = Some (r', s\<lparr>signal_reading := ident\<rparr>) \<and> ident \<noteq> 0 \<and> reactor_ready r' n \<and>
    new_user (Some Signal_read) self r ident r' \<and>
    ring_pending (reactor_ring_of r') = ring_pending (reactor_ring_of r) @ [signal_sqe s ident]"
proof -
  let ?sqe = "signal_sqe s 0"
  obtain r' ident where s: "reactor_submit e (Some Signal_read) self ?sqe r = Some (r', ident)" "reactor_ready r' n"
    "submitted e (Some Signal_read) self ?sqe r ident r'" "ident \<noteq> 0"
    "ring_pending (reactor_ring_of r') = ring_pending (reactor_ring_of r) @ [?sqe\<lparr>sqe_user_data := ident\<rparr>]"
    using assms by (rule reactor_submit_ready)
  have "sqe_zero\<lparr>sqe_fd := signal_fd s, sqe_opcode := IORING_OP_READ, sqe_addr := Pointer (Some (word_cells (signal_counter s))),
      sqe_off := 0, sqe_len := ucast (8 :: size_t)\<rparr> = ?sqe"
    by (simp add: signal_sqe_def sqe_zero_def)
  then show ?thesis using s
    by (intro exI [of _ r'] exI [of _ ident]) (simp add: signal_start_def reactor_read_def submitted_def signal_sqe_def)
qed

section \<open>Properties\<close>


definition example_signal :: "nat signal" where
  "example_signal = (signal_construct (Some (User 1)) (Number 0))\<lparr>signal_fd := 5, signal_counter := 2\<rparr>"


text \<open>
  C20: \<open>signal_open\<close> gives the counter to \<open>eventfd\<close> as its flags. The counter keeps the last count that
  was received, so a signal that is opened again gets flags nobody asked for: for the count 2, which
  is no flag, no descriptor, and a read on the descriptor -1.
\<close>

theorem signal_open_flags:
  assumes r: "reactor_ready r (Suc n)" and s: "signal_counter s = 2"
    and eventfd: "\<And>initval flags. flags AND NOT 0x80801 \<noteq> 0 \<Longrightarrow> eventfd initval flags = - 1"
  shows "\<exists>r' s'. signal_open e eventfd self (r, s) = Some (r', s') \<and> signal_fd s' = - 1 \<and>
    sqe_fd (last (ring_pending (reactor_ring_of r'))) = - 1"
proof -
  have "eventfd 0 (ucast (2 :: u64)) = - 1" by (rule eventfd) simp
  then show ?thesis
    using signal_start_spec [OF r, of e self "s\<lparr>signal_fd := eventfd 0 (ucast (signal_counter s))\<rparr>"] s
    by (auto simp: signal_open_def signal_sqe_def)
qed

lemma signal_open_flags_witness:
  "\<exists>(r :: (nat reactor_handler, unit) reactor) r' s'.
    signal_open quiet_env (\<lambda>initval flags. if flags AND NOT 0x80801 \<noteq> 0 then - 1 else 5) (Number 64) (r, example_signal) = Some (r', s') \<and>
    signal_fd s' = - 1"
proof -
  obtain r :: "(nat reactor_handler, unit) reactor" where r: "reactor_inv r [] [] []" "reactor_spare r 100"
    using reactor_example by blast
  then have "reactor_ready r (Suc 99)" by (auto simp: reactor_ready_def)
  from signal_open_flags [OF this, of example_signal "\<lambda>initval flags. if flags AND NOT 0x80801 \<noteq> 0 then - 1 else 5" quiet_env "Number 64"]
  show ?thesis by (simp add: example_signal_def) blast
qed

end
