(* ===== verification/Queue.thy ===== *)
theory Queue
  imports Handlers Buffer
begin

text \<open>
  Queues (\<^verbatim>\<open>src/reactor/queue.c\<close>): elements of one size go through a pipe, from producers that buffer
  what the pipe cannot take yet to consumers that read batches. \<open>pipe\<close> and the blocking \<open>write\<close> and
  \<open>read\<close> are parameters.

  A pointer to a queue is represented by the queue, which does not change while it is in use. A
  buffer whose memory has been freed is \<open>None\<close>. The pointer to an element that a consumer hands out
  is represented by its offset in the input buffer.
\<close>

section \<open>Queues\<close>

definition QUEUE_CONSUMER_POP :: int32 where
  "QUEUE_CONSUMER_POP = 0"

record queue =
  queue_read_fd :: int32
  queue_write_fd :: int32
  queue_element_size :: size_t

definition queue_construct :: "(int32 \<times> int32) option \<Rightarrow> size_t \<Rightarrow> queue option" where
  "queue_construct pipe element_size =
     map_option (\<lambda>(fd0, fd1). \<lparr>queue_read_fd = fd0, queue_write_fd = fd1, queue_element_size = element_size\<rparr>) pipe"

definition queue_destruct :: "(int32 \<Rightarrow> 'k \<Rightarrow> 'k) \<Rightarrow> queue \<Rightarrow> 'k \<Rightarrow> 'k" where
  "queue_destruct close_fd q k = close_fd (queue_write_fd q) (close_fd (queue_read_fd q) k)"

definition EINTR :: int32 where
  "EINTR = 4"

text \<open>\<open>assert(result > 0 && result % element_size == 0)\<close>; a remainder by 0 has no value.\<close>

definition whole_elements :: "queue \<Rightarrow> int32 \<Rightarrow> bool" where
  "whole_elements q result \<longleftrightarrow> 0 < sint result \<and> queue_element_size q \<noteq> 0 \<and> scast result mod queue_element_size q = 0"

definition buffer_destruct :: "buffer \<Rightarrow> buffer option" where
  "buffer_destruct b = (if buffer_base b = None then Some b else None)"

section \<open>Producers\<close>

record queue_producer =
  producer_queue :: "queue option"
  producer_output :: "buffer option"
  producer_offset :: size_t
  producer_queued :: "buffer option"
  producer_writing :: reactor_t

type_synonym ('a, 'k) producer_state = "('a reactor_handler, 'k) reactor \<times> queue_producer"

definition queue_producer_update :: "'k reactor_env \<Rightarrow> operand \<Rightarrow> ('a, 'k) producer_state \<Rightarrow> ('a, 'k) producer_state option" where
  "queue_producer_update e self rp = (case rp of (r, p) \<Rightarrow>
     if producer_writing p \<noteq> 0 then Some (r, p)
     else do {
       output \<leftarrow> producer_output p;
       (output, p) \<leftarrow> (if producer_offset p = buffer_size output
          then do {
            queued \<leftarrow> producer_queued p;
            Some (queued, p\<lparr>producer_offset := 0, producer_output := Some queued, producer_queued := Some (buffer_clear output)\<rparr>) }
          else Some (output, p));
       (if buffer_size output = 0 then Some (r, p)
        else do {
          q \<leftarrow> producer_queue p;
          (if 0 \<le> sint (queue_write_fd q)
           then do {
             let size_max = queue_element_size q * 128;
             let sz = buffer_size output - producer_offset p;
             let sz = (if sz > size_max then size_max else sz);
             (r, ident) \<leftarrow> reactor_write e (Some Queue_producer_write) self (queue_write_fd q)
               (Pointer (ptr_add (buffer_base output) (unat (producer_offset p)))) sz 0 r;
             Some (r, p\<lparr>producer_writing := ident\<rparr>) }
           else None) }) })"

definition queue_producer_write :: "'k reactor_env \<Rightarrow> reactor_event \<Rightarrow> ('a, 'k) producer_state \<Rightarrow> ('a, 'k) producer_state option" where
  "queue_producer_write e event rp = (case rp of (r, p) \<Rightarrow>
     let result = (ucast (event_data event) :: int32); p = p\<lparr>producer_writing := 0\<rparr>
     in if result = - EINTR then queue_producer_update e (event_state event) (r, p)
        else do {
          q \<leftarrow> producer_queue p;
          (if whole_elements q result
           then queue_producer_update e (event_state event) (r, p\<lparr>producer_offset := producer_offset p + scast result\<rparr>)
           else None) })"

definition queue_producer_construct :: queue_producer where
  "queue_producer_construct =
     \<lparr>producer_queue = None, producer_output = Some buffer_construct, producer_offset = 0,
      producer_queued = Some buffer_construct, producer_writing = 0\<rparr>"

definition queue_producer_open :: "queue \<Rightarrow> queue_producer \<Rightarrow> queue_producer" where
  "queue_producer_open q p = p\<lparr>producer_queue := Some q\<rparr>"

definition queue_producer_push ::
    "'k reactor_env \<Rightarrow> operand \<Rightarrow> ptr \<Rightarrow> ('a, 'k) producer_state \<Rightarrow> ('a, 'k) producer_state option" where
  "queue_producer_push e self element rp = (case rp of (r, p) \<Rightarrow> do {
     queued \<leftarrow> producer_queued p;
     q \<leftarrow> producer_queue p;
     queued \<leftarrow> buffer_insert queued (buffer_size queued) (data_of element (queue_element_size q));
     queue_producer_update e self (r, p\<lparr>producer_queued := Some queued\<rparr>) })"

text \<open>\<open>write\<close> answers with its result and the new state of the kernel.\<close>

definition queue_producer_push_sync ::
    "(int32 \<Rightarrow> block \<Rightarrow> 'k \<Rightarrow> int \<times> 'k) \<Rightarrow> ptr \<Rightarrow> queue_producer \<Rightarrow> 'k \<Rightarrow> 'k option" where
  "queue_producer_push_sync write_fd element p k = do {
     q \<leftarrow> producer_queue p;
     src \<leftarrow> ptr_read element (unat (queue_element_size q));
     let (n, k) = write_fd (queue_write_fd q) src k;
     (if n = sint (queue_element_size q) then Some k else None) }"

definition queue_producer_close :: "'k reactor_env \<Rightarrow> ('a, 'k) producer_state \<Rightarrow> ('a, 'k) producer_state option" where
  "queue_producer_close e rp = (case rp of (r, p) \<Rightarrow>
     if producer_queue p = None then Some (r, p)
     else do {
       let p = p\<lparr>producer_queue := None\<rparr>;
       (r, p) \<leftarrow> (if producer_writing p \<noteq> 0
          then do {
            output \<leftarrow> producer_output p;
            let (base, output) = buffer_deconstruct output;
            r \<leftarrow> reactor_cancel e (producer_writing p) (Some Queue_cancel) (Pointer base) r;
            Some (r, p\<lparr>producer_output := Some output, producer_writing := 0\<rparr>) }
          else Some (r, p));
       output \<leftarrow> producer_output p;
       queued \<leftarrow> producer_queued p;
       Some (r, p\<lparr>producer_output := buffer_destruct output, producer_queued := buffer_destruct queued\<rparr>) })"

definition queue_producer_destruct :: "'k reactor_env \<Rightarrow> ('a, 'k) producer_state \<Rightarrow> ('a, 'k) producer_state option" where
  "queue_producer_destruct e rp = queue_producer_close e rp"

section \<open>Consumers\<close>

record 'a queue_consumer =
  consumer_user :: "'a reactor_handler reactor_user"
  consumer_queue :: "queue option"
  consumer_input :: buffer
  consumer_reading :: reactor_t
  consumer_abort :: "nat option"

type_synonym ('a, 'k) consumer_state = "('a reactor_handler, 'k) reactor \<times> 'a queue_consumer"
type_synonym ('a, 'k, 'w) consumer_world = "('a queue_consumer, 'a, 'k, 'w) object_world"

text \<open>The \<open>free\<close> leaves nothing behind that the model keeps.\<close>

definition queue_cancel :: "reactor_event \<Rightarrow> ('a, 'k, 'w) consumer_world \<Rightarrow> ('a, 'k, 'w) consumer_world option" where
  "queue_cancel event w = (case event_state event of Pointer _ \<Rightarrow> Some w | Number _ \<Rightarrow> None)"

definition queue_consumer_update :: "'k reactor_env \<Rightarrow> operand \<Rightarrow> ('a, 'k) consumer_state \<Rightarrow> ('a, 'k) consumer_state option" where
  "queue_consumer_update e self rc = (case rc of (r, c) \<Rightarrow>
     if consumer_reading c \<noteq> 0 then Some (r, c)
     else do {
       q \<leftarrow> consumer_queue c;
       (r, ident) \<leftarrow> reactor_read e (Some Queue_consumer_read) self (queue_read_fd q)
         (Pointer (buffer_base (consumer_input c))) (buffer_size (consumer_input c)) 0 r;
       Some (r, c\<lparr>consumer_reading := ident\<rparr>) })"

text \<open>The loop over the elements; the flag says that it ended by \<open>abort\<close>.\<close>

partial_function (option) queue_consumer_loop ::
    "('a reactor_handler \<Rightarrow> reactor_event \<Rightarrow> ('a, 'k, 'w) consumer_world \<Rightarrow> ('a, 'k, 'w) consumer_world option) \<Rightarrow>
      int32 \<Rightarrow> int32 \<Rightarrow> ('a, 'k, 'w) consumer_world \<Rightarrow> (('a, 'k, 'w) consumer_world \<times> bool) option" where
  "queue_consumer_loop invoke offset result w =
     (if sint offset < sint result
      then Option.bind (object_memory w) (\<lambda>c.
        Option.bind (reactor_call invoke (consumer_user c) QUEUE_CONSUMER_POP (scast offset)
            (w\<lparr>object_memory := Some (c\<lparr>consumer_abort := Some (length (object_abort w) - 1)\<rparr>)\<rparr>)) (\<lambda>w.
        if last (object_abort w) then Some (w, True)
        else Option.bind (object_memory w) (\<lambda>c.
          Option.bind (consumer_queue c) (\<lambda>q.
            queue_consumer_loop invoke (offset + ucast (queue_element_size q)) result
              (w\<lparr>object_memory := Some (c\<lparr>consumer_abort := None\<rparr>)\<rparr>)))))
      else Some (w, False))"

declare queue_consumer_loop.simps [code]

definition queue_consumer_read ::
    "('a reactor_handler \<Rightarrow> reactor_event \<Rightarrow> ('a, 'k, 'w) consumer_world \<Rightarrow> ('a, 'k, 'w) consumer_world option) \<Rightarrow>
      'k reactor_env \<Rightarrow> reactor_event \<Rightarrow> ('a, 'k, 'w) consumer_world \<Rightarrow> ('a, 'k, 'w) consumer_world option" where
  "queue_consumer_read invoke e event w = do {
     c \<leftarrow> object_memory w;
     let result = (ucast (event_data event) :: int32);
     let w = w\<lparr>object_memory := Some (c\<lparr>consumer_reading := 0\<rparr>)\<rparr>;
     (if result = - EINTR then object_at (queue_consumer_update e (event_state event)) w
      else do {
        q \<leftarrow> consumer_queue c;
        (if whole_elements q result
         then do {
           (w, abort) \<leftarrow> queue_consumer_loop invoke 0 result (w\<lparr>object_abort := object_abort w @ [False]\<rparr>);
           let w = w\<lparr>object_abort := butlast (object_abort w)\<rparr>;
           (if abort then Some w else object_at (queue_consumer_update e (event_state event)) w) }
         else None) }) }"

definition queue_consumer_construct :: "'a reactor_handler option \<Rightarrow> operand \<Rightarrow> 'a queue_consumer" where
  "queue_consumer_construct callback state =
     \<lparr>consumer_user = reactor_user_define callback state, consumer_queue = None, consumer_input = buffer_construct,
      consumer_reading = 0, consumer_abort = None\<rparr>"

definition queue_consumer_open :: "queue \<Rightarrow> size_t \<Rightarrow> 'a queue_consumer \<Rightarrow> 'a queue_consumer" where
  "queue_consumer_open q batch_size c =
     c\<lparr>consumer_queue := Some q, consumer_input := buffer_resize (consumer_input c) (queue_element_size q * batch_size)\<rparr>"

definition queue_consumer_pop :: "'k reactor_env \<Rightarrow> operand \<Rightarrow> ('a, 'k) consumer_state \<Rightarrow> ('a, 'k) consumer_state option" where
  "queue_consumer_pop e self rc = queue_consumer_update e self rc"

text \<open>\<open>read\<close> answers with its result, the cells it has stored and the new state of the kernel.\<close>

definition queue_consumer_pop_sync ::
    "(int32 \<Rightarrow> size_t \<Rightarrow> 'k \<Rightarrow> int \<times> block \<times> 'k) \<Rightarrow> 'a queue_consumer \<Rightarrow> 'k \<Rightarrow> ('a queue_consumer \<times> 'k \<times> ptr) option" where
  "queue_consumer_pop_sync read_fd c k = do {
     q \<leftarrow> consumer_queue c;
     let (n, cells, k) = read_fd (queue_read_fd q) (queue_element_size q) k;
     input \<leftarrow> buffer_poke (consumer_input c) 0 cells;
     (if n = sint (queue_element_size q) then Some (c\<lparr>consumer_input := input\<rparr>, k, buffer_base input) else None) }"

definition queue_consumer_close :: "'k reactor_env \<Rightarrow> ('a, 'k, 'w) consumer_world \<Rightarrow> ('a, 'k, 'w) consumer_world option" where
  "queue_consumer_close e w = do {
     c \<leftarrow> object_memory w;
     (if consumer_queue c = None then Some w
      else do {
        w \<leftarrow> set_abort (consumer_abort c) w;
        object_at (\<lambda>(r, c).
          let c = c\<lparr>consumer_queue := None\<rparr>
          in if consumer_reading c \<noteq> 0
             then let (base, input) = buffer_deconstruct (consumer_input c)
                  in Option.bind (reactor_cancel e (consumer_reading c) (Some Queue_cancel) (Pointer base) r)
                       (\<lambda>r. Some (r, c\<lparr>consumer_input := input, consumer_reading := 0\<rparr>))
             else Some (r, c)) w }) }"

text \<open>The consumer is not used after it is destructed; the model empties its buffer.\<close>

definition queue_consumer_destruct :: "'k reactor_env \<Rightarrow> ('a, 'k, 'w) consumer_world \<Rightarrow> ('a, 'k, 'w) consumer_world option" where
  "queue_consumer_destruct e w = do {
     w \<leftarrow> queue_consumer_close e w;
     object_at (\<lambda>(r, c). Some (r, c\<lparr>consumer_input := buffer_construct\<rparr>)) w }"

end
