(* ===== verification/Queue_Run.thy ===== *)
theory Queue_Run
  imports Queue
begin

text \<open>
  Runs of a queue's producer: what reaches the pipe is what was pushed, in order; nothing is lost and
  nothing waits without a request.
\<close>

section \<open>Producers\<close>

text \<open>The contents of the two buffers.\<close>

definition producer_holds :: "queue \<Rightarrow> queue_producer \<Rightarrow> byte list \<Rightarrow> byte list \<Rightarrow> bool" where
  "producer_holds q p out queued \<longleftrightarrow> producer_queue p = Some q \<and> unat (producer_offset p) \<le> length out \<and>
     (\<exists>b. producer_output p = Some b \<and> buffer_holds b out) \<and> (\<exists>b. producer_queued p = Some b \<and> buffer_holds b queued)"

text \<open>What is not written yet.\<close>

definition unsent :: "queue_producer \<Rightarrow> byte list \<Rightarrow> byte list \<Rightarrow> byte list" where
  "unsent p out queued = drop (unat (producer_offset p)) out @ queued"

text \<open>The bytes of the request submitted last.\<close>

definition request_bytes :: "('c, 'k) reactor \<Rightarrow> byte list" where
  "request_bytes r =
     (let sqe = last (ring_pending (reactor_ring_of r))
      in case sqe_addr sqe of
           Pointer base \<Rightarrow> (case ptr_bytes base (unat (sqe_len sqe)) of Some bs \<Rightarrow> bs | None \<Rightarrow> [])
         | Number _ \<Rightarrow> [])"

text \<open>The largest request.\<close>

definition queue_batch :: "queue \<Rightarrow> nat" where
  "queue_batch q = unat (queue_element_size q) * 128"

definition queue_usable :: "queue \<Rightarrow> bool" where
  "queue_usable q \<longleftrightarrow> 0 \<le> sint (queue_write_fd q) \<and> 0 < queue_batch q \<and> queue_batch q < 2 ^ 31"

lemma buffer_bytes_at:
  assumes "buffer_holds b bs" "k + m \<le> length bs"
  shows "ptr_bytes (ptr_add (buffer_base b) k) m = Some (take m (drop k bs))"
proof -
  have "ptr_read (buffer_base b) (length bs) = Some (map Some bs)"
    using buffer_base_holds [OF assms(1)] buffer_holds_length [OF assms(1)] buffer_holds_cells [OF assms(1)]
    by (auto simp: buffer_ok_def buffer_cells_def split: option.splits)
  from ptr_read_add [OF this assms(2)] show ?thesis by (simp add: ptr_bytes_def drop_map take_map)
qed

lemma queue_producer_update_spec:
  assumes q: "queue_usable q" and h: "producer_holds q p out queued" and idle: "producer_writing p = 0"
    and r: "reactor_ready r (Suc n)"
  shows "\<exists>r' p' out' queued'. queue_producer_update e self (r, p) = Some (r', p') \<and> producer_holds q p' out' queued' \<and>
    unsent p' out' queued' = unsent p out queued \<and> length out' + length queued' \<le> length out + length queued \<and>
    (if unsent p out queued = [] then producer_writing p' = 0
     else producer_writing p' \<noteq> 0 \<and> drop (unat (producer_offset p')) out' \<noteq> [] \<and>
       request_bytes r' = take (queue_batch q) (drop (unat (producer_offset p')) out'))"
proof -
  obtain b b' where b: "producer_output p = Some b" "buffer_holds b out" "producer_queued p = Some b'" "buffer_holds b' queued"
    using h by (auto simp: producer_holds_def)
  note len = buffer_holds_length [OF b(2)] buffer_holds_length [OF b(4)]
  have qp: "producer_queue p = Some q" "unat (producer_offset p) \<le> length out" using h by (simp_all add: producer_holds_def)
  define sw where "sw = (producer_offset p = buffer_size b)"
  define o2 where "o2 = (if sw then b' else b)"
  define out2 where "out2 = (if sw then queued else out)"
  define queued2 where "queued2 = (if sw then [] else queued)"
  define p2 where "p2 = (if sw then p\<lparr>producer_offset := 0, producer_output := Some b', producer_queued := Some (buffer_clear b)\<rparr> else p)"
  have p2: "producer_holds q p2 out2 queued2" "unsent p2 out2 queued2 = unsent p out queued" "producer_output p2 = Some o2"
    "producer_writing p2 = 0" "buffer_holds o2 out2" "producer_queue p2 = Some q"
  proof -
    have clear: "buffer_holds (buffer_clear b) []" using b(2) buffer_clear_spec [of b] by (simp add: buffer_holds_def)
    have sw: "sw \<Longrightarrow> unat (producer_offset p) = length out" using len by (simp add: sw_def)
    show "producer_holds q p2 out2 queued2"
      using h b qp clear by (cases sw) (simp_all add: p2_def out2_def queued2_def producer_holds_def)
    show "unsent p2 out2 queued2 = unsent p out queued" using sw by (cases sw) (simp_all add: p2_def out2_def queued2_def unsent_def)
    show "producer_output p2 = Some o2" "producer_writing p2 = 0" "buffer_holds o2 out2" "producer_queue p2 = Some q"
      using b qp idle by (simp_all add: p2_def o2_def out2_def)
  qed
  have step: "queue_producer_update e self (r, p) =
     (if buffer_size o2 = 0 then Some (r, p2)
      else let sz = buffer_size o2 - producer_offset p2; sz = if sz > queue_element_size q * 128 then queue_element_size q * 128 else sz
        in Option.bind (reactor_write e (Some Queue_producer_write) self (queue_write_fd q)
             (Pointer (ptr_add (buffer_base o2) (unat (producer_offset p2)))) sz 0 r)
           (\<lambda>(r, ident). Some (r, p2\<lparr>producer_writing := ident\<rparr>)))"
    using b idle p2(3,6) q qp(1)
    by (simp add: queue_producer_update_def queue_usable_def Let_def p2_def o2_def flip: sw_def)
  have sum: "length out2 + length queued2 \<le> length out + length queued" by (simp add: out2_def queued2_def)
  have sw_out2: "out2 = [] \<Longrightarrow> queued2 = []"
    using len qp(2) by (cases sw) (auto simp: out2_def queued2_def sw_def word_unat_eq_iff)
  have len2: "length out2 = unat (buffer_size o2)" using buffer_holds_length [OF p2(5)] .
  show ?thesis
  proof (cases "out2 = []")
    case True
    then have "unsent p out queued = []" using p2(1,2) sw_out2
      by (auto simp: unsent_def)
    then show ?thesis using step p2 True len2 sum
      by (intro exI [of _ r] exI [of _ p2] exI [of _ out2] exI [of _ queued2]) (simp add: unat_eq_zero)
  next
    case False
    have "unat (producer_offset p2) \<noteq> length out2"
    proof (cases sw)
      case True then show ?thesis using False by (simp add: p2_def out2_def)
    next
      case nsw: False
      then have "producer_offset p \<noteq> buffer_size b" by (simp add: sw_def)
      then show ?thesis using nsw len by (simp add: p2_def out2_def word_unat_eq_iff)
    qed
    then have off: "unat (producer_offset p2) < length out2" using p2(1) by (simp add: producer_holds_def)
    have es: "unat (queue_element_size q * 128) = queue_batch q"
      using q by (simp add: queue_usable_def queue_batch_def unat_mult64)
    have sub: "unat (buffer_size o2 - producer_offset p2) = length out2 - unat (producer_offset p2)"
      using off len2 by (simp add: unat_sub64 word_le_nat_alt)
    define sz where "sz = (if buffer_size o2 - producer_offset p2 > queue_element_size q * 128 then queue_element_size q * 128
      else buffer_size o2 - producer_offset p2)"
    have sz: "unat sz = min (queue_batch q) (length out2 - unat (producer_offset p2))"
      by (simp add: sz_def es sub word_less_nat_alt)
    have sz32: "unat (ucast sz :: u32) = unat sz"
    proof -
      have "unat sz < 2 ^ 32" using sz q by (simp add: queue_usable_def min_def)
      then show ?thesis by (simp add: unsigned_ucast_eq unsigned_take_bit_eq take_bit_nat_eq_self)
    qed
    let ?sqe = "sqe_zero\<lparr>sqe_fd := queue_write_fd q, sqe_opcode := IORING_OP_WRITE,
      sqe_addr := Pointer (ptr_add (buffer_base o2) (unat (producer_offset p2))), sqe_off := 0, sqe_len := ucast sz\<rparr>"
    obtain r' ident where s: "reactor_submit e (Some Queue_producer_write) self ?sqe r = Some (r', ident)"
      "ident \<noteq> 0" "ring_pending (reactor_ring_of r') = ring_pending (reactor_ring_of r) @ [?sqe\<lparr>sqe_user_data := ident\<rparr>]"
      using reactor_submit_ready [OF r] by metis
    have bytes: "request_bytes r' = take (queue_batch q) (drop (unat (producer_offset p2)) out2)"
    proof -
      have "ptr_bytes (ptr_add (buffer_base o2) (unat (producer_offset p2))) (unat sz) = Some (take (unat sz) (drop (unat (producer_offset p2)) out2))"
        using buffer_bytes_at [OF p2(5), of "unat (producer_offset p2)" "unat sz"] sz off by simp
      then show ?thesis using sz32 sz by (simp add: request_bytes_def s(3) min_def)
    qed
    have "unsent p out queued \<noteq> []" using off p2(2) by (auto simp: unsent_def)
    moreover have "buffer_size o2 \<noteq> 0" using off len2 by auto
    ultimately show ?thesis using step p2 s bytes off sum
      by (intro exI [of _ r'] exI [of _ "p2\<lparr>producer_writing := ident\<rparr>"] exI [of _ out2] exI [of _ queued2])
        (simp add: sz_def Let_def reactor_write_def producer_holds_def unsent_def cong: if_cong)
  qed
qed

text \<open>The request in flight, after a step.\<close>

definition queue_in_flight :: "('a, 'k) producer_state \<Rightarrow> byte list" where
  "queue_in_flight rp = (case rp of (r, p) \<Rightarrow> if producer_writing p = 0 then [] else request_bytes r)"

text \<open>
  Runs of a producer: the bytes pushed, in flight and written. The kernel completes a request with the
  number of bytes it has written, whole elements, or with \<open>EINTR\<close>; between the steps anything may
  happen to the reactor.
\<close>

inductive queue_producer_run ::
    "'k reactor_env \<Rightarrow> operand \<Rightarrow> queue \<Rightarrow> byte list \<Rightarrow> byte list \<Rightarrow> byte list \<Rightarrow> ('a, 'k) producer_state \<Rightarrow> bool"
  for e self q where
  run_open: "queue_producer_run e self q [] [] [] (r, queue_producer_open q queue_producer_construct)"
| run_other: "queue_producer_run e self q pushed flight written (r, p) \<Longrightarrow> queue_producer_run e self q pushed flight written (r', p)"
| run_push: "queue_producer_run e self q pushed flight written (r, p) \<Longrightarrow> reactor_ready r (Suc n) \<Longrightarrow>
    ptr_bytes element (unat (queue_element_size q)) = Some bs \<Longrightarrow>
    queue_producer_push e self element (r, p) = Some rp \<Longrightarrow>
    queue_producer_run e self q (pushed @ bs) (if producer_writing p = 0 then queue_in_flight rp else flight) written rp"
| run_write: "queue_producer_run e self q pushed flight written (r, p) \<Longrightarrow> reactor_ready r (Suc n) \<Longrightarrow> producer_writing p \<noteq> 0 \<Longrightarrow>
    m \<le> length flight \<Longrightarrow> sint (ucast (event_data event) :: int32) = int m \<Longrightarrow>
    queue_producer_write e event (r, p) = Some rp \<Longrightarrow>
    queue_producer_run e self q pushed (queue_in_flight rp) (written @ take m flight) rp"
| run_interrupted: "queue_producer_run e self q pushed flight written (r, p) \<Longrightarrow> reactor_ready r (Suc n) \<Longrightarrow> producer_writing p \<noteq> 0 \<Longrightarrow>
    ucast (event_data event) = - EINTR \<Longrightarrow> queue_producer_write e event (r, p) = Some rp \<Longrightarrow>
    queue_producer_run e self q pushed (queue_in_flight rp) written rp"

text \<open>What holds in between.\<close>

definition producer_inv :: "queue \<Rightarrow> byte list \<Rightarrow> byte list \<Rightarrow> byte list \<Rightarrow> queue_producer \<Rightarrow> bool" where
  "producer_inv q pushed flight written p \<longleftrightarrow> (\<exists>out queued. producer_holds q p out queued \<and>
     pushed = written @ unsent p out queued \<and> length out + length queued \<le> length pushed \<and>
     (if producer_writing p = 0 then unsent p out queued = [] \<and> flight = []
      else flight \<noteq> [] \<and> flight = take (queue_batch q) (drop (unat (producer_offset p)) out)))"


lemma queue_producer_update_inv:
  assumes "queue_usable q" "producer_holds q p out queued" "producer_writing p = 0" "reactor_ready r (Suc n)"
    "length out + length queued \<le> length (written @ unsent p out queued)"
  shows "\<exists>rp. queue_producer_update e self (r, p) = Some rp \<and>
    producer_inv q (written @ unsent p out queued) (queue_in_flight rp) written (snd rp)"
proof -
  obtain r' p' out' queued' where u: "queue_producer_update e self (r, p) = Some (r', p')" "producer_holds q p' out' queued'"
    "unsent p' out' queued' = unsent p out queued" "length out' + length queued' \<le> length out + length queued"
    "if unsent p out queued = [] then producer_writing p' = 0
     else producer_writing p' \<noteq> 0 \<and> drop (unat (producer_offset p')) out' \<noteq> [] \<and>
       request_bytes r' = take (queue_batch q) (drop (unat (producer_offset p')) out')"
    using queue_producer_update_spec [OF assms(1-4), of e self] by blast
  have "producer_inv q (written @ unsent p out queued) (queue_in_flight (r', p')) written p'"
    unfolding producer_inv_def using assms(1,5) u(2-5)
    by (intro exI [of _ out'] exI [of _ queued']) (auto simp: queue_in_flight_def queue_usable_def split: if_splits)
  then show ?thesis using u(1) by auto
qed

lemma queue_producer_push_inv:
  assumes q: "queue_usable q" and inv: "producer_inv q pushed flight written p" and r: "reactor_ready r (Suc n)"
    and el: "ptr_bytes element (unat (queue_element_size q)) = Some bs" and lim: "length (pushed @ bs) \<le> buffer_limit"
  shows "\<exists>rp. queue_producer_push e self element (r, p) = Some rp \<and>
    producer_inv q (pushed @ bs) (if producer_writing p = 0 then queue_in_flight rp else flight) written (snd rp)"
proof -
  obtain out queued where h: "producer_holds q p out queued" "pushed = written @ unsent p out queued"
    "length out + length queued \<le> length pushed"
    "if producer_writing p = 0 then unsent p out queued = [] \<and> flight = []
      else flight \<noteq> [] \<and> flight = take (queue_batch q) (drop (unat (producer_offset p)) out)"
    using inv by (auto simp: producer_inv_def)
  obtain b where b: "producer_queued p = Some b" "buffer_holds b queued" "producer_queue p = Some q"
    using h(1) by (auto simp: producer_holds_def)
  have src: "ptr_read element (unat (queue_element_size q)) = Some (map Some bs)"
    using el data_bytes_read [of "data_of element (queue_element_size q)"]
    by (simp add: data_bytes_def data_of_def data_base_def data_size_def)
  obtain b' where b': "buffer_insert b (buffer_size b) (data_of element (queue_element_size q)) = Some b'" "buffer_holds b' (queued @ bs)"
    using buffer_insert_cells [of b "buffer_size b" "data_of element (queue_element_size q)"] buffer_holds_cells [OF b(2)] src lim h(3)
    by (auto simp: data_of_def data_base_def data_size_def buffer_holds_def)
  let ?p = "p\<lparr>producer_queued := Some b'\<rparr>"
  have push: "queue_producer_push e self element (r, p) = queue_producer_update e self (r, ?p)"
    using b b' by (simp add: queue_producer_push_def)
  have h': "producer_holds q ?p out (queued @ bs)" "unsent ?p out (queued @ bs) = unsent p out queued @ bs"
    using h(1) b'(2) by (auto simp: producer_holds_def unsent_def)
  show ?thesis
  proof (cases "producer_writing p = 0")
    case True
    then show ?thesis using queue_producer_update_inv [OF q h'(1) _ r, of written e self] h' h(2,3) push by simp
  next
    case False
    then have "producer_inv q (pushed @ bs) flight written ?p" unfolding producer_inv_def
      using h h' False by - (rule exI [of _ out], rule exI [of _ "queued @ bs"], auto)
    then show ?thesis using push False by (simp add: queue_producer_update_def)
  qed
qed

lemma queue_producer_write_inv:
  assumes q: "queue_usable q" and inv: "producer_inv q pushed flight written p" and r: "reactor_ready r (Suc n)"
    and w: "producer_writing p \<noteq> 0" and m: "m \<le> length flight" "sint (ucast (event_data event) :: int32) = int m"
      "whole_elements q (ucast (event_data event))"
    and lim: "length pushed \<le> buffer_limit"
  shows "\<exists>rp. queue_producer_write e event (r, p) = Some rp \<and>
    producer_inv q pushed (queue_in_flight rp) (written @ take m flight) (snd rp)"
proof -
  obtain out queued where h: "producer_holds q p out queued" "pushed = written @ unsent p out queued"
    "length out + length queued \<le> length pushed" "flight = take (queue_batch q) (drop (unat (producer_offset p)) out)"
    using inv w by (auto simp: producer_inv_def)
  have ne: "ucast (event_data event) \<noteq> - EINTR" 
  proof
    assume a: "ucast (event_data event) = - EINTR"
    have "sint (- EINTR) = - 4" by (simp add: EINTR_def)
    then show False using m(2) unfolding a by simp
  qed
  let ?res = "ucast (event_data event) :: int32"
  let ?p = "p\<lparr>producer_writing := 0, producer_offset := producer_offset p + scast ?res\<rparr>"
  have wr: "queue_producer_write e event (r, p) = queue_producer_update e (event_state event) (r, ?p)"
    using ne m(3) h(1) by (simp add: queue_producer_write_def producer_holds_def Let_def)
  have mo: "unat (producer_offset p) + m \<le> length out"
    using m(1) h(1,4) by (simp add: producer_holds_def min_def split: if_splits)
  have "unat (scast ?res :: size_t) = m"
  proof -
    have "(scast ?res :: size_t) = word_of_int (sint ?res)" by (simp add: of_int_sint)
    also have "\<dots> = of_nat m" using m(2) by simp
    finally show ?thesis using mo lim h(3) by (simp add: unat_of_nat64 buffer_limit_def)
  qed
  then have off: "unat (producer_offset ?p) = unat (producer_offset p) + m"
    using mo lim h(3) by (simp add: unat_add64 buffer_limit_def)
  have h': "producer_holds q ?p out queued" using h(1) mo off by (simp add: producer_holds_def)
  have m_le: "m \<le> queue_batch q" using m(1) h(4) by simp
  have "written @ unsent p out queued = (written @ take m flight) @ unsent ?p out queued"
  proof -
    have "take m flight = take m (drop (unat (producer_offset p)) out)" using h(4) m_le by (simp add: min_def)
    moreover have "drop (unat (producer_offset ?p)) out = drop m (drop (unat (producer_offset p)) out)"
      unfolding off by (simp add: add.commute)
    ultimately show ?thesis unfolding unsent_def by (metis append_assoc append_take_drop_id)
  qed
  then show ?thesis
    using queue_producer_update_inv [OF q h' _ r, of "written @ take m flight" e "event_state event"] h(2,3) wr by simp
qed

lemma queue_producer_interrupted_inv:
  assumes q: "queue_usable q" and inv: "producer_inv q pushed flight written p" and r: "reactor_ready r (Suc n)"
    and w: "producer_writing p \<noteq> 0" and res: "ucast (event_data event) = - EINTR"
  shows "\<exists>rp. queue_producer_write e event (r, p) = Some rp \<and> producer_inv q pushed (queue_in_flight rp) written (snd rp)"
proof -
  obtain out queued where h: "producer_holds q p out queued" "pushed = written @ unsent p out queued"
    "length out + length queued \<le> length pushed"
    using inv w by (auto simp: producer_inv_def)
  have "producer_holds q (p\<lparr>producer_writing := 0\<rparr>) out queued" "unsent (p\<lparr>producer_writing := 0\<rparr>) out queued = unsent p out queued"
    using h(1) by (simp_all add: producer_holds_def unsent_def)
  then show ?thesis
    using queue_producer_update_inv [OF q _ _ r, of "p\<lparr>producer_writing := 0\<rparr>" out queued written e "event_state event"] h(2,3) res
    by (simp add: queue_producer_write_def Let_def)
qed


lemma producer_inv_open: "producer_inv q [] [] [] (queue_producer_open q queue_producer_construct)"
  by (auto simp: producer_inv_def producer_holds_def unsent_def queue_producer_open_def queue_producer_construct_def
      intro!: exI [of _ "[]"])

lemma queue_producer_run_inv:
  assumes "queue_producer_run e self q pushed flight written rp" "queue_usable q" "length pushed \<le> buffer_limit"
  shows "producer_inv q pushed flight written (snd rp)"
  using assms
proof (induction rule: queue_producer_run.induct)
  case (run_open r)
  then show ?case using producer_inv_open by simp
next
  case (run_other pushed flight written r p r')
  then show ?case by simp
next
  case (run_push pushed flight written r p n element bs rp)
  then show ?case using queue_producer_push_inv [of q pushed flight written p r n element bs e self] by auto
next
  case (run_write pushed flight written r p n m event rp)
  have "whole_elements q (ucast (event_data event))"
  proof -
    have "ucast (event_data event) \<noteq> - EINTR" using run_write.hyps by (auto simp: EINTR_def)
    moreover have "producer_queue p = Some q" using run_write by (auto simp: producer_inv_def producer_holds_def)
    ultimately show ?thesis using run_write.hyps by (simp add: queue_producer_write_def Let_def split: if_splits)
  qed
  then show ?case using run_write queue_producer_write_inv [of q pushed flight written p r n m event e] by auto
next
  case (run_interrupted pushed flight written r p n event rp)
  then show ?case using queue_producer_interrupted_inv [of q pushed flight written p r n event e] by auto
qed


definition queue_example :: queue where
  "queue_example = \<lparr>queue_read_fd = 3, queue_write_fd = 4, queue_element_size = 2\<rparr>"

lemma queue_example_usable: "queue_usable queue_example"
  by (simp add: queue_usable_def queue_batch_def queue_example_def)

lemma queue_run_example:
  fixes r :: "('a reactor_handler, 'k) reactor" and e :: "'k reactor_env"
  assumes "reactor_ready r (Suc n)"
  shows "\<exists>flight r' p. queue_producer_run e (Number 64) queue_example [1, 2] flight [] (r' :: ('a reactor_handler, 'k) reactor, p)"
proof -
  let ?p = "queue_producer_open queue_example queue_producer_construct"
  have el: "ptr_bytes (Some [Some 1, Some 2]) (unat (queue_element_size queue_example)) = Some [1, 2]"
    by (simp add: queue_example_def ptr_bytes_def)
  obtain r' p where p: "queue_producer_push e (Number 64) (Some [Some 1, Some 2]) (r, ?p) = Some (r', p)"
    using queue_producer_push_inv [OF queue_example_usable producer_inv_open assms(1) el, of e "Number 64"]
    by (auto simp: buffer_limit_def queue_producer_open_def queue_producer_construct_def)
  from run_push [OF run_open assms(1) el p] show ?thesis unfolding append_Nil by blast
qed


lemma int32_of_nat:
  assumes "m < 2 ^ 31"
  shows "sint (of_nat m :: int32) = int m" "scast (of_nat m :: int32) = (of_nat m :: u64)"
proof -
  show s: "sint (of_nat m :: int32) = int m"
    using assms by (simp add: signed_of_nat signed_take_bit_int_eq_self)
  show "scast (of_nat m :: int32) = (of_nat m :: u64)" using s by (metis of_int_of_nat_eq of_int_sint)
qed

lemma ucast_of_nat: "(ucast (of_nat m :: u64) :: int32) = of_nat m"
  by (rule bit_word_eqI) (simp add: bit_simps)

lemma whole_elements_of_nat:
  assumes "0 < unat (queue_element_size q)" "0 < m" "m mod unat (queue_element_size q) = 0" "m < 2 ^ 31"
  shows "sint (ucast (of_nat m :: u64) :: int32) = int m" "whole_elements q (ucast (of_nat m :: u64))"
    "ucast (of_nat m :: u64) \<noteq> - EINTR"
proof -
  note s = int32_of_nat [OF assms(4)]
  show "sint (ucast (of_nat m :: u64) :: int32) = int m" by (simp only: ucast_of_nat s)
  have "of_nat m mod queue_element_size q = 0"
    using assms(3,4) by (simp add: word_unat_eq_iff unat_mod unat_of_nat64)
  then show "whole_elements q (ucast (of_nat m :: u64))"
    using assms(1,2) by (auto simp: whole_elements_def ucast_of_nat s)
  show "ucast (of_nat m :: u64) \<noteq> - EINTR"
  proof
    assume a: "ucast (of_nat m :: u64) = - EINTR"
    have "sint (- EINTR) = - 4" by (simp add: EINTR_def)
    then show False using s(1) unfolding a [unfolded ucast_of_nat, symmetric] by simp
  qed
qed




section \<open>Consumers\<close>

text \<open>The element at an offset of the input buffer.\<close>

definition consumer_element :: "queue \<Rightarrow> u64 \<Rightarrow> 'a queue_consumer \<Rightarrow> byte list option" where
  "consumer_element q offset c = ptr_bytes (ptr_add (buffer_base (consumer_input c)) (unat offset)) (unat (queue_element_size q))"

text \<open>A callback that does something with the element and leaves the consumer alone.\<close>

definition pops_with ::
    "('a reactor_handler \<Rightarrow> reactor_event \<Rightarrow> ('a, 'k, 'w) consumer_world \<Rightarrow> ('a, 'k, 'w) consumer_world option) \<Rightarrow>
      queue \<Rightarrow> (byte list option \<Rightarrow> 'w \<Rightarrow> 'w) \<Rightarrow> 'a queue_consumer \<Rightarrow> bool" where
  "pops_with invoke q f c \<longleftrightarrow> (\<exists>h. user_callback (consumer_user c) = Callback h \<and>
     (\<forall>offset w c'. object_memory w = Some c' \<longrightarrow>
       invoke h (reactor_event_define (user_state (consumer_user c)) QUEUE_CONSUMER_POP offset) w =
         Some (w\<lparr>object_rest := f (consumer_element q offset c') (object_rest w)\<rparr>)))"

lemma queue_consumer_loop_pops:
  assumes "pops_with invoke q f c" "consumer_queue c = Some q" "consumer_abort c = None"
    "buffer_holds (consumer_input c) (concat (ys @ xs) @ tail)"
    "\<forall>x \<in> set (ys @ xs). length x = unat (queue_element_size q)" "0 < unat (queue_element_size q)"
    "length (concat (ys @ xs)) < 2 ^ 31" "object_memory w = Some c" "object_abort w \<noteq> []" "\<not> last (object_abort w)"
  shows "queue_consumer_loop invoke (of_nat (length (concat ys))) (of_nat (length (concat (ys @ xs)))) w =
    Some (w\<lparr>object_rest := fold (\<lambda>x. f (Some x)) xs (object_rest w)\<rparr>, False)"
  using assms
proof (induction xs arbitrary: ys w)
  case Nil
  then show ?case by (simp add: queue_consumer_loop.simps)
next
  case (Cons x xs)
  let ?es = "unat (queue_element_size q)" and ?L = "length (concat ys)" and ?R = "length (concat (ys @ x # xs))"
  let ?c = "c\<lparr>consumer_abort := Some (length (object_abort w) - 1)\<rparr>"
  let ?w = "w\<lparr>object_rest := f (Some x) (object_rest w)\<rparr>"
  have x: "length x = ?es" "?L < ?R" "?R < 2 ^ 31" using Cons.prems by auto
  then have L: "?L < 2 ^ 31" by linarith
  have "unat (of_nat ?L :: u64) = ?L" using L by (simp add: unat_of_nat64)
  then have el: "consumer_element q (of_nat ?L) ?c = Some x"
    using buffer_bytes_at [OF Cons.prems(4), of ?L ?es] x(1) by (simp add: consumer_element_def)
  obtain h where h: "user_callback (consumer_user c) = Callback h"
    "\<And>offset w c'. object_memory w = Some c' \<Longrightarrow>
       invoke h (reactor_event_define (user_state (consumer_user c)) QUEUE_CONSUMER_POP offset) w =
         Some (w\<lparr>object_rest := f (consumer_element q offset c') (object_rest w)\<rparr>)"
    using Cons.prems(1) by (auto simp: pops_with_def)
  have call: "reactor_call invoke (consumer_user c) QUEUE_CONSUMER_POP (of_nat ?L) (w\<lparr>object_memory := Some ?c\<rparr>) =
      Some (?w\<lparr>object_memory := Some ?c\<rparr>)"
    using h(2) [of "w\<lparr>object_memory := Some ?c\<rparr>" ?c "of_nat ?L"] el by (simp add: reactor_call_def h(1))
  have "ucast (queue_element_size q) = (of_nat ?es :: int32)" by simp
  then have next_offset: "of_nat ?L + ucast (queue_element_size q) = (of_nat (length (concat (ys @ [x]))) :: int32)"
    using x(1) by simp
  have same: "c\<lparr>consumer_abort := None\<rparr> = c" "?w\<lparr>object_memory := Some c\<rparr> = ?w" using Cons.prems(3,8) by simp_all
  define L R L' where "L = (of_nat ?L :: int32)" "R = (of_nat ?R :: int32)" "L' = (of_nat (length (concat (ys @ [x]))) :: int32)"
  have LR: "sint L < sint R" "scast L = (of_nat ?L :: u64)" "L + ucast (queue_element_size q) = L'"
    unfolding L_R_L'_def int32_of_nat(1) [OF L] int32_of_nat(1) [OF x(3)] int32_of_nat(2) [OF L] next_offset
    using x(2) by (simp_all only: of_nat_less_iff)
  have "queue_consumer_loop invoke L R w = queue_consumer_loop invoke L' R ?w"
    using Cons.prems(2,8,10) LR call by (subst queue_consumer_loop.simps) (simp add: same)
  also have "\<dots> = Some (?w\<lparr>object_rest := fold (\<lambda>x. f (Some x)) xs (object_rest ?w)\<rparr>, False)"
    using Cons.IH [of "ys @ [x]" ?w] Cons.prems unfolding L_R_L'_def by simp
  finally show ?case unfolding L_R_L'_def by simp
qed



definition collect_elements :: "nat reactor_handler \<Rightarrow> reactor_event \<Rightarrow> (nat, unit, byte list option list) consumer_world \<Rightarrow>
    (nat, unit, byte list option list) consumer_world option" where
  "collect_elements h event w = map_option (\<lambda>c.
     w\<lparr>object_rest := object_rest w @ [consumer_element queue_example (event_data event) c]\<rparr>) (object_memory w)"


end
