(* ===== verification/Rmap.thy ===== *)
theory Rmap
  imports Prelude
begin

text \<open>
  The open-addressing hash table of \<^verbatim>\<open>src/reactor/map.c\<close>: linear probing over a power-of-two
  array, growth at load one half, deletion by shifting entries back. Elements are opaque:
  the callers pass callbacks, as in C.
  \<^item> \<open>hash e\<close>;
  \<^item> \<open>equal e None\<close> (the C call with \<open>NULL\<close>) asks whether a slot is empty,
    \<open>equal e (Some e')\<close> compares keys;
  \<^item> \<open>setf None\<close> is what the C callback \<open>set\<close> writes for an empty slot, \<open>setf (Some e)\<close> what it writes
    to store \<open>e\<close>;
  \<^item> \<open>release\<close>, when given, acts on some state of the caller.

  An element pointer is the slot number; an access outside the array, a call through a
  \<open>NULL\<close> callback and a loop that does not end are the value \<open>None\<close>.
\<close>

record 'e rmap =
  elements :: "'e list option"
  elements_count :: size_t
  elements_capacity :: size_t
  element_size :: size_t

definition map_roundup :: "size_t \<Rightarrow> size_t" where
  "map_roundup s =
     (let s = s - 1;
          s = s OR drop_bit 1 s;
          s = s OR drop_bit 2 s;
          s = s OR drop_bit 4 s;
          s = s OR drop_bit 8 s;
          s = s OR drop_bit 16 s;
          s = s OR drop_bit 32 s
      in s + 1)"

definition map_element :: "'e rmap \<Rightarrow> size_t \<Rightarrow> 'e option" where
  "map_element m position =
     (case elements m of
        None \<Rightarrow> None
      | Some es \<Rightarrow> if unat position < length es then Some (es ! unat position) else None)"

text \<open>\<open>set(map_element(map, position), e)\<close>.\<close>

definition map_set_element :: "('e option \<Rightarrow> 'e) \<Rightarrow> 'e rmap \<Rightarrow> size_t \<Rightarrow> 'e option \<Rightarrow> 'e rmap option" where
  "map_set_element setf m position e =
     (case elements m of
        None \<Rightarrow> None
      | Some es \<Rightarrow>
          if unat position < length es
          then Some (m\<lparr>elements := Some (es[unat position := setf e])\<rparr>) else None)"

text \<open>\<open>map_release_all\<close>: \<open>release\<close> on every occupied slot, in order.\<close>

fun map_release_slots :: "('e \<Rightarrow> 'e option \<Rightarrow> bool) \<Rightarrow> ('e \<Rightarrow> 's \<Rightarrow> 's) \<Rightarrow> 'e list \<Rightarrow> 's \<Rightarrow> 's" where
  "map_release_slots equal release [] st = st"
| "map_release_slots equal release (e # es) st =
     map_release_slots equal release es (if \<not> equal e None then release e st else st)"

definition map_release_all ::
    "'e rmap \<Rightarrow> ('e \<Rightarrow> 'e option \<Rightarrow> bool) \<Rightarrow> ('e \<Rightarrow> 's \<Rightarrow> 's) option \<Rightarrow> 's \<Rightarrow> 's option" where
  "map_release_all m equal release st =
     (case release of
        None \<Rightarrow> Some st
      | Some r \<Rightarrow>
          (case elements m of
             None \<Rightarrow> if elements_capacity m = 0 then Some st else None
           | Some es \<Rightarrow>
               if unat (elements_capacity m) \<le> length es
               then Some (map_release_slots equal r (take (unat (elements_capacity m)) es) st) else None))"

section \<open>Probing\<close>

text \<open>The loop of \<open>map_at\<close>, from index \<open>i\<close>: the slot holding the element, or a free one.\<close>

partial_function (option) map_probe ::
    "('e \<Rightarrow> 'e option \<Rightarrow> bool) \<Rightarrow> 'e rmap \<Rightarrow> 'e \<Rightarrow> size_t \<Rightarrow> size_t option" where
  "map_probe equal m element i =
     (let i = i AND (elements_capacity m - 1)
      in Option.bind (map_element m i)
        (\<lambda>test. if equal test None \<or> equal test (Some element) then Some i
                else map_probe equal m element (i + 1)))"

declare map_probe.simps [code]

definition map_at ::
    "('e \<Rightarrow> size_t) \<Rightarrow> ('e \<Rightarrow> 'e option \<Rightarrow> bool) \<Rightarrow> 'e rmap \<Rightarrow> 'e \<Rightarrow> size_t option" where
  "map_at hash equal m element = map_probe equal m element (hash element)"

section \<open>Growing and inserting\<close>

text \<open>
  \<open>map_rehash\<close>, \<open>map_reserve\<close> and \<open>map_insert\<close> call each other. The first two are written
  over the insertion they call; \<open>map_insert_n\<close> ties the knot with the nesting depth as fuel.
  The loop of \<open>map_rehash\<close> runs over the old slots in order.
\<close>

fun map_reinsert ::
    "('e rmap \<Rightarrow> 'e \<Rightarrow> 'e rmap option) \<Rightarrow> ('e \<Rightarrow> 'e option \<Rightarrow> bool) \<Rightarrow> 'e list \<Rightarrow> 'e rmap \<Rightarrow> 'e rmap option" where
  "map_reinsert ins equal [] new = Some new"
| "map_reinsert ins equal (e # es) new =
     (if \<not> equal e None
      then Option.bind (ins new e) (\<lambda>new. map_reinsert ins equal es new)
      else map_reinsert ins equal es new)"

definition map_rehash ::
    "('e rmap \<Rightarrow> 'e \<Rightarrow> 'e rmap option) \<Rightarrow> ('e option \<Rightarrow> 'e) \<Rightarrow> ('e \<Rightarrow> 'e option \<Rightarrow> bool) \<Rightarrow>
     'e rmap \<Rightarrow> size_t \<Rightarrow> 'e rmap option" where
  "map_rehash ins setf equal m sz =
     (let sz = map_roundup sz;
          new = m\<lparr>elements_count := 0, elements_capacity := sz,
                  elements := Some (replicate (unat sz) (setf None))\<rparr>
      in case elements m of
           None \<Rightarrow> Some new
         | Some es \<Rightarrow>
             if unat (elements_capacity m) \<le> length es
             then map_reinsert ins equal (take (unat (elements_capacity m)) es) new else None)"

definition map_reserve_with ::
    "('e rmap \<Rightarrow> 'e \<Rightarrow> 'e rmap option) \<Rightarrow> ('e option \<Rightarrow> 'e) \<Rightarrow> ('e \<Rightarrow> 'e option \<Rightarrow> bool) \<Rightarrow>
     'e rmap \<Rightarrow> size_t \<Rightarrow> 'e rmap option" where
  "map_reserve_with ins setf equal m sz =
     (let sz = sz * 2
      in if sz > elements_capacity m then map_rehash ins setf equal m sz else Some m)"

text \<open>The flag says whether the element was stored; if not, \<open>release(element)\<close> is due.\<close>

fun map_insert_n ::
    "nat \<Rightarrow> ('e \<Rightarrow> size_t) \<Rightarrow> ('e option \<Rightarrow> 'e) \<Rightarrow> ('e \<Rightarrow> 'e option \<Rightarrow> bool) \<Rightarrow>
     'e rmap \<Rightarrow> 'e \<Rightarrow> ('e rmap \<times> bool) option" where
  "map_insert_n 0 hash setf equal m element = None"
| "map_insert_n (Suc n) hash setf equal m element = do {
     m \<leftarrow> map_reserve_with (\<lambda>m e. map_option fst (map_insert_n n hash setf equal m e))
            setf equal m (elements_count m + 1);
     i \<leftarrow> map_at hash equal m element;
     test \<leftarrow> map_element m i;
     if equal test None
     then do {
       m \<leftarrow> map_set_element setf m i (Some element);
       Some (m\<lparr>elements_count := elements_count m + 1\<rparr>, True) }
     else Some (m, False) }"

text \<open>
  Depth 2 is enough: an insertion may rehash, and the insertions of that rehash find room
  (\<open>insert_room\<close> and \<open>insert_n\<close> below hold at every depth from 1 and from 2 on).
\<close>

definition map_insert ::
    "('e \<Rightarrow> size_t) \<Rightarrow> ('e option \<Rightarrow> 'e) \<Rightarrow> ('e \<Rightarrow> 'e option \<Rightarrow> bool) \<Rightarrow> ('e \<Rightarrow> 's \<Rightarrow> 's) option \<Rightarrow>
     'e rmap \<Rightarrow> 'e \<Rightarrow> 's \<Rightarrow> ('e rmap \<times> 's) option" where
  "map_insert hash setf equal release m element st = do {
     (m, stored) \<leftarrow> map_insert_n 2 hash setf equal m element;
     Some (m, if stored then st else (case release of None \<Rightarrow> st | Some r \<Rightarrow> r element st)) }"

definition map_reserve ::
    "('e \<Rightarrow> size_t) \<Rightarrow> ('e option \<Rightarrow> 'e) \<Rightarrow> ('e \<Rightarrow> 'e option \<Rightarrow> bool) \<Rightarrow> 'e rmap \<Rightarrow> size_t \<Rightarrow> 'e rmap option" where
  "map_reserve hash setf equal m sz =
     map_reserve_with (\<lambda>m e. map_option fst (map_insert_n 1 hash setf equal m e)) setf equal m sz"

section \<open>Construction\<close>

definition MAP_ELEMENTS_CAPACITY_MIN :: size_t where
  "MAP_ELEMENTS_CAPACITY_MIN = 8"

definition map_construct :: "size_t \<Rightarrow> ('e option \<Rightarrow> 'e) \<Rightarrow> 'e rmap option" where
  "map_construct esize setf =
     map_rehash (\<lambda>_ _. None) setf (\<lambda>_ _. False)
       \<lparr>elements = None, elements_count = 0, elements_capacity = 0, element_size = esize\<rparr>
       MAP_ELEMENTS_CAPACITY_MIN"

definition map_destruct ::
    "'e rmap \<Rightarrow> ('e \<Rightarrow> 'e option \<Rightarrow> bool) \<Rightarrow> ('e \<Rightarrow> 's \<Rightarrow> 's) option \<Rightarrow> 's \<Rightarrow> 's option" where
  "map_destruct m equal release st = map_release_all m equal release st"

definition map_size :: "'e rmap \<Rightarrow> size_t" where
  "map_size m = elements_count m"

section \<open>Erasing\<close>

text \<open>The search loop: the slot of the element, or \<open>Some None\<close> at an empty slot.\<close>

partial_function (option) map_find ::
    "('e \<Rightarrow> 'e option \<Rightarrow> bool) \<Rightarrow> 'e rmap \<Rightarrow> 'e \<Rightarrow> size_t \<Rightarrow> size_t option option" where
  "map_find equal m element i =
     (let i = i AND (elements_capacity m - 1)
      in Option.bind (map_element m i)
        (\<lambda>test. if equal test None then Some None
                else if equal test (Some element) then Some (Some i)
                else map_find equal m element (i + 1)))"

declare map_find.simps [code]

text \<open>
  The shift loop: \<open>i\<close> is the hole, \<open>j\<close> the slot last looked at. An entry moves into the
  hole unless its home slot lies cyclically after the hole.
\<close>

partial_function (option) map_shift ::
    "('e \<Rightarrow> size_t) \<Rightarrow> ('e option \<Rightarrow> 'e) \<Rightarrow> ('e \<Rightarrow> 'e option \<Rightarrow> bool) \<Rightarrow> 'e rmap \<Rightarrow> size_t \<Rightarrow> size_t \<Rightarrow>
     ('e rmap \<times> size_t) option" where
  "map_shift hash setf equal m i j =
     (let j = (j + 1) AND (elements_capacity m - 1)
      in Option.bind (map_element m j)
        (\<lambda>ej. if equal ej None then Some (m, i)
              else let k = hash ej AND (elements_capacity m - 1)
                   in if (i < j \<and> (k \<le> i \<or> k > j)) \<or> (i > j \<and> (k \<le> i \<and> k > j))
                      then Option.bind (map_set_element setf m i (Some ej))
                             (\<lambda>m. map_shift hash setf equal m j j)
                      else map_shift hash setf equal m i j))"

declare map_shift.simps [code]

definition map_erase ::
    "('e \<Rightarrow> size_t) \<Rightarrow> ('e option \<Rightarrow> 'e) \<Rightarrow> ('e \<Rightarrow> 'e option \<Rightarrow> bool) \<Rightarrow> ('e \<Rightarrow> 's \<Rightarrow> 's) option \<Rightarrow>
     'e rmap \<Rightarrow> 'e \<Rightarrow> 's \<Rightarrow> ('e rmap \<times> 's) option" where
  "map_erase hash setf equal release m element st = do {
     found \<leftarrow> map_find equal m element (hash element);
     (case found of
        None \<Rightarrow> Some (m, st)
      | Some i \<Rightarrow> do {
          test \<leftarrow> map_element m i;
          let st = (case release of None \<Rightarrow> st | Some r \<Rightarrow> r test st);
          let m = m\<lparr>elements_count := elements_count m - 1\<rparr>;
          (m, i) \<leftarrow> map_shift hash setf equal m i i;
          m \<leftarrow> map_set_element setf m i None;
          Some (m, st) }) }"

definition map_clear ::
    "('e option \<Rightarrow> 'e) \<Rightarrow> ('e \<Rightarrow> 'e option \<Rightarrow> bool) \<Rightarrow> ('e \<Rightarrow> 's \<Rightarrow> 's) option \<Rightarrow>
     'e rmap \<Rightarrow> 's \<Rightarrow> ('e rmap \<times> 's) option" where
  "map_clear setf equal release m st = do {
     st \<leftarrow> map_release_all m equal release st;
     m \<leftarrow> map_rehash (\<lambda>_ _. None) setf (\<lambda>_ _. False)
            (m\<lparr>elements := None, elements_count := 0, elements_capacity := 0\<rparr>)
            MAP_ELEMENTS_CAPACITY_MIN;
     Some (m, st) }"

section \<open>Cyclic distance\<close>

definition cdist :: "nat \<Rightarrow> nat \<Rightarrow> nat \<Rightarrow> nat" where
  "cdist n a b = (if a \<le> b then b - a else b + n - a)"

lemma cdist_less: "a < n \<Longrightarrow> b < n \<Longrightarrow> cdist n a b < n"
  by (auto simp: cdist_def)

lemma cdist_self [simp]: "cdist n a a = 0"
  by (simp add: cdist_def)

lemma cdist_eq_iff: "a < n \<Longrightarrow> x < n \<Longrightarrow> y < n \<Longrightarrow> cdist n a x = cdist n a y \<longleftrightarrow> x = y"
  by (auto simp: cdist_def)

lemma cdist_at:
  assumes "a < n" "t < n"
  shows "(a + t) mod n < n" "cdist n a ((a + t) mod n) = t"
proof -
  show "(a + t) mod n < n" using assms by simp
  show "cdist n a ((a + t) mod n) = t"
  proof (cases "a + t < n")
    case False
    then have "(a + t) mod n = a + t - n" using assms by (simp add: mod_if)
    then show ?thesis using False assms by (simp add: cdist_def)
  qed (use assms in \<open>simp add: cdist_def\<close>)
qed

lemma at_cdist: "a < n \<Longrightarrow> b < n \<Longrightarrow> (a + cdist n a b) mod n = b"
  by (auto simp: cdist_def)

lemma cdist_Suc:
  assumes "i < n" "j < n" "(j + 1) mod n \<noteq> i"
  shows "cdist n i ((j + 1) mod n) = Suc (cdist n i j)"
  using assms by (cases "Suc j = n") (auto simp: cdist_def)

text \<open>The move test of the shift loop is the cyclic one.\<close>

lemma shift_test_cyclic:
  assumes "i < n" "j < n" "k < n" "i \<noteq> j"
  shows "((i < j \<and> (k \<le> i \<or> k > j)) \<or> (i > j \<and> (k \<le> i \<and> k > j))) \<longleftrightarrow> cdist n i j \<le> cdist n k j"
  using assms by (auto simp: cdist_def)

section \<open>Indices as words\<close>

lemma map_roundup_pow2:
  assumes "0 < unat n" "unat n \<le> 2 ^ 63"
  shows "\<exists>k\<le>63. unat (map_roundup n) = 2 ^ k \<and> unat n \<le> 2 ^ k \<and> 2 ^ k < 2 * unat n"
  unfolding map_roundup_def Let_def
  by (rule smear_roundup [OF refl refl refl refl refl refl refl assms])

lemma unat_and_mask:
  fixes x cap :: u64
  assumes "unat cap = 2 ^ c" "c < 64"
  shows "unat (x AND (cap - 1)) = unat x mod 2 ^ c"
proof -
  have "cap = 2 ^ c"
    using assms unat_exp64 [of c] by (simp add: word_unat_eq_iff)
  then have "x AND (cap - 1) = take_bit c x"
    by (simp add: take_bit_eq_mask mask_eq_exp_minus_1)
  then have "unat (x AND (cap - 1)) = take_bit c (unat x)"
    by (simp add: unsigned_take_bit_eq)
  then show ?thesis by (simp only: take_bit_eq_mod)
qed

lemma mod_pow2_64: "c \<le> 64 \<Longrightarrow> x mod 2 ^ 64 mod 2 ^ c = x mod (2::nat) ^ c"
  by (rule mod_mod_cancel) (rule le_imp_power_dvd)

lemma unat_Suc_mod:
  assumes "c \<le> 64"
  shows "unat (i + 1 :: u64) mod 2 ^ c = Suc (unat i) mod 2 ^ c"
proof -
  have "unat (i + 1) = Suc (unat i) mod 2 ^ 64" by (simp add: unat_word_ariths)
  then show ?thesis using mod_pow2_64 [OF assms, of "Suc (unat i)"] by simp
qed

section \<open>The table invariant\<close>

text \<open>
  \<open>home\<close> is the slot an element hashes to. In a table, no key occurs twice and every slot
  on the way from an element's home to the element is occupied.
\<close>

definition home :: "('e \<Rightarrow> size_t) \<Rightarrow> nat \<Rightarrow> 'e \<Rightarrow> nat" where
  "home hash n e = unat (hash e) mod n"

definition keys_distinct :: "('e \<Rightarrow> 'k option) \<Rightarrow> 'e list \<Rightarrow> bool" where
  "keys_distinct key es \<longleftrightarrow>
     (\<forall>x<length es. \<forall>y<length es. key (es ! x) \<noteq> None \<longrightarrow> key (es ! x) = key (es ! y) \<longrightarrow> x = y)"

definition probe_paths :: "('e \<Rightarrow> size_t) \<Rightarrow> ('e \<Rightarrow> 'k option) \<Rightarrow> 'e list \<Rightarrow> bool" where
  "probe_paths hash key es \<longleftrightarrow>
     (\<forall>x<length es. key (es ! x) \<noteq> None \<longrightarrow>
        (\<forall>y<length es. cdist (length es) (home hash (length es) (es ! x)) y
                         < cdist (length es) (home hash (length es) (es ! x)) x \<longrightarrow> key (es ! y) \<noteq> None))"

definition occupied :: "('e \<Rightarrow> 'k option) \<Rightarrow> 'e list \<Rightarrow> nat set" where
  "occupied key es = {x. x < length es \<and> key (es ! x) \<noteq> None}"

text \<open>Every free slot holds what \<open>setf None\<close> wrote.\<close>

definition clean :: "('e option \<Rightarrow> 'e) \<Rightarrow> ('e \<Rightarrow> 'k option) \<Rightarrow> 'e list \<Rightarrow> bool" where
  "clean setf key es \<longleftrightarrow> (\<forall>e\<in>set es. key e = None \<longrightarrow> e = setf None)"

definition map_inv :: "('e \<Rightarrow> size_t) \<Rightarrow> ('e option \<Rightarrow> 'e) \<Rightarrow> ('e \<Rightarrow> 'k option) \<Rightarrow> 'e rmap \<Rightarrow> bool" where
  "map_inv hash setf key m \<longleftrightarrow>
     (\<exists>es c. elements m = Some es \<and> c \<le> 63 \<and> length es = 2 ^ c \<and> unat (elements_capacity m) = 2 ^ c \<and>
        keys_distinct key es \<and> probe_paths hash key es \<and> clean setf key es \<and>
        unat (elements_count m) = card (occupied key es) \<and> 2 * unat (elements_count m) \<le> 2 ^ c)"

lemma clean_update: "clean setf key es \<Longrightarrow> key e \<noteq> None \<or> e = setf None \<Longrightarrow> clean setf key (es[i := e])"
  using set_update_subset_insert [of es i e] by (auto simp: clean_def)

text \<open>The finite map a table stands for: from keys to the elements that hold them.\<close>

definition table_lookup :: "('e \<Rightarrow> 'k option) \<Rightarrow> 'e list \<Rightarrow> 'k \<Rightarrow> 'e option" where
  "table_lookup key es k = List.find (\<lambda>e. key e = Some k) es"

definition map_lookup :: "('e \<Rightarrow> 'k option) \<Rightarrow> 'e rmap \<Rightarrow> 'k \<Rightarrow> 'e option" where
  "map_lookup key m k = (case elements m of None \<Rightarrow> None | Some es \<Rightarrow> table_lookup key es k)"

definition map_entries :: "('e \<Rightarrow> 'k option) \<Rightarrow> 'e rmap \<Rightarrow> 'e list" where
  "map_entries key m = (case elements m of None \<Rightarrow> [] | Some es \<Rightarrow> filter (\<lambda>e. key e \<noteq> None) es)"

lemma table_lookup_None: "table_lookup key es k = None \<longleftrightarrow> (\<forall>x<length es. key (es ! x) \<noteq> Some k)"
  by (auto simp: table_lookup_def find_None_iff in_set_conv_nth)

lemma table_lookup_at:
  assumes "keys_distinct key es" "x < length es" "key (es ! x) = Some k"
  shows "table_lookup key es k = Some (es ! x)"
proof -
  have "\<exists>y<length es. key (es ! y) = Some k \<and> table_lookup key es k = Some (es ! y)"
    using assms(2,3) unfolding table_lookup_def
    by (cases "List.find (\<lambda>e. key e = Some k) es") (auto simp: find_None_iff find_Some_iff in_set_conv_nth)
  then show ?thesis using assms unfolding keys_distinct_def by (metis option.distinct(1))
qed

lemma table_lookup_iff:
  assumes "keys_distinct key es"
  shows "table_lookup key es k = Some e \<longleftrightarrow> (\<exists>x<length es. es ! x = e \<and> key e = Some k)"
proof
  assume "table_lookup key es k = Some e"
  then show "\<exists>x<length es. es ! x = e \<and> key e = Some k"
    by (auto simp: table_lookup_def find_Some_iff)
qed (use table_lookup_at [OF assms] in auto)

lemma map_lookup_key: "map_lookup key m k = Some e \<Longrightarrow> key e = Some k"
  by (auto simp: map_lookup_def table_lookup_def find_Some_iff split: option.splits)

lemma finite_occupied [simp]: "finite (occupied key es)"
  by (simp add: occupied_def)

lemma free_slot:
  assumes "2 * card (occupied key es) \<le> length es" "0 < length es"
  shows "\<exists>q<length es. key (es ! q) = None"
proof (rule ccontr)
  assume "\<not> ?thesis"
  then have "occupied key es = {..<length es}" by (auto simp: occupied_def)
  then show False using assms by simp
qed


section \<open>Probing finds the element or a free slot\<close>

lemma map_element_at: "elements m = Some es \<Longrightarrow> unat i < length es \<Longrightarrow> map_element m i = Some (es ! unat i)"
  by (simp add: map_element_def)

text \<open>Both search loops walk the slots from the start index until one stops them.\<close>

lemma probe_walk:
  assumes m: "elements m = Some es" "length es = 2 ^ c" "unat (elements_capacity m) = 2 ^ c" "c \<le> 63"
    and pass: "\<And>t. t < d \<Longrightarrow> \<not> equal (es ! ((unat i + t) mod 2 ^ c)) None \<and>
      \<not> equal (es ! ((unat i + t) mod 2 ^ c)) (Some e)"
    and stop: "equal (es ! ((unat i + d) mod 2 ^ c)) None \<or> equal (es ! ((unat i + d) mod 2 ^ c)) (Some e)"
  shows "map_probe equal m e i = Some (of_nat ((unat i + d) mod 2 ^ c)) \<and>
    map_find equal m e i = Some (if equal (es ! ((unat i + d) mod 2 ^ c)) None then None
       else Some (of_nat ((unat i + d) mod 2 ^ c)))"
  using pass stop
proof (induction d arbitrary: i)
  case (0 i)
  have u: "unat (i AND (elements_capacity m - 1)) = unat i mod 2 ^ c"
    using m(3,4) by (simp add: unat_and_mask)
  have el: "map_element m (i AND (elements_capacity m - 1)) = Some (es ! (unat i mod 2 ^ c))"
    using m u by (subst map_element_at) simp_all
  have w: "of_nat (unat i mod 2 ^ c) = i AND (elements_capacity m - 1)"
    by (simp flip: u)
  show ?case
    using 0 el w by (subst map_probe.simps, subst map_find.simps) (auto simp add: Let_def)
next
  case (Suc d i)
  let ?i = "i AND (elements_capacity m - 1)"
  have u: "unat ?i = unat i mod 2 ^ c"
    using m(3,4) by (simp add: unat_and_mask)
  have el: "map_element m ?i = Some (es ! (unat i mod 2 ^ c))"
    using m u by (subst map_element_at) simp_all
  have step: "(unat (?i + 1) + t) mod 2 ^ c = (unat i + Suc t) mod 2 ^ c" for t
  proof -
    have "unat (?i + 1) mod 2 ^ c = Suc (unat i) mod 2 ^ c"
      using unat_Suc_mod [of c ?i] m(4) u by (simp add: mod_Suc_eq)
    then have "(unat (?i + 1) + t) mod 2 ^ c = (Suc (unat i) + t) mod 2 ^ c"
      by (rule mod_add_cong) simp
    then show ?thesis by simp
  qed
  have now: "\<not> equal (es ! (unat i mod 2 ^ c)) None \<and> \<not> equal (es ! (unat i mod 2 ^ c)) (Some e)"
    using Suc.prems(1) [of 0] by simp
  have "map_probe equal m e (?i + 1) = Some (of_nat ((unat (?i + 1) + d) mod 2 ^ c)) \<and>
    map_find equal m e (?i + 1) = Some (if equal (es ! ((unat (?i + 1) + d) mod 2 ^ c)) None then None
       else Some (of_nat ((unat (?i + 1) + d) mod 2 ^ c)))"
  proof (rule Suc.IH)
    show "\<not> equal (es ! ((unat (?i + 1) + t) mod 2 ^ c)) None \<and>
        \<not> equal (es ! ((unat (?i + 1) + t) mod 2 ^ c)) (Some e)" if "t < d" for t
    proof -
      have "Suc t < Suc d" using that by simp
      from Suc.prems(1) [OF this] show ?thesis unfolding step .
    qed
    show "equal (es ! ((unat (?i + 1) + d) mod 2 ^ c)) None \<or>
        equal (es ! ((unat (?i + 1) + d) mod 2 ^ c)) (Some e)"
      using Suc.prems(2) by (simp only: step)
  qed
  then show ?case
    using now el by (subst map_probe.simps, subst map_find.simps) (simp add: Let_def step)
qed

section \<open>Tables with a hole\<close>

text \<open>
  While the loop runs, slot \<open>i\<close> is a hole that still shows an old element. The other
  entries are a table in which the hole counts as occupied, and no entry up to \<open>j\<close> has the
  hole on its path.
\<close>

definition entries_but :: "('e \<Rightarrow> 'k option) \<Rightarrow> 'e list \<Rightarrow> nat \<Rightarrow> 'e set" where
  "entries_but key es i = {es ! x |x. x < length es \<and> x \<noteq> i \<and> key (es ! x) \<noteq> None}"

definition hole_table :: "('e \<Rightarrow> size_t) \<Rightarrow> ('e \<Rightarrow> 'k option) \<Rightarrow> 'e list \<Rightarrow> nat \<Rightarrow> bool" where
  "hole_table hash key es i \<longleftrightarrow> i < length es \<and> key (es ! i) \<noteq> None \<and>
     (\<forall>x<length es. \<forall>y<length es. x \<noteq> i \<longrightarrow> y \<noteq> i \<longrightarrow> key (es ! x) \<noteq> None \<longrightarrow> key (es ! x) = key (es ! y) \<longrightarrow> x = y) \<and>
     (\<forall>x<length es. x \<noteq> i \<longrightarrow> key (es ! x) \<noteq> None \<longrightarrow>
        (\<forall>y<length es. cdist (length es) (home hash (length es) (es ! x)) y
                         < cdist (length es) (home hash (length es) (es ! x)) x \<longrightarrow> key (es ! y) \<noteq> None))"

definition off_path :: "('e \<Rightarrow> size_t) \<Rightarrow> 'e list \<Rightarrow> nat \<Rightarrow> nat \<Rightarrow> bool" where
  "off_path hash es i x \<longleftrightarrow>
     \<not> cdist (length es) (home hash (length es) (es ! x)) i < cdist (length es) (home hash (length es) (es ! x)) x"

section \<open>The contract of the callbacks\<close>

text \<open>
  What \<open>map.c\<close> relies on: an element has a key unless it is the empty one, the
  callbacks see elements only through their key, and equal keys hash alike.
\<close>

declare map_insert_n.simps [simp del]

locale map_callbacks =
  fixes hash :: "'e \<Rightarrow> size_t"
    and setf :: "'e option \<Rightarrow> 'e"
    and equal :: "'e \<Rightarrow> 'e option \<Rightarrow> bool"
    and key :: "'e \<Rightarrow> 'k option"
  assumes equal_null [simp]: "equal e None \<longleftrightarrow> key e = None"
    and equal_some: "key e \<noteq> None \<Longrightarrow> key e' \<noteq> None \<Longrightarrow> equal e (Some e') \<longleftrightarrow> key e = key e'"
    and setf_null [simp]: "key (setf None) = None"
    and setf_some [simp]: "setf (Some e) = e"
    and hash_key: "key e \<noteq> None \<Longrightarrow> key e = key e' \<Longrightarrow> hash e = hash e'"
begin

text \<open>The slot both searches end at: the element's own, or the free one where it belongs.\<close>

lemma search:
  assumes inv: "map_inv hash setf key m" and es: "elements m = Some es" and k: "key e = Some k"
  obtains p where "p < length es" "unat (of_nat p :: size_t) = p"
    "map_at hash equal m e = Some (of_nat p)"
    "map_find equal m e (hash e) = Some (if key (es ! p) = None then None else Some (of_nat p))"
    "key (es ! p) = None \<or> key (es ! p) = Some k"
    "\<forall>y<length es. cdist (length es) (home hash (length es) e) y < cdist (length es) (home hash (length es) e) p
       \<longrightarrow> key (es ! y) \<noteq> None"
    "key (es ! p) = None \<Longrightarrow> table_lookup key es k = None"
    "key (es ! p) = Some k \<Longrightarrow> table_lookup key es k = Some (es ! p)"
proof -
  obtain c where c: "length es = 2 ^ c" "c \<le> 63" "unat (elements_capacity m) = 2 ^ c"
    "keys_distinct key es" "probe_paths hash key es"
    "2 * card (occupied key es) \<le> 2 ^ c"
    using inv es by (auto simp: map_inv_def)
  let ?n = "length es" and ?h = "home hash (length es) e"
  let ?stop = "\<lambda>t. equal (es ! ((?h + t) mod ?n)) None \<or> equal (es ! ((?h + t) mod ?n)) (Some e)"
  have n: "0 < ?n" using c by simp
  have h: "?h < ?n" using n by (simp add: home_def)
  obtain q where q: "q < ?n" "key (es ! q) = None"
    using free_slot [of key es] c n by auto
  then have sq: "?stop (cdist ?n ?h q)" by (simp add: at_cdist h)
  define d where "d = (LEAST t. ?stop t)"
  have stop: "?stop d" unfolding d_def by (rule LeastI [of ?stop, OF sq])
  have d: "d \<le> cdist ?n ?h q" unfolding d_def by (rule Least_le [of ?stop, OF sq])
  have pass: "\<not> ?stop t" if "t < d" for t
    using that not_less_Least unfolding d_def by blast
  define p where "p = (?h + d) mod ?n"
  have dn: "d < ?n" using d cdist_less [OF h q(1)] by simp
  then have p: "p < ?n" "cdist ?n ?h p = d" using cdist_at [OF h] by (simp_all add: p_def)
  have hm: "(unat (hash e) + t) mod 2 ^ c = (?h + t) mod ?n" for t
    by (simp add: home_def c(1) mod_add_left_eq)
  have walk: "map_probe equal m e (hash e) = Some (of_nat p) \<and>
      map_find equal m e (hash e) = Some (if equal (es ! p) None then None else Some (of_nat p))"
    using probe_walk [OF es c(1,3,2), of d equal "hash e" e] pass stop by (simp add: hm p_def)
  have "?n \<le> 2 ^ 63" unfolding c(1) by (rule power_increasing) (use c in auto)
  then have "p < 2 ^ 64" using p(1) by (simp add: order.strict_trans2)
  then have up: "unat (of_nat p :: size_t) = p" by simp
  have path: "key (es ! y) \<noteq> None \<and> \<not> equal (es ! y) (Some e)"
    if "y < ?n" "cdist ?n ?h y < d" for y
    using pass [OF that(2)] at_cdist [OF h that(1)] by simp
  have kp: "key (es ! p) = None \<or> key (es ! p) = Some k"
  proof -
    have "equal (es ! p) None \<or> equal (es ! p) (Some e)" using stop by (simp only: p_def)
    then show ?thesis using k equal_some [of "es ! p" e] by (cases "key (es ! p) = None") auto
  qed
  have free: "table_lookup key es k = None" if "key (es ! p) = None"
    unfolding table_lookup_None
  proof (intro allI impI notI)
    fix x assume x: "x < ?n" "key (es ! x) = Some k"
    then have "hash (es ! x) = hash e" using hash_key [of "es ! x" e] k by simp
    then have hx: "home hash ?n (es ! x) = ?h" by (simp add: home_def)
    have "\<not> d < cdist ?n ?h x"
      using c(5) x that p unfolding probe_paths_def hx [symmetric] by (metis hx option.distinct(1))
    moreover have "x \<noteq> p" using that x by auto
    then have "cdist ?n ?h x \<noteq> d" using cdist_eq_iff [OF h x(1) p(1)] p(2) by simp
    ultimately have "\<not> equal (es ! x) (Some e)" using path x by simp
    then show False using equal_some [of "es ! x" e] x k by simp
  qed
  show thesis
    by (rule that [OF p(1) up])
      (use walk kp path p free table_lookup_at [OF c(4) p(1)] in \<open>auto simp: map_at_def\<close>)
qed

text \<open>Storing an element in the free slot its search ended at.\<close>

lemma store_free:
  assumes t: "keys_distinct key es" "probe_paths hash key es"
    and p: "p < length es" "key (es ! p) = None" and k: "key e = Some k" "table_lookup key es k = None"
    and path: "\<forall>y<length es. cdist (length es) (home hash (length es) e) y < cdist (length es) (home hash (length es) e) p
       \<longrightarrow> key (es ! y) \<noteq> None"
  shows "keys_distinct key (es[p := e])" "probe_paths hash key (es[p := e])"
    "occupied key (es[p := e]) = insert p (occupied key es)"
    "table_lookup key (es[p := e]) = (table_lookup key es)(k \<mapsto> e)"
proof -
  have fresh: "key (es ! x) \<noteq> Some k" if "x < length es" for x
    using k(2) that by (simp add: table_lookup_None)
  show d: "keys_distinct key (es[p := e])"
    unfolding keys_distinct_def
  proof (intro allI impI)
    fix x y assume a: "x < length (es[p := e])" "y < length (es[p := e])" "key (es[p := e] ! x) \<noteq> None"
      "key (es[p := e] ! x) = key (es[p := e] ! y)"
    then show "x = y"
      using t(1) fresh [of x] fresh [of y] k(1) unfolding keys_distinct_def
      by (cases "x = p"; cases "y = p") (auto simp: nth_list_update)
  qed
  show "probe_paths hash key (es[p := e])"
    unfolding probe_paths_def
  proof (intro allI impI)
    fix x y assume a: "x < length (es[p := e])" "key (es[p := e] ! x) \<noteq> None" "y < length (es[p := e])"
      "cdist (length (es[p := e])) (home hash (length (es[p := e])) (es[p := e] ! x)) y
       < cdist (length (es[p := e])) (home hash (length (es[p := e])) (es[p := e] ! x)) x"
    show "key (es[p := e] ! y) \<noteq> None"
    proof (cases "y = p")
      case y: False
      show ?thesis
      proof (cases "x = p")
        case True
        then show ?thesis using path a p(1) y by simp
      next
        case False
        then show ?thesis
          using t(2) [unfolded probe_paths_def, rule_format, of x y] a y by simp
      qed
    qed (use p k(1) in simp)
  qed
  show "occupied key (es[p := e]) = insert p (occupied key es)"
    using p k(1) by (auto simp: occupied_def nth_list_update split: if_splits)
  show "table_lookup key (es[p := e]) = (table_lookup key es)(k \<mapsto> e)"
  proof
    fix k' show "table_lookup key (es[p := e]) k' = ((table_lookup key es)(k \<mapsto> e)) k'"
    proof (cases "k' = k")
      case True
      then show ?thesis using table_lookup_at [OF d, of p k] p(1) k(1) by simp
    next
      case False
      show ?thesis
      proof (cases "table_lookup key es k'")
        case None
        then have "table_lookup key (es[p := e]) k' = None"
          unfolding table_lookup_None using k(1) p(1) False by (auto simp: nth_list_update)
        with None False show ?thesis by simp
      next
        case (Some e')
        then obtain x where x: "x < length es" "es ! x = e'" "key e' = Some k'"
          using table_lookup_iff [OF t(1)] by auto
        then have "x \<noteq> p" using p(2) by auto
        then show ?thesis using table_lookup_at [OF d, of x k'] x False Some by simp
      qed
    qed
  qed
qed

lemma insert_room:
  assumes inv: "map_inv hash setf key m" and k: "key e = Some k"
    and room: "2 * (unat (elements_count m) + 1) \<le> unat (elements_capacity m)"
  shows "\<exists>m'. map_insert_n (Suc n) hash setf equal m e = Some (m', map_lookup key m k = None) \<and>
    map_inv hash setf key m' \<and> elements_capacity m' = elements_capacity m \<and>
    map_lookup key m' = (if map_lookup key m k = None then (map_lookup key m)(k \<mapsto> e) else map_lookup key m) \<and>
    unat (elements_count m') = unat (elements_count m) + (if map_lookup key m k = None then 1 else 0)"
proof -
  obtain es c where c: "elements m = Some es" "c \<le> 63" "length es = 2 ^ c" "unat (elements_capacity m) = 2 ^ c"
    "keys_distinct key es" "probe_paths hash key es" "unat (elements_count m) = card (occupied key es)"
    "clean setf key es"
    using inv by (auto simp: map_inv_def)
  have cap: "(2::nat) ^ c \<le> 2 ^ 63" using c(2) by (intro power_increasing) auto
  have cnt: "unat (elements_count m + 1) = unat (elements_count m) + 1"
    using room cap c(4) by (simp add: unat_Suc64)
  have dbl: "unat ((elements_count m + 1) * 2) = (unat (elements_count m) + 1) * 2"
    using room cap c(4) cnt by (subst unat_mult64) simp_all
  then have res: "map_reserve_with f setf equal m (elements_count m + 1) = Some m" for f
    using room by (simp add: map_reserve_with_def Let_def word_less_nat_alt)
  obtain p where p: "p < length es" "unat (of_nat p :: size_t) = p" "map_at hash equal m e = Some (of_nat p)"
    "key (es ! p) = None \<or> key (es ! p) = Some k"
    "\<forall>y<length es. cdist (length es) (home hash (length es) e) y < cdist (length es) (home hash (length es) e) p
       \<longrightarrow> key (es ! y) \<noteq> None"
    "key (es ! p) = None \<Longrightarrow> table_lookup key es k = None"
    "key (es ! p) = Some k \<Longrightarrow> table_lookup key es k = Some (es ! p)"
    using search [OF inv c(1) k] by metis
  have el: "map_element m (of_nat p) = Some (es ! p)"
    using p(1,2) c(1) by (simp add: map_element_def)
  have look: "map_lookup key m = table_lookup key es" using c(1) by (simp add: map_lookup_def fun_eq_iff)
  show ?thesis
  proof (cases "key (es ! p) = None")
    case True
    note st = store_free [OF c(5,6) p(1) True k p(6) [OF True] p(5)]
    let ?m = "m\<lparr>elements := Some (es[p := e]), elements_count := elements_count m + 1\<rparr>"
    have "map_insert_n (Suc n) hash setf equal m e = Some (?m, True)"
      using True p el c(1) res by (simp add: map_insert_n.simps map_set_element_def)
    moreover have "p \<notin> occupied key es" using True by (simp add: occupied_def)
    then have "map_inv hash setf key ?m"
      unfolding map_inv_def using st c cnt room k
      by (intro exI [of _ "es[p := e]"] exI [of _ c]) (simp add: clean_update)
    moreover have "map_lookup key ?m = (map_lookup key m)(k \<mapsto> e)"
      using st(4) look by (simp add: map_lookup_def fun_eq_iff)
    ultimately show ?thesis using p(6) [OF True] look cnt by simp
  next
    case False
    then have f: "key (es ! p) = Some k" using p(4) by (elim disjE) simp_all
    then have "map_insert_n (Suc n) hash setf equal m e = Some (m, False)"
      using p el res by (simp add: map_insert_n.simps)
    then show ?thesis using p(7) [OF f] look inv by simp
  qed
qed

section \<open>Rehashing\<close>

lemma keys_distinct_Cons:
  assumes "keys_distinct key (e # es)"
  shows "keys_distinct key es" "key e = Some k \<Longrightarrow> table_lookup key es k = None"
proof -
  show "keys_distinct key es"
    unfolding keys_distinct_def
  proof (intro allI impI)
    fix x y assume "x < length es" "y < length es" "key (es ! x) \<noteq> None" "key (es ! x) = key (es ! y)"
    then show "x = y"
      using assms [unfolded keys_distinct_def, rule_format, of "Suc x" "Suc y"] by simp
  qed
  show "table_lookup key es k = None" if "key e = Some k"
    unfolding table_lookup_None
  proof (intro allI impI notI)
    fix x assume "x < length es" "key (es ! x) = Some k"
    then show False
      using assms [unfolded keys_distinct_def, rule_format, of 0 "Suc x"] that by simp
  qed
qed

lemma occupied_filter: "card (occupied key es) = length (filter (\<lambda>e. key e \<noteq> None) es)"
  by (simp add: occupied_def length_filter_conv_card)

lemma reinsert:
  assumes "map_inv hash setf key m" "keys_distinct key es"
    "\<And>k. table_lookup key es k \<noteq> None \<Longrightarrow> map_lookup key m k = None"
    "2 * (unat (elements_count m) + card (occupied key es)) \<le> unat (elements_capacity m)"
  shows "\<exists>m'. map_reinsert (\<lambda>m e. map_option fst (map_insert_n (Suc n) hash setf equal m e)) equal es m = Some m' \<and>
    map_inv hash setf key m' \<and> elements_capacity m' = elements_capacity m \<and>
    unat (elements_count m') = unat (elements_count m) + card (occupied key es) \<and>
    map_lookup key m' = (\<lambda>k. case table_lookup key es k of None \<Rightarrow> map_lookup key m k | Some e \<Rightarrow> Some e)"
  using assms
proof (induction es arbitrary: m)
  case Nil
  then show ?case by (simp add: occupied_filter table_lookup_def)
next
  case (Cons e es)
  note tail = keys_distinct_Cons [OF Cons.prems(2)]
  show ?case
  proof (cases "key e")
    case None
    then have look: "table_lookup key (e # es) = table_lookup key es"
      by (simp add: table_lookup_def fun_eq_iff)
    show ?thesis
      using Cons.IH [OF Cons.prems(1) tail(1)] Cons.prems(3,4) None by (simp add: look occupied_filter)
  next
    case (Some k)
    then have look: "table_lookup key (e # es) = (table_lookup key es)(k \<mapsto> e)"
      by (simp add: table_lookup_def fun_eq_iff)
    have fresh: "map_lookup key m k = None" using Cons.prems(3) [of k] by (simp add: look)
    obtain m1 where m1: "map_insert_n (Suc n) hash setf equal m e = Some (m1, True)" "map_inv hash setf key m1"
      "elements_capacity m1 = elements_capacity m" "map_lookup key m1 = (map_lookup key m)(k \<mapsto> e)"
      "unat (elements_count m1) = unat (elements_count m) + 1"
      using insert_room [OF Cons.prems(1) Some, of n] Cons.prems(4) fresh Some by (auto simp: occupied_filter)
    have disj: "map_lookup key m1 k' = None" if "table_lookup key es k' \<noteq> None" for k'
    proof -
      have "k' \<noteq> k" using that tail(2) [OF Some] by auto
      then show ?thesis using that Cons.prems(3) [of k'] m1(4) by (simp add: look)
    qed
    have room: "2 * (unat (elements_count m1) + card (occupied key es)) \<le> unat (elements_capacity m1)"
      using Cons.prems(4) Some m1(3,5) by (simp add: occupied_filter)
    obtain m' where m': "map_reinsert (\<lambda>m e. map_option fst (map_insert_n (Suc n) hash setf equal m e)) equal es m1 = Some m'"
      "map_inv hash setf key m'" "elements_capacity m' = elements_capacity m1"
      "unat (elements_count m') = unat (elements_count m1) + card (occupied key es)"
      "map_lookup key m' = (\<lambda>k. case table_lookup key es k of None \<Rightarrow> map_lookup key m1 k | Some e \<Rightarrow> Some e)"
      using Cons.IH [OF m1(2) tail(1) disj room] by blast
    have "map_lookup key m' = (\<lambda>k'. case table_lookup key (e # es) k' of None \<Rightarrow> map_lookup key m k' | Some e \<Rightarrow> Some e)"
      unfolding m'(5) m1(4) look using tail(2) [OF Some] by (auto simp: fun_eq_iff split: option.splits)
    then show ?thesis
      using m' m1 Some by (simp add: occupied_filter)
  qed
qed

lemma empty_table:
  assumes "elements m = Some (replicate (2 ^ c) (setf None))" "unat (elements_capacity m) = 2 ^ c" "c \<le> 63"
    "elements_count m = 0"
  shows "map_inv hash setf key m" "map_lookup key m = (\<lambda>_. None)"
proof -
  show "map_inv hash setf key m"
    unfolding map_inv_def using assms
    by (intro exI [of _ "replicate (2 ^ c) (setf None)"] exI [of _ c])
      (simp add: keys_distinct_def probe_paths_def clean_def occupied_filter)
  show "map_lookup key m = (\<lambda>_. None)"
    using assms by (auto simp: map_lookup_def table_lookup_None fun_eq_iff)
qed

lemma rehash:
  assumes inv: "map_inv hash setf key m" and sz: "0 < unat sz" "unat sz \<le> 2 ^ 63" "2 * unat (elements_count m) \<le> unat sz"
  shows "\<exists>m'. map_rehash (\<lambda>m e. map_option fst (map_insert_n (Suc n) hash setf equal m e)) setf equal m sz = Some m' \<and>
    map_inv hash setf key m' \<and> unat sz \<le> unat (elements_capacity m') \<and>
    elements_count m' = elements_count m \<and> map_lookup key m' = map_lookup key m"
proof -
  obtain es c where c: "elements m = Some es" "length es = 2 ^ c" "unat (elements_capacity m) = 2 ^ c"
    "keys_distinct key es" "unat (elements_count m) = card (occupied key es)"
    using inv by (auto simp: map_inv_def)
  obtain k where k: "k \<le> 63" "unat (map_roundup sz) = 2 ^ k" "unat sz \<le> 2 ^ k"
    using map_roundup_pow2 [OF sz(1,2)] by auto
  define new where "new = m\<lparr>elements_count := 0, elements_capacity := map_roundup sz,
      elements := Some (replicate (unat (map_roundup sz)) (setf None))\<rparr>"
  have new: "map_inv hash setf key new" "map_lookup key new = (\<lambda>_. None)"
    by (rule empty_table [where c = k]; simp add: new_def k)+
  have room: "2 * (unat (elements_count new) + card (occupied key es)) \<le> unat (elements_capacity new)"
    using sz(3) k c(5) by (simp add: new_def)
  obtain m' where m': "map_reinsert (\<lambda>m e. map_option fst (map_insert_n (Suc n) hash setf equal m e)) equal es new = Some m'"
    "map_inv hash setf key m'" "elements_capacity m' = elements_capacity new"
    "unat (elements_count m') = unat (elements_count new) + card (occupied key es)"
    "map_lookup key m' = (\<lambda>k. case table_lookup key es k of None \<Rightarrow> map_lookup key new k | Some e \<Rightarrow> Some e)"
    using reinsert [OF new(1) c(4) _ room, of n] new(2) by auto
  have "elements_count m' = elements_count m"
    using m'(4) c(5) by (simp add: new_def word_unat_eq_iff)
  moreover have "map_lookup key m' = map_lookup key m"
    using m'(5) new(2) c(1) by (simp add: fun_eq_iff map_lookup_def split: option.splits)
  moreover have "unat sz \<le> unat (elements_capacity m')" using m'(3) k by (simp add: new_def)
  ultimately show ?thesis
    using m'(1,2) c(1-3) unfolding map_rehash_def Let_def new_def [symmetric] by simp
qed

lemma reserve:
  assumes inv: "map_inv hash setf key m" and sz: "unat sz \<le> 2 ^ 62"
  shows "\<exists>m'. map_reserve_with (\<lambda>m e. map_option fst (map_insert_n (Suc n) hash setf equal m e)) setf equal m sz = Some m' \<and>
    map_inv hash setf key m' \<and> 2 * unat sz \<le> unat (elements_capacity m') \<and>
    elements_count m' = elements_count m \<and> map_lookup key m' = map_lookup key m"
proof -
  have dbl: "unat (sz * 2) = 2 * unat sz" using sz by (simp add: unat_mult64)
  have count: "2 * unat (elements_count m) \<le> unat (elements_capacity m)"
    using inv by (auto simp: map_inv_def)
  show ?thesis
  proof (cases "sz * 2 > elements_capacity m")
    case True
    then have "\<exists>m'. map_rehash (\<lambda>m e. map_option fst (map_insert_n (Suc n) hash setf equal m e)) setf equal m (sz * 2) = Some m' \<and>
      map_inv hash setf key m' \<and> unat (sz * 2) \<le> unat (elements_capacity m') \<and>
      elements_count m' = elements_count m \<and> map_lookup key m' = map_lookup key m"
      using count sz dbl by (intro rehash [OF inv]) (auto simp: word_less_nat_alt)
    then show ?thesis using True dbl by (simp add: map_reserve_with_def Let_def)
  next
    case False
    then show ?thesis using inv dbl by (simp add: map_reserve_with_def Let_def word_less_nat_alt)
  qed
qed

text \<open>Insertion: one rehash at most, whose own insertions need none, so depth 2 is enough.\<close>

lemma insert_n:
  assumes inv: "map_inv hash setf key m" and k: "key e = Some k" and lim: "unat (elements_count m) < 2 ^ 62"
  shows "\<exists>m'. map_insert_n (Suc (Suc n)) hash setf equal m e = Some (m', map_lookup key m k = None) \<and>
    map_inv hash setf key m' \<and>
    map_lookup key m' = (if map_lookup key m k = None then (map_lookup key m)(k \<mapsto> e) else map_lookup key m) \<and>
    unat (elements_count m') = unat (elements_count m) + (if map_lookup key m k = None then 1 else 0)"
proof -
  have cnt: "unat (elements_count m + 1) = unat (elements_count m) + 1"
    using lim by (simp add: unat_Suc64)
  obtain m1 where m1: "map_reserve_with (\<lambda>m e. map_option fst (map_insert_n (Suc n) hash setf equal m e)) setf equal m
      (elements_count m + 1) = Some m1"
    "map_inv hash setf key m1" "2 * (unat (elements_count m) + 1) \<le> unat (elements_capacity m1)"
    "elements_count m1 = elements_count m" "map_lookup key m1 = map_lookup key m"
    using reserve [OF inv, of "elements_count m + 1" n] lim cnt by auto
  have dbl: "unat ((elements_count m + 1) * 2) = 2 * (unat (elements_count m) + 1)"
    using lim cnt by (subst unat_mult64) simp_all
  have stay: "map_reserve_with f setf equal m1 (elements_count m1 + 1) = Some m1" for f
    using m1(3,4) dbl by (simp add: map_reserve_with_def Let_def word_less_nat_alt)
  have "map_insert_n (Suc (Suc n)) hash setf equal m e = map_insert_n (Suc (Suc n)) hash setf equal m1 e"
    by (simp only: map_insert_n.simps(2) [of "Suc n"] m1(1) stay)
  then show ?thesis
    using insert_room [OF m1(2) k, of "Suc n"] m1(3-5) by auto
qed

lemma insert:
  assumes inv: "map_inv hash setf key m" and k: "key e = Some k" and lim: "unat (elements_count m) < 2 ^ 62"
  shows "\<exists>m'. map_insert hash setf equal release m e st =
      Some (m', if map_lookup key m k = None then st else (case release of None \<Rightarrow> st | Some r \<Rightarrow> r e st)) \<and>
    map_inv hash setf key m' \<and>
    map_lookup key m' = (if map_lookup key m k = None then (map_lookup key m)(k \<mapsto> e) else map_lookup key m) \<and>
    unat (elements_count m') = unat (elements_count m) + (if map_lookup key m k = None then 1 else 0)"
  using insert_n [OF inv k lim, of 0] unfolding map_insert_def numeral_2_eq_2 by (elim exE conjE) simp

lemma construct:
  "\<exists>m. map_construct esize setf = Some m \<and> map_inv hash setf key m \<and> map_lookup key m = (\<lambda>_. None) \<and>
     elements_count m = 0 \<and> element_size m = esize"
proof -
  have r: "map_roundup 8 = 8" by (simp add: map_roundup_def)
  show ?thesis
    unfolding map_construct_def map_rehash_def MAP_ELEMENTS_CAPACITY_MIN_def Let_def r
    by (simp, intro conjI empty_table [where c = 3]) simp_all
qed

text \<open>The shift loop of \<open>map_erase\<close>.\<close>

lemma home_less: "0 < n \<Longrightarrow> home hash n e < n"
  by (simp add: home_def)

text \<open>Moving the entry at \<open>j\<close> into the hole.\<close>

lemma move_entry:
  assumes h: "hole_table hash key es i" and j: "j < length es" "j \<noteq> i" "key (es ! j) \<noteq> None"
    and test: "cdist (length es) i j \<le> cdist (length es) (home hash (length es) (es ! j)) j"
  shows "hole_table hash key (es[i := es ! j]) j" "entries_but key (es[i := es ! j]) j = entries_but key es i"
    "\<And>y. y < length es \<Longrightarrow> key (es[i := es ! j] ! y) = None \<longleftrightarrow> key (es ! y) = None"
proof -
  let ?n = "length es" and ?es = "es[i := es ! j]"
  have i: "i < ?n" "key (es ! i) \<noteq> None" using h by (simp_all add: hole_table_def)
  show occ: "key (?es ! y) = None \<longleftrightarrow> key (es ! y) = None" if "y < ?n" for y
    using i j that by (auto simp: nth_list_update)
  note dist = h [unfolded hole_table_def, THEN conjunct2, THEN conjunct2, THEN conjunct1, rule_format]
  note path = h [unfolded hole_table_def, THEN conjunct2, THEN conjunct2, THEN conjunct2, rule_format]
  have kj: "home hash ?n (es ! j) < ?n" using i by (intro home_less) auto
  show "hole_table hash key ?es j"
    unfolding hole_table_def
  proof (intro conjI allI impI)
    show "j < length ?es" "key (?es ! j) \<noteq> None" using j occ by auto
  next
    fix x y assume a: "x < length ?es" "y < length ?es" "x \<noteq> j" "y \<noteq> j" "key (?es ! x) \<noteq> None" "key (?es ! x) = key (?es ! y)"
    define f where "f z = (if z = i then j else z)" for z
    have f: "?es ! z = es ! f z" "f z < ?n" "f z \<noteq> i" if "z < length ?es" "z \<noteq> j" for z
      using that i j by (auto simp: f_def nth_list_update)
    have "f x = f y" using dist [of "f x" "f y"] f a by simp
    then show "x = y" using a by (auto simp: f_def split: if_splits)
  next
    fix x y assume a: "x < length ?es" "x \<noteq> j" "key (?es ! x) \<noteq> None" "y < length ?es"
      "cdist (length ?es) (home hash (length ?es) (?es ! x)) y < cdist (length ?es) (home hash (length ?es) (?es ! x)) x"
    show "key (?es ! y) \<noteq> None"
    proof (cases "x = i")
      case True
      then have "cdist ?n (home hash ?n (es ! j)) y < cdist ?n (home hash ?n (es ! j)) j"
        using a test i j kj by (auto simp: cdist_def split: if_splits)
      then show ?thesis using path [of j y] j a occ by simp
    next
      case False
      then show ?thesis using path [of x y] a occ by simp
    qed
  qed
  show "entries_but key ?es j = entries_but key es i"
  proof (intro set_eqI iffI)
    fix e assume "e \<in> entries_but key ?es j"
    then obtain x where x: "x < ?n" "x \<noteq> j" "e = ?es ! x" "key e \<noteq> None" by (auto simp: entries_but_def)
    show "e \<in> entries_but key es i"
    proof (cases "x = i")
      case True
      then show ?thesis using x i j by (auto simp: entries_but_def)
    next
      case False
      then show ?thesis using x by (auto simp: entries_but_def)
    qed
  next
    fix e assume "e \<in> entries_but key es i"
    then obtain x where x: "x < ?n" "x \<noteq> i" "e = es ! x" "key e \<noteq> None" by (auto simp: entries_but_def)
    show "e \<in> entries_but key ?es j"
    proof (cases "x = j")
      case True
      then have "?es ! i = e" using x i by simp
      then show ?thesis using x i j unfolding entries_but_def by (intro CollectI exI [of _ i]) auto
    next
      case False
      then show ?thesis using x unfolding entries_but_def by (intro CollectI exI [of _ x]) auto
    qed
  qed
qed

text \<open>At the free slot \<open>f\<close> that ends the scan, nothing beyond it can have the hole on its path.\<close>

lemma hole_closed:
  assumes h: "hole_table hash key es i" and f: "f < length es" "key (es ! f) = None" "0 < cdist (length es) i f"
    and near: "\<forall>x<length es. x \<noteq> i \<longrightarrow> key (es ! x) \<noteq> None \<longrightarrow> cdist (length es) i x < cdist (length es) i f \<longrightarrow> off_path hash es i x"
  shows "\<forall>x<length es. x \<noteq> i \<longrightarrow> key (es ! x) \<noteq> None \<longrightarrow> off_path hash es i x"
proof (intro allI impI)
  fix x assume x: "x < length es" "x \<noteq> i" "key (es ! x) \<noteq> None"
  let ?n = "length es" and ?h = "home hash (length es) (es ! x)"
  have i: "i < ?n" using h by (simp add: hole_table_def)
  have hn: "?h < ?n" using i by (intro home_less) auto
  note path = h [unfolded hole_table_def, THEN conjunct2, THEN conjunct2, THEN conjunct2, rule_format]
  show "off_path hash es i x"
  proof (cases "cdist ?n i x < cdist ?n i f")
    case False
    have "x \<noteq> f" using x f by auto
    show ?thesis
      unfolding off_path_def
    proof
      assume "cdist ?n ?h i < cdist ?n ?h x"
      then have "cdist ?n ?h f < cdist ?n ?h x"
        using False \<open>x \<noteq> f\<close> x(1) f(1) i hn by (auto simp: cdist_def split: if_splits)
      then show False using path [of x f] x f by simp
    qed
  qed (use near x in simp)
qed

lemma index_less:
  assumes "length es = 2 ^ c" "c \<le> 63" "x < length es"
  shows "unat (of_nat x :: size_t) = x"
proof -
  have "(2::nat) ^ c \<le> 2 ^ 63" using assms(2) by (intro power_increasing) auto
  then show ?thesis using assms by simp
qed

lemma shift_loop:
  assumes "elements m = Some es" "length es = 2 ^ c" "unat (elements_capacity m) = 2 ^ c" "c \<le> 63"
    "hole_table hash key es i" "j < length es"
    "\<forall>x<length es. x \<noteq> i \<longrightarrow> key (es ! x) \<noteq> None \<longrightarrow> cdist (length es) i x \<le> cdist (length es) i j \<longrightarrow> off_path hash es i x"
    "cdist (length es) i j + Suc r < length es"
    "key (es ! ((j + Suc r) mod length es)) = None"
    "\<forall>t. 0 < t \<longrightarrow> t < Suc r \<longrightarrow> key (es ! ((j + t) mod length es)) \<noteq> None"
  shows "\<exists>es' i'. map_shift hash setf equal m (of_nat i) (of_nat j) = Some (m\<lparr>elements := Some es'\<rparr>, of_nat i') \<and>
    length es' = length es \<and> hole_table hash key es' i' \<and> entries_but key es' i' = entries_but key es i \<and>
    occupied key es' = occupied key es \<and> set es' \<subseteq> set es \<and>
    (\<forall>x<length es'. x \<noteq> i' \<longrightarrow> key (es' ! x) \<noteq> None \<longrightarrow> off_path hash es' i' x)"
  using assms
proof (induction r arbitrary: m es i j)
  case (0 m es i j)
  let ?n = "length es" and ?f = "(j + 1) mod length es"
  have i: "i < ?n" using 0(5) by (simp add: hole_table_def)
  then have f: "?f < ?n" by (intro mod_less_divisor) auto
  have ff: "key (es ! ?f) = None" using 0(9) by simp
  have "key (es ! i) \<noteq> None" using 0(5) by (simp add: hole_table_def)
  then have fi: "?f \<noteq> i" using ff by auto
  have df: "cdist ?n i ?f = Suc (cdist ?n i j)" by (rule cdist_Suc [OF i 0(6) fi])
  have w: "(of_nat j + 1) AND (elements_capacity m - 1) = (of_nat ?f :: size_t)"
    using unat_and_mask [OF 0(3), of "of_nat j + 1"] unat_Suc_mod [of c "of_nat j"] 0(2,4,6)
      index_less [OF 0(2,4,6)] index_less [OF 0(2,4) f] by (simp add: word_unat_eq_iff)
  have "map_element m (of_nat ?f) = Some (es ! ?f)"
    using map_element_at [OF 0(1)] index_less [OF 0(2,4) f] f by simp
  then have "map_shift hash setf equal m (of_nat i) (of_nat j) = Some (m, of_nat i)"
    using ff by (subst map_shift.simps) (simp add: Let_def w)
  moreover have "\<forall>x<?n. x \<noteq> i \<longrightarrow> key (es ! x) \<noteq> None \<longrightarrow> off_path hash es i x"
    by (rule hole_closed [OF 0(5) f ff]) (use 0(7) df in auto)
  ultimately show ?case using 0(1,5) by (intro exI [of _ es] exI [of _ i]) simp
next
  case (Suc r m es i j)
  let ?n = "length es"
  define j' where "j' = (j + 1) mod length es"
  have i: "i < ?n" "key (es ! i) \<noteq> None" using Suc.prems(5) by (simp_all add: hole_table_def)
  then have j: "j' < ?n" unfolding j'_def by (intro mod_less_divisor) auto
  have occ: "key (es ! j') \<noteq> None"
    using Suc.prems(10) [rule_format, of 1] by (simp add: j'_def)
  have ji: "j' \<noteq> i"
  proof
    assume "j' = i"
    then have "j = (if i = 0 then ?n - 1 else i - 1)"
      using Suc.prems(6) unfolding j'_def by (cases "Suc j = ?n") auto
    then have "cdist ?n i j = ?n - 1" using i by (auto simp: cdist_def)
    then show False using Suc.prems(8) by simp
  qed
  have dj: "cdist ?n i j' = Suc (cdist ?n i j)" 
    using cdist_Suc [OF i(1) Suc.prems(6)] ji unfolding j'_def by simp
  let ?k = "home hash ?n (es ! j')"
  have k: "?k < ?n" using i by (intro home_less) auto
  have w: "(of_nat j + 1) AND (elements_capacity m - 1) = (of_nat j' :: size_t)"
    using unat_and_mask [OF Suc.prems(3), of "of_nat j + 1"] unat_Suc_mod [of c "of_nat j"] Suc.prems(2,4,6)
      index_less [OF Suc.prems(2,4,6)] index_less [OF Suc.prems(2,4) j]
    by (simp add: word_unat_eq_iff j'_def)
  have wk: "unat (hash (es ! j') AND (elements_capacity m - 1)) = ?k"
    using unat_and_mask [OF Suc.prems(3)] Suc.prems(2,4) by (simp add: home_def)
  have el: "map_element m (of_nat j') = Some (es ! j')"
    using map_element_at [OF Suc.prems(1)] index_less [OF Suc.prems(2,4) j] j by simp
  have iw: "unat (of_nat i :: size_t) = i" "unat (of_nat j' :: size_t) = j'"
    by (rule index_less [OF Suc.prems(2,4)], rule i(1), rule index_less [OF Suc.prems(2,4) j])
  have test: "((of_nat i :: size_t) < of_nat j' \<and> (hash (es ! j') AND (elements_capacity m - 1) \<le> of_nat i \<or>
        hash (es ! j') AND (elements_capacity m - 1) > of_nat j')) \<or>
      ((of_nat i :: size_t) > of_nat j' \<and> (hash (es ! j') AND (elements_capacity m - 1) \<le> of_nat i \<and>
        hash (es ! j') AND (elements_capacity m - 1) > of_nat j')) \<longleftrightarrow> cdist ?n i j' \<le> cdist ?n ?k j'"
    unfolding word_less_nat_alt word_le_nat_alt iw wk
    by (rule shift_test_cyclic [OF i(1) j k]) (use ji in simp)
  have step: "(j' + t) mod ?n = (j + Suc t) mod ?n" for t by (simp add: j'_def mod_add_left_eq)
  show ?case
  proof (cases "cdist ?n i j' \<le> cdist ?n ?k j'")
    case True
    note mv = move_entry [OF Suc.prems(5) j ji occ True]
    let ?es = "es[i := es ! j']" and ?m = "m\<lparr>elements := Some (es[i := es ! j'])\<rparr>"
    have "map_shift hash setf equal m (of_nat i) (of_nat j) = map_shift hash setf equal ?m (of_nat j') (of_nat j')"
      using occ True iw i(1) Suc.prems(1)
      by (subst map_shift.simps) (auto simp add: Let_def w el test map_set_element_def)
    moreover have "\<exists>es' i'. map_shift hash setf equal ?m (of_nat j') (of_nat j') = Some (?m\<lparr>elements := Some es'\<rparr>, of_nat i') \<and>
      length es' = length ?es \<and> hole_table hash key es' i' \<and> entries_but key es' i' = entries_but key ?es j' \<and>
      occupied key es' = occupied key ?es \<and> set es' \<subseteq> set ?es \<and>
      (\<forall>x<length es'. x \<noteq> i' \<longrightarrow> key (es' ! x) \<noteq> None \<longrightarrow> off_path hash es' i' x)"
    proof (rule Suc.IH)
      show "\<forall>x<length ?es. x \<noteq> j' \<longrightarrow> key (?es ! x) \<noteq> None \<longrightarrow>
          cdist (length ?es) j' x \<le> cdist (length ?es) j' j' \<longrightarrow> off_path hash ?es j' x"
        using j cdist_eq_iff [OF j _ j] by auto
      show "key (?es ! ((j' + Suc r) mod length ?es)) = None"
        using Suc.prems(9) mv(3) [of "(j' + Suc r) mod ?n"] i(1) mod_less_divisor [of ?n "j' + Suc r"]
        by (simp only: step length_list_update)
      show "\<forall>t. 0 < t \<longrightarrow> t < Suc r \<longrightarrow> key (?es ! ((j' + t) mod length ?es)) \<noteq> None"
      proof (intro allI impI)
        fix t :: nat assume "0 < t" "t < Suc r"
        then have "key (es ! ((j + Suc t) mod ?n)) \<noteq> None" using Suc.prems(10) by auto
        then show "key (?es ! ((j' + t) mod length ?es)) \<noteq> None"
          using mv(3) [of "(j' + t) mod ?n"] i(1) mod_less_divisor [of ?n "j' + t"]
          by (simp only: step length_list_update) simp
      qed
    qed (use Suc.prems mv j in simp_all)
    moreover have "occupied key ?es = occupied key es"
      unfolding occupied_def by (rule Collect_cong) (simp add: mv(3) del: not_None_eq cong: conj_cong)
    moreover have "set ?es \<subseteq> set es"
      using set_update_subset_insert [of es i "es ! j'"] j by auto
    ultimately show ?thesis using mv(2) by simp (meson subset_trans)
  next
    case False
    have "map_shift hash setf equal m (of_nat i) (of_nat j) = map_shift hash setf equal m (of_nat i) (of_nat j')"
      using occ False by (subst map_shift.simps) (auto simp add: Let_def w el test)
    moreover have "\<exists>es' i'. map_shift hash setf equal m (of_nat i) (of_nat j') = Some (m\<lparr>elements := Some es'\<rparr>, of_nat i') \<and>
      length es' = length es \<and> hole_table hash key es' i' \<and> entries_but key es' i' = entries_but key es i \<and>
      occupied key es' = occupied key es \<and> set es' \<subseteq> set es \<and>
      (\<forall>x<length es'. x \<noteq> i' \<longrightarrow> key (es' ! x) \<noteq> None \<longrightarrow> off_path hash es' i' x)"
    proof (rule Suc.IH)
      show "\<forall>x<?n. x \<noteq> i \<longrightarrow> key (es ! x) \<noteq> None \<longrightarrow> cdist ?n i x \<le> cdist ?n i j' \<longrightarrow> off_path hash es i x"
      proof (intro allI impI)
        fix x assume x: "x < ?n" "x \<noteq> i" "key (es ! x) \<noteq> None" "cdist ?n i x \<le> cdist ?n i j'"
        show "off_path hash es i x"
        proof (cases "x = j'")
          case True
          show ?thesis using False i(1) j k unfolding off_path_def True by (auto simp: cdist_def split: if_splits)
        next
          case f: False
          then have "cdist ?n i x \<noteq> cdist ?n i j'" using cdist_eq_iff [OF i(1) x(1) j] by simp
          then show ?thesis using Suc.prems(7) x dj by simp
        qed
      qed
      show "key (es ! ((j' + Suc r) mod ?n)) = None" using Suc.prems(9) by (simp only: step)
      show "\<forall>t. 0 < t \<longrightarrow> t < Suc r \<longrightarrow> key (es ! ((j' + t) mod ?n)) \<noteq> None"
        unfolding step using Suc.prems(10) by auto
    qed (use Suc.prems j dj in simp_all)
    ultimately show ?thesis by simp
  qed
qed

text \<open>Emptying the hole the loop ends with.\<close>

lemma close_hole:
  assumes h: "hole_table hash key es i"
    and off: "\<forall>x<length es. x \<noteq> i \<longrightarrow> key (es ! x) \<noteq> None \<longrightarrow> off_path hash es i x"
  shows "keys_distinct key (es[i := setf None])" "probe_paths hash key (es[i := setf None])"
    "occupied key (es[i := setf None]) = occupied key es - {i}" "i \<in> occupied key es"
    "table_lookup key (es[i := setf None]) k = Some e \<longleftrightarrow> e \<in> entries_but key es i \<and> key e = Some k"
proof -
  let ?n = "length es" and ?es = "es[i := setf None]"
  have i: "i < ?n" "key (es ! i) \<noteq> None" using h by (simp_all add: hole_table_def)
  note dist = h [unfolded hole_table_def, THEN conjunct2, THEN conjunct2, THEN conjunct1, rule_format]
  note path = h [unfolded hole_table_def, THEN conjunct2, THEN conjunct2, THEN conjunct2, rule_format]
  have at: "x \<noteq> i \<and> ?es ! x = es ! x" if "key (?es ! x) \<noteq> None" "x < ?n" for x
    using that i by (cases "x = i") simp_all
  show d: "keys_distinct key ?es"
    unfolding keys_distinct_def
  proof (intro allI impI)
    fix x y assume a: "x < length ?es" "y < length ?es" "key (?es ! x) \<noteq> None" "key (?es ! x) = key (?es ! y)"
    then show "x = y" using at [of x] at [of y] dist [of x y] by simp
  qed
  show "probe_paths hash key ?es"
    unfolding probe_paths_def
  proof (intro allI impI)
    fix x y assume a: "x < length ?es" "key (?es ! x) \<noteq> None" "y < length ?es"
      "cdist (length ?es) (home hash (length ?es) (?es ! x)) y < cdist (length ?es) (home hash (length ?es) (?es ! x)) x"
    then have x: "x \<noteq> i" "?es ! x = es ! x" "key (es ! x) \<noteq> None" using at [of x] by auto
    then have "y \<noteq> i" using off a by (auto simp: off_path_def)
    then show "key (?es ! y) \<noteq> None" using path [of x y] a x by simp
  qed
  show "occupied key ?es = occupied key es - {i}" "i \<in> occupied key es"
    using i by (auto simp: occupied_def nth_list_update split: if_splits)
  have "(\<exists>x<length ?es. ?es ! x = e \<and> key e = Some k) \<longleftrightarrow> e \<in> entries_but key es i \<and> key e = Some k"
  proof
    assume "\<exists>x<length ?es. ?es ! x = e \<and> key e = Some k"
    then show "e \<in> entries_but key es i \<and> key e = Some k"
      using at unfolding entries_but_def by fastforce
  next
    assume "e \<in> entries_but key es i \<and> key e = Some k"
    then obtain x where "x < ?n" "x \<noteq> i" "e = es ! x" "key e = Some k" by (auto simp: entries_but_def)
    then show "\<exists>x<length ?es. ?es ! x = e \<and> key e = Some k" by (intro exI [of _ x]) simp
  qed
  then show "table_lookup key ?es k = Some e \<longleftrightarrow> e \<in> entries_but key es i \<and> key e = Some k"
    by (simp only: table_lookup_iff [OF d])
qed

lemma shift_from:
  assumes m: "elements m = Some es" "length es = 2 ^ c" "unat (elements_capacity m) = 2 ^ c" "c \<le> 63"
    and t: "keys_distinct key es" "probe_paths hash key es" "2 * card (occupied key es) \<le> length es"
    and p: "p < length es" "key (es ! p) \<noteq> None"
  shows "\<exists>es' i'. map_shift hash setf equal m (of_nat p) (of_nat p) = Some (m\<lparr>elements := Some es'\<rparr>, of_nat i') \<and>
    length es' = length es \<and> hole_table hash key es' i' \<and> entries_but key es' i' = entries_but key es p \<and>
    occupied key es' = occupied key es \<and> set es' \<subseteq> set es \<and>
    (\<forall>x<length es'. x \<noteq> i' \<longrightarrow> key (es' ! x) \<noteq> None \<longrightarrow> off_path hash es' i' x)"
proof -
  let ?n = "length es" and ?free = "\<lambda>t. key (es ! ((p + Suc t) mod length es)) = None"
  have "0 < ?n" using p(1) by linarith
  then obtain q where q: "q < ?n" "key (es ! q) = None" using free_slot [OF t(3)] by blast
  then have "cdist ?n p q \<noteq> 0" using p cdist_eq_iff [OF p(1) q(1) p(1)] by auto
  then obtain d where d: "cdist ?n p q = Suc d" by (cases "cdist ?n p q") auto
  then have "?free d" using at_cdist [OF p(1) q(1)] q by simp
  define r where "r = (LEAST t. ?free t)"
  have r: "?free r" "r \<le> d" unfolding r_def
    by (rule LeastI [of ?free], rule \<open>?free d\<close>) (rule Least_le [of ?free], rule \<open>?free d\<close>)
  have occ: "\<forall>t. 0 < t \<longrightarrow> t < Suc r \<longrightarrow> key (es ! ((p + t) mod ?n)) \<noteq> None"
  proof (intro allI impI)
    fix t assume "0 < t" "t < Suc r"
    then obtain u where "t = Suc u" "u < r" by (cases t) auto
    then show "key (es ! ((p + t) mod ?n)) \<noteq> None" using not_less_Least [of u ?free] unfolding r_def by simp
  qed
  have hole: "hole_table hash key es p"
    using p t(1,2) unfolding hole_table_def keys_distinct_def probe_paths_def by blast
  show ?thesis
    by (rule shift_loop [OF m hole p(1) _ _ r(1) occ])
      (use cdist_eq_iff [OF p(1) _ p(1)] r(2) d cdist_less [OF p(1) q(1)] in auto)
qed

lemma erase:
  assumes inv: "map_inv hash setf key m" and k: "key e = Some k"
  shows "\<exists>m'. map_erase hash setf equal release m e st =
      Some (m', case map_lookup key m k of None \<Rightarrow> st
                | Some x \<Rightarrow> (case release of None \<Rightarrow> st | Some r \<Rightarrow> r x st)) \<and>
    map_inv hash setf key m' \<and> map_lookup key m' = (map_lookup key m)(k := None) \<and>
    unat (elements_count m') = unat (elements_count m) - (if map_lookup key m k = None then 0 else 1)"
proof -
  obtain es c where c: "elements m = Some es" "c \<le> 63" "length es = 2 ^ c" "unat (elements_capacity m) = 2 ^ c"
    "keys_distinct key es" "probe_paths hash key es" "unat (elements_count m) = card (occupied key es)"
    "2 * unat (elements_count m) \<le> 2 ^ c" "clean setf key es"
    using inv by (auto simp: map_inv_def)
  obtain p where p: "p < length es" "unat (of_nat p :: size_t) = p"
    "map_find equal m e (hash e) = Some (if key (es ! p) = None then None else Some (of_nat p))"
    "key (es ! p) = None \<or> key (es ! p) = Some k"
    "key (es ! p) = None \<Longrightarrow> table_lookup key es k = None"
    "key (es ! p) = Some k \<Longrightarrow> table_lookup key es k = Some (es ! p)"
    using search [OF inv c(1) k] by metis
  have look: "map_lookup key m = table_lookup key es" using c(1) by (simp add: map_lookup_def fun_eq_iff)
  show ?thesis
  proof (cases "key (es ! p) = None")
    case True
    then show ?thesis using p(3,5) inv look by (simp add: map_erase_def fun_upd_idem)
  next
    case False
    then have kp: "key (es ! p) = Some k" using p(4) by auto
    have el: "map_element m (of_nat p) = Some (es ! p)" using p(1,2) c(1) by (simp add: map_element_def)
    let ?m = "m\<lparr>elements_count := elements_count m - 1\<rparr>"
    obtain es' i' where s: "map_shift hash setf equal ?m (of_nat p) (of_nat p) = Some (?m\<lparr>elements := Some es'\<rparr>, of_nat i')"
      "length es' = length es" "hole_table hash key es' i'" "entries_but key es' i' = entries_but key es p"
      "occupied key es' = occupied key es"
      "\<forall>x<length es'. x \<noteq> i' \<longrightarrow> key (es' ! x) \<noteq> None \<longrightarrow> off_path hash es' i' x"
      "set es' \<subseteq> set es"
      using shift_from [of ?m es c p] c p(1) False by auto
    note cl = close_hole [OF s(3,6)]
    have i': "i' < length es'" "unat (of_nat i' :: size_t) = i'"
      using s(3) index_less [of es' c i'] c(2,3) s(2) by (simp_all add: hole_table_def)
    let ?r = "?m\<lparr>elements := Some (es'[i' := setf None])\<rparr>"
    have run: "map_erase hash setf equal release m e st =
        Some (?r, case release of None \<Rightarrow> st | Some r \<Rightarrow> r (es ! p) st)"
      using kp p(3) el s(1) i' by (simp add: map_erase_def map_set_element_def)
    have "0 < card (occupied key es)" unfolding card_gt_0_iff using cl(4) s(5) by auto
    then have "1 \<le> unat (elements_count m)" using c(7) by linarith
    then have cnt: "unat (elements_count m - 1) = unat (elements_count m) - 1"
      by (subst unat_sub64) (simp_all add: word_le_nat_alt)
    have "clean setf key es'" using c(9) s(7) unfolding clean_def by blast
    then have "clean setf key (es'[i' := setf None])" by (rule clean_update) simp
    then have inv': "map_inv hash setf key ?r"
      unfolding map_inv_def using cl(1-4) s(2,5) c cnt
      by (intro exI [of _ "es'[i' := setf None]"] exI [of _ c]) simp
    have "map_lookup key ?r k' = ((map_lookup key m)(k := None)) k'" for k'
    proof -
      have "map_lookup key ?r k' = Some x \<longleftrightarrow> k' \<noteq> k \<and> table_lookup key es k' = Some x" for x
      proof -
        have "z = p \<longleftrightarrow> k' = k" if "z < length es" "key (es ! z) = Some k'" for z
          using that kp p(1) c(5) unfolding keys_distinct_def by auto
        then have "x \<in> entries_but key es p \<and> key x = Some k' \<longleftrightarrow>
            k' \<noteq> k \<and> (\<exists>z<length es. es ! z = x \<and> key x = Some k')"
          unfolding entries_but_def by blast
        moreover have "map_lookup key ?r k' = table_lookup key (es'[i' := setf None]) k'"
          by (simp add: map_lookup_def)
        ultimately show ?thesis using cl(5) [of k' x] s(4) table_lookup_iff [OF c(5), of k' x] by simp
      qed
      then show ?thesis by (intro option_eqI) (simp add: look)
    qed
    then show ?thesis
      using run inv' cnt p(6) [OF kp] look by (auto simp: fun_eq_iff)
  qed
qed

text \<open>Lookup: the slot found holds the key's entry, or is a free one, as \<open>setf None\<close> left it.\<close>

lemma at:
  assumes inv: "map_inv hash setf key m" and k: "key e = Some k"
  shows "\<exists>i. map_at hash equal m e = Some i \<and>
    map_element m i = Some (case map_lookup key m k of None \<Rightarrow> setf None | Some x \<Rightarrow> x)"
proof -
  obtain es where es: "elements m = Some es" "clean setf key es" using inv by (auto simp: map_inv_def)
  obtain p where p: "p < length es" "unat (of_nat p :: size_t) = p" "map_at hash equal m e = Some (of_nat p)"
    "key (es ! p) = None \<or> key (es ! p) = Some k"
    "key (es ! p) = None \<Longrightarrow> table_lookup key es k = None"
    "key (es ! p) = Some k \<Longrightarrow> table_lookup key es k = Some (es ! p)"
    using search [OF inv es(1) k] by metis
  have "key (es ! p) = None \<Longrightarrow> es ! p = setf None" using es(2) p(1) by (simp add: clean_def)
  then show ?thesis using p es(1) by (auto simp: map_element_def map_lookup_def)
qed

text \<open>Releasing: the callback sees every entry once, in slot order.\<close>

lemma release_slots: "map_release_slots equal r es st = fold r (filter (\<lambda>e. key e \<noteq> None) es) st"
  by (induction es arbitrary: st) auto

lemma release_all:
  assumes "map_inv hash setf key m"
  shows "map_release_all m equal release st =
    Some (case release of None \<Rightarrow> st | Some r \<Rightarrow> fold r (map_entries key m) st)"
  using assms by (auto simp: map_inv_def map_release_all_def release_slots map_entries_def split: option.splits)

lemma entries:
  assumes "map_inv hash setf key m"
  shows "distinct (map key (map_entries key m))"
    "set (map_entries key m) = {e. \<exists>k. map_lookup key m k = Some e}"
    "length (map_entries key m) = unat (elements_count m)"
proof -
  obtain es where es: "elements m = Some es" "keys_distinct key es" "unat (elements_count m) = card (occupied key es)"
    using assms by (auto simp: map_inv_def)
  have "keys_distinct key es \<Longrightarrow> distinct (map key (filter (\<lambda>e. key e \<noteq> None) es))" for es
  proof (induction es)
    case (Cons e es)
    have "keys_distinct key es" by (rule keys_distinct_Cons [OF Cons.prems])
    then show ?case
      using Cons.IH keys_distinct_Cons(2) [OF Cons.prems] by (fastforce simp: table_lookup_def find_None_iff)
  qed simp
  then show "distinct (map key (map_entries key m))" using es by (simp add: map_entries_def)
  show "set (map_entries key m) = {e. \<exists>k. map_lookup key m k = Some e}"
    using es table_lookup_iff [OF es(2)] by (auto simp: map_entries_def map_lookup_def in_set_conv_nth)
  show "length (map_entries key m) = unat (elements_count m)"
    using es by (simp add: map_entries_def occupied_filter)
qed

lemma clear:
  assumes "map_inv hash setf key m"
  shows "\<exists>m'. map_clear setf equal release m st =
      Some (m', case release of None \<Rightarrow> st | Some r \<Rightarrow> fold r (map_entries key m) st) \<and>
    map_inv hash setf key m' \<and> map_lookup key m' = (\<lambda>_. None) \<and> elements_count m' = 0"
proof -
  have r: "map_roundup 8 = 8" by (simp add: map_roundup_def)
  show ?thesis
    unfolding map_clear_def map_rehash_def MAP_ELEMENTS_CAPACITY_MIN_def Let_def r
    by (simp add: release_all [OF assms], intro conjI empty_table [where c = 3]) simp_all
qed

end
end
