(* ===== verification/Hash.thy ===== *)
theory Hash
  imports Data
begin

text \<open>
  The hash functions of \<^verbatim>\<open>src/reactor/hash.c\<close>: \<open>cfarmhash\<close> over bytes and the 64-bit mixer
  \<open>hash_uint64\<close>. All arithmetic is on 64-bit words. A pointer into the hashed range is an
  offset, and \<open>fetch64\<close>/\<open>fetch32\<close> are \<open>None\<close> when they would read outside it; the main
  loop is a \<open>partial_function\<close>, so that not stopping is \<open>None\<close> too. The target is
  little-endian.
\<close>

definition k0 :: u64 where "k0 = 0xc3a5c85c97cb3127"
definition k1 :: u64 where "k1 = 0xb492b66fbe98f273"
definition k2 :: u64 where "k2 = 0x9ae16a3b2f90404f"

definition fetch32 :: "byte list \<Rightarrow> nat \<Rightarrow> u64 option" where
  "fetch32 s p = (if p + 4 \<le> length s then Some (word_of_bytes (take 4 (drop p s))) else None)"

definition fetch64 :: "byte list \<Rightarrow> nat \<Rightarrow> u64 option" where
  "fetch64 s p = (if p + 8 \<le> length s then Some (word_of_bytes (take 8 (drop p s))) else None)"

definition fetch8 :: "byte list \<Rightarrow> nat \<Rightarrow> byte option" where
  "fetch8 s p = (if p < length s then Some (s ! p) else None)"

definition shift_mix :: "u64 \<Rightarrow> u64" where
  "shift_mix v = v XOR drop_bit 47 v"

definition rotate64 :: "u64 \<Rightarrow> nat \<Rightarrow> u64" where
  "rotate64 v shift = drop_bit shift v OR push_bit (64 - shift) v"

definition hash_len_16 :: "u64 \<Rightarrow> u64 \<Rightarrow> u64 \<Rightarrow> u64" where
  "hash_len_16 u v mul =
     (let a = (u XOR v) * mul;
          a = a XOR drop_bit 47 a;
          b = (v XOR a) * mul;
          b = b XOR drop_bit 47 b
      in b * mul)"

definition hash_len_0_to_16 :: "byte list \<Rightarrow> u64 option" where
  "hash_len_0_to_16 s =
     (let len = length s; wlen = of_nat len in
      if len \<ge> 8 then do {
        let mul = k2 + wlen * 2;
        a \<leftarrow> map_option (\<lambda>f. f + k2) (fetch64 s 0);
        b \<leftarrow> fetch64 s (len - 8);
        let c = rotate64 b 37 * mul + a;
        let d = (rotate64 a 25 + b) * mul;
        Some (hash_len_16 c d mul) }
      else if len \<ge> 4 then do {
        let mul = k2 + wlen * 2;
        a \<leftarrow> fetch32 s 0;
        e \<leftarrow> fetch32 s (len - 4);
        Some (hash_len_16 (wlen + push_bit 3 a) e mul) }
      else if len > 0 then do {
        a \<leftarrow> fetch8 s 0;
        b \<leftarrow> fetch8 s (len div 2);
        c \<leftarrow> fetch8 s (len - 1);
        let y = (ucast a :: u32) + push_bit 8 (ucast b);
        let z = (of_nat len :: u32) + push_bit 2 (ucast c);
        Some (shift_mix (ucast y * k2 XOR ucast z * k0) * k2) }
      else Some k2)"

definition hash_len_17_to_32 :: "byte list \<Rightarrow> u64 option" where
  "hash_len_17_to_32 s =
     (let len = length s in do {
        let mul = k2 + of_nat len * 2;
        a \<leftarrow> map_option (\<lambda>f. f * k1) (fetch64 s 0);
        b \<leftarrow> fetch64 s 8;
        c \<leftarrow> map_option (\<lambda>f. f * mul) (fetch64 s (len - 8));
        d \<leftarrow> map_option (\<lambda>f. f * k2) (fetch64 s (len - 16));
        Some (hash_len_16 (rotate64 (a + b) 43 + rotate64 c 30 + d)
                (a + rotate64 (b + k2) 18 + c) mul) })"

definition hash_len_33_to_64 :: "byte list \<Rightarrow> u64 option" where
  "hash_len_33_to_64 s =
     (let len = length s in do {
        let mul = k2 + of_nat len * 2;
        a \<leftarrow> map_option (\<lambda>f. f * k2) (fetch64 s 0);
        b \<leftarrow> fetch64 s 8;
        c \<leftarrow> map_option (\<lambda>f. f * mul) (fetch64 s (len - 8));
        d \<leftarrow> map_option (\<lambda>f. f * k2) (fetch64 s (len - 16));
        let y = rotate64 (a + b) 43 + rotate64 c 30 + d;
        let z = hash_len_16 y (a + rotate64 (b + k2) 18 + c) mul;
        e \<leftarrow> map_option (\<lambda>f. f * mul) (fetch64 s 16);
        f \<leftarrow> fetch64 s 24;
        g \<leftarrow> map_option (\<lambda>g. (y + g) * mul) (fetch64 s (len - 32));
        h \<leftarrow> map_option (\<lambda>h. (z + h) * mul) (fetch64 s (len - 24));
        Some (hash_len_16 (rotate64 (e + f) 43 + rotate64 g 30 + h)
                (e + rotate64 (f + a) 18 + g) mul) })"

text \<open>The \<open>swap\<close> macro exchanges two words by three exclusive ors.\<close>

definition swap_words :: "u64 \<Rightarrow> u64 \<Rightarrow> u64 \<times> u64" where
  "swap_words x y =
     (let x = x XOR y;
          y = x XOR y;
          x = x XOR y
      in (x, y))"

record pair64 =
  first :: u64
  second :: u64

definition weak_hash_len_32_with_seeds2 :: "u64 \<Rightarrow> u64 \<Rightarrow> u64 \<Rightarrow> u64 \<Rightarrow> u64 \<Rightarrow> u64 \<Rightarrow> pair64" where
  "weak_hash_len_32_with_seeds2 w x y z a b =
     (let a = a + w;
          b = rotate64 (b + a + z) 21;
          c = a;
          a = a + x;
          a = a + y;
          b = b + rotate64 a 44
      in \<lparr>first = a + z, second = b + c\<rparr>)"

definition weak_hash_len_32_with_seeds :: "byte list \<Rightarrow> nat \<Rightarrow> u64 \<Rightarrow> u64 \<Rightarrow> pair64 option" where
  "weak_hash_len_32_with_seeds s p a b = do {
     f0 \<leftarrow> fetch64 s p;
     f8 \<leftarrow> fetch64 s (p + 8);
     f16 \<leftarrow> fetch64 s (p + 16);
     f24 \<leftarrow> fetch64 s (p + 24);
     Some (weak_hash_len_32_with_seeds2 f0 f8 f16 f24 a b) }"

text \<open>The variables of \<open>cfarmhash\<close> that live across the main loop.\<close>

record hash_state =
  hx :: u64
  hy :: u64
  hz :: u64
  hv :: pair64
  hw :: pair64

text \<open>The body of the loop, at offset \<open>p\<close>.\<close>

definition cfarmhash_round :: "byte list \<Rightarrow> nat \<Rightarrow> hash_state \<Rightarrow> hash_state option" where
  "cfarmhash_round s p st = do {
     let v = hv st; let w = hw st;
     f8 \<leftarrow> fetch64 s (p + 8);
     let x = rotate64 (hx st + hy st + first v + f8) 37 * k1;
     f48 \<leftarrow> fetch64 s (p + 48);
     let y = rotate64 (hy st + second v + f48) 42 * k1;
     let x = x XOR second w;
     f40 \<leftarrow> fetch64 s (p + 40);
     let y = y + (first v + f40);
     let z = rotate64 (hz st + first w) 33 * k1;
     v \<leftarrow> weak_hash_len_32_with_seeds s p (second v * k1) (x + first w);
     f16 \<leftarrow> fetch64 s (p + 16);
     w \<leftarrow> weak_hash_len_32_with_seeds s (p + 32) (z + second w) (y + f16);
     let (z, x) = swap_words z x;
     Some \<lparr>hx = x, hy = y, hz = z, hv = v, hw = w\<rparr> }"

partial_function (option) cfarmhash_loop :: "byte list \<Rightarrow> nat \<Rightarrow> nat \<Rightarrow> hash_state \<Rightarrow> hash_state option" where
  "cfarmhash_loop s stop p st =
     Option.bind (cfarmhash_round s p st)
       (\<lambda>st. let p = p + 64 in if p \<noteq> stop then cfarmhash_loop s stop p st else Some st)"

declare cfarmhash_loop.simps [code]

text \<open>The last 64 bytes, and the final mixing.\<close>

definition cfarmhash_last :: "byte list \<Rightarrow> nat \<Rightarrow> hash_state \<Rightarrow> u64 option" where
  "cfarmhash_last s p st = do {
     let len = length s;
     let mul = k1 + push_bit 1 (hz st AND 0xff);
     let v = hv st; let w = hw st;
     let w1 = first w + of_nat ((len - 1) mod 64);
     let v1 = first v + w1;
     let w1 = w1 + v1;
     f8 \<leftarrow> fetch64 s (p + 8);
     let x = rotate64 (hx st + hy st + v1 + f8) 37 * mul;
     f48 \<leftarrow> fetch64 s (p + 48);
     let y = rotate64 (hy st + second v + f48) 42 * mul;
     let x = x XOR (second w * 9);
     f40 \<leftarrow> fetch64 s (p + 40);
     let y = y + (v1 * 9 + f40);
     let z = rotate64 (hz st + w1) 33 * mul;
     v \<leftarrow> weak_hash_len_32_with_seeds s p (second v * mul) (x + w1);
     f16 \<leftarrow> fetch64 s (p + 16);
     w \<leftarrow> weak_hash_len_32_with_seeds s (p + 32) (z + second w) (y + f16);
     let (z, x) = swap_words z x;
     Some (hash_len_16 (hash_len_16 (first v) (first w) mul + shift_mix y * k0 + z)
             (hash_len_16 (second v) (second w) mul + x) mul) }"

definition cfarmhash :: "byte list \<Rightarrow> u64 option" where
  "cfarmhash s =
     (let len = length s in
      if len \<le> 16 then hash_len_0_to_16 s
      else if len \<le> 32 then hash_len_17_to_32 s
      else if len \<le> 64 then hash_len_33_to_64 s
      else do {
        let seed = 81;
        let x = seed; let y = seed * k1 + 113; let z = shift_mix (y * k2 + 113) * k2;
        f0 \<leftarrow> fetch64 s 0;
        let x = x * k2 + f0;
        let stop = ((len - 1) div 64) * 64;
        let last64 = stop + ((len - 1) mod 64) - 63;
        st \<leftarrow> cfarmhash_loop s stop 0
          \<lparr>hx = x, hy = y, hz = z, hv = \<lparr>first = 0, second = 0\<rparr>, hw = \<lparr>first = 0, second = 0\<rparr>\<rparr>;
        cfarmhash_last s last64 st })"

definition hash_data :: "data \<Rightarrow> u64 option" where
  "hash_data d = Option.bind (data_bytes d) cfarmhash"

definition hash_uint64 :: "u64 \<Rightarrow> u64" where
  "hash_uint64 v =
     (let v = v XOR drop_bit 33 v;
          v = v * 0xff51afd7ed558ccd;
          v = v XOR drop_bit 33 v;
          v = v * 0xc4ceb9fe1a85ec53
      in v XOR drop_bit 33 v)"

section \<open>Bounds and termination\<close>

lemma fetch_Some:
  "fetch8 s p \<noteq> None \<longleftrightarrow> p < length s" "fetch32 s p \<noteq> None \<longleftrightarrow> p + 4 \<le> length s"
  "fetch64 s p \<noteq> None \<longleftrightarrow> p + 8 \<le> length s"
  by (simp_all add: fetch8_def fetch32_def fetch64_def)

lemma swap_words_swaps: "swap_words x y = (y, x)"
  by (simp add: swap_words_def xor.assoc xor.left_commute xor.commute)

lemma fetch64_in_range: "p + 8 \<le> length s \<Longrightarrow> \<exists>f. fetch64 s p = Some f"
  by (simp add: fetch64_def)

lemma weak_hash_in_range:
  "p + 32 \<le> length s \<Longrightarrow> \<exists>r. weak_hash_len_32_with_seeds s p a b = Some r"
  by (simp add: weak_hash_len_32_with_seeds_def fetch64_def)

lemma cfarmhash_round_in_range:
  assumes "p + 64 \<le> length s"
  shows "\<exists>st'. cfarmhash_round s p st = Some st'"
  unfolding cfarmhash_round_def Let_def case_prod_beta
  by (intro bind_exI fetch64_in_range weak_hash_in_range Some_exI) (use assms in simp_all)

lemma cfarmhash_last_in_range:
  assumes "p + 64 \<le> length s"
  shows "\<exists>h. cfarmhash_last s p st = Some h"
  unfolding cfarmhash_last_def Let_def case_prod_beta
  by (intro bind_exI fetch64_in_range weak_hash_in_range Some_exI) (use assms in simp_all)

text \<open>The loop is left through \<open>s = end\<close> after as many rounds as there are blocks.\<close>

lemma cfarmhash_loop_in_range:
  "p + 64 * Suc k \<le> length s \<Longrightarrow> \<exists>st'. cfarmhash_loop s (p + 64 * Suc k) p st = Some st'"
proof (induction k arbitrary: p st)
  case 0
  then obtain st' where "cfarmhash_round s p st = Some st'"
    using cfarmhash_round_in_range [of p s st] by auto
  then show ?case by (subst cfarmhash_loop.simps) simp
next
  case (Suc k)
  then obtain st' where st': "cfarmhash_round s p st = Some st'"
    using cfarmhash_round_in_range [of p s st] by auto
  obtain st'' where "cfarmhash_loop s (p + 64 + 64 * Suc k) (p + 64) st' = Some st''"
    using Suc.IH [of "p + 64" st'] Suc.prems by (auto simp: add.assoc)
  with st' show ?case by (subst cfarmhash_loop.simps) (simp add: add.assoc)
qed

lemma hash_len_0_to_16_in_range: "\<exists>h. hash_len_0_to_16 s = Some h"
proof -
  have [simp]: "length s div 2 < length s" if "0 < length s" using that by simp
  show ?thesis by (auto simp: hash_len_0_to_16_def Let_def fetch64_def fetch32_def fetch8_def)
qed

lemma hash_len_17_to_32_in_range: "16 < length s \<Longrightarrow> \<exists>h. hash_len_17_to_32 s = Some h"
  by (simp add: hash_len_17_to_32_def Let_def fetch64_def)

lemma hash_len_33_to_64_in_range: "32 < length s \<Longrightarrow> \<exists>h. hash_len_33_to_64 s = Some h"
  by (simp add: hash_len_33_to_64_def Let_def fetch64_def)

lemma cfarmhash_in_range: "\<exists>h. cfarmhash s = Some h"
proof (cases "length s \<le> 64")
  case True
  then show ?thesis
    by (auto simp: cfarmhash_def Let_def hash_len_0_to_16_in_range
        intro: hash_len_17_to_32_in_range hash_len_33_to_64_in_range)
next
  case False
  define k where "k = (length s - 1) div 64 - 1"
  define r where "r = (length s - 1) mod 64"
  have len: "length s = 64 * Suc k + r + 1" "(length s - 1) div 64 = Suc k"
    using False by (auto simp: k_def r_def)
  have e: "(length s - 1) div 64 * 64 = 0 + 64 * Suc k" using len(2) by simp
  have "\<exists>h. Option.bind (cfarmhash_loop s (0 + 64 * Suc k) 0 st) (cfarmhash_last s (0 + 64 * Suc k + r - 63)) = Some h" for st
  proof (rule bind_exI)
    show "\<exists>st'. cfarmhash_loop s (0 + 64 * Suc k) 0 st = Some st'"
      by (rule cfarmhash_loop_in_range) (use len in simp)
    show "\<exists>h. cfarmhash_last s (0 + 64 * Suc k + r - 63) st' = Some h" for st'
      by (rule cfarmhash_last_in_range) (use len in simp)
  qed
  then show ?thesis
    unfolding cfarmhash_def Let_def e r_def [symmetric]
    using False fetch64_in_range [of 0 s] by auto
qed

section \<open>The integer mixer is a bijection\<close>

definition hash_uint64_inverse :: "u64 \<Rightarrow> u64" where
  "hash_uint64_inverse v =
     (let v = v XOR drop_bit 33 v;
          v = v * 11291846944257947611;
          v = v XOR drop_bit 33 v;
          v = v * 5725274745694666757
      in v XOR drop_bit 33 v)"

lemma xorshift_involution: "(v XOR drop_bit 33 v) XOR drop_bit 33 (v XOR drop_bit 33 v) = (v :: u64)"
  by (rule bit_word_eqI) (auto simp: bit_xor_iff bit_drop_bit_eq dest: bit_imp_le_length)

lemma mixer_inverses:
  "(v :: u64) * 0xff51afd7ed558ccd * 5725274745694666757 = v"
  "(v :: u64) * 0xc4ceb9fe1a85ec53 * 11291846944257947611 = v"
  "(v :: u64) * 5725274745694666757 * 0xff51afd7ed558ccd = v"
  "(v :: u64) * 11291846944257947611 * 0xc4ceb9fe1a85ec53 = v"
proof -
  have one: "(0xff51afd7ed558ccd * 5725274745694666757 :: u64) = 1"
    "(0xc4ceb9fe1a85ec53 * 11291846944257947611 :: u64) = 1"
    "(5725274745694666757 * 0xff51afd7ed558ccd :: u64) = 1"
    "(11291846944257947611 * 0xc4ceb9fe1a85ec53 :: u64) = 1" by simp_all
  show "(v :: u64) * 0xff51afd7ed558ccd * 5725274745694666757 = v"
    "(v :: u64) * 0xc4ceb9fe1a85ec53 * 11291846944257947611 = v"
    "(v :: u64) * 5725274745694666757 * 0xff51afd7ed558ccd = v"
    "(v :: u64) * 11291846944257947611 * 0xc4ceb9fe1a85ec53 = v"
    by (simp_all only: mult.assoc one mult_1_right)
qed

lemma hash_uint64_inverse_left: "hash_uint64_inverse (hash_uint64 v) = v"
  by (simp only: hash_uint64_def hash_uint64_inverse_def Let_def xorshift_involution mixer_inverses)

lemma hash_uint64_inverse_right: "hash_uint64 (hash_uint64_inverse v) = v"
  by (simp only: hash_uint64_def hash_uint64_inverse_def Let_def xorshift_involution mixer_inverses)

section \<open>Properties\<close>

text \<open>
  C39: \<open>hash_data\<close> returns a hash for every data vector whose bytes are readable: the
  four length cases, the 64-byte loop and the overlapping last block never fetch a word
  that reaches outside the vector, and the loop ends.
\<close>

theorem hash_data_total:
  assumes "data_bytes d = Some bs"
  shows "\<exists>h. hash_data d = Some h"
  using cfarmhash_in_range assms by (simp add: hash_data_def)

lemma hash_data_total_witness:
  "\<exists>h. hash_data (data_literal (replicate 129 7)) = Some h"
  by (rule hash_data_total [of _ "replicate 129 7"]) simp

text \<open>
  C40: \<open>hash_uint64\<close> is a bijection on 64-bit words, with \<open>hash_uint64_inverse\<close> as its
  inverse: two integer keys never collide before the hash is masked.
\<close>

theorem hash_uint64_bij: "bij hash_uint64"
  by (rule o_bij [of hash_uint64_inverse]) (simp_all add: fun_eq_iff hash_uint64_inverse_left hash_uint64_inverse_right)

end
