(* ===== verification/Maps.thy ===== *)
theory Maps
  imports Rmap Hash
begin

text \<open>
  The three typed maps over \<^verbatim>\<open>map.c\<close>: \<^verbatim>\<open>mapi.c\<close> (integer keys, key 0 marks a free slot),
  \<^verbatim>\<open>maps.c\<close> (C strings) and \<^verbatim>\<open>mapd.c\<close> (data vectors), all under \<^verbatim>\<open>src/reactor/\<close>. Each gives the
  callbacks \<open>set\<close>, \<open>equal\<close> and \<open>hash\<close> and wraps the operations. A string or data key is
  represented by its bytes (\<open>None\<close> for the \<open>NULL\<close> pointer): the map stores the pointer
  only, and the caller keeps the bytes unchanged.

  The locale \<open>finite_map\<close> is what the users of the maps rely on: a run of insertions and
  removals behaves like the same run on a mathematical map, where inserting a present key
  keeps the old entry.
\<close>

section \<open>The interface\<close>

datatype ('k, 'v) map_command = Put 'k 'v | Del 'k

fun spec_command :: "('k, 'v) map_command \<Rightarrow> ('k \<rightharpoonup> 'v) \<Rightarrow> ('k \<rightharpoonup> 'v)" where
  "spec_command (Put k v) f = (if f k = None then f(k \<mapsto> v) else f)"
| "spec_command (Del k) f = f(k := None)"

fun run_commands ::
    "('k \<Rightarrow> 'v \<Rightarrow> 'm \<Rightarrow> 'm option) \<Rightarrow> ('k \<Rightarrow> 'm \<Rightarrow> 'm option) \<Rightarrow> ('k, 'v) map_command list \<Rightarrow> 'm \<Rightarrow> 'm option" where
  "run_commands add del [] m = Some m"
| "run_commands add del (Put k v # cs) m = Option.bind (add k v m) (run_commands add del cs)"
| "run_commands add del (Del k # cs) m = Option.bind (del k m) (run_commands add del cs)"

fun command_key :: "('k, 'v) map_command \<Rightarrow> 'k" where
  "command_key (Put k v) = k"
| "command_key (Del k) = k"

locale finite_map =
  fixes inv :: "'m \<Rightarrow> bool"
    and lookup :: "'m \<Rightarrow> 'k \<Rightarrow> 'v option"
    and count :: "'m \<Rightarrow> nat"
    and add :: "'k \<Rightarrow> 'v \<Rightarrow> 'm \<Rightarrow> 'm option"
    and del :: "'k \<Rightarrow> 'm \<Rightarrow> 'm option"
    and valid :: "'k \<Rightarrow> bool"
    and limit :: nat
  assumes add_law: "inv m \<Longrightarrow> valid k \<Longrightarrow> count m < limit \<Longrightarrow>
      \<exists>m'. add k v m = Some m' \<and> inv m' \<and> lookup m' = spec_command (Put k v) (lookup m) \<and> count m' \<le> count m + 1"
    and del_law: "inv m \<Longrightarrow> valid k \<Longrightarrow>
      \<exists>m'. del k m = Some m' \<and> inv m' \<and> lookup m' = spec_command (Del k) (lookup m) \<and> count m' \<le> count m"
begin

lemma run_spec:
  assumes "inv m" "\<forall>c\<in>set cs. valid (command_key c)" "count m + length cs \<le> limit"
  shows "\<exists>m'. run_commands add del cs m = Some m' \<and> inv m' \<and> lookup m' = fold spec_command cs (lookup m)"
  using assms
proof (induction cs arbitrary: m)
  case (Cons c cs)
  have v: "valid (command_key c)" and cs: "\<forall>c\<in>set cs. valid (command_key c)" using Cons.prems(2) by simp_all
  have "\<exists>m'. run_commands add del [c] m = Some m' \<and> inv m' \<and> lookup m' = spec_command c (lookup m) \<and> count m' \<le> count m + 1"
  proof (cases c)
    case (Put k v)
    then show ?thesis using add_law [of m k v] Cons.prems v by auto
  next
    case (Del k)
    then show ?thesis using del_law [of m k] Cons.prems(1) v by force
  qed
  then obtain m' where m': "run_commands add del [c] m = Some m'" "inv m'"
    "lookup m' = spec_command c (lookup m)" "count m' \<le> count m + 1" by blast
  have "run_commands add del (c # cs) m = run_commands add del cs m'"
    using m'(1) by (cases c) (auto split: bind_splits)
  then show ?case using Cons.IH [OF m'(2) cs] Cons.prems(3) m'(3,4) by simp
qed simp

end

section \<open>Integer keys\<close>

record mapi_entry =
  mapi_key :: u64
  mapi_value :: u64

type_synonym mapi = "mapi_entry rmap"

definition mapi_set :: "mapi_entry option \<Rightarrow> mapi_entry" where
  "mapi_set b = (case b of None \<Rightarrow> \<lparr>mapi_key = 0, mapi_value = 0\<rparr> | Some b \<Rightarrow> b)"

definition mapi_equal :: "mapi_entry \<Rightarrow> mapi_entry option \<Rightarrow> bool" where
  "mapi_equal a b = (case b of Some b \<Rightarrow> mapi_key a = mapi_key b | None \<Rightarrow> mapi_key a = 0)"

definition mapi_hash :: "mapi_entry \<Rightarrow> size_t" where
  "mapi_hash a = hash_uint64 (mapi_key a)"

definition mapi_construct :: "mapi option" where
  "mapi_construct = map_construct 16 mapi_set"

definition mapi_destruct :: "mapi \<Rightarrow> (mapi_entry \<Rightarrow> 's \<Rightarrow> 's) option \<Rightarrow> 's \<Rightarrow> 's option" where
  "mapi_destruct m release st = map_destruct m mapi_equal release st"

definition mapi_size :: "mapi \<Rightarrow> size_t" where
  "mapi_size m = map_size m"

definition mapi_reserve :: "mapi \<Rightarrow> size_t \<Rightarrow> mapi option" where
  "mapi_reserve m sz = map_reserve mapi_hash mapi_set mapi_equal m sz"

definition mapi_at :: "mapi \<Rightarrow> u64 \<Rightarrow> u64 option" where
  "mapi_at m key = do {
     i \<leftarrow> map_at mapi_hash mapi_equal m \<lparr>mapi_key = key, mapi_value = 0\<rparr>;
     e \<leftarrow> map_element m i;
     Some (mapi_value e) }"

definition mapi_insert ::
    "mapi \<Rightarrow> u64 \<Rightarrow> u64 \<Rightarrow> (mapi_entry \<Rightarrow> 's \<Rightarrow> 's) option \<Rightarrow> 's \<Rightarrow> (mapi \<times> 's) option" where
  "mapi_insert m key val release st =
     map_insert mapi_hash mapi_set mapi_equal release m \<lparr>mapi_key = key, mapi_value = val\<rparr> st"

definition mapi_erase ::
    "mapi \<Rightarrow> u64 \<Rightarrow> (mapi_entry \<Rightarrow> 's \<Rightarrow> 's) option \<Rightarrow> 's \<Rightarrow> (mapi \<times> 's) option" where
  "mapi_erase m key release st =
     map_erase mapi_hash mapi_set mapi_equal release m \<lparr>mapi_key = key, mapi_value = 0\<rparr> st"

definition mapi_clear :: "mapi \<Rightarrow> (mapi_entry \<Rightarrow> 's \<Rightarrow> 's) option \<Rightarrow> 's \<Rightarrow> (mapi \<times> 's) option" where
  "mapi_clear m release st = map_clear mapi_set mapi_equal release m st"

section \<open>String keys\<close>

text \<open>\<open>strcmp\<close> on the bytes from each pointer on; a zero byte or the end of the list ends a string.\<close>

fun strcmp :: "byte list \<Rightarrow> byte list \<Rightarrow> int" where
  "strcmp [] [] = 0"
| "strcmp [] (b # bs) = - uint b"
| "strcmp (a # as) [] = uint a"
| "strcmp (a # as) (b # bs) = (if a \<noteq> b then uint a - uint b else if a = 0 then 0 else strcmp as bs)"

definition c_string :: "byte list \<Rightarrow> byte list" where
  "c_string s = takeWhile (\<lambda>b. b \<noteq> 0) s"

record maps_entry =
  maps_key :: "byte list option"
  maps_value :: u64

type_synonym maps = "maps_entry rmap"

definition maps_set :: "maps_entry option \<Rightarrow> maps_entry" where
  "maps_set b = (case b of None \<Rightarrow> \<lparr>maps_key = None, maps_value = 0\<rparr> | Some b \<Rightarrow> b)"

text \<open>\<open>strcmp\<close> is only called on non-null keys.\<close>

definition maps_equal :: "maps_entry \<Rightarrow> maps_entry option \<Rightarrow> bool" where
  "maps_equal a b =
     (case b of
        Some b \<Rightarrow> (case (maps_key a, maps_key b) of (Some x, Some y) \<Rightarrow> strcmp x y = 0 | _ \<Rightarrow> False)
      | None \<Rightarrow> maps_key a = None)"

text \<open>
  \<open>hash_data(data_string(key))\<close> on the block that holds the string and its zero byte; the
  hash never reads outside it (\<open>cfarmhash_in_range\<close>), and is not called on \<open>NULL\<close>.
\<close>

definition maps_hash :: "maps_entry \<Rightarrow> size_t" where
  "maps_hash a =
     (case maps_key a of
        None \<Rightarrow> 0
      | Some s \<Rightarrow>
          (case Option.bind (data_string (map Some (c_string s) @ [Some 0])) hash_data of
             None \<Rightarrow> 0 | Some h \<Rightarrow> h))"

definition maps_construct :: "maps option" where
  "maps_construct = map_construct 16 maps_set"

definition maps_destruct :: "maps \<Rightarrow> (maps_entry \<Rightarrow> 's \<Rightarrow> 's) option \<Rightarrow> 's \<Rightarrow> 's option" where
  "maps_destruct m release st = map_destruct m maps_equal release st"

definition maps_size :: "maps \<Rightarrow> size_t" where
  "maps_size m = map_size m"

definition maps_reserve :: "maps \<Rightarrow> size_t \<Rightarrow> maps option" where
  "maps_reserve m sz = map_reserve maps_hash maps_set maps_equal m sz"

definition maps_at :: "maps \<Rightarrow> byte list \<Rightarrow> u64 option" where
  "maps_at m key = do {
     i \<leftarrow> map_at maps_hash maps_equal m \<lparr>maps_key = Some key, maps_value = 0\<rparr>;
     e \<leftarrow> map_element m i;
     Some (maps_value e) }"

definition maps_insert ::
    "maps \<Rightarrow> byte list \<Rightarrow> u64 \<Rightarrow> (maps_entry \<Rightarrow> 's \<Rightarrow> 's) option \<Rightarrow> 's \<Rightarrow> (maps \<times> 's) option" where
  "maps_insert m key val release st =
     map_insert maps_hash maps_set maps_equal release m \<lparr>maps_key = Some key, maps_value = val\<rparr> st"

definition maps_erase ::
    "maps \<Rightarrow> byte list \<Rightarrow> (maps_entry \<Rightarrow> 's \<Rightarrow> 's) option \<Rightarrow> 's \<Rightarrow> (maps \<times> 's) option" where
  "maps_erase m key release st =
     map_erase maps_hash maps_set maps_equal release m \<lparr>maps_key = Some key, maps_value = 0\<rparr> st"

definition maps_clear :: "maps \<Rightarrow> (maps_entry \<Rightarrow> 's \<Rightarrow> 's) option \<Rightarrow> 's \<Rightarrow> (maps \<times> 's) option" where
  "maps_clear m release st = map_clear maps_set maps_equal release m st"

section \<open>Data keys\<close>

record mapd_entry =
  mapd_key :: "byte list option"
  mapd_value :: u64

type_synonym mapd = "mapd_entry rmap"

definition mapd_set :: "mapd_entry option \<Rightarrow> mapd_entry" where
  "mapd_set b = (case b of None \<Rightarrow> \<lparr>mapd_key = None, mapd_value = 0\<rparr> | Some b \<Rightarrow> b)"

text \<open>\<open>data_equal\<close> compares the bytes (\<open>mapd_equal_data\<close> below).\<close>

definition mapd_equal :: "mapd_entry \<Rightarrow> mapd_entry option \<Rightarrow> bool" where
  "mapd_equal a b = (case b of Some b \<Rightarrow> mapd_key a = mapd_key b | None \<Rightarrow> mapd_key a = None)"

definition mapd_hash :: "mapd_entry \<Rightarrow> size_t" where
  "mapd_hash a =
     (case mapd_key a of
        None \<Rightarrow> 0
      | Some s \<Rightarrow> (case hash_data (data_literal s) of None \<Rightarrow> 0 | Some h \<Rightarrow> h))"

definition mapd_construct :: "mapd option" where
  "mapd_construct = map_construct 24 mapd_set"

definition mapd_destruct :: "mapd \<Rightarrow> (mapd_entry \<Rightarrow> 's \<Rightarrow> 's) option \<Rightarrow> 's \<Rightarrow> 's option" where
  "mapd_destruct m release st = map_destruct m mapd_equal release st"

definition mapd_size :: "mapd \<Rightarrow> size_t" where
  "mapd_size m = map_size m"

definition mapd_reserve :: "mapd \<Rightarrow> size_t \<Rightarrow> mapd option" where
  "mapd_reserve m sz = map_reserve mapd_hash mapd_set mapd_equal m sz"

definition mapd_at :: "mapd \<Rightarrow> byte list \<Rightarrow> u64 option" where
  "mapd_at m key = do {
     i \<leftarrow> map_at mapd_hash mapd_equal m \<lparr>mapd_key = Some key, mapd_value = 0\<rparr>;
     e \<leftarrow> map_element m i;
     Some (mapd_value e) }"

definition mapd_insert ::
    "mapd \<Rightarrow> byte list \<Rightarrow> u64 \<Rightarrow> (mapd_entry \<Rightarrow> 's \<Rightarrow> 's) option \<Rightarrow> 's \<Rightarrow> (mapd \<times> 's) option" where
  "mapd_insert m key val release st =
     map_insert mapd_hash mapd_set mapd_equal release m \<lparr>mapd_key = Some key, mapd_value = val\<rparr> st"

definition mapd_erase ::
    "mapd \<Rightarrow> byte list \<Rightarrow> (mapd_entry \<Rightarrow> 's \<Rightarrow> 's) option \<Rightarrow> 's \<Rightarrow> (mapd \<times> 's) option" where
  "mapd_erase m key release st =
     map_erase mapd_hash mapd_set mapd_equal release m \<lparr>mapd_key = Some key, mapd_value = 0\<rparr> st"

definition mapd_clear :: "mapd \<Rightarrow> (mapd_entry \<Rightarrow> 's \<Rightarrow> 's) option \<Rightarrow> 's \<Rightarrow> (mapd \<times> 's) option" where
  "mapd_clear m release st = map_clear mapd_set mapd_equal release m st"

section \<open>The callbacks meet their contract\<close>

definition mapi_key_of :: "mapi_entry \<Rightarrow> u64 option" where
  "mapi_key_of e = (if mapi_key e = 0 then None else Some (mapi_key e))"

definition maps_key_of :: "maps_entry \<Rightarrow> byte list option" where
  "maps_key_of e = map_option c_string (maps_key e)"

lemma strcmp_eq_0: "strcmp s t = 0 \<longleftrightarrow> c_string s = c_string t"
  by (induction s t rule: strcmp.induct) (auto simp: c_string_def unsigned_eq_0_iff dest: unsigned_word_eqI)

text \<open>\<open>mapd_equal\<close> is \<open>data_equal\<close> on vectors with these bytes.\<close>

lemma mapd_equal_data:
  assumes "data_bytes d1 = Some x" "data_bytes d2 = Some y"
  shows "data_equal d1 d2 = Some (mapd_equal \<lparr>mapd_key = Some x, mapd_value = v\<rparr> (Some \<lparr>mapd_key = Some y, mapd_value = w\<rparr>))"
  using data_equal_bytes [OF assms] by (simp add: mapd_equal_def)

interpretation mapi: map_callbacks mapi_hash mapi_set mapi_equal mapi_key_of
  by unfold_locales
    (auto simp: mapi_hash_def mapi_set_def mapi_equal_def mapi_key_of_def split: if_splits)

interpretation maps: map_callbacks maps_hash maps_set maps_equal maps_key_of
  by unfold_locales
    (auto simp: maps_hash_def maps_set_def maps_equal_def maps_key_of_def strcmp_eq_0 split: option.splits)

interpretation mapd: map_callbacks mapd_hash mapd_set mapd_equal mapd_key
  by unfold_locales (auto simp: mapd_hash_def mapd_set_def mapd_equal_def)


section \<open>mapi: operations in terms of the finite map\<close>

definition mapi_inv :: "mapi \<Rightarrow> bool" where
  "mapi_inv m \<longleftrightarrow> map_inv mapi_hash mapi_set mapi_key_of m"

definition mapi_lookup :: "mapi \<Rightarrow> u64 \<Rightarrow> u64 option" where
  "mapi_lookup m k = map_option mapi_value (map_lookup mapi_key_of m k)"

lemma mapi_insert_spec:
  assumes "mapi_inv m" "k \<noteq> 0" "unat (elements_count m) < 2 ^ 62"
  shows "\<exists>m'. mapi_insert m k v release st =
      Some (m', if mapi_lookup m k = None then st
                else (case release of None \<Rightarrow> st | Some r \<Rightarrow> r \<lparr>mapi_key = k, mapi_value = v\<rparr> st)) \<and>
    mapi_inv m' \<and> mapi_lookup m' = spec_command (Put k v) (mapi_lookup m) \<and>
    unat (elements_count m') = unat (elements_count m) + (if mapi_lookup m k = None then 1 else 0)"
  using mapi.insert [of m "\<lparr>mapi_key = k, mapi_value = v\<rparr>" k release st] assms
  by (auto simp: mapi_inv_def mapi_insert_def mapi_lookup_def mapi_key_of_def fun_eq_iff)

lemma mapi_erase_spec:
  assumes "mapi_inv m" "k \<noteq> 0"
  shows "\<exists>m'. mapi_erase m k release st =
      Some (m', case map_lookup mapi_key_of m k of None \<Rightarrow> st
                | Some e \<Rightarrow> (case release of None \<Rightarrow> st | Some r \<Rightarrow> r e st)) \<and>
    mapi_inv m' \<and> mapi_lookup m' = spec_command (Del k) (mapi_lookup m) \<and>
    unat (elements_count m') = unat (elements_count m) - (if mapi_lookup m k = None then 0 else 1)"
  using mapi.erase [of m "\<lparr>mapi_key = k, mapi_value = 0\<rparr>" k release st] assms
  by (auto simp: mapi_inv_def mapi_erase_def mapi_lookup_def mapi_key_of_def fun_eq_iff)

lemma mapi_at_spec:
  assumes "mapi_inv m" "k \<noteq> 0"
  shows "mapi_at m k = Some (case mapi_lookup m k of None \<Rightarrow> 0 | Some v \<Rightarrow> v)"
  using mapi.at [of m "\<lparr>mapi_key = k, mapi_value = 0\<rparr>" k] assms
  by (auto simp: mapi_inv_def mapi_at_def mapi_lookup_def mapi_key_of_def mapi_set_def split: option.splits)

lemma mapi_construct_spec:
  "\<exists>m. mapi_construct = Some m \<and> mapi_inv m \<and> mapi_lookup m = (\<lambda>_. None) \<and> elements_count m = 0"
  using mapi.construct [of 16] by (auto simp: mapi_construct_def mapi_inv_def mapi_lookup_def fun_eq_iff)

definition mapi_add :: "u64 \<Rightarrow> u64 \<Rightarrow> mapi \<Rightarrow> mapi option" where
  "mapi_add k v m = map_option fst (mapi_insert m k v None ())"

definition mapi_del :: "u64 \<Rightarrow> mapi \<Rightarrow> mapi option" where
  "mapi_del k m = map_option fst (mapi_erase m k None ())"

interpretation mapi_map: finite_map mapi_inv mapi_lookup "\<lambda>m. unat (elements_count m)" mapi_add mapi_del
  "\<lambda>k. k \<noteq> 0" "2 ^ 62"
proof
  fix m v and k :: "u64" assume "mapi_inv m" "k \<noteq> 0" "unat (elements_count m) < 2 ^ 62"
  then show "\<exists>m'. mapi_add k v m = Some m' \<and> mapi_inv m' \<and> mapi_lookup m' = spec_command (Put k v) (mapi_lookup m) \<and>
      unat (elements_count m') \<le> unat (elements_count m) + 1"
    using mapi_insert_spec [of m k v None "()"] by (auto simp: mapi_add_def)
next
  fix m and k :: "u64" assume "mapi_inv m" "k \<noteq> 0"
  then show "\<exists>m'. mapi_del k m = Some m' \<and> mapi_inv m' \<and> mapi_lookup m' = spec_command (Del k) (mapi_lookup m) \<and>
      unat (elements_count m') \<le> unat (elements_count m)"
    using mapi_erase_spec [of m k None "()"] by (auto simp: mapi_del_def)
qed

section \<open>maps: operations in terms of the finite map\<close>

definition maps_inv :: "maps \<Rightarrow> bool" where
  "maps_inv m \<longleftrightarrow> map_inv maps_hash maps_set maps_key_of m"

definition maps_lookup :: "maps \<Rightarrow> byte list \<Rightarrow> u64 option" where
  "maps_lookup m k = map_option maps_value (map_lookup maps_key_of m k)"

lemma maps_insert_spec:
  assumes "maps_inv m" "c_string k = k" "unat (elements_count m) < 2 ^ 62"
  shows "\<exists>m'. maps_insert m k v release st =
      Some (m', if maps_lookup m k = None then st
                else (case release of None \<Rightarrow> st | Some r \<Rightarrow> r \<lparr>maps_key = Some k, maps_value = v\<rparr> st)) \<and>
    maps_inv m' \<and> maps_lookup m' = spec_command (Put k v) (maps_lookup m) \<and>
    unat (elements_count m') = unat (elements_count m) + (if maps_lookup m k = None then 1 else 0)"
  using maps.insert [of m "\<lparr>maps_key = Some k, maps_value = v\<rparr>" k release st] assms
  by (auto simp: maps_inv_def maps_insert_def maps_lookup_def maps_key_of_def fun_eq_iff)

lemma maps_erase_spec:
  assumes "maps_inv m" "c_string k = k"
  shows "\<exists>m'. maps_erase m k release st =
      Some (m', case map_lookup maps_key_of m k of None \<Rightarrow> st
                | Some e \<Rightarrow> (case release of None \<Rightarrow> st | Some r \<Rightarrow> r e st)) \<and>
    maps_inv m' \<and> maps_lookup m' = spec_command (Del k) (maps_lookup m) \<and>
    unat (elements_count m') = unat (elements_count m) - (if maps_lookup m k = None then 0 else 1)"
  using maps.erase [of m "\<lparr>maps_key = Some k, maps_value = 0\<rparr>" k release st] assms
  by (auto simp: maps_inv_def maps_erase_def maps_lookup_def maps_key_of_def fun_eq_iff)

lemma maps_at_spec:
  assumes "maps_inv m" "c_string k = k"
  shows "maps_at m k = Some (case maps_lookup m k of None \<Rightarrow> 0 | Some v \<Rightarrow> v)"
  using maps.at [of m "\<lparr>maps_key = Some k, maps_value = 0\<rparr>" k] assms
  by (auto simp: maps_inv_def maps_at_def maps_lookup_def maps_key_of_def maps_set_def split: option.splits)

lemma maps_construct_spec:
  "\<exists>m. maps_construct = Some m \<and> maps_inv m \<and> maps_lookup m = (\<lambda>_. None) \<and> elements_count m = 0"
  using maps.construct [of 16] by (auto simp: maps_construct_def maps_inv_def maps_lookup_def fun_eq_iff)

definition maps_add :: "byte list \<Rightarrow> u64 \<Rightarrow> maps \<Rightarrow> maps option" where
  "maps_add k v m = map_option fst (maps_insert m k v None ())"

definition maps_del :: "byte list \<Rightarrow> maps \<Rightarrow> maps option" where
  "maps_del k m = map_option fst (maps_erase m k None ())"

interpretation maps_map: finite_map maps_inv maps_lookup "\<lambda>m. unat (elements_count m)" maps_add maps_del
  "\<lambda>k. c_string k = k" "2 ^ 62"
proof
  fix m v and k :: "byte list" assume "maps_inv m" "c_string k = k" "unat (elements_count m) < 2 ^ 62"
  then show "\<exists>m'. maps_add k v m = Some m' \<and> maps_inv m' \<and> maps_lookup m' = spec_command (Put k v) (maps_lookup m) \<and>
      unat (elements_count m') \<le> unat (elements_count m) + 1"
    using maps_insert_spec [of m k v None "()"] by (auto simp: maps_add_def)
next
  fix m and k :: "byte list" assume "maps_inv m" "c_string k = k"
  then show "\<exists>m'. maps_del k m = Some m' \<and> maps_inv m' \<and> maps_lookup m' = spec_command (Del k) (maps_lookup m) \<and>
      unat (elements_count m') \<le> unat (elements_count m)"
    using maps_erase_spec [of m k None "()"] by (auto simp: maps_del_def)
qed

section \<open>mapd: operations in terms of the finite map\<close>

definition mapd_inv :: "mapd \<Rightarrow> bool" where
  "mapd_inv m \<longleftrightarrow> map_inv mapd_hash mapd_set mapd_key m"

definition mapd_lookup :: "mapd \<Rightarrow> byte list \<Rightarrow> u64 option" where
  "mapd_lookup m k = map_option mapd_value (map_lookup mapd_key m k)"

lemma mapd_insert_spec:
  assumes "mapd_inv m" "True" "unat (elements_count m) < 2 ^ 62"
  shows "\<exists>m'. mapd_insert m k v release st =
      Some (m', if mapd_lookup m k = None then st
                else (case release of None \<Rightarrow> st | Some r \<Rightarrow> r \<lparr>mapd_key = Some k, mapd_value = v\<rparr> st)) \<and>
    mapd_inv m' \<and> mapd_lookup m' = spec_command (Put k v) (mapd_lookup m) \<and>
    unat (elements_count m') = unat (elements_count m) + (if mapd_lookup m k = None then 1 else 0)"
  using mapd.insert [of m "\<lparr>mapd_key = Some k, mapd_value = v\<rparr>" k release st] assms
  by (auto simp: mapd_inv_def mapd_insert_def mapd_lookup_def fun_eq_iff)

lemma mapd_erase_spec:
  assumes "mapd_inv m" "True"
  shows "\<exists>m'. mapd_erase m k release st =
      Some (m', case map_lookup mapd_key m k of None \<Rightarrow> st
                | Some e \<Rightarrow> (case release of None \<Rightarrow> st | Some r \<Rightarrow> r e st)) \<and>
    mapd_inv m' \<and> mapd_lookup m' = spec_command (Del k) (mapd_lookup m) \<and>
    unat (elements_count m') = unat (elements_count m) - (if mapd_lookup m k = None then 0 else 1)"
  using mapd.erase [of m "\<lparr>mapd_key = Some k, mapd_value = 0\<rparr>" k release st] assms
  by (auto simp: mapd_inv_def mapd_erase_def mapd_lookup_def fun_eq_iff)

lemma mapd_at_spec:
  assumes "mapd_inv m" "True"
  shows "mapd_at m k = Some (case mapd_lookup m k of None \<Rightarrow> 0 | Some v \<Rightarrow> v)"
  using mapd.at [of m "\<lparr>mapd_key = Some k, mapd_value = 0\<rparr>" k] assms
  by (auto simp: mapd_inv_def mapd_at_def mapd_lookup_def mapd_set_def split: option.splits)

lemma mapd_construct_spec:
  "\<exists>m. mapd_construct = Some m \<and> mapd_inv m \<and> mapd_lookup m = (\<lambda>_. None) \<and> elements_count m = 0"
  using mapd.construct [of 24] by (auto simp: mapd_construct_def mapd_inv_def mapd_lookup_def fun_eq_iff)

definition mapd_add :: "byte list \<Rightarrow> u64 \<Rightarrow> mapd \<Rightarrow> mapd option" where
  "mapd_add k v m = map_option fst (mapd_insert m k v None ())"

definition mapd_del :: "byte list \<Rightarrow> mapd \<Rightarrow> mapd option" where
  "mapd_del k m = map_option fst (mapd_erase m k None ())"

interpretation mapd_map: finite_map mapd_inv mapd_lookup "\<lambda>m. unat (elements_count m)" mapd_add mapd_del
  "\<lambda>k. True" "2 ^ 62"
proof
  fix m v and k :: "byte list" assume "mapd_inv m" "True" "unat (elements_count m) < 2 ^ 62"
  then show "\<exists>m'. mapd_add k v m = Some m' \<and> mapd_inv m' \<and> mapd_lookup m' = spec_command (Put k v) (mapd_lookup m) \<and>
      unat (elements_count m') \<le> unat (elements_count m) + 1"
    using mapd_insert_spec [of m k v None "()"] by (auto simp: mapd_add_def)
next
  fix m and k :: "byte list" assume "mapd_inv m" "True"
  then show "\<exists>m'. mapd_del k m = Some m' \<and> mapd_inv m' \<and> mapd_lookup m' = spec_command (Del k) (mapd_lookup m) \<and>
      unat (elements_count m') \<le> unat (elements_count m)"
    using mapd_erase_spec [of m k None "()"] by (auto simp: mapd_del_def)
qed

section \<open>Properties\<close>



text \<open>
  C36: The same for \<open>maps\<close>, with C strings as keys, compared by \<open>strcmp\<close> and hashed up to
  their zero byte.
\<close>

theorem maps_refines_map:
  assumes "\<forall>c\<in>set cs. c_string (command_key c) = command_key c" "length cs \<le> 2 ^ 62"
  shows "\<exists>m m'. maps_construct = Some m \<and> run_commands maps_add maps_del cs m = Some m' \<and> maps_inv m' \<and>
    (\<forall>k. c_string k = k \<longrightarrow> maps_at m' k = Some (case fold spec_command cs (\<lambda>_. None) k of None \<Rightarrow> 0 | Some v \<Rightarrow> v))"
proof -
  obtain m where m: "maps_construct = Some m" "maps_inv m" "maps_lookup m = (\<lambda>_. None)" "elements_count m = 0"
    using maps_construct_spec by blast
  obtain m' where "run_commands maps_add maps_del cs m = Some m'" "maps_inv m'"
    "maps_lookup m' = fold spec_command cs (maps_lookup m)"
    using maps_map.run_spec [of m cs] m assms by auto
  then show ?thesis using m maps_at_spec [of m'] by auto
qed

lemma maps_refines_map_witness:
  "\<exists>m m'. maps_construct = Some m \<and> run_commands maps_add maps_del [Put [97] 1, Put [98] 2, Del [97]] m = Some m' \<and>
    maps_at m' [97] = Some 0 \<and> maps_at m' [98] = Some 2"
  using maps_refines_map [of "[Put [97] 1, Put [98] 2, Del [97]]"] by (auto simp: c_string_def)

text \<open>
  \<open>mapd_erase\<close> calls the release callback on exactly the entry stored under the key and
  on nothing when the key is absent; the entry leaves the map, every other entry stays
  reachable (the shift loop leaves no probe path broken) and the count follows.
\<close>

theorem mapd_erase_releases:
  assumes "mapd_inv m"
  shows "\<exists>m'. mapd_erase m k (Some (\<lambda>e released. released @ [e])) [] =
      Some (m', case mapd_lookup m k of None \<Rightarrow> [] | Some v \<Rightarrow> [\<lparr>mapd_key = Some k, mapd_value = v\<rparr>]) \<and>
    mapd_inv m' \<and> mapd_lookup m' = (mapd_lookup m)(k := None) \<and>
    unat (mapd_size m') = unat (mapd_size m) - (if mapd_lookup m k = None then 0 else 1)"
proof -
  have key: "mapd_key e = Some k" if "map_lookup mapd_key m k = Some e" for e
    using that by (rule map_lookup_key)
  have e: "e = \<lparr>mapd_key = Some k, mapd_value = mapd_value e\<rparr>" if "map_lookup mapd_key m k = Some e" for e
    using key [OF that] by (cases e) simp
  then show ?thesis
    using mapd_erase_spec [OF assms, of k "Some (\<lambda>e released. released @ [e])" "[]"]
    by (cases "map_lookup mapd_key m k") (auto simp: mapd_lookup_def mapd_size_def map_size_def dest: e)
qed

lemma mapd_erase_releases_witness:
  "\<exists>m. mapd_construct = Some m \<and>
    (\<exists>m'. mapd_erase m [1] (Some (\<lambda>e released. released @ [e])) [] = Some (m', []) \<and> mapd_inv m')"
proof -
  obtain m where "mapd_construct = Some m" "mapd_inv m" "mapd_lookup m = (\<lambda>_. None)"
    using mapd_construct_spec by blast
  then show ?thesis using mapd_erase_releases [of m "[1]"] by auto
qed

text \<open>
  \<open>mapi_clear\<close> releases every entry of the map exactly once, one per key, and leaves an
  empty map that is as good as new.
\<close>

theorem mapi_clear_releases:
  assumes "mapi_inv m"
  shows "\<exists>m' es. mapi_clear m (Some (\<lambda>e released. released @ [e])) [] = Some (m', es) \<and>
    distinct (map mapi_key es) \<and> length es = unat (mapi_size m) \<and>
    (\<forall>k v. k \<noteq> 0 \<longrightarrow> mapi_lookup m k = Some v \<longleftrightarrow> \<lparr>mapi_key = k, mapi_value = v\<rparr> \<in> set es) \<and>
    mapi_inv m' \<and> mapi_lookup m' = (\<lambda>_. None) \<and> mapi_size m' = 0"
proof -
  obtain m' where m': "mapi_clear m (Some (\<lambda>e released. released @ [e])) [] = Some (m', map_entries mapi_key_of m)"
    "mapi_inv m'" "map_lookup mapi_key_of m' = (\<lambda>_. None)" "elements_count m' = 0"
    using mapi.clear [of m "Some (\<lambda>e released. released @ [e])" "[]"] assms
    by (auto simp: mapi_inv_def mapi_clear_def fold_snoc)
  note es = mapi.entries [OF assms [unfolded mapi_inv_def]]
  have keys: "mapi_key_of e = Some (mapi_key e)" if "e \<in> set (map_entries mapi_key_of m)" for e
    using that es(2) by (auto simp: mapi_key_of_def dest: map_lookup_key split: if_splits)
  have d: "distinct (map mapi_key (map_entries mapi_key_of m))"
    using es(1) keys unfolding distinct_map inj_on_def by metis
  have "mapi_lookup m k = Some v \<longleftrightarrow> \<lparr>mapi_key = k, mapi_value = v\<rparr> \<in> set (map_entries mapi_key_of m)"
    if "k \<noteq> 0" for k v
  proof -
    let ?e = "\<lparr>mapi_key = k, mapi_value = v\<rparr>"
    have to: "e = ?e" if "map_lookup mapi_key_of m k = Some e" "mapi_value e = v" for e
      using map_lookup_key [OF that(1)] that(2) by (cases e) (simp add: mapi_key_of_def split: if_splits)
    have "ka = k" if "map_lookup mapi_key_of m ka = Some ?e" for ka
      using map_lookup_key [OF that] by (simp add: mapi_key_of_def split: if_splits)
    then have "?e \<in> set (map_entries mapi_key_of m) \<longleftrightarrow> map_lookup mapi_key_of m k = Some ?e"
      unfolding es(2) by blast
    also have "\<dots> \<longleftrightarrow> mapi_lookup m k = Some v"
      using to unfolding mapi_lookup_def by (cases "map_lookup mapi_key_of m k") auto
    finally show ?thesis by simp
  qed
  then show ?thesis
    using m' d es(3) by (intro exI [of _ m'] exI [of _ "map_entries mapi_key_of m"])
      (simp add: mapi_lookup_def mapi_size_def map_size_def fun_eq_iff)
qed

lemma mapi_clear_releases_witness:
  "\<exists>m m'. mapi_construct = Some m \<and> mapi_clear m (Some (\<lambda>e released. released @ [e])) [] = Some (m', []) \<and> mapi_inv m'"
proof -
  obtain m where "mapi_construct = Some m" "mapi_inv m" "elements_count m = 0"
    using mapi_construct_spec by blast
  then show ?thesis using mapi_clear_releases [of m] by (auto simp: mapi_size_def map_size_def)
qed

end
