(* ===== verification/Utf8.thy ===== *)
theory Utf8
  imports Buffer
begin

text \<open>
  Strings and UTF-8 (\<^verbatim>\<open>src/reactor/string.c\<close>): the table-driven decoder, the encoder, and the
  two conversions between a string and the inside of a JSON string literal.

  A character pointer is a block of bytes with an index; reading at an index outside the
  block is \<open>None\<close>. A loop whose end has to be proved is a \<open>partial_function\<close>. Appending to a
  buffer goes through \<open>buffer_append\<close>, as in the code.
\<close>

section \<open>Strings as data vectors\<close>

type_synonym string_t = data

definition string_of :: "block \<Rightarrow> string_t option" where
  "string_of text = data_string text"

definition string_data :: "data \<Rightarrow> string_t" where
  "string_data d = d"

definition string_null :: string_t where
  "string_null = data_of (Some [Some 0]) 0"

definition string_copy :: "string_t \<Rightarrow> string_t option" where
  "string_copy s = data_copyz s"

definition string_size :: "string_t \<Rightarrow> size_t" where
  "string_size s = data_size s"

definition string_empty :: "string_t \<Rightarrow> bool" where
  "string_empty s = data_empty s"

definition string_base :: "string_t \<Rightarrow> ptr" where
  "string_base s = data_base s"

definition string_equal :: "string_t \<Rightarrow> string_t \<Rightarrow> bool option" where
  "string_equal a b = data_equal a b"

definition string_equal_case :: "string_t \<Rightarrow> string_t \<Rightarrow> bool option" where
  "string_equal_case a b = data_equal_case a b"

text \<open>A string literal of the program.\<close>

definition literal :: "string \<Rightarrow> string_t" where
  "literal s = data_literal (map of_char s)"

section \<open>Decoding\<close>

definition STATE_ACCEPT :: u32 where
  "STATE_ACCEPT = 0"

definition STATE_REJECT :: u32 where
  "STATE_REJECT = 12"

definition utf8d :: "byte list" where
  "utf8d = [
    0, 0, 0, 0, 0, 0, 0, 0, 0, 0, 0, 0, 0, 0, 0, 0, 0, 0, 0, 0, 0, 0, 0, 0, 0, 0, 0, 0,
    0, 0, 0, 0, 0, 0, 0, 0, 0, 0, 0, 0, 0, 0, 0, 0, 0, 0, 0, 0, 0, 0, 0, 0, 0, 0, 0, 0,
    0, 0, 0, 0, 0, 0, 0, 0, 0, 0, 0, 0, 0, 0, 0, 0, 0, 0, 0, 0, 0, 0, 0, 0, 0, 0, 0, 0,
    0, 0, 0, 0, 0, 0, 0, 0, 0, 0, 0, 0, 0, 0, 0, 0, 0, 0, 0, 0, 0, 0, 0, 0, 0, 0, 0, 0,
    0, 0, 0, 0, 0, 0, 0, 0, 0, 0, 0, 0, 0, 0, 0, 0, 1, 1, 1, 1, 1, 1, 1, 1, 1, 1, 1, 1,
    1, 1, 1, 1, 9, 9, 9, 9, 9, 9, 9, 9, 9, 9, 9, 9, 9, 9, 9, 9, 7, 7, 7, 7, 7, 7, 7, 7,
    7, 7, 7, 7, 7, 7, 7, 7, 7, 7, 7, 7, 7, 7, 7, 7, 7, 7, 7, 7, 7, 7, 7, 7, 8, 8, 2, 2,
    2, 2, 2, 2, 2, 2, 2, 2, 2, 2, 2, 2, 2, 2, 2, 2, 2, 2, 2, 2, 2, 2, 2, 2, 2, 2, 2, 2,
    10, 3, 3, 3, 3, 3, 3, 3, 3, 3, 3, 3, 3, 4, 3, 3, 11, 6, 6, 6, 5, 8, 8, 8, 8, 8, 8, 8,
    8, 8, 8, 8, 0, 12, 24, 36, 60, 96, 84, 12, 12, 12, 48, 72, 12, 12, 12, 12, 12, 12, 12, 12, 12, 12, 12, 12,
    12, 0, 12, 12, 12, 12, 12, 0, 12, 0, 12, 12, 12, 24, 12, 12, 12, 12, 12, 24, 12, 24, 12, 12, 12, 12, 12, 12,
    12, 12, 12, 24, 12, 12, 12, 12, 12, 24, 12, 12, 12, 12, 12, 12, 12, 24, 12, 12, 12, 12, 12, 12, 12, 12, 12, 36,
    12, 36, 12, 12, 12, 36, 12, 12, 12, 12, 12, 36, 12, 36, 12, 12, 12, 36, 12, 12, 12, 12, 12, 12, 12, 12, 12, 12]"

text \<open>The new state and the code point gathered so far.\<close>

definition string_utf8_decode_code :: "u32 \<Rightarrow> u32 \<Rightarrow> byte \<Rightarrow> u32 \<times> u32" where
  "string_utf8_decode_code state codep b =
     (let type = utf8d ! unat b;
          codep = (if state \<noteq> STATE_ACCEPT then (ucast b AND 0x3f) OR push_bit 6 codep
                   else drop_bit (unat type) 0xff AND ucast b);
          state = ucast (utf8d ! (256 + unat state + unat type))
      in (state, codep))"

text \<open>\<open>*p\<close>.\<close>

definition char_at :: "byte list \<Rightarrow> nat \<Rightarrow> byte option" where
  "char_at s p = (if p < length s then Some (s ! p) else None)"

definition string_utf8_regular :: "byte \<Rightarrow> bool" where
  "string_utf8_regular c =
     (if c = 34 then False else if c = 92 then False else if c < 0x20 then False
      else if c \<ge> 0x80 then False else True)"

text \<open>The loop of \<open>string_utf8_get\<close>: the code point and the end position.\<close>

function string_utf8_get_loop :: "byte list \<Rightarrow> u32 \<Rightarrow> u32 \<Rightarrow> nat \<Rightarrow> nat \<Rightarrow> (u32 \<times> nat) option" where
  "string_utf8_get_loop s state code p to =
     (if p < to
      then Option.bind (char_at s p)
        (\<lambda>b. let (state, code) = string_utf8_decode_code state code b; p = p + 1
             in if state = STATE_ACCEPT then Some (code, p)
                else if state = STATE_REJECT \<or> p = to then Some (0xFFFD, p)
                else string_utf8_get_loop s state code p to)
      else Some (code, p))"
  by pat_completeness auto
termination by (relation "measure (\<lambda>(s, state, code, p, to). to - p)") auto

declare string_utf8_get_loop.simps [simp del]

definition string_utf8_get :: "byte list \<Rightarrow> nat \<Rightarrow> nat \<Rightarrow> (u32 \<times> nat) option" where
  "string_utf8_get s p to = string_utf8_get_loop s STATE_ACCEPT 0 p to"

partial_function (option) string_utf8_length_from :: "byte list \<Rightarrow> nat \<Rightarrow> nat \<Rightarrow> size_t \<Rightarrow> size_t option" where
  "string_utf8_length_from s p to len =
     (if p < to
      then Option.bind (string_utf8_get s p to) (\<lambda>(_, p). string_utf8_length_from s p to (len + 1))
      else Some len)"

declare string_utf8_length_from.simps [code]

definition string_utf8_length :: "string_t \<Rightarrow> size_t option" where
  "string_utf8_length str =
     Option.bind (data_bytes str) (\<lambda>s. string_utf8_length_from s 0 (length s) 0)"

section \<open>Escaped code points\<close>

definition isdigit :: "byte \<Rightarrow> bool" where
  "isdigit c \<longleftrightarrow> 48 \<le> c \<and> c \<le> 57"

definition isxdigit :: "byte \<Rightarrow> bool" where
  "isxdigit c \<longleftrightarrow> (48 \<le> c \<and> c \<le> 57) \<or> (97 \<le> c \<and> c \<le> 102) \<or> (65 \<le> c \<and> c \<le> 70)"

text \<open>The table \<open>xdigit\<close>.\<close>

definition xdigit :: "byte \<Rightarrow> u32" where
  "xdigit c =
     (if 48 \<le> c \<and> c \<le> 57 then ucast (c - 48)
      else if 97 \<le> c \<and> c \<le> 102 then ucast (c - 97) + 10
      else if 65 \<le> c \<and> c \<le> 70 then ucast (c - 65) + 10
      else 0)"

text \<open>A conjunction of tests on successive characters, evaluated from left to right.\<close>

fun chars_test :: "byte list \<Rightarrow> nat \<Rightarrow> (byte \<Rightarrow> bool) list \<Rightarrow> bool option" where
  "chars_test s p [] = Some True"
| "chars_test s p (t # ts) =
     Option.bind (char_at s p) (\<lambda>c. if t c then chars_test s (p + 1) ts else Some False)"

definition string_utf8_get_encoded_basic :: "byte list \<Rightarrow> nat \<Rightarrow> (u16 \<times> nat) option" where
  "string_utf8_get_encoded_basic s p = do {
     escaped \<leftarrow> chars_test s p [(=) 92, (=) 117, isxdigit, isxdigit, isxdigit, isxdigit];
     (if escaped
      then do {
        c2 \<leftarrow> char_at s (p + 2);
        c3 \<leftarrow> char_at s (p + 3);
        c4 \<leftarrow> char_at s (p + 4);
        c5 \<leftarrow> char_at s (p + 5);
        Some (ucast (push_bit 12 (xdigit c2) OR push_bit 8 (xdigit c3) OR push_bit 4 (xdigit c4) OR xdigit c5), p + 6) }
      else Some (0, p)) }"

definition string_utf8_get_encoded :: "byte list \<Rightarrow> nat \<Rightarrow> (u32 \<times> nat) option" where
  "string_utf8_get_encoded s p0 = do {
     (w1, p) \<leftarrow> string_utf8_get_encoded_basic s p0;
     (if p > p0
      then if w1 \<ge> 0xdc00 \<and> w1 < 0xe000 then Some (0, p0)
           else if w1 \<ge> 0xd800 \<and> w1 < 0xdc00
           then do {
             (w2, p) \<leftarrow> string_utf8_get_encoded_basic s p;
             (if w2 \<ge> 0xdc00 \<and> w2 < 0xe000
              then Some (0x10000 OR push_bit 10 (ucast w1 AND 0x3ff) OR (ucast w2 AND 0x3ff), p)
              else Some (0, p0)) }
           else Some (ucast w1, p)
      else Some (0, p)) }"

section \<open>Encoding\<close>

text \<open>The bytes \<open>string_utf8_put\<close> appends.\<close>

definition utf8_bytes :: "u32 \<Rightarrow> byte list" where
  "utf8_bytes code =
     (if code < 0x80 then [ucast code]
      else if code < 0x800 then [ucast (0xC0 OR drop_bit 6 code), ucast (0x80 OR (code AND 0x3f))]
      else if code < 0x10000
      then [ucast (0xE0 OR drop_bit 12 code), ucast (0x80 OR (drop_bit 6 code AND 0x3f)),
            ucast (0x80 OR (code AND 0x3f))]
      else [ucast (0xF0 OR drop_bit 18 code), ucast (0x80 OR (drop_bit 12 code AND 0x3f)),
            ucast (0x80 OR (drop_bit 6 code AND 0x3f)), ucast (0x80 OR (code AND 0x3f))])"

definition string_utf8_put :: "buffer \<Rightarrow> u32 \<Rightarrow> buffer option" where
  "string_utf8_put b code = buffer_append b (data_literal (utf8_bytes code))"

text \<open>\<open>map[i]\<close> of \<open>string_utf8_put_encoded_basic\<close>.\<close>

definition hex_char :: "u16 \<Rightarrow> byte" where
  "hex_char i = [48, 49, 50, 51, 52, 53, 54, 55, 56, 57, 97, 98, 99, 100, 101, 102] ! unat i"

definition encoded_bytes :: "u16 \<Rightarrow> byte list" where
  "encoded_bytes code =
     [92, 117, hex_char (drop_bit 12 code), hex_char (drop_bit 8 code AND 0x0f),
      hex_char (drop_bit 4 code AND 0x0f), hex_char (code AND 0x0f)]"

definition string_utf8_put_encoded_basic :: "buffer \<Rightarrow> u16 \<Rightarrow> buffer option" where
  "string_utf8_put_encoded_basic b code = buffer_append b (data_literal (encoded_bytes code))"

definition string_utf8_put_encoded :: "buffer \<Rightarrow> u32 \<Rightarrow> buffer option" where
  "string_utf8_put_encoded b code =
     (if code \<ge> 0x10000
      then let code = code - 0x10000 in do {
        b \<leftarrow> string_utf8_put_encoded_basic b (ucast (0xd800 OR drop_bit 10 code));
        string_utf8_put_encoded_basic b (ucast (0xdc00 OR (code AND 0x3ff))) }
      else string_utf8_put_encoded_basic b (ucast code))"

text \<open>\<open>while (p < p_end && string_utf8_regular(*p)) p++\<close>.\<close>

function regular_end :: "byte list \<Rightarrow> nat \<Rightarrow> nat" where
  "regular_end s p = (if p < length s \<and> string_utf8_regular (s ! p) then regular_end s (p + 1) else p)"
  by pat_completeness auto
termination by (relation "measure (\<lambda>(s, p). length s - p)") auto

declare regular_end.simps [simp del]

definition range_of :: "byte list \<Rightarrow> nat \<Rightarrow> nat \<Rightarrow> byte list" where
  "range_of s p q = take (q - p) (drop p s)"

text \<open>The two-character escapes of the \<open>switch\<close> in \<open>string_utf8_encode\<close>.\<close>

definition short_escape :: "byte \<Rightarrow> byte list option" where
  "short_escape c =
     (if c = 34 then Some [92, 34] else if c = 92 then Some [92, 92] else if c = 12 then Some [92, 102]
      else if c = 10 then Some [92, 110] else if c = 13 then Some [92, 114] else if c = 9 then Some [92, 116]
      else None)"

partial_function (option) string_utf8_encode_from :: "buffer \<Rightarrow> byte list \<Rightarrow> bool \<Rightarrow> nat \<Rightarrow> buffer option" where
  "string_utf8_encode_from b s ascii p =
     (if p = length s then Some b
      else Option.bind (char_at s p) (\<lambda>c.
        if string_utf8_regular c
        then Option.bind (buffer_append b (data_literal (range_of s p (regular_end s (p + 1)))))
               (\<lambda>b. string_utf8_encode_from b s ascii (regular_end s (p + 1)))
        else if c \<ge> 0x80
        then Option.bind (string_utf8_get s p (length s))
               (\<lambda>(code, p). Option.bind (if ascii then string_utf8_put_encoded b code else string_utf8_put b code)
                 (\<lambda>b. string_utf8_encode_from b s ascii p))
        else Option.bind (case short_escape c of
                            Some e \<Rightarrow> buffer_append b (data_literal e)
                          | None \<Rightarrow> string_utf8_put_encoded_basic b (ucast c))
               (\<lambda>b. string_utf8_encode_from b s ascii (p + 1))))"

declare string_utf8_encode_from.simps [code]

definition string_utf8_encode :: "buffer \<Rightarrow> string_t \<Rightarrow> bool \<Rightarrow> (buffer \<times> bool) option" where
  "string_utf8_encode b str ascii = do {
     s \<leftarrow> data_bytes str;
     b \<leftarrow> string_utf8_encode_from b s ascii 0;
     Some (b, True) }"

section \<open>Decoding the inside of a literal\<close>

text \<open>\<open>while (string_utf8_regular(*p)) p++\<close>, with no bound but the block's end.\<close>

function regular_scan :: "byte list \<Rightarrow> nat \<Rightarrow> nat option" where
  "regular_scan s p =
     (if p < length s then if string_utf8_regular (s ! p) then regular_scan s (p + 1) else Some p else None)"
  by pat_completeness auto
termination by (relation "measure (\<lambda>(s, p). length s - p)") auto

declare regular_scan.simps [simp del]

text \<open>The \<open>switch\<close> on the character after a backslash, \<open>u\<close> aside.\<close>

definition short_unescape :: "byte \<Rightarrow> byte option" where
  "short_unescape c =
     (if c = 34 then Some 34 else if c = 92 then Some 92 else if c = 47 then Some 47 else if c = 98 then Some 8
      else if c = 102 then Some 12 else if c = 110 then Some 10 else if c = 114 then Some 13
      else if c = 116 then Some 9 else None)"

text \<open>One pass of the loop: the buffer and the new position, which is the old one at the end.\<close>

definition string_utf8_decode_step :: "byte list \<Rightarrow> buffer \<Rightarrow> nat \<Rightarrow> (buffer \<times> nat) option" where
  "string_utf8_decode_step s b p = do {
     c \<leftarrow> char_at s p;
     (if string_utf8_regular c
      then do {
        q \<leftarrow> regular_scan s (p + 1);
        b \<leftarrow> buffer_append b (data_literal (range_of s p q));
        Some (b, q) }
      else if c \<ge> 0x80
      then do {
        (code, p) \<leftarrow> string_utf8_get s p (p + 4);
        b \<leftarrow> string_utf8_put b code;
        Some (b, p) }
      else if c = 92
      then do {
        c \<leftarrow> char_at s (p + 1);
        (case short_unescape c of
           Some e \<Rightarrow> do { b \<leftarrow> buffer_append b (data_literal [e]); Some (b, p + 2) }
         | None \<Rightarrow>
             if c = 117
             then do {
               (code, p) \<leftarrow> string_utf8_get_encoded s p;
               b \<leftarrow> string_utf8_put b code;
               Some (b, p) }
             else Some (b, p)) }
      else Some (b, p)) }"

partial_function (option) string_utf8_decode_from :: "byte list \<Rightarrow> buffer \<Rightarrow> nat \<Rightarrow> (buffer \<times> nat) option" where
  "string_utf8_decode_from s b p =
     Option.bind (string_utf8_decode_step s b p)
       (\<lambda>(b, q). if q = p then Some (b, q) else string_utf8_decode_from s b q)"

declare string_utf8_decode_from.simps [code]

definition string_utf8_decode :: "byte list \<Rightarrow> nat \<Rightarrow> (string_t \<times> nat) option" where
  "string_utf8_decode s p = do {
     (b, q) \<leftarrow> string_utf8_decode_from s buffer_construct p;
     b \<leftarrow> buffer_append b (data_literal [0]);
     let b = buffer_compact b;
     let b = buffer_resize b (buffer_size b - 1);
     Some (buffer_data b, q) }"

end
