(* ===== verification/Utf8_Decoder.thy ===== *)
theory Utf8_Decoder
  imports Utf8
begin

text \<open>
  The table of \<open>string_utf8_decode_code\<close> read as an automaton, and its two directions: the decoder
  accepts the encoding of every scalar value (\<open>utf8_get_valid\<close>), and what it accepts is such an
  encoding (\<open>utf8_get_sound\<close>). \<open>utf8_nat\<close> is the encoding as numbers, the reference both are
  stated against.
\<close>

lemma mod_above: "k * m \<le> n \<Longrightarrow> n < k * m + m \<Longrightarrow> n mod m = n - k * (m :: nat)"
  using mod_mult_self1 [of "n - k * m" k m] by simp

lemma replicate_num: "replicate (numeral k) x = x # replicate (pred_numeral k) x"
  by (simp add: numeral_eq_Suc)

text \<open>The table by runs of equal entries.\<close>

definition run_at :: "'a list \<Rightarrow> nat \<Rightarrow> nat \<Rightarrow> 'a \<Rightarrow> bool" where
  "run_at xs i k x \<longleftrightarrow> i + k \<le> length xs \<and> take k (drop i xs) = replicate k x"

lemma run_at_nth: "run_at xs i k x \<Longrightarrow> i \<le> n \<Longrightarrow> n < i + k \<Longrightarrow> xs ! n = x"
proof -
  assume a: "run_at xs i k x" "i \<le> n" "n < i + k"
  have "n - i < k" "i + (n - i) = n" using a by simp_all
  have "take k (drop i xs) ! (n - i) = replicate k x ! (n - i)" using a(1) by (simp only: run_at_def)
  moreover have "take k (drop i xs) ! (n - i) = xs ! n"
    by (subst nth_take, rule \<open>n - i < k\<close>, subst nth_drop) (use a in \<open>auto simp: run_at_def\<close>)
  ultimately show "xs ! n = x" using a(2,3) by simp
qed

lemma utf8d_runs:
  "run_at utf8d 0 128 0" "run_at utf8d 128 16 1" "run_at utf8d 144 16 9" "run_at utf8d 160 32 7"
  "run_at utf8d 192 2 8" "run_at utf8d 194 30 2" "run_at utf8d 224 1 10" "run_at utf8d 225 12 3"
  "run_at utf8d 237 1 4" "run_at utf8d 238 2 3" "run_at utf8d 240 1 11" "run_at utf8d 241 3 6"
  "run_at utf8d 244 1 5" "run_at utf8d 245 11 8"
  by (simp_all add: run_at_def utf8d_def replicate_num)

text \<open>The type of a byte.\<close>

lemma utf8d_type:
  "n < 128 \<Longrightarrow> utf8d ! n = 0" "128 \<le> n \<Longrightarrow> n < 144 \<Longrightarrow> utf8d ! n = 1" "144 \<le> n \<Longrightarrow> n < 160 \<Longrightarrow> utf8d ! n = 9"
  "160 \<le> n \<Longrightarrow> n < 192 \<Longrightarrow> utf8d ! n = 7" "192 \<le> n \<Longrightarrow> n < 194 \<Longrightarrow> utf8d ! n = 8" "194 \<le> n \<Longrightarrow> n < 224 \<Longrightarrow> utf8d ! n = 2"
  "n = 224 \<Longrightarrow> utf8d ! n = 10" "225 \<le> n \<Longrightarrow> n < 240 \<Longrightarrow> n \<noteq> 237 \<Longrightarrow> utf8d ! n = 3" "n = 237 \<Longrightarrow> utf8d ! n = 4"
  "n = 240 \<Longrightarrow> utf8d ! n = 11" "241 \<le> n \<Longrightarrow> n < 244 \<Longrightarrow> utf8d ! n = 6" "n = 244 \<Longrightarrow> utf8d ! n = 5"
  "245 \<le> n \<Longrightarrow> n < 256 \<Longrightarrow> utf8d ! n = 8"
proof -
  note r = utf8d_runs [THEN run_at_nth]
  show "n < 128 \<Longrightarrow> utf8d ! n = 0" "128 \<le> n \<Longrightarrow> n < 144 \<Longrightarrow> utf8d ! n = 1" "144 \<le> n \<Longrightarrow> n < 160 \<Longrightarrow> utf8d ! n = 9"
    "160 \<le> n \<Longrightarrow> n < 192 \<Longrightarrow> utf8d ! n = 7" "192 \<le> n \<Longrightarrow> n < 194 \<Longrightarrow> utf8d ! n = 8" "194 \<le> n \<Longrightarrow> n < 224 \<Longrightarrow> utf8d ! n = 2"
    "n = 224 \<Longrightarrow> utf8d ! n = 10" "n = 237 \<Longrightarrow> utf8d ! n = 4"
    "n = 240 \<Longrightarrow> utf8d ! n = 11" "241 \<le> n \<Longrightarrow> n < 244 \<Longrightarrow> utf8d ! n = 6" "n = 244 \<Longrightarrow> utf8d ! n = 5"
    "245 \<le> n \<Longrightarrow> n < 256 \<Longrightarrow> utf8d ! n = 8"
    by (rule r; simp)+
  show "utf8d ! n = 3" if "225 \<le> n" "n < 240" "n \<noteq> 237"
    by (cases "n < 237"; rule r(8) r(10); use that in simp)
qed

lemma utf8d_next:
  "utf8d ! 256 = 0" "utf8d ! 257 = 12" "utf8d ! 258 = 24" "utf8d ! 259 = 36" "utf8d ! 260 = 60" "utf8d ! 261 = 96"
  "utf8d ! 262 = 84" "utf8d ! 263 = 12" "utf8d ! 264 = 12" "utf8d ! 265 = 12" "utf8d ! 266 = 48" "utf8d ! 267 = 72"
  "utf8d ! 268 = 12" "utf8d ! 269 = 12" "utf8d ! 270 = 12" "utf8d ! 271 = 12" "utf8d ! 272 = 12" "utf8d ! 273 = 12"
  "utf8d ! 274 = 12" "utf8d ! 275 = 12" "utf8d ! 276 = 12" "utf8d ! 277 = 12" "utf8d ! 278 = 12" "utf8d ! 279 = 12"
  "utf8d ! 280 = 12" "utf8d ! 281 = 0" "utf8d ! 282 = 12" "utf8d ! 283 = 12" "utf8d ! 284 = 12" "utf8d ! 285 = 12"
  "utf8d ! 286 = 12" "utf8d ! 287 = 0" "utf8d ! 288 = 12" "utf8d ! 289 = 0" "utf8d ! 290 = 12" "utf8d ! 291 = 12"
  "utf8d ! 292 = 12" "utf8d ! 293 = 24" "utf8d ! 294 = 12" "utf8d ! 295 = 12" "utf8d ! 296 = 12" "utf8d ! 297 = 12"
  "utf8d ! 298 = 12" "utf8d ! 299 = 24" "utf8d ! 300 = 12" "utf8d ! 301 = 24" "utf8d ! 302 = 12" "utf8d ! 303 = 12"
  "utf8d ! 304 = 12" "utf8d ! 305 = 12" "utf8d ! 306 = 12" "utf8d ! 307 = 12" "utf8d ! 308 = 12" "utf8d ! 309 = 12"
  "utf8d ! 310 = 12" "utf8d ! 311 = 24" "utf8d ! 312 = 12" "utf8d ! 313 = 12" "utf8d ! 314 = 12" "utf8d ! 315 = 12"
  "utf8d ! 316 = 12" "utf8d ! 317 = 24" "utf8d ! 318 = 12" "utf8d ! 319 = 12" "utf8d ! 320 = 12" "utf8d ! 321 = 12"
  "utf8d ! 322 = 12" "utf8d ! 323 = 12" "utf8d ! 324 = 12" "utf8d ! 325 = 24" "utf8d ! 326 = 12" "utf8d ! 327 = 12"
  "utf8d ! 328 = 12" "utf8d ! 329 = 12" "utf8d ! 330 = 12" "utf8d ! 331 = 12" "utf8d ! 332 = 12" "utf8d ! 333 = 12"
  "utf8d ! 334 = 12" "utf8d ! 335 = 36" "utf8d ! 336 = 12" "utf8d ! 337 = 36" "utf8d ! 338 = 12" "utf8d ! 339 = 12"
  "utf8d ! 340 = 12" "utf8d ! 341 = 36" "utf8d ! 342 = 12" "utf8d ! 343 = 12" "utf8d ! 344 = 12" "utf8d ! 345 = 12"
  "utf8d ! 346 = 12" "utf8d ! 347 = 36" "utf8d ! 348 = 12" "utf8d ! 349 = 36" "utf8d ! 350 = 12" "utf8d ! 351 = 12"
  "utf8d ! 352 = 12" "utf8d ! 353 = 36" "utf8d ! 354 = 12" "utf8d ! 355 = 12" "utf8d ! 356 = 12" "utf8d ! 357 = 12"
  "utf8d ! 358 = 12" "utf8d ! 359 = 12" "utf8d ! 360 = 12" "utf8d ! 361 = 12" "utf8d ! 362 = 12" "utf8d ! 363 = 12"
  by (simp_all add: utf8d_def)

definition utf8_type :: "nat \<Rightarrow> byte" where
  "utf8_type n =
     (if n < 128 then 0 else if n < 144 then 1 else if n < 160 then 9 else if n < 192 then 7
      else if n < 194 then 8 else if n < 224 then 2 else if n = 224 then 10 else if n = 237 then 4
      else if n < 240 then 3 else if n = 240 then 11 else if n < 244 then 6
      else if n = 244 then 5 else 8)"

lemma utf8d_utf8_type: "n < 256 \<Longrightarrow> utf8d ! n = utf8_type n"
  by (simp add: utf8_type_def utf8d_type)

lemma unat_byte: "unat (b :: byte) < 256"
  using unsigned_less [of b] by simp

lemma utf8_states:
  "fst (string_utf8_decode_code 24 c b) = (if 128 \<le> unat b \<and> unat b < 192 then 0 else 12)"
  "fst (string_utf8_decode_code 36 c b) = (if 128 \<le> unat b \<and> unat b < 192 then 24 else 12)"
  "fst (string_utf8_decode_code 48 c b) = (if 160 \<le> unat b \<and> unat b < 192 then 24 else 12)"
  "fst (string_utf8_decode_code 60 c b) = (if 128 \<le> unat b \<and> unat b < 160 then 24 else 12)"
  "fst (string_utf8_decode_code 72 c b) = (if 144 \<le> unat b \<and> unat b < 192 then 36 else 12)"
  "fst (string_utf8_decode_code 84 c b) = (if 128 \<le> unat b \<and> unat b < 192 then 36 else 12)"
  "fst (string_utf8_decode_code 96 c b) = (if 128 \<le> unat b \<and> unat b < 144 then 36 else 12)"
  by (simp_all add: string_utf8_decode_code_def Let_def utf8d_utf8_type utf8_type_def utf8d_next unat_byte)


lemma utf8_start:
  "fst (string_utf8_decode_code 0 c b) =
     (if unat b < 128 then 0 else if unat b < 194 then 12 else if unat b < 224 then 24 else if unat b = 224 then 48
      else if unat b = 237 then 60 else if unat b < 240 then 36 else if unat b = 240 then 72
      else if unat b < 244 then 84 else if unat b = 244 then 96 else 12)"
  by (simp add: string_utf8_decode_code_def Let_def utf8d_utf8_type utf8_type_def utf8d_next unat_byte)

lemma low_bits:
  "unat (drop_bit t (0xff :: u32) AND ucast (b :: byte)) = unat b mod 2 ^ (8 - t)"
proof -
  have m: "(0xff :: u32) = mask 8" by (simp add: mask_eq_exp_minus_1)
  have "drop_bit t (0xff :: u32) AND ucast b = take_bit (8 - t) (ucast b)"
    unfolding m by (rule bit_word_eqI) (auto simp: bit_and_iff bit_drop_bit_eq bit_mask_iff bit_take_bit_iff)
  then have "unat (drop_bit t (0xff :: u32) AND ucast b) = take_bit (8 - t) (unat (ucast b :: u32))"
    by (simp add: unsigned_take_bit_eq)
  moreover have "unat (ucast b :: u32) = unat b"
    using unat_byte [of b] by (simp add: unsigned_ucast_eq take_bit_nat_eq_self)
  ultimately show ?thesis by (simp add: take_bit_eq_mod)
qed

lemma utf8_start_code:
  "unat b < 128 \<Longrightarrow> unat (snd (string_utf8_decode_code 0 c b)) = unat b"
  "194 \<le> unat b \<Longrightarrow> unat b < 224 \<Longrightarrow> unat (snd (string_utf8_decode_code 0 c b)) = unat b - 192"
  "224 \<le> unat b \<Longrightarrow> unat b < 240 \<Longrightarrow> unat (snd (string_utf8_decode_code 0 c b)) = unat b - 224"
  "240 \<le> unat b \<Longrightarrow> unat b < 245 \<Longrightarrow> unat (snd (string_utf8_decode_code 0 c b)) = unat b - 240"
proof -
  have code: "snd (string_utf8_decode_code 0 c b) = drop_bit (unat (utf8_type (unat b))) 0xff AND ucast b"
    by (simp add: string_utf8_decode_code_def Let_def STATE_ACCEPT_def utf8d_utf8_type unat_byte)
  show "unat (snd (string_utf8_decode_code 0 c b)) = unat b" if "unat b < 128"
    unfolding code low_bits using that by (simp add: utf8_type_def unat_byte)
  show "unat (snd (string_utf8_decode_code 0 c b)) = unat b - 192" if "194 \<le> unat b" "unat b < 224"
    unfolding code low_bits using that mod_above [of 3 64 "unat b"] by (auto simp: utf8_type_def)
  show "unat (snd (string_utf8_decode_code 0 c b)) = unat b - 224" if "224 \<le> unat b" "unat b < 240"
    unfolding code low_bits using that mod_above [of 7 32 "unat b"] by (auto simp: utf8_type_def)
  show "unat (snd (string_utf8_decode_code 0 c b)) = unat b - 240" if "240 \<le> unat b" "unat b < 245"
    unfolding code low_bits using that mod_above [of 60 4 "unat b"] mod_above [of 30 8 "unat b"] by (auto simp: utf8_type_def)
qed

lemma or_nat_add:
  assumes "x < 2 ^ k"
  shows "(h * 2 ^ k) OR x = h * 2 ^ k + (x :: nat)"
proof -
  have "take_bit k x = x" using assms by (simp add: take_bit_nat_eq_self_iff)
  then have x: "bit x i \<Longrightarrow> i < k" for i by (metis bit_take_bit_iff)
  have "push_bit k h AND x = 0"
    by (rule bit_eqI) (auto simp: bit_and_iff bit_push_bit_iff dest: x)
  then have "push_bit k h + x = push_bit k h OR x" by (rule disjunctive_add_eq_or)
  then show ?thesis by (simp only: push_bit_eq_mult)
qed

lemma unat_and_63: "unat (x AND 0x3f :: u32) = unat x mod 64"
proof -
  have "x AND 0x3f = take_bit 6 x" by (simp add: take_bit_eq_mask mask_eq_exp_minus_1)
  then have "unat (x AND 0x3f) = take_bit 6 (unat x)" by (simp only: unsigned_take_bit_eq)
  then show ?thesis by (simp add: take_bit_eq_mod)
qed

lemma utf8_cont_code:
  assumes "s \<noteq> 0" "unat c < 2 ^ 26"
  shows "unat (snd (string_utf8_decode_code s c b)) = 64 * unat c + unat b mod 64"
proof -
  have c: "unat (push_bit 6 c) = unat c * 2 ^ 6"
    using assms(2) by (simp add: push_bit_eq_mult unat_word_ariths)
  have "unat (ucast b :: u32) = unat b"
    using unat_byte [of b] by (simp add: unsigned_ucast_eq take_bit_nat_eq_self)
  then have "unat (snd (string_utf8_decode_code s c b)) = (unat c * 2 ^ 6) OR (unat b mod 64)"
    using assms(1) c by (simp add: string_utf8_decode_code_def Let_def STATE_ACCEPT_def unsigned_or_eq unat_and_63 or.commute)
  also have "\<dots> = 64 * unat c + unat b mod 64" using or_nat_add [of "unat b mod 64" 6 "unat c"] by simp
  finally show ?thesis .
qed

section \<open>Code points and their bytes as numbers\<close>

definition scalar :: "nat \<Rightarrow> bool" where
  "scalar n \<longleftrightarrow> n < 0xD800 \<or> 0xE000 \<le> n \<and> n < 0x110000"

definition utf8_nat :: "nat \<Rightarrow> nat list" where
  "utf8_nat n =
     (if n < 128 then [n]
      else if n < 2048 then [192 + n div 64, 128 + n mod 64]
      else if n < 65536 then [224 + n div 4096, 128 + n div 64 mod 64, 128 + n mod 64]
      else [240 + n div 262144, 128 + n div 4096 mod 64, 128 + n div 64 mod 64, 128 + n mod 64])"

lemma unat_ucast_byte: "unat (ucast (w :: u32) :: byte) = unat w mod 256"
  by (simp add: unsigned_ucast_eq take_bit_eq_mod)

lemma prefix_or:
  "unat x < 64 \<Longrightarrow> unat (ucast (0x80 OR x :: u32) :: byte) = 128 + unat x"
  "unat x < 32 \<Longrightarrow> unat (ucast (0xC0 OR x :: u32) :: byte) = 192 + unat x"
  "unat x < 16 \<Longrightarrow> unat (ucast (0xE0 OR x :: u32) :: byte) = 224 + unat x"
  "unat x < 8 \<Longrightarrow> unat (ucast (0xF0 OR x :: u32) :: byte) = 240 + unat x"
  using or_nat_add [of "unat x" 6 2] or_nat_add [of "unat x" 5 6] or_nat_add [of "unat x" 4 14] or_nat_add [of "unat x" 3 30]
  by (simp_all add: unat_ucast_byte unsigned_or_eq)

lemma utf8_bytes_nat:
  assumes "unat c < 0x110000"
  shows "map unat (utf8_bytes c) = utf8_nat (unat c)"
proof -
  have d: "unat (drop_bit 6 c) = unat c div 64" "unat (drop_bit 12 c) = unat c div 4096" "unat (drop_bit 18 c) = unat c div 262144"
    by (simp_all add: drop_bit_eq_div unat_div)
  have less: "c < 0x80 \<longleftrightarrow> unat c < 128" "c < 0x800 \<longleftrightarrow> unat c < 2048" "c < 0x10000 \<longleftrightarrow> unat c < 65536"
    by (simp_all add: word_less_nat_alt)
  show ?thesis
    using assms unat_ucast_byte [of c] by (simp add: utf8_bytes_def utf8_nat_def less prefix_or unat_and_63 d)
qed


section \<open>The decoder on the encoding of a code point\<close>

lemma get_loop_step:
  assumes "p < to" "p < length s"
  shows "string_utf8_get_loop s st c p to =
    (if fst (string_utf8_decode_code st c (s ! p)) = 0 then Some (snd (string_utf8_decode_code st c (s ! p)), p + 1)
     else if fst (string_utf8_decode_code st c (s ! p)) = 12 \<or> p + 1 = to then Some (0xFFFD, p + 1)
     else string_utf8_get_loop s (fst (string_utf8_decode_code st c (s ! p)))
            (snd (string_utf8_decode_code st c (s ! p))) (p + 1) to)"
  using assms by (subst string_utf8_get_loop.simps)
    (simp add: char_at_def Let_def case_prod_unfold STATE_ACCEPT_def STATE_REJECT_def)

lemma u32_eqI: "unat (c :: u32) = n \<Longrightarrow> c = of_nat n"
  by auto

definition second_ok :: "nat \<Rightarrow> nat \<Rightarrow> bool" where
  "second_ok b0 b1 \<longleftrightarrow>
     (if b0 = 224 then 160 \<le> b1 \<and> b1 < 192 else if b0 = 237 then 128 \<le> b1 \<and> b1 < 160
      else if b0 = 240 then 144 \<le> b1 \<and> b1 < 192 else if b0 = 244 then 128 \<le> b1 \<and> b1 < 144
      else 128 \<le> b1 \<and> b1 < 192)"

lemma utf8_get_1:
  assumes "p < to" "p < length s" "unat (s ! p) < 128"
  shows "string_utf8_get s p to = Some (of_nat (unat (s ! p)), p + 1)"
  using assms utf8_start_code(1) [of "s ! p" 0, THEN u32_eqI]
  by (simp add: string_utf8_get_def STATE_ACCEPT_def get_loop_step utf8_start)

lemma utf8_get_2:
  assumes "p + 2 \<le> to" "p + 2 \<le> length s" "194 \<le> unat (s ! p)" "unat (s ! p) < 224"
    "128 \<le> unat (s ! (p + 1))" "unat (s ! (p + 1)) < 192"
  shows "string_utf8_get s p to = Some (of_nat (64 * (unat (s ! p) - 192) + unat (s ! (p + 1)) mod 64), p + 2)"
proof -
  define c1 where "c1 = snd (string_utf8_decode_code 0 0 (s ! p))"
  have c1: "unat c1 = unat (s ! p) - 192" using assms by (simp add: c1_def utf8_start_code(2))
  have "snd (string_utf8_decode_code 24 c1 (s ! (p + 1))) = of_nat (64 * (unat (s ! p) - 192) + unat (s ! (p + 1)) mod 64)"
    by (rule u32_eqI) (use c1 assms in \<open>simp add: utf8_cont_code\<close>)
  then have "string_utf8_get_loop s 24 c1 (p + 1) to =
      Some (of_nat (64 * (unat (s ! p) - 192) + unat (s ! (p + 1)) mod 64), p + 2)"
    using assms by (simp add: get_loop_step utf8_states(1))
  moreover have "string_utf8_get s p to = string_utf8_get_loop s 24 c1 (p + 1) to"
    using assms unfolding string_utf8_get_def STATE_ACCEPT_def c1_def
    by (subst get_loop_step) (simp_all add: utf8_start)
  ultimately show ?thesis by simp
qed

lemma utf8_get_3:
  assumes "p + 3 \<le> to" "p + 3 \<le> length s" "224 \<le> unat (s ! p)" "unat (s ! p) < 240"
    "second_ok (unat (s ! p)) (unat (s ! (p + 1)))"
    "128 \<le> unat (s ! (p + 2))" "unat (s ! (p + 2)) < 192"
  shows "string_utf8_get s p to =
    Some (of_nat (64 * (64 * (unat (s ! p) - 224) + unat (s ! (p + 1)) mod 64) + unat (s ! (p + 2)) mod 64), p + 3)"
proof -
  define st where "st = fst (string_utf8_decode_code 0 0 (s ! p))"
  define c1 where "c1 = snd (string_utf8_decode_code 0 0 (s ! p))"
  define c2 where "c2 = snd (string_utf8_decode_code st c1 (s ! (p + 1)))"
  have st: "st = (if unat (s ! p) = 224 then 48 else if unat (s ! p) = 237 then 60 else 36)"
    using assms by (simp add: st_def utf8_start)
  have n: "st \<noteq> 0" "st \<noteq> 12" by (simp_all add: st)
  have st2: "fst (string_utf8_decode_code st c1 (s ! (p + 1))) = 24"
    using assms(3,4,5) by (auto simp: st utf8_states second_ok_def split: if_splits)
  have c1: "unat c1 = unat (s ! p) - 224" using assms by (simp add: c1_def utf8_start_code(3))
  then have c2: "unat c2 = 64 * (unat (s ! p) - 224) + unat (s ! (p + 1)) mod 64"
    unfolding c2_def using assms(4) n by (subst utf8_cont_code) simp_all
  have "unat c2 < 2 ^ 26" using c2 assms(4) by simp
  then have "snd (string_utf8_decode_code 24 c2 (s ! (p + 2))) =
      of_nat (64 * (64 * (unat (s ! p) - 224) + unat (s ! (p + 1)) mod 64) + unat (s ! (p + 2)) mod 64)"
    by (intro u32_eqI) (simp add: utf8_cont_code c2)
  then have "string_utf8_get_loop s 24 c2 (p + 2) to =
      Some (of_nat (64 * (64 * (unat (s ! p) - 224) + unat (s ! (p + 1)) mod 64) + unat (s ! (p + 2)) mod 64), p + 3)"
    using assms by (simp add: get_loop_step utf8_states(1))
  moreover have "string_utf8_get_loop s st c1 (p + 1) to = string_utf8_get_loop s 24 c2 (p + 2) to"
    using assms st2 unfolding c2_def by (subst get_loop_step) simp_all
  moreover have "string_utf8_get s p to = string_utf8_get_loop s st c1 (p + 1) to"
    using assms n unfolding string_utf8_get_def STATE_ACCEPT_def c1_def st_def
    by (subst get_loop_step) simp_all
  ultimately show ?thesis by simp
qed

lemma utf8_get_4:
  assumes "p + 4 \<le> to" "p + 4 \<le> length s" "240 \<le> unat (s ! p)" "unat (s ! p) < 245"
    "second_ok (unat (s ! p)) (unat (s ! (p + 1)))"
    "128 \<le> unat (s ! (p + 2))" "unat (s ! (p + 2)) < 192" "128 \<le> unat (s ! (p + 3))" "unat (s ! (p + 3)) < 192"
  shows "string_utf8_get s p to =
    Some (of_nat (64 * (64 * (64 * (unat (s ! p) - 240) + unat (s ! (p + 1)) mod 64) + unat (s ! (p + 2)) mod 64) +
      unat (s ! (p + 3)) mod 64), p + 4)"
proof -
  define st where "st = fst (string_utf8_decode_code 0 0 (s ! p))"
  define c1 where "c1 = snd (string_utf8_decode_code 0 0 (s ! p))"
  define c2 where "c2 = snd (string_utf8_decode_code st c1 (s ! (p + 1)))"
  define c3 where "c3 = snd (string_utf8_decode_code 36 c2 (s ! (p + 2)))"
  have st: "st = (if unat (s ! p) = 240 then 72 else if unat (s ! p) = 244 then 96 else 84)"
    using assms by (simp add: st_def utf8_start)
  have n: "st \<noteq> 0" "st \<noteq> 12" by (simp_all add: st)
  have st2: "fst (string_utf8_decode_code st c1 (s ! (p + 1))) = 36"
    using assms(3,4,5) by (auto simp: st utf8_states second_ok_def split: if_splits)
  have c1: "unat c1 = unat (s ! p) - 240" using assms by (simp add: c1_def utf8_start_code(4))
  then have c2: "unat c2 = 64 * (unat (s ! p) - 240) + unat (s ! (p + 1)) mod 64"
    unfolding c2_def using assms(4) n by (subst utf8_cont_code) simp_all
  then have c3: "unat c3 = 64 * (64 * (unat (s ! p) - 240) + unat (s ! (p + 1)) mod 64) + unat (s ! (p + 2)) mod 64"
    unfolding c3_def using assms(4) by (subst utf8_cont_code) simp_all
  have "unat c3 < 2 ^ 26" using c3 assms(4) by simp
  then have "snd (string_utf8_decode_code 24 c3 (s ! (p + 3))) =
      of_nat (64 * (64 * (64 * (unat (s ! p) - 240) + unat (s ! (p + 1)) mod 64) + unat (s ! (p + 2)) mod 64) +
        unat (s ! (p + 3)) mod 64)"
    by (intro u32_eqI) (simp add: utf8_cont_code c3)
  then have "string_utf8_get_loop s 24 c3 (p + 3) to =
      Some (of_nat (64 * (64 * (64 * (unat (s ! p) - 240) + unat (s ! (p + 1)) mod 64) + unat (s ! (p + 2)) mod 64) +
        unat (s ! (p + 3)) mod 64), p + 4)"
    using assms by (simp add: get_loop_step utf8_states(1))
  moreover have "string_utf8_get_loop s 36 c2 (p + 2) to = string_utf8_get_loop s 24 c3 (p + 3) to"
    using assms unfolding c3_def by (subst get_loop_step) (simp_all add: utf8_states(2) numeral_3_eq_3)
  moreover have "string_utf8_get_loop s st c1 (p + 1) to = string_utf8_get_loop s 36 c2 (p + 2) to"
    using assms st2 unfolding c2_def by (subst get_loop_step) simp_all
  moreover have "string_utf8_get s p to = string_utf8_get_loop s st c1 (p + 1) to"
    using assms n unfolding string_utf8_get_def STATE_ACCEPT_def c1_def st_def
    by (subst get_loop_step) simp_all
  ultimately show ?thesis by simp
qed

lemma utf8_get_valid:
  assumes n: "scalar n" and at: "map unat (take (length (utf8_nat n)) (drop p s)) = utf8_nat n"
    and to: "p + length (utf8_nat n) \<le> to"
  shows "string_utf8_get s p to = Some (of_nat n, p + length (utf8_nat n))"
proof -
  have len: "p + length (utf8_nat n) \<le> length s"
    using arg_cong [OF at, of length] by (cases "length s < p") (auto simp: utf8_nat_def split: if_splits)
  have b: "unat (s ! (p + i)) = utf8_nat n ! i" if "i < length (utf8_nat n)" for i
    using arg_cong [OF at, of "\<lambda>xs. xs ! i"] that len by simp
  note b0 = b [of 0] and b1 = b [of 1] and b2 = b [of 2] and b3 = b [of 3]
  have m: "(128 + x) mod 64 = x mod 64" for x :: nat using mod_mult_self3 [of 2 64 x] by simp
  show ?thesis
  proof (cases "n < 2048")
    case True
    show ?thesis
    proof (cases "n < 128")
      case True
      then show ?thesis using b0 len to by (simp add: utf8_nat_def utf8_get_1)
    next
      case False
      then have l: "utf8_nat n = [192 + n div 64, 128 + n mod 64]" using True by (simp add: utf8_nat_def)
      have "unat (s ! p) = 192 + n div 64" "unat (s ! (p + 1)) = 128 + n mod 64" using b0 b1 l by simp_all
      moreover have "2 \<le> n div 64" "n div 64 < 32" using True False by simp_all
      moreover have "64 * (192 + n div 64 - 192) + (128 + n mod 64) mod 64 = n" using m [of "n mod 64"] by simp
      ultimately show ?thesis using len to l utf8_get_2 [of p to s] by (simp del: of_nat_add of_nat_mult)
    qed
  next
    case big: False
    have n1: "64 * (n div 64) + n mod 64 = n" "64 * (n div 4096) + n div 64 mod 64 = n div 64"
      "64 * (n div 262144) + n div 4096 mod 64 = n div 4096"
      using div_mult2_eq [of n 64 64] div_mult2_eq [of n 4096 64] by simp_all
    show ?thesis
    proof (cases "n < 65536")
      case True
      then have l: "utf8_nat n = [224 + n div 4096, 128 + n div 64 mod 64, 128 + n mod 64]"
        using big by (simp add: utf8_nat_def)
      have b: "unat (s ! p) = 224 + n div 4096" "unat (s ! (p + 1)) = 128 + n div 64 mod 64" "unat (s ! (p + 2)) = 128 + n mod 64"
        using b0 b1 b2 l by simp_all
      have "second_ok (224 + n div 4096) (128 + n div 64 mod 64)"
        using n big True n1 unfolding second_ok_def scalar_def by auto
      moreover have "n div 4096 < 16" using True by simp
      moreover have "64 * (64 * (224 + n div 4096 - 224) + (128 + n div 64 mod 64) mod 64) + (128 + n mod 64) mod 64 = n"
        using n1 by (simp only: m mod_mod_trivial diff_add_inverse)
      ultimately show ?thesis using len to l b utf8_get_3 [of p to s] by (simp del: of_nat_add of_nat_mult)
    next
      case False
      then have l: "utf8_nat n = [240 + n div 262144, 128 + n div 4096 mod 64, 128 + n div 64 mod 64, 128 + n mod 64]"
        using big by (simp add: utf8_nat_def)
      have b: "unat (s ! p) = 240 + n div 262144" "unat (s ! (p + 1)) = 128 + n div 4096 mod 64"
        "unat (s ! (p + 2)) = 128 + n div 64 mod 64" "unat (s ! (p + 3)) = 128 + n mod 64"
        using b0 b1 b2 b3 l by simp_all
      have "n div 4096 < 272" "16 \<le> n div 4096" using n False by (auto simp: scalar_def)
      then have "second_ok (240 + n div 262144) (128 + n div 4096 mod 64)"
        using n1(3) unfolding second_ok_def by auto
      moreover have "n div 262144 < 5" using n by (auto simp: scalar_def)
      moreover have "64 * (64 * (64 * (240 + n div 262144 - 240) + (128 + n div 4096 mod 64) mod 64) + (128 + n div 64 mod 64) mod 64) +
          (128 + n mod 64) mod 64 = n"
        using n1 by (simp only: m mod_mod_trivial diff_add_inverse)
      ultimately show ?thesis using len to l b utf8_get_4 [of p to s] by (simp del: of_nat_add of_nat_mult)
    qed
  qed
qed

section \<open>What the decoder accepts is the encoding of a code point\<close>

lemma utf8_nat_2:
  assumes "194 \<le> b0" "b0 < 224" "128 \<le> b1" "b1 < 192"
  shows "scalar (64 * (b0 - 192) + b1 mod 64)" "utf8_nat (64 * (b0 - 192) + b1 mod 64) = [b0, b1]"
proof -
  define a x where "a = b0 - 192" and "x = b1 - 128"
  have b: "b0 = a + 192" "b1 = x + 128" "2 \<le> a" "a < 32" "x < 64" using assms by (auto simp: a_def x_def)
  then have "b1 mod 64 = x" using mod_above [of 2 64 b1] by simp
  then show "scalar (64 * (b0 - 192) + b1 mod 64)" "utf8_nat (64 * (b0 - 192) + b1 mod 64) = [b0, b1]"
    using b by (simp_all add: scalar_def utf8_nat_def)
qed

lemma base_64: "y < 64 \<Longrightarrow> (64 * x + y) div 64 = (x :: nat)" "y < 64 \<Longrightarrow> (64 * x + y) mod 64 = (y :: nat)"
  by simp_all

lemma utf8_nat_3:
  assumes "224 \<le> b0" "b0 < 240" "second_ok b0 b1" "128 \<le> b2" "b2 < 192"
  shows "scalar (64 * (64 * (b0 - 224) + b1 mod 64) + b2 mod 64)"
    "utf8_nat (64 * (64 * (b0 - 224) + b1 mod 64) + b2 mod 64) = [b0, b1, b2]"
proof -
  define a x y where "a = b0 - 224" and "x = b1 - 128" and "y = b2 - 128"
  have b1: "128 \<le> b1" "b1 < 192" using assms(3) by (auto simp: second_ok_def split: if_splits)
  have b: "b0 = a + 224" "b1 = x + 128" "b2 = y + 128" "a < 16" "x < 64" "y < 64"
    using assms b1 by (auto simp: a_def x_def y_def)
  have m: "b1 mod 64 = x" "b2 mod 64 = y" using b mod_above [of 2 64 b1] mod_above [of 2 64 b2] by simp_all
  define v where "v = 64 * (64 * a + x) + y"
  have v: "v div 64 = 64 * a + x" "v mod 64 = y" "v div 4096 = a"
    unfolding v_def using base_64 [OF b(6), of "64 * a + x"] base_64(1) [OF b(5), of a]
    by (simp_all add: div_mult2_eq [of _ 64 64, simplified])
  have "2048 \<le> v \<and> v < 65536 \<and> \<not> (55296 \<le> v \<and> v < 57344)"
    using assms(3) b by (auto simp: v_def second_ok_def split: if_splits)
  then have "scalar v" "utf8_nat v = [b0, b1, b2]"
    using b v by (auto simp: scalar_def utf8_nat_def)
  then show "scalar (64 * (64 * (b0 - 224) + b1 mod 64) + b2 mod 64)"
    "utf8_nat (64 * (64 * (b0 - 224) + b1 mod 64) + b2 mod 64) = [b0, b1, b2]"
    using b m by (simp_all add: v_def)
qed

lemma utf8_nat_4:
  assumes "240 \<le> b0" "b0 < 245" "second_ok b0 b1" "128 \<le> b2" "b2 < 192" "128 \<le> b3" "b3 < 192"
  shows "scalar (64 * (64 * (64 * (b0 - 240) + b1 mod 64) + b2 mod 64) + b3 mod 64)"
    "utf8_nat (64 * (64 * (64 * (b0 - 240) + b1 mod 64) + b2 mod 64) + b3 mod 64) = [b0, b1, b2, b3]"
proof -
  define a x y z where "a = b0 - 240" and "x = b1 - 128" and "y = b2 - 128" and "z = b3 - 128"
  have b1: "128 \<le> b1" "b1 < 192" using assms(3) by (auto simp: second_ok_def split: if_splits)
  have b: "b0 = a + 240" "b1 = x + 128" "b2 = y + 128" "b3 = z + 128" "a < 5" "x < 64" "y < 64" "z < 64"
    using assms b1 by (auto simp: a_def x_def y_def z_def)
  have m: "b1 mod 64 = x" "b2 mod 64 = y" "b3 mod 64 = z"
    using b mod_above [of 2 64 b1] mod_above [of 2 64 b2] mod_above [of 2 64 b3] by simp_all
  define v where "v = 64 * (64 * (64 * a + x) + y) + z"
  have v: "v div 64 = 64 * (64 * a + x) + y" "v mod 64 = z" "v div 4096 = 64 * a + x" "v div 262144 = a"
    unfolding v_def using base_64 [OF b(8), of "64 * (64 * a + x) + y"] base_64(1) [OF b(7), of "64 * a + x"]
      base_64(1) [OF b(6), of a]
    by (simp_all add: div_mult2_eq [of _ 64 64, simplified] div_mult2_eq [of _ 4096 64, simplified])
  have "65536 \<le> v \<and> v < 1114112"
    using assms(3) b by (auto simp: v_def second_ok_def split: if_splits)
  moreover have "v div 64 mod 64 = y" "v div 4096 mod 64 = x" unfolding v by (rule base_64(2), rule b)+
  ultimately have "scalar v" "utf8_nat v = [b0, b1, b2, b3]"
    using b v(2,4) by (auto simp: scalar_def utf8_nat_def)
  then show "scalar (64 * (64 * (64 * (b0 - 240) + b1 mod 64) + b2 mod 64) + b3 mod 64)"
    "utf8_nat (64 * (64 * (64 * (b0 - 240) + b1 mod 64) + b2 mod 64) + b3 mod 64) = [b0, b1, b2, b3]"
    using b m by (simp_all add: v_def)
qed

text \<open>A run of the loop that does not end in the replacement character goes on or accepts.\<close>

lemma get_loop_Some:
  assumes "string_utf8_get_loop s st c p to = Some (c', q)" "c' \<noteq> 0xFFFD" "p < to"
  shows "p < length s"
    "fst (string_utf8_decode_code st c (s ! p)) \<noteq> 12"
    "fst (string_utf8_decode_code st c (s ! p)) = 0 \<Longrightarrow> q = p + 1 \<and> c' = snd (string_utf8_decode_code st c (s ! p))"
    "fst (string_utf8_decode_code st c (s ! p)) \<noteq> 0 \<Longrightarrow> p + 1 < to \<and>
      string_utf8_get_loop s (fst (string_utf8_decode_code st c (s ! p))) (snd (string_utf8_decode_code st c (s ! p))) (p + 1) to
        = Some (c', q)"
proof -
  show p: "p < length s"
  proof (rule ccontr)
    assume "\<not> p < length s"
    then show False using assms by (subst (asm) string_utf8_get_loop.simps) (simp add: char_at_def)
  qed
  have step: "(if fst (string_utf8_decode_code st c (s ! p)) = 0 then Some (snd (string_utf8_decode_code st c (s ! p)), p + 1)
     else if fst (string_utf8_decode_code st c (s ! p)) = 12 \<or> p + 1 = to then Some (0xFFFD, p + 1)
     else string_utf8_get_loop s (fst (string_utf8_decode_code st c (s ! p)))
            (snd (string_utf8_decode_code st c (s ! p))) (p + 1) to) = Some (c', q)"
    using assms(1) get_loop_step [OF assms(3) p, of st c] by (rule trans [OF sym, rotated])
  show "fst (string_utf8_decode_code st c (s ! p)) \<noteq> 12"
    using step assms(2) by (auto split: if_splits)
  show "fst (string_utf8_decode_code st c (s ! p)) = 0 \<Longrightarrow> q = p + 1 \<and> c' = snd (string_utf8_decode_code st c (s ! p))"
    using step by simp
  show "p + 1 < to \<and>
      string_utf8_get_loop s (fst (string_utf8_decode_code st c (s ! p))) (snd (string_utf8_decode_code st c (s ! p))) (p + 1) to
        = Some (c', q)" if "fst (string_utf8_decode_code st c (s ! p)) \<noteq> 0"
    using step that assms(2,3) by (auto split: if_splits)
qed

lemma take_Suc_drop: "p < length s \<Longrightarrow> take (Suc k) (drop p s) = s ! p # take k (drop (Suc p) s)"
  by (simp flip: Cons_nth_drop_Suc)

lemma take_drop_nth:
  "p + 1 \<le> length s \<Longrightarrow> map f (take 1 (drop p s)) = [f (s ! p)]"
  "p + 2 \<le> length s \<Longrightarrow> map f (take 2 (drop p s)) = [f (s ! p), f (s ! (p + 1))]"
  "p + 3 \<le> length s \<Longrightarrow> map f (take 3 (drop p s)) = [f (s ! p), f (s ! (p + 1)), f (s ! (p + 2))]"
  "p + 4 \<le> length s \<Longrightarrow> map f (take 4 (drop p s)) = [f (s ! p), f (s ! (p + 1)), f (s ! (p + 2)), f (s ! (p + 3))]"
  by (simp_all add: numeral_eq_Suc take_Suc_drop)

lemma utf8_get_sound:
  assumes get: "string_utf8_get s p to = Some (c, q)" and p: "p < to" and c: "c \<noteq> 0xFFFD"
  shows "scalar (unat c) \<and> p < q \<and> q \<le> to \<and> q \<le> length s \<and> map unat (take (q - p) (drop p s)) = utf8_nat (unat c)"
proof -
  let ?d = "\<lambda>st c p. string_utf8_decode_code st c (s ! p)"
  have conc: "scalar (unat c) \<and> p < q \<and> q \<le> to \<and> q \<le> length s \<and> map unat (take (q - p) (drop p s)) = utf8_nat (unat c)"
    if "c = of_nat v" "scalar v" "q = p + k" "0 < k" "p + k \<le> to" "p + k \<le> length s"
      "map unat (take k (drop p s)) = utf8_nat v" for v k
  proof -
    have "v < 0x110000" using that(2) by (auto simp: scalar_def)
    then have "unat c = v" using that(1) by (simp add: unat_of_nat take_bit_nat_eq_self)
    then show ?thesis using that by simp
  qed
  note g0 = get_loop_Some [OF get [unfolded string_utf8_get_def STATE_ACCEPT_def] c p]
  show ?thesis
  proof (cases "fst (?d 0 0 p) = 0")
    case True
    then have "unat (s ! p) < 128" by (simp add: utf8_start split: if_splits)
    then show ?thesis
      using utf8_get_1 [OF p g0(1)] get g0(1) p take_drop_nth(1) [of p s unat]
      by (intro conc [of "unat (s ! p)" 1]) (auto simp: scalar_def utf8_nat_def)
  next
    case False
    define st c1 where "st = fst (?d 0 0 p)" and "c1 = snd (?d 0 0 p)"
    have b0: "194 \<le> unat (s ! p)" "unat (s ! p) < 245" using False g0(2) by (auto simp: utf8_start split: if_splits)
    have l1: "p + 1 < to" "string_utf8_get_loop s st c1 (p + 1) to = Some (c, q)"
      using g0(4) [OF False] by (simp_all add: st_def c1_def)
    note g1 = get_loop_Some [OF l1(2) c l1(1)]
    show ?thesis
    proof (cases "unat (s ! p) < 224")
      case True
      then have "st = 24" using b0 by (simp add: st_def utf8_start)
      then have "128 \<le> unat (s ! (p + 1))" "unat (s ! (p + 1)) < 192"
        using g1(2) by (auto simp: utf8_states split: if_splits)
      note b = b0(1) True this
      show ?thesis
        using utf8_get_2 [OF _ _ b, of to] get g1(1) l1(1) utf8_nat_2 [OF b] take_drop_nth(2) [of p s unat]
        by (intro conc [of _ 2]) auto
    next
      case n2: False
      show ?thesis
      proof (cases "unat (s ! p) < 240")
        case True
        have "st = (if unat (s ! p) = 224 then 48 else if unat (s ! p) = 237 then 60 else 36)"
          using n2 True by (simp add: st_def utf8_start)
        then have ok: "second_ok (unat (s ! p)) (unat (s ! (p + 1)))" and st: "fst (?d st c1 (p + 1)) = 24"
          using g1(2) n2 True by (auto simp: utf8_states second_ok_def split: if_splits)
        define c2 where "c2 = snd (?d st c1 (p + 1))"
        have l2: "p + 2 < to" "string_utf8_get_loop s 24 c2 (p + 2) to = Some (c, q)"
          using g1(4) unfolding st c2_def by simp_all
        note g2 = get_loop_Some [OF l2(2) c l2(1)]
        have "128 \<le> unat (s ! (p + 2))" "unat (s ! (p + 2)) < 192"
          using g2(2) by (auto simp: utf8_states split: if_splits)
        note b = _ True ok this
        show ?thesis
          using utf8_get_3 [OF _ _ b, of to] get g2(1) l2(1) utf8_nat_3 [OF b] take_drop_nth(3) [of p s unat] n2
          by (intro conc [of _ 3]) auto
      next
        case n3: False
        have "st = (if unat (s ! p) = 240 then 72 else if unat (s ! p) = 244 then 96 else 84)"
          using n3 b0 by (simp add: st_def utf8_start)
        then have ok: "second_ok (unat (s ! p)) (unat (s ! (p + 1)))" and st: "fst (?d st c1 (p + 1)) = 36"
          using g1(2) n3 b0 by (auto simp: utf8_states second_ok_def split: if_splits)
        define c2 where "c2 = snd (?d st c1 (p + 1))"
        have l2: "p + 2 < to" "string_utf8_get_loop s 36 c2 (p + 2) to = Some (c, q)"
          using g1(4) unfolding st c2_def by simp_all
        note g2 = get_loop_Some [OF l2(2) c l2(1)]
        have b2: "128 \<le> unat (s ! (p + 2))" "unat (s ! (p + 2)) < 192" and st2: "fst (?d 36 c2 (p + 2)) = 24"
          using g2(2) by (auto simp: utf8_states split: if_splits)
        define c3 where "c3 = snd (?d 36 c2 (p + 2))"
        have l3: "p + 3 < to" "string_utf8_get_loop s 24 c3 (p + 3) to = Some (c, q)"
          using g2(4) unfolding st2 c3_def by (simp_all add: numeral_3_eq_3)
        note g3 = get_loop_Some [OF l3(2) c l3(1)]
        have b3: "128 \<le> unat (s ! (p + 3))" "unat (s ! (p + 3)) < 192"
          using g3(2) by (auto simp: utf8_states split: if_splits)
        note b = _ b0(2) ok b2 b3
        show ?thesis
          using utf8_get_4 [OF _ _ b, of to] get g3(1) l3(1) utf8_nat_4 [OF b] take_drop_nth(4) [of p s unat] n3
          by (intro conc [of _ 4]) auto
      qed
    qed
  qed
qed

end
