(* ===== verification/Utf8_Escape.thy ===== *)
theory Utf8_Escape
  imports Utf8_Decoder
begin

text \<open>
  Sequences of code points, their escaped form as the JSON encoder writes it
  (\<open>escape_string\<close>, the reference for \<open>string_utf8_encode\<close>), and its way back through
  \<open>string_utf8_decode\<close>; the properties of \<^verbatim>\<open>src/reactor/string.c\<close> are at the end.
\<close>

section \<open>Sequences of code points\<close>

definition utf8_string :: "u32 list \<Rightarrow> byte list" where
  "utf8_string cs = concat (map utf8_bytes cs)"

definition scalars :: "u32 list \<Rightarrow> bool" where
  "scalars cs \<longleftrightarrow> (\<forall>c\<in>set cs. scalar (unat c))"

text \<open>A code point as the encoder writes it, and the ones that stand for themselves.\<close>

definition plain :: "u32 \<Rightarrow> bool" where
  "plain c \<longleftrightarrow> c < 0x80 \<and> string_utf8_regular (ucast c)"

definition encoded_code :: "u32 \<Rightarrow> byte list" where
  "encoded_code c =
     (if c \<ge> 0x10000
      then encoded_bytes (ucast (0xd800 OR drop_bit 10 (c - 0x10000))) @
           encoded_bytes (ucast (0xdc00 OR ((c - 0x10000) AND 0x3ff)))
      else encoded_bytes (ucast c))"

definition escape_code :: "bool \<Rightarrow> u32 \<Rightarrow> byte list" where
  "escape_code ascii c =
     (if plain c then [ucast c]
      else if c < 0x80
      then (case short_escape (ucast c) of Some e \<Rightarrow> e | None \<Rightarrow> encoded_bytes (ucast c))
      else if ascii then encoded_code c else utf8_bytes c)"

definition escape_string :: "bool \<Rightarrow> u32 list \<Rightarrow> byte list" where
  "escape_string ascii cs = concat (map (escape_code ascii) cs)"

lemma seq_simps [simp]:
  "utf8_string [] = []" "utf8_string (c # cs) = utf8_bytes c @ utf8_string cs"
  "utf8_string (cs @ ds) = utf8_string cs @ utf8_string ds"
  "escape_string ascii [] = []" "escape_string ascii (c # cs) = escape_code ascii c @ escape_string ascii cs"
  "escape_string ascii (cs @ ds) = escape_string ascii cs @ escape_string ascii ds"
  "scalars []" "scalars (c # cs) \<longleftrightarrow> scalar (unat c) \<and> scalars cs" "scalars (cs @ ds) \<longleftrightarrow> scalars cs \<and> scalars ds"
  by (auto simp: utf8_string_def escape_string_def scalars_def)

lemma ascii_byte: "c < 0x80 \<Longrightarrow> unat (ucast (c :: u32) :: byte) = unat c"
  by (simp add: unat_ucast_byte word_less_nat_alt)

lemma unat_ucast_u16: "unat (ucast (w :: u32) :: u16) = unat w mod 65536"
  by (simp add: unsigned_ucast_eq take_bit_eq_mod)

lemma unat_u16_of_byte: "unat (ucast (b :: byte) :: u16) = unat b"
  using unat_byte [of b] by (simp add: unsigned_ucast_eq take_bit_nat_eq_self)

lemma utf8_bytes_small [simp]: "c < 0x80 \<Longrightarrow> utf8_bytes c = [ucast c]"
  by (simp add: utf8_bytes_def)

lemma utf8_bytes_big:
  assumes "\<not> c < 0x80" "scalar (unat c)"
  shows "\<exists>b bs. utf8_bytes c = b # bs \<and> \<not> b < 0x80 \<and> \<not> string_utf8_regular b"
proof -
  have c: "unat c < 0x110000" "128 \<le> unat c" using assms by (auto simp: scalar_def word_less_nat_alt)
  have "128 \<le> hd (utf8_nat (unat c))" "utf8_nat (unat c) \<noteq> []" using c by (simp_all add: utf8_nat_def)
  then have "128 \<le> hd (map unat (utf8_bytes c))" "utf8_bytes c \<noteq> []"
    using utf8_bytes_nat [OF c(1)] by auto
  then obtain b bs where b: "utf8_bytes c = b # bs" "128 \<le> unat b" by (cases "utf8_bytes c") auto
  then have "\<not> b < 0x80" by (simp add: word_less_nat_alt)
  then show ?thesis using b by (auto simp: string_utf8_regular_def)
qed

lemma utf8_get_bytes:
  assumes "scalar (unat c)" "drop p s = utf8_bytes c @ r" "p + length (utf8_bytes c) \<le> to"
  shows "string_utf8_get s p to = Some (c, p + length (utf8_bytes c))"
proof -
  have "unat c < 0x110000" using assms(1) by (auto simp: scalar_def)
  then have n: "map unat (utf8_bytes c) = utf8_nat (unat c)" by (rule utf8_bytes_nat)
  then have "length (utf8_nat (unat c)) = length (utf8_bytes c)" by (metis length_map)
  then show ?thesis using utf8_get_valid [OF assms(1), of p s to] assms(2,3) n by simp
qed

section \<open>Runs of plain characters\<close>

lemma regular_end_eq:
  "p \<le> length s \<Longrightarrow> regular_end s p = p + length (takeWhile string_utf8_regular (drop p s))"
proof (induction s p rule: regular_end.induct)
  case (1 s p)
  show ?case
  proof (cases "p < length s")
    case True
    then show ?thesis
      using 1 Cons_nth_drop_Suc [OF True, symmetric] by (subst regular_end.simps) auto
  next
    case False
    then show ?thesis by (subst regular_end.simps) simp
  qed
qed

lemma regular_scan_eq:
  "dropWhile string_utf8_regular (drop p s) \<noteq> [] \<Longrightarrow>
    regular_scan s p = Some (p + length (takeWhile string_utf8_regular (drop p s)))"
proof (induction s p rule: regular_scan.induct)
  case (1 s p)
  have p: "p < length s"
  proof (rule ccontr)
    assume "\<not> p < length s"
    then show False using 1(2) by simp
  qed
  then show ?case
    using 1 Cons_nth_drop_Suc [OF p, symmetric] by (subst regular_scan.simps) (auto split: if_splits)
qed

lemma plain_run: "\<forall>c\<in>set us. plain c \<Longrightarrow> escape_string ascii us = utf8_string us \<and> (\<forall>b\<in>set (utf8_string us). string_utf8_regular b)"
  by (induction us) (auto simp: plain_def escape_code_def)

lemma takeWhile_utf8_string:
  "scalars cs \<Longrightarrow> takeWhile string_utf8_regular (utf8_string cs) = utf8_string (takeWhile plain cs)"
proof (induction cs)
  case (Cons c cs)
  show ?case
  proof (cases "c < 0x80")
    case False
    then show ?thesis using utf8_bytes_big [of c] Cons.prems by (auto simp: plain_def)
  qed (use Cons in \<open>simp add: plain_def\<close>)
qed simp

lemma short_escape_chars: "short_escape b = Some e \<Longrightarrow> e = [92, e ! 1] \<and> short_unescape (e ! 1) = Some b"
  by (auto simp: short_escape_def short_unescape_def split: if_splits)

lemma escape_code_head:
  assumes "\<not> plain c" "scalar (unat c)"
  shows "\<exists>b bs. escape_code ascii c = b # bs \<and> \<not> string_utf8_regular b"
proof (cases "c < 0x80")
  case True
  have "hd (escape_code ascii c) = 92 \<and> escape_code ascii c \<noteq> []"
  proof (cases "short_escape (ucast c)")
    case None
    then show ?thesis using True assms(1) by (simp add: escape_code_def encoded_bytes_def)
  next
    case (Some e)
    have "e = [92, e ! 1]" using short_escape_chars [OF Some] by blast
    then have "hd e = 92" "e \<noteq> []" by (metis list.sel(1), blast)
    then show ?thesis using True assms(1) Some by (simp add: escape_code_def)
  qed
  then show ?thesis by (cases "escape_code ascii c") (auto simp: string_utf8_regular_def)
next
  case False
  then show ?thesis
    using assms utf8_bytes_big [OF False assms(2)]
    by (auto simp: escape_code_def encoded_code_def encoded_bytes_def string_utf8_regular_def)
qed

lemma takeWhile_escape_string:
  assumes "scalars cs" "\<not> string_utf8_regular q"
  shows "takeWhile string_utf8_regular (escape_string ascii cs @ q # r) = utf8_string (takeWhile plain cs)"
    "dropWhile string_utf8_regular (escape_string ascii cs @ q # r) \<noteq> []"
proof -
  show "takeWhile string_utf8_regular (escape_string ascii cs @ q # r) = utf8_string (takeWhile plain cs)"
    using assms(1)
  proof (induction cs)
    case (Cons c cs)
    show ?case
    proof (cases "plain c")
      case True
      then show ?thesis using Cons by (simp add: plain_def escape_code_def)
    next
      case False
      then show ?thesis using escape_code_head [OF False, of ascii] Cons.prems by auto
    qed
  qed (use assms(2) in simp)
  show "dropWhile string_utf8_regular (escape_string ascii cs @ q # r) \<noteq> []"
    using assms(2) by simp
qed

section \<open>The encoder writes the escaped string\<close>

lemma append_bytes:
  "buffer_holds b bs \<Longrightarrow> length bs + length xs \<le> buffer_limit \<Longrightarrow>
    \<exists>b'. buffer_append b (data_literal xs) = Some b' \<and> buffer_holds b' (bs @ xs)"
  using buffer_sink.app_holds by (simp add: buffer_append_bytes_def)

lemma put_encoded_holds:
  assumes "buffer_holds b bs" "length bs + length (encoded_code c) \<le> buffer_limit"
  shows "\<exists>b'. string_utf8_put_encoded b c = Some b' \<and> buffer_holds b' (bs @ encoded_code c)"
proof (cases "c \<ge> 0x10000")
  case True
  let ?x = "encoded_bytes (ucast (0xd800 OR drop_bit 10 (c - 0x10000)))"
  let ?y = "encoded_bytes (ucast (0xdc00 OR ((c - 0x10000) AND 0x3ff)))"
  have e: "encoded_code c = ?x @ ?y" using True by (simp add: encoded_code_def)
  obtain b1 where b1: "buffer_append b (data_literal ?x) = Some b1" "buffer_holds b1 (bs @ ?x)"
    using append_bytes [OF assms(1), of ?x] assms(2) e by auto
  obtain b2 where "buffer_append b1 (data_literal ?y) = Some b2" "buffer_holds b2 ((bs @ ?x) @ ?y)"
    using append_bytes [OF b1(2), of ?y] assms(2) e by auto
  then show ?thesis
    using True b1(1) e by (simp add: string_utf8_put_encoded_def string_utf8_put_encoded_basic_def Let_def)
next
  case False
  then show ?thesis
    using append_bytes [OF assms(1), of "encoded_code c"] assms(2)
    by (simp add: string_utf8_put_encoded_def string_utf8_put_encoded_basic_def encoded_code_def)
qed

lemma encode_from_holds:
  assumes "drop p s = utf8_string cs" "p \<le> length s" "scalars cs" "buffer_holds b bs"
    "length bs + length (escape_string ascii cs) \<le> buffer_limit"
  shows "\<exists>b'. string_utf8_encode_from b s ascii p = Some b' \<and> buffer_holds b' (bs @ escape_string ascii cs)"
  using assms
proof (induction cs arbitrary: p b bs rule: length_induct)
  case (1 cs)
  note unfold = string_utf8_encode_from.simps [of b s ascii p]
  show ?case
  proof (cases cs)
    case Nil
    then have "p = length s" using 1(2,3) by simp
    then show ?thesis using 1(5) Nil by (subst unfold) simp
  next
    case (Cons c cs')
    have c: "scalar (unat c)" "scalars cs'" using 1(4) Cons by simp_all
    have next_step: "\<exists>b'. string_utf8_encode_from b1 s ascii q = Some b' \<and> buffer_holds b' (bs @ escape_string ascii cs)"
      if "buffer_holds b1 (bs @ escape_string ascii us)" "q = p + length (utf8_string us)" "cs = us @ vs" "us \<noteq> []" for b1 q us vs
    proof -
      have "length vs < length cs" using that by simp
      moreover have "drop q s = drop (length (utf8_string us)) (drop p s)" using that by (simp add: add.commute)
      then have "drop q s = utf8_string vs" using 1(2) that by simp
      moreover have "q \<le> length s"
        using arg_cong [OF 1(2), of length] 1(3) that by simp
      ultimately show ?thesis
        using 1(1) [rule_format, of vs q b1 "bs @ escape_string ascii us"] that 1(4,6) by auto
    qed
    have b0: "p < length s" "s ! p = hd (utf8_bytes c)"
    proof -
      have "utf8_bytes c \<noteq> []" by (simp add: utf8_bytes_def)
      then have "drop p s \<noteq> []" "hd (drop p s) = hd (utf8_bytes c)" using 1(2) Cons by simp_all
      then show "p < length s" "s ! p = hd (utf8_bytes c)" by (auto simp: hd_drop_conv_nth)
    qed
    then have ch: "char_at s p = Some (hd (utf8_bytes c))" by (simp add: char_at_def)
    show ?thesis
    proof (cases "c < 0x80")
      case small: True
      then have hd: "hd (utf8_bytes c) = ucast c" "\<not> (ucast c :: byte) \<ge> 0x80"
        by (simp_all add: word_le_nat_alt word_less_nat_alt ascii_byte)
      have rest: "drop (p + 1) s = utf8_string cs'" using 1(2) Cons small by (metis append_Cons append_Nil drop_Suc_Cons drop_drop add.commute utf8_bytes_small seq_simps(2) drop0 One_nat_def)
      show ?thesis
      proof (cases "string_utf8_regular (ucast c)")
        case True
        let ?us = "c # takeWhile plain cs'" and ?vs = "dropWhile plain cs'"
        have q: "regular_end s (p + 1) = p + length (utf8_string ?us)"
          using b0(1) rest small takeWhile_utf8_string [OF c(2)] by (simp add: regular_end_eq)
        have us: "escape_string ascii ?us = utf8_string ?us"
          by (rule conjunct1 [OF plain_run]) (use small True in \<open>auto simp: plain_def dest: set_takeWhileD\<close>)
        have split: "cs = ?us @ ?vs" using Cons by simp
        have range: "range_of s p (regular_end s (p + 1)) = utf8_string ?us"
          unfolding q range_of_def 1(2) by (subst split) (simp only: seq_simps diff_add_inverse, simp)
        have "length bs + length (utf8_string ?us) \<le> buffer_limit"
          using 1(6) by (subst (asm) split) (simp only: seq_simps(6) length_append us)
        then obtain b1 where b1: "buffer_append b (data_literal (utf8_string ?us)) = Some b1" "buffer_holds b1 (bs @ utf8_string ?us)"
          using append_bytes [OF 1(5)] by blast
        then show ?thesis
          using next_step [of b1 ?us "p + length (utf8_string ?us)" ?vs] us split ch hd True b0(1)
            q [unfolded Suc_eq_plus1 [symmetric]] range [unfolded Suc_eq_plus1 [symmetric]]
          by (subst unfold) (simp del: seq_simps(2))
      next
        case False
        then have np: "\<not> plain c" by (simp add: plain_def)
        let ?e = "escape_code ascii c"
        have "length bs + length ?e \<le> buffer_limit" using 1(6) Cons by simp
        then obtain b1 where b1: "buffer_append b (data_literal ?e) = Some b1" "buffer_holds b1 (bs @ ?e)"
          using append_bytes [OF 1(5)] by blast
        have e: "?e = (case short_escape (ucast c) of Some e \<Rightarrow> e | None \<Rightarrow> encoded_bytes (ucast (ucast c :: byte)))"
        proof -
          have "(ucast c :: u16) = ucast (ucast c :: byte)"
            using ascii_byte [OF small] small unat_ucast_u16 [of c] unat_u16_of_byte [of "ucast c"]
            by (simp add: word_unat_eq_iff word_less_nat_alt)
          then show ?thesis using np small by (auto simp: escape_code_def split: option.split)
        qed
        then show ?thesis
          using next_step [of b1 "[c]" "p + 1" cs'] b1 Cons ch hd False b0(1) small
          by (subst unfold) (auto simp: string_utf8_put_encoded_basic_def split: option.splits)
      qed
    next
      case False
      then have np: "\<not> plain c" by (simp add: plain_def)
      obtain b0 where hd: "hd (utf8_bytes c) = b0" "\<not> b0 < 0x80" "\<not> string_utf8_regular b0"
        using utf8_bytes_big [OF False c(1)] by auto
      have "p + length (utf8_bytes c) \<le> length s" using arg_cong [OF 1(2), of length] 1(3) Cons by simp
      then have get: "string_utf8_get s p (length s) = Some (c, p + length (utf8_bytes c))"
        using utf8_get_bytes [OF c(1), of p s "utf8_string cs'"] 1(2) Cons by simp
      have lim: "length bs + length (escape_code ascii c) \<le> buffer_limit" using 1(6) Cons by simp
      have "\<exists>b1. (if ascii then string_utf8_put_encoded b c else string_utf8_put b c) = Some b1 \<and>
          buffer_holds b1 (bs @ escape_code ascii c)"
        using put_encoded_holds [OF 1(5), of c] append_bytes [OF 1(5), of "utf8_bytes c"] lim np False
        by (auto simp: string_utf8_put_def escape_code_def)
      then obtain b1 where b1: "(if ascii then string_utf8_put_encoded b c else string_utf8_put b c) = Some b1"
        "buffer_holds b1 (bs @ escape_code ascii c)" by blast
      then show ?thesis
        using next_step [of b1 "[c]" "p + length (utf8_bytes c)" cs'] Cons ch hd b0(1) get
        by (subst unfold) auto
    qed
  qed
qed

section \<open>Escaped code points are read back\<close>

lemma unat_u16: "unat (w :: u16) < 65536"
  using unsigned_less [of w, where ?'a = nat] by simp

lemma unat_u32_of_u16: "unat (ucast (w :: u16) :: u32) = unat w"
proof -
  have "unat w < 2 ^ 32" using unat_u16 [of w] by simp
  then show ?thesis by (simp add: unsigned_ucast_eq take_bit_nat_eq_self)
qed

lemma hex_digits:
  "list_all (\<lambda>n. isxdigit (hex_char (of_nat n)) \<and> xdigit (hex_char (of_nat n)) = of_nat n)
    [0, 1, 2, 3, 4, 5, 6, 7, 8, 9, 10, 11, 12, 13, 14, 15]"
  by (simp add: hex_char_def isxdigit_def xdigit_def)

lemma hex_char_digit:
  assumes "unat i < 16"
  shows "isxdigit (hex_char i)" "xdigit (hex_char i) = ucast i"
proof -
  have "[0, 1, 2, 3, 4, 5, 6, 7, 8, 9, 10, 11, 12, 13, 14, 15] = [0..<16]" by (simp add: upt_rec)
  then have "list_all (\<lambda>n. isxdigit (hex_char (of_nat n)) \<and> xdigit (hex_char (of_nat n)) = of_nat n) [0..<16]"
    using hex_digits by (simp only:)
  then have "\<forall>n<16. isxdigit (hex_char (of_nat n)) \<and> xdigit (hex_char (of_nat n)) = of_nat n"
    by (simp add: list_all_iff)
  then have "isxdigit (hex_char (of_nat (unat i))) \<and> xdigit (hex_char (of_nat (unat i))) = of_nat (unat i)"
    using assms by blast
  moreover have "(of_nat (unat i) :: u32) = ucast i" by simp
  ultimately show "isxdigit (hex_char i)" "xdigit (hex_char i) = ucast i" by simp_all
qed

lemma nibbles:
  fixes w :: u16
  shows "unat (drop_bit 12 w) < 16" "unat (drop_bit 8 w AND 0x0f) < 16" "unat (drop_bit 4 w AND 0x0f) < 16" "unat (w AND 0x0f) < 16"
proof -
  have m: "(0x0f :: u16) = mask 4" by (simp add: mask_eq_exp_minus_1)
  have low: "unat (x AND 0x0f :: u16) < 16" for x
    unfolding m take_bit_eq_mask [symmetric] unsigned_take_bit_eq by (simp add: take_bit_eq_mod)
  show "unat (drop_bit 8 w AND 0x0f) < 16" "unat (drop_bit 4 w AND 0x0f) < 16" "unat (w AND 0x0f) < 16" by (rule low)+
  have "unat w div 4096 < 16" using unat_u16 [of w] by simp
  then show "unat (drop_bit 12 w) < 16" by (simp add: drop_bit_eq_div unat_div)
qed

lemma hex_recompose:
  fixes w :: u16
  shows "ucast (push_bit 12 (ucast (drop_bit 12 w)) OR push_bit 8 (ucast (drop_bit 8 w AND 0x0f)) OR
    push_bit 4 (ucast (drop_bit 4 w AND 0x0f)) OR ucast (w AND 0x0f) :: u32) = w"
proof (rule bit_word_eqI)
  have m: "(0x0f :: u16) = mask 4" by (simp add: mask_eq_exp_minus_1)
  fix n assume n: "n < LENGTH(16)"
  then consider "n < 4" | "4 \<le> n" "n < 8" | "8 \<le> n" "n < 12" | "12 \<le> n" "n < 16" by fastforce
  then show "bit (ucast (push_bit 12 (ucast (drop_bit 12 w)) OR push_bit 8 (ucast (drop_bit 8 w AND 0x0f)) OR
    push_bit 4 (ucast (drop_bit 4 w AND 0x0f)) OR ucast (w AND 0x0f) :: u32) :: u16) n = bit w n"
    unfolding m by cases (auto simp: bit_ucast_iff bit_or_iff bit_push_bit_iff bit_and_iff bit_mask_iff bit_drop_bit_eq)
qed

lemma char_at_drop: "drop p s = xs @ r \<Longrightarrow> i < length xs \<Longrightarrow> char_at s (p + i) = Some (xs ! i)"
proof -
  assume a: "drop p s = xs @ r" "i < length xs"
  have "length (drop p s) = length xs + length r" using a(1) by simp
  then have "p + i < length s" using a(2) by simp
  then show ?thesis using a nth_drop [of p s i] by (simp add: char_at_def nth_append)
qed

lemma get_encoded_basic_spec:
  assumes "drop p s = encoded_bytes w @ r"
  shows "string_utf8_get_encoded_basic s p = Some (w, p + 6)"
proof -
  have at: "char_at s p = Some 92" "char_at s (p + 1) = Some 117"
    "char_at s (p + 2) = Some (hex_char (drop_bit 12 w))" "char_at s (p + 3) = Some (hex_char (drop_bit 8 w AND 0x0f))"
    "char_at s (p + 4) = Some (hex_char (drop_bit 4 w AND 0x0f))" "char_at s (p + 5) = Some (hex_char (w AND 0x0f))"
    using char_at_drop [OF assms, of 0] char_at_drop [OF assms, of 1] char_at_drop [OF assms, of 2]
      char_at_drop [OF assms, of 3] char_at_drop [OF assms, of 4] char_at_drop [OF assms, of 5]
    by (simp_all add: encoded_bytes_def)
  have "chars_test s p [(=) 92, (=) 117, isxdigit, isxdigit, isxdigit, isxdigit] = Some True"
  proof -
    have i: "p + 1 = Suc p" "p + 2 = Suc (Suc p)" "p + 3 = Suc (Suc (Suc p))" "p + 4 = Suc (Suc (Suc (Suc p)))"
      "p + 5 = Suc (Suc (Suc (Suc (Suc p))))" by simp_all
    show ?thesis using at unfolding i by (simp add: hex_char_digit nibbles)
  qed
  then show ?thesis
    using at by (simp add: string_utf8_get_encoded_basic_def hex_char_digit nibbles hex_recompose)
qed

text \<open>What a code point reads back as after \<open>string_utf8_put_encoded\<close>.\<close>

definition reread_code :: "u32 \<Rightarrow> u32" where
  "reread_code c = (if c < 0x10000 then c else 0x10000 OR (c - 0x10000))"

lemma surrogates:
  fixes c :: u32
  assumes "unat c < 0x100000"
  defines "w1 \<equiv> ucast (0xd800 OR drop_bit 10 c) :: u16" and "w2 \<equiv> ucast (0xdc00 OR (c AND 0x3ff)) :: u16"
  shows "0xd800 \<le> w1" "w1 < 0xdc00" "0xdc00 \<le> w2" "w2 < 0xe000"
    "push_bit 10 (ucast w1 AND 0x3ff) OR (ucast w2 AND 0x3ff) = c"
proof -
  have m: "x AND 0x3ff = take_bit 10 x" for x :: u32 by (simp add: take_bit_eq_mask mask_eq_exp_minus_1)
  have d: "unat (drop_bit 10 c) = unat c div 1024" by (simp add: drop_bit_eq_div unat_div)
  have l: "unat (c AND 0x3ff) = unat c mod 1024"
    unfolding m unsigned_take_bit_eq by (simp add: take_bit_eq_mod)
  have w1: "unat w1 = 55296 + unat c div 1024"
    unfolding w1_def using or_nat_add [of "unat c div 1024" 10 54] assms(1)
    by (simp add: unat_ucast_u16 unsigned_or_eq d)
  have w2: "unat w2 = 56320 + unat c mod 1024"
    unfolding w2_def using or_nat_add [of "unat c mod 1024" 10 55]
    by (simp add: unat_ucast_u16 unsigned_or_eq l)
  have "unat c div 1024 < 1024" "unat c mod 1024 < 1024" using assms(1) by simp_all
  then show "0xd800 \<le> w1" "w1 < 0xdc00" "0xdc00 \<le> w2" "w2 < 0xe000"
    unfolding word_le_nat_alt word_less_nat_alt w1 w2 by simp_all
  note u = unat_u32_of_u16
  have q: "(55296 + x) mod 1024 = x" "(56320 + x) mod 1024 = x" if "x < 1024" for x :: nat
    using that mod_mult_self3 [of 54 1024 x] mod_mult_self3 [of 55 1024 x] by simp_all
  have "unat (take_bit 10 (ucast w1 :: u32)) = unat c div 1024"
    unfolding unsigned_take_bit_eq u w1 unfolding take_bit_eq_mod using assms(1) q(1) [of "unat c div 1024"] by simp
  moreover have "unat (take_bit 10 (ucast w2 :: u32)) = unat c mod 1024"
    unfolding unsigned_take_bit_eq u w2 unfolding take_bit_eq_mod using q(2) [of "unat c mod 1024"] by simp
  ultimately have "unat (take_bit 10 (ucast w1 :: u32)) = unat c div 1024" "unat (take_bit 10 (ucast w2 :: u32)) = unat c mod 1024"
    by simp_all
  then have "unat (push_bit 10 (ucast w1 AND 0x3ff :: u32)) = unat c div 1024 * 2 ^ 10" "unat (ucast w2 AND 0x3ff :: u32) = unat c mod 1024"
    using assms(1) by (simp_all add: m push_bit_eq_mult unat_word_ariths)
  then show "push_bit 10 (ucast w1 AND 0x3ff) OR (ucast w2 AND 0x3ff) = c"
    using or_nat_add [of "unat c mod 1024" 10 "unat c div 1024"]
    by (simp add: word_unat_eq_iff unsigned_or_eq)
qed

lemma get_encoded_spec:
  assumes c: "scalar (unat c)" and at: "drop p s = encoded_code c @ r"
  shows "string_utf8_get_encoded s p = Some (reread_code c, p + length (encoded_code c))"
proof (cases "c \<ge> 0x10000")
  case True
  define d where "d = c - 0x10000"
  have "unat d = unat c - 0x10000" using True unfolding d_def by (subst unat_sub) simp_all
  moreover have "unat c < 0x110000" "0x10000 \<le> unat c" using c True by (auto simp: scalar_def word_le_nat_alt)
  ultimately have d: "unat d < 0x100000" by simp
  let ?w1 = "ucast (0xd800 OR drop_bit 10 d) :: u16" and ?w2 = "ucast (0xdc00 OR (d AND 0x3ff)) :: u16"
  note sur = surrogates [OF d]
  have e: "encoded_code c = encoded_bytes ?w1 @ encoded_bytes ?w2" using True by (simp add: encoded_code_def d_def)
  have at1: "drop p s = encoded_bytes ?w1 @ (encoded_bytes ?w2 @ r)" using at e by simp
  have "drop (p + 6) s = drop 6 (drop p s)" by (simp add: add.commute)
  also have "\<dots> = encoded_bytes ?w2 @ r" unfolding at1 by (simp add: encoded_bytes_def)
  finally have at2: "drop (p + 6) s = encoded_bytes ?w2 @ r" .
  have l: "length (encoded_code c) = 12" by (simp add: e encoded_bytes_def)
  have nd: "\<not> 0xdc00 \<le> ?w1" "\<not> c < 0x10000" using sur(2) True by simp_all
  show ?thesis
    using get_encoded_basic_spec [OF at1] get_encoded_basic_spec [OF at2] sur(1-4) nd sur(5) l True
    by (simp add: string_utf8_get_encoded_def reread_code_def or.assoc flip: d_def)
next
  case False
  have w: "ucast (ucast c :: u16) = c" "unat (ucast c :: u16) = unat c"
  proof -
    have "unat c < 65536" using False by (simp add: word_le_nat_alt)
    then show u: "unat (ucast c :: u16) = unat c" by (simp add: unat_ucast_u16)
    have "unat (ucast (ucast c :: u16) :: u32) = unat (ucast c :: u16)"
      by (rule unat_u32_of_u16)
    then show "ucast (ucast c :: u16) = c" using u by (simp add: word_unat_eq_iff)
  qed
  have "\<not> 0xdc00 \<le> (ucast c :: u16) \<or> \<not> (ucast c :: u16) < 0xe000" "\<not> 0xd800 \<le> (ucast c :: u16) \<or> \<not> (ucast c :: u16) < 0xdc00"
    using c w(2) False by (auto simp: scalar_def word_le_nat_alt word_less_nat_alt)
  moreover have e: "encoded_code c = encoded_bytes (ucast c)" "reread_code c = c" "length (encoded_bytes (ucast c)) = 6"
    using False by (simp_all add: encoded_code_def reread_code_def encoded_bytes_def not_le)
  moreover have "string_utf8_get_encoded_basic s p = Some (ucast c, p + 6)"
    using get_encoded_basic_spec [of p s "ucast c" r] at e by simp
  ultimately show ?thesis using w(1) by (auto simp: string_utf8_get_encoded_def)
qed

lemma reread_code_eq:
  assumes "scalar (unat c)"
  shows "reread_code c = c \<longleftrightarrow> c < 0x10000 \<or> \<not> bit (c - 0x10000) 16"
proof (cases "c < 0x10000")
  case False
  define k :: u32 where "k = 2 ^ 16"
  have k: "0x10000 = k" by (simp add: k_def)
  have b: "bit k n \<longleftrightarrow> n = 16" for n unfolding k_def bit_exp_iff by auto
  have "k OR (c - k) = c \<longleftrightarrow> \<not> bit (c - k) 16"
  proof
    assume "\<not> bit (c - k) 16"
    then have "k AND (c - k) = 0"
      by (intro bit_word_eqI) (auto simp: bit_and_iff b)
    then have "k + (c - k) = k OR (c - k)" by (rule disjunctive_add_eq_or)
    then show "k OR (c - k) = c" by simp
  next
    assume a: "k OR (c - k) = c"
    show "\<not> bit (c - k) 16"
    proof
      assume "bit (c - k) 16"
      then have "k OR (c - k) = c - k"
        by (intro bit_word_eqI) (auto simp: bit_or_iff b)
      then have "c = c - k" using a by simp
      then show False by (simp add: k_def)
    qed
  qed
  then show ?thesis using False by (simp add: reread_code_def k)
qed (simp add: reread_code_def)

section \<open>The decoder reads the escaped string back\<close>

definition reread :: "bool \<Rightarrow> u32 \<Rightarrow> u32" where
  "reread ascii c = (if ascii then reread_code c else c)"

lemma reread_small [simp]: "c < 0x10000 \<Longrightarrow> reread ascii c = c"
  by (simp add: reread_def reread_code_def)

lemma plain_small: "plain c \<Longrightarrow> c < 0x80 \<and> c < 0x10000"
  by (auto simp: plain_def word_less_nat_alt)

lemma utf8_bytes_length: "length (utf8_bytes c) \<le> 4" "utf8_bytes c \<noteq> []"
  by (simp_all add: utf8_bytes_def)

lemma reread_plain_run: "\<forall>c\<in>set us. plain c \<Longrightarrow> utf8_string (map (reread ascii) us) = utf8_string us"
  by (induction us) (auto dest: plain_small)

lemma put_holds:
  "buffer_holds b bs \<Longrightarrow> length bs + length (utf8_bytes c) \<le> buffer_limit \<Longrightarrow>
    \<exists>b'. string_utf8_put b c = Some b' \<and> buffer_holds b' (bs @ utf8_bytes c)"
  using append_bytes by (simp add: string_utf8_put_def)

text \<open>A backslash escape.\<close>

lemma decode_step_short:
  assumes "drop p s = e @ r" "short_escape x = Some e" "buffer_holds b bs" "length bs + 1 \<le> buffer_limit"
  shows "\<exists>b'. string_utf8_decode_step s b p = Some (b', p + length e) \<and> buffer_holds b' (bs @ [x])"
proof -
  obtain y where e: "e = [92, y]" "short_unescape y = Some x" using short_escape_chars [OF assms(2)] by blast
  have at: "char_at s p = Some 92" "char_at s (p + 1) = Some y"
    using char_at_drop [OF assms(1), of 0] char_at_drop [OF assms(1), of 1] by (simp_all add: e)
  obtain b' where "buffer_append b (data_literal [x]) = Some b'" "buffer_holds b' (bs @ [x])"
    using append_bytes [OF assms(3), of "[x]"] assms(4) by auto
  then show ?thesis
    using at [unfolded Suc_eq_plus1 [symmetric]] e by (simp add: string_utf8_decode_step_def string_utf8_regular_def)
qed

lemma decode_step_encoded:
  assumes "scalar (unat c)" "drop p s = encoded_code c @ r" "buffer_holds b bs"
    "length bs + length (utf8_bytes (reread_code c)) \<le> buffer_limit"
  shows "\<exists>b'. string_utf8_decode_step s b p = Some (b', p + length (encoded_code c)) \<and>
    buffer_holds b' (bs @ utf8_bytes (reread_code c))"
proof -
  obtain e where e: "encoded_code c = 92 # 117 # e"
    by (cases "c \<ge> 0x10000") (simp_all add: encoded_code_def encoded_bytes_def)
  have at: "char_at s p = Some 92" "char_at s (p + 1) = Some 117"
    using char_at_drop [OF assms(2), of 0] char_at_drop [OF assms(2), of 1] by (simp_all add: e)
  obtain b' where "string_utf8_put b (reread_code c) = Some b'" "buffer_holds b' (bs @ utf8_bytes (reread_code c))"
    using put_holds [OF assms(3,4)] by blast
  then show ?thesis
    using at [unfolded Suc_eq_plus1 [symmetric]] get_encoded_spec [OF assms(1,2)]
    by (simp add: string_utf8_decode_step_def string_utf8_regular_def short_unescape_def)
qed

lemma decode_step_code:
  assumes "scalar (unat c)" "\<not> plain c" "drop p s = escape_code ascii c @ r" "buffer_holds b bs"
    "length bs + length (utf8_bytes (reread ascii c)) \<le> buffer_limit"
  shows "\<exists>b'. string_utf8_decode_step s b p = Some (b', p + length (escape_code ascii c)) \<and>
    buffer_holds b' (bs @ utf8_bytes (reread ascii c))"
proof (cases "c < 0x80")
  case True
  then have small: "c < 0x10000" "reread_code c = c" by (simp_all add: reread_code_def word_less_nat_alt)
  show ?thesis
  proof (cases "short_escape (ucast c)")
    case None
    then have "escape_code ascii c = encoded_code c"
      using True small assms(2) by (simp add: escape_code_def encoded_code_def word_le_nat_alt word_less_nat_alt)
    then show ?thesis using decode_step_encoded [of c p s r b bs] assms small True by simp
  next
    case (Some e)
    then have "escape_code ascii c = e" using True assms(2) by (simp add: escape_code_def)
    then show ?thesis using decode_step_short [of p s e r _ b bs, OF _ Some] assms small True by simp
  qed
next
  case big: False
  show ?thesis
  proof (cases ascii)
    case True
    then show ?thesis
      using decode_step_encoded [of c p s r b bs] assms big by (simp add: escape_code_def reread_def)
  next
    case False
    then have e: "escape_code ascii c = utf8_bytes c" "reread ascii c = c"
      using big assms(2) by (simp_all add: escape_code_def reread_def)
    obtain x xs where x: "utf8_bytes c = x # xs" "\<not> x < 0x80" "\<not> string_utf8_regular x"
      using utf8_bytes_big [OF big assms(1)] by blast
    have "char_at s p = Some x" using char_at_drop [OF assms(3), of 0] e x(1) by simp
    moreover have "string_utf8_get s p (p + 4) = Some (c, p + length (utf8_bytes c))"
      using utf8_get_bytes [OF assms(1), of p s r "p + 4"] assms(3) e utf8_bytes_length(1) [of c] by simp
    moreover obtain b' where "string_utf8_put b c = Some b'" "buffer_holds b' (bs @ utf8_bytes c)"
      using put_holds [OF assms(4), of c] assms(5) e by auto
    moreover have "0x80 \<le> x" using x(2) by (rule leI)
    ultimately show ?thesis using x e by (simp add: string_utf8_decode_step_def)
  qed
qed

text \<open>A run of plain characters.\<close>

lemma decode_step_plain:
  assumes "scalars cs" "cs = c # cs'" "plain c" "drop p s = escape_string ascii cs @ q # r" "\<not> string_utf8_regular q"
    "buffer_holds b bs" "length bs + length (utf8_string (takeWhile plain cs)) \<le> buffer_limit"
  shows "\<exists>b'. string_utf8_decode_step s b p = Some (b', p + length (escape_string ascii (takeWhile plain cs))) \<and>
    buffer_holds b' (bs @ utf8_string (takeWhile plain cs))"
proof -
  let ?us = "takeWhile plain cs"
  have us: "escape_string ascii ?us = utf8_string ?us" "utf8_bytes c = [ucast c]"
  proof -
    have "\<forall>c\<in>set ?us. plain c" by (auto dest: set_takeWhileD)
    then show "escape_string ascii ?us = utf8_string ?us" by (rule conjunct1 [OF plain_run])
    show "utf8_bytes c = [ucast c]" using assms(3) by (simp add: plain_def)
  qed
  have c: "escape_code ascii c = [ucast c]" "string_utf8_regular (ucast c)" "takeWhile plain cs = c # takeWhile plain cs'"
    using assms(2,3) by (simp_all add: escape_code_def plain_def)
  have p: "p < length s" "char_at s p = Some (ucast c)"
    using char_at_drop [OF assms(4), of 0] assms(2) c(1) by (simp_all add: char_at_def split: if_splits)
  have d: "drop (p + 1) s = escape_string ascii cs' @ q # r"
  proof -
    have "drop (p + 1) s = drop 1 (drop p s)" by simp
    also have "\<dots> = escape_string ascii cs' @ q # r" unfolding assms(4) using assms(2) c(1) by simp
    finally show ?thesis .
  qed
  have cs': "scalars cs'" using assms(1,2) by simp
  have "regular_scan s (p + 1) = Some (p + 1 + length (utf8_string (takeWhile plain cs')))"
    using regular_scan_eq [of "p + 1" s] takeWhile_escape_string [OF cs' assms(5), of ascii r] d by simp
  then have scan: "regular_scan s (p + 1) = Some (p + length (utf8_string ?us))" using c(3) us(2) by simp
  have range: "range_of s p (p + length (utf8_string ?us)) = utf8_string ?us"
  proof -
    have "drop p s = utf8_string ?us @ (escape_string ascii (dropWhile plain cs) @ q # r)"
      using assms(4) us(1) seq_simps(6) [of ascii ?us "dropWhile plain cs"] by simp
    then show ?thesis by (simp add: range_of_def)
  qed
  obtain b' where "buffer_append b (data_literal (utf8_string ?us)) = Some b'" "buffer_holds b' (bs @ utf8_string ?us)"
    using append_bytes [OF assms(6,7)] by blast
  then show ?thesis
    using p c(2) scan [unfolded Suc_eq_plus1 [symmetric]] range us(1)
    by (simp add: string_utf8_decode_step_def del: seq_simps(2))
qed

lemma decode_from_holds:
  assumes "drop p s = escape_string ascii cs @ q # r" "\<not> string_utf8_regular q" "q < 0x80" "q \<noteq> 92"
    "scalars cs" "buffer_holds b bs" "length bs + length (utf8_string (map (reread ascii) cs)) \<le> buffer_limit"
  shows "\<exists>b'. string_utf8_decode_from s b p = Some (b', p + length (escape_string ascii cs)) \<and>
    buffer_holds b' (bs @ utf8_string (map (reread ascii) cs))"
  using assms(1,5-)
proof (induction cs arbitrary: p b bs rule: length_induct)
  case (1 cs)
  note unfold = string_utf8_decode_from.simps [of s b p]
  show ?case
  proof (cases cs)
    case Nil
    then have "char_at s p = Some q" using 1(2) char_at_drop [of p s "[q]" r 0] by simp
    then have "string_utf8_decode_step s b p = Some (b, p)"
      using assms(2-4) by (simp add: string_utf8_decode_step_def not_le [symmetric])
    then show ?thesis using 1(4) Nil by (subst unfold) simp
  next
    case (Cons c cs')
    have next_step: ?thesis
      if st: "string_utf8_decode_step s b p = Some (b1, p + length (escape_string ascii us))"
        and b1: "buffer_holds b1 (bs @ utf8_string (map (reread ascii) us))" and us: "cs = us @ vs" "us \<noteq> []"
        "escape_string ascii us \<noteq> []" for b1 us vs
    proof -
      have "drop (p + length (escape_string ascii us)) s = drop (length (escape_string ascii us)) (drop p s)"
        by (simp add: add.commute)
      then have "drop (p + length (escape_string ascii us)) s = escape_string ascii vs @ q # r"
        using 1(2) us by simp
      moreover have "length vs < length cs" "scalars vs" using us 1(3) by simp_all
      moreover have "length (bs @ utf8_string (map (reread ascii) us)) + length (utf8_string (map (reread ascii) vs)) \<le> buffer_limit"
        using 1(5) us by simp
      ultimately obtain b' where
        "string_utf8_decode_from s b1 (p + length (escape_string ascii us)) =
           Some (b', p + length (escape_string ascii us) + length (escape_string ascii vs))"
        "buffer_holds b' ((bs @ utf8_string (map (reread ascii) us)) @ utf8_string (map (reread ascii) vs))"
        using 1(1) [rule_format, of vs] b1 by blast
      then show ?thesis using st us by (subst unfold) (simp add: add.assoc)
    qed
    have c: "scalar (unat c)" using 1(3) Cons by simp
    show ?thesis
    proof (cases "plain c")
      case True
      let ?us = "takeWhile plain cs"
      have us: "\<forall>c\<in>set ?us. plain c" by (auto dest: set_takeWhileD)
      have split: "cs = ?us @ dropWhile plain cs" by simp
      have l: "length bs + length (utf8_string ?us) \<le> buffer_limit"
        using 1(5) reread_plain_run [OF us, of ascii] by (subst (asm) split) (simp del: takeWhile_dropWhile_id)
      have "?us \<noteq> []" "escape_string ascii ?us \<noteq> []" using True Cons by (simp_all add: escape_code_def)
      then show ?thesis
        using next_step [OF _ _ split] decode_step_plain [OF 1(3) Cons True 1(2) assms(2) 1(4) l]
          reread_plain_run [OF us, of ascii] by auto
    next
      case False
      have "escape_code ascii c \<noteq> []" using escape_code_head [OF False c, of ascii] by auto
      moreover obtain b1 where "string_utf8_decode_step s b p = Some (b1, p + length (escape_code ascii c))"
        "buffer_holds b1 (bs @ utf8_bytes (reread ascii c))"
        using decode_step_code [OF c False, of p s ascii "escape_string ascii cs' @ q # r" b bs] 1(2,4,5) Cons by auto
      ultimately show ?thesis using next_step [of b1 "[c]" cs'] Cons by simp
    qed
  qed
qed

text \<open>What \<open>string_utf8_decode\<close> returns: the bytes in a block with a terminating zero.\<close>

definition string_holding :: "byte list \<Rightarrow> string_t" where
  "string_holding bs = data_of (Some (map Some (bs @ [0]))) (of_nat (length bs))"

lemma string_holding_bytes: "length bs < 2 ^ 64 \<Longrightarrow> data_bytes (string_holding bs) = Some bs"
  by (simp add: string_holding_def data_bytes_def ptr_bytes_def unat_of_nat)

lemma decode_close:
  assumes "buffer_holds b bs" "length bs + 1 \<le> buffer_limit"
  shows "\<exists>b'. buffer_append b (data_literal [0]) = Some b' \<and>
    buffer_data (buffer_resize (buffer_compact b') (buffer_size (buffer_compact b') - 1)) = string_holding bs"
proof -
  obtain b' where b': "buffer_append b (data_literal [0]) = Some b'" "buffer_holds b' (bs @ [0])"
    using append_bytes [OF assms(1), of "[0]"] assms(2) by auto
  define c where "c = buffer_compact b'"
  have ok: "buffer_ok b'" "buffer_cells b' = map Some (bs @ [0])" using b'(2) by (simp_all add: buffer_holds_def)
  have c: "buffer_ok c" "buffer_cells c = map Some (bs @ [0])" "buf_capacity c = buffer_size b'"
    using buffer_compact_spec [OF ok(1)] ok(2) by (simp_all add: c_def)
  have n: "unat (buffer_size c) = length bs + 1" "unat (buffer_size b') = length bs + 1"
    using length_buffer_cells [OF c(1)] length_buffer_cells [OF ok(1)] c(2) ok(2) by simp_all
  have "buffer_size c = of_nat (length bs + 1)" using arg_cong [OF n(1), of "of_nat :: nat \<Rightarrow> size_t"] by simp
  then have s: "buffer_size c - 1 = of_nat (length bs)" by simp
  have "buffer_base c = Some (map Some (bs @ [0]))"
    using c n by (auto simp: buffer_ok_def buffer_cells_def split: option.splits)
  moreover have "buffer_size c - 1 \<le> buf_capacity c"
    unfolding s c(3) word_le_nat_alt n(2) unat_of_nat by (rule order_trans [OF mod_less_eq_dividend]) simp
  ultimately have "buffer_data (buffer_resize c (buffer_size c - 1)) = string_holding bs"
    using s by (simp add: buffer_resize_within buffer_data_def string_holding_def)
  then show ?thesis using b'(1) c_def by blast
qed

section \<open>Inputs of any bytes\<close>

lemma get_loop_total:
  "p < to \<Longrightarrow> to \<le> length s \<Longrightarrow> \<exists>c' q. string_utf8_get_loop s st c p to = Some (c', q) \<and> p < q \<and> q \<le> to"
proof (induction "to - p" arbitrary: p st c rule: less_induct)
  case less
  let ?d = "string_utf8_decode_code st c (s ! p)"
  have step: "string_utf8_get_loop s st c p to =
    (if fst ?d = 0 then Some (snd ?d, p + 1) else if fst ?d = 12 \<or> p + 1 = to then Some (0xFFFD, p + 1)
     else string_utf8_get_loop s (fst ?d) (snd ?d) (p + 1) to)"
    using less.prems by (intro get_loop_step) simp_all
  show ?case
  proof (cases "fst ?d = 0 \<or> fst ?d = 12 \<or> p + 1 = to")
    case True
    then show ?thesis using less.prems step by auto
  next
    case False
    then have "\<exists>c' q. string_utf8_get_loop s (fst ?d) (snd ?d) (p + 1) to = Some (c', q) \<and> p + 1 < q \<and> q \<le> to"
      using less.prems by (intro less.hyps) auto
    then obtain c' q where "string_utf8_get_loop s (fst ?d) (snd ?d) (p + 1) to = Some (c', q)" "p + 1 < q" "q \<le> to"
      by blast
    then show ?thesis using False step by auto
  qed
qed

lemma get_total:
  "p < to \<Longrightarrow> to \<le> length s \<Longrightarrow> \<exists>c q. string_utf8_get s p to = Some (c, q) \<and> p < q \<and> q \<le> to"
  unfolding string_utf8_get_def by (rule get_loop_total)

text \<open>The bytes the encoder may write.\<close>

definition clean_byte :: "bool \<Rightarrow> byte \<Rightarrow> bool" where
  "clean_byte ascii x \<longleftrightarrow> 0x20 \<le> x \<and> (ascii \<longrightarrow> x < 0x80)"

lemma regular_clean_byte: "string_utf8_regular x \<Longrightarrow> clean_byte ascii x"
  by (auto simp: string_utf8_regular_def clean_byte_def not_le not_less split: if_splits)

lemma hex_char_set:
  assumes "unat i < 16" shows "hex_char i \<in> set [48, 49, 50, 51, 52, 53, 54, 55, 56, 57, 97, 98, 99, 100, 101, 102]"
  unfolding hex_char_def by (rule nth_mem) (use assms in simp)

lemma hex_char_clean_byte: "unat i < 16 \<Longrightarrow> clean_byte ascii (hex_char i)"
  using hex_char_set [of i] by (auto simp: clean_byte_def)

lemma encoded_bytes_clean_byte: "\<forall>x\<in>set (encoded_bytes w). clean_byte ascii x"
  by (simp add: encoded_bytes_def hex_char_clean_byte nibbles) (simp add: clean_byte_def)

lemma encoded_code_clean_byte: "\<forall>x\<in>set (encoded_code c). clean_byte ascii x" "length (encoded_code c) \<le> 12"
  using encoded_bytes_clean_byte by (auto simp: encoded_code_def encoded_bytes_def)

lemma utf8_bytes_clean_byte:
  assumes "\<not> c < 0x80" shows "\<forall>x\<in>set (utf8_bytes c). clean_byte False x"
proof -
  have h: "bit (0x80 :: u32) 7" "bit (0xC0 :: u32) 7" "bit (0xE0 :: u32) 7" "bit (0xF0 :: u32) 7" by simp_all
  have b7: "clean_byte False x" if "bit x 7" for x :: byte
  proof -
    have "bit (unat x) 7" using that by (simp add: bit_unsigned_iff)
    then have "odd (unat x div 128)" by (simp add: bit_iff_odd)
    then have "128 \<le> unat x" by (metis div_less even_zero not_le)
    then show ?thesis by (simp add: clean_byte_def word_le_nat_alt)
  qed
  have "\<forall>x\<in>set (utf8_bytes c). bit x 7"
    using assms h by (simp add: utf8_bytes_def bit_ucast_iff bit_or_iff)
  then show ?thesis using b7 by blast
qed

lemma short_escape_clean_byte: "short_escape c = Some e \<Longrightarrow> (\<forall>x\<in>set e. clean_byte ascii x) \<and> length e = 2"
  by (auto simp: short_escape_def clean_byte_def split: if_splits)

lemma get_sound_bytes:
  assumes "string_utf8_get s p to = Some (c, q)" "p < to" "c \<noteq> 0xFFFD"
  shows "scalar (unat c)" "p < q" "q \<le> to" "q \<le> length s" "take (q - p) (drop p s) = utf8_bytes c"
proof -
  note sound = utf8_get_sound [OF assms]
  then show "scalar (unat c)" "p < q" "q \<le> to" "q \<le> length s" by simp_all
  have "unat c < 0x110000" using sound by (auto simp: scalar_def)
  then have "map unat (take (q - p) (drop p s)) = map unat (utf8_bytes c)" using sound utf8_bytes_nat by simp
  then show "take (q - p) (drop p s) = utf8_bytes c" by (rule map_injective) (simp add: inj_def word_unat_eq_iff)
qed

lemma get_big:
  assumes "string_utf8_get s p to = Some (c, q)" "p < to" "p < length s" "0x80 \<le> s ! p"
  shows "\<not> c < 0x80"
proof
  assume c: "c < 0x80"
  have "c \<noteq> 0xFFFD" using c by auto
  note g = get_sound_bytes [OF assms(1,2) this]
  have "take (q - p) (drop p s) = [ucast c]" using g(5) c by simp
  then have "s ! p = ucast c" using assms(3) by (metis hd_drop_conv_nth hd_take list.sel(1) take_eq_Nil2 list.distinct(1) zero_less_iff_neq_zero)
  then show False using assms(4) c by (simp add: word_le_nat_alt word_less_nat_alt ascii_byte)
qed

lemma encode_from_total:
  assumes "p \<le> length s" "buffer_holds b bs" "length bs + 12 * (length s - p) \<le> buffer_limit"
  shows "\<exists>b' out. string_utf8_encode_from b s ascii p = Some b' \<and> buffer_holds b' (bs @ out) \<and>
    (\<forall>x\<in>set out. clean_byte ascii x)"
  using assms
proof (induction "length s - p" arbitrary: p b bs rule: less_induct)
  case less
  note unfold = string_utf8_encode_from.simps [of b s ascii p]
  show ?case
  proof (cases "p = length s")
    case True
    then show ?thesis using less.prems(2) by (subst unfold) (auto intro: exI [of _ "[]"])
  next
    case False
    then have p: "p < length s" "char_at s p = Some (s ! p)" using less.prems(1) by (simp_all add: char_at_def)
    have next_step: ?thesis
      if st: "string_utf8_encode_from b s ascii p = string_utf8_encode_from b1 s ascii q"
        and q: "buffer_holds b1 (bs @ out)" "\<forall>x\<in>set out. clean_byte ascii x" "length out \<le> 12 * (q - p)" "p < q" "q \<le> length s"
      for b1 q out
    proof -
      have "length (bs @ out) + 12 * (length s - q) \<le> buffer_limit" using q(3-5) less.prems(3) by simp
      moreover have "length s - q < length s - p" using q(4,5) by simp
      ultimately obtain b' out' where "string_utf8_encode_from b1 s ascii q = Some b'" "buffer_holds b' ((bs @ out) @ out')"
        "\<forall>x\<in>set out'. clean_byte ascii x"
        using less.hyps [of q b1 "bs @ out"] q(1,5) by auto
      then show ?thesis using st q by (intro exI [of _ b'] exI [of _ "out @ out'"]) auto
    qed
    have room: "length bs + 12 \<le> buffer_limit" using less.prems(3) p by auto
    consider (regular) "string_utf8_regular (s ! p)" | (multi) "\<not> string_utf8_regular (s ! p)" "0x80 \<le> s ! p"
      | (control) "\<not> string_utf8_regular (s ! p)" "\<not> 0x80 \<le> s ! p" by blast
    then show ?thesis
    proof cases
      case regular
      let ?t = "takeWhile string_utf8_regular (drop (p + 1) s)"
      have q: "regular_end s (p + 1) = p + 1 + length ?t" using p by (intro regular_end_eq) simp
      have lt: "p + 1 + length ?t \<le> length s" using p length_takeWhile_le [of string_utf8_regular "drop (p + 1) s"] by simp
      have "range_of s p (regular_end s (p + 1)) = s ! p # ?t"
        using p takeWhile_eq_take [of string_utf8_regular "drop (p + 1) s"]
        by (simp add: range_of_def q [unfolded Suc_eq_plus1 [symmetric]] flip: Cons_nth_drop_Suc)
      moreover have "length bs + length (s ! p # ?t) \<le> buffer_limit"
        using less.prems(3) lt by simp
      then obtain b1 where "buffer_append b (data_literal (s ! p # ?t)) = Some b1" "buffer_holds b1 (bs @ s ! p # ?t)"
        using append_bytes [OF less.prems(2)] by blast
      ultimately show ?thesis
        using next_step [of b1 "p + 1 + length ?t" "s ! p # ?t"] p regular lt q
        by (subst (asm) unfold) (auto intro: regular_clean_byte dest: set_takeWhileD)
    next
      case multi
      obtain c q where get: "string_utf8_get s p (length s) = Some (c, q)" "p < q" "q \<le> length s"
        using get_total [OF p(1)] by blast
      then have c: "\<not> c < 0x80" using get_big [OF get(1) p(1) p(1)] multi by blast
      define out where "out = (if ascii then encoded_code c else utf8_bytes c)"
      have out: "\<forall>x\<in>set out. clean_byte ascii x" "length out \<le> 12"
        using encoded_code_clean_byte(1) [of c ascii] encoded_code_clean_byte(2) [of c] utf8_bytes_clean_byte [OF c] utf8_bytes_length(1) [of c] by (auto simp: out_def)
      have "\<exists>b1. (if ascii then string_utf8_put_encoded b c else string_utf8_put b c) = Some b1 \<and> buffer_holds b1 (bs @ out)"
        using put_encoded_holds [OF less.prems(2), of c] put_holds [OF less.prems(2), of c] out(2) room
        by (auto simp: out_def)
      then obtain b1 where "(if ascii then string_utf8_put_encoded b c else string_utf8_put b c) = Some b1"
        "buffer_holds b1 (bs @ out)" by blast
      then show ?thesis
        using next_step [of b1 q out] p multi get out by (subst (asm) unfold) auto
    next
      case control
      define out where "out = (case short_escape (s ! p) of Some e \<Rightarrow> e | None \<Rightarrow> encoded_bytes (ucast (s ! p)))"
      have out: "\<forall>x\<in>set out. clean_byte ascii x" "length out \<le> 12"
        using encoded_bytes_clean_byte short_escape_clean_byte by (auto simp: out_def encoded_bytes_def split: option.splits)
      obtain b1 where b1: "buffer_append b (data_literal out) = Some b1" "buffer_holds b1 (bs @ out)"
        using append_bytes [OF less.prems(2), of out] out(2) room by auto
      then have "(case short_escape (s ! p) of Some e \<Rightarrow> buffer_append b (data_literal e)
          | None \<Rightarrow> string_utf8_put_encoded_basic b (ucast (s ! p))) = Some b1"
        by (simp add: out_def string_utf8_put_encoded_basic_def split: option.splits)
      then have "string_utf8_encode_from b s ascii p = string_utf8_encode_from b1 s ascii (p + 1)"
        using p control by (subst unfold) simp
      then show ?thesis using next_step [of b1 "p + 1" out] b1(2) p out by simp
    qed
  qed
qed

section \<open>Lengths\<close>

lemma length_from_valid:
  "drop p s = utf8_string cs \<Longrightarrow> p \<le> length s \<Longrightarrow> scalars cs \<Longrightarrow>
    string_utf8_length_from s p (length s) n = Some (n + of_nat (length cs))"
proof (induction cs arbitrary: p n)
  case Nil
  then have "\<not> p < length s" by simp
  then show ?case by (subst string_utf8_length_from.simps) simp
next
  case (Cons c cs)
  have c: "scalar (unat c)" "scalars cs" using Cons.prems(3) by simp_all
  have len: "p + length (utf8_bytes c) \<le> length s" using arg_cong [OF Cons.prems(1), of length] Cons.prems(2) by simp
  then have p: "p < length s" using utf8_bytes_length(2) [of c] by (cases "utf8_bytes c") auto
  have get: "string_utf8_get s p (length s) = Some (c, p + length (utf8_bytes c))"
    using utf8_get_bytes [OF c(1), of p s "utf8_string cs" "length s"] Cons.prems(1) len by simp
  have "drop (p + length (utf8_bytes c)) s = drop (length (utf8_bytes c)) (drop p s)" by (simp add: add.commute)
  then have "drop (p + length (utf8_bytes c)) s = utf8_string cs" using Cons.prems(1) by simp
  then have "string_utf8_length_from s (p + length (utf8_bytes c)) (length s) (n + 1) = Some (n + 1 + of_nat (length cs))"
    using Cons.IH len c(2) by simp
  then show ?case using p get by (subst string_utf8_length_from.simps) (simp add: add.assoc)
qed

lemma length_from_total:
  "p \<le> length s \<Longrightarrow> \<exists>k. string_utf8_length_from s p (length s) n = Some (n + of_nat k) \<and> k \<le> length s - p"
proof (induction "length s - p" arbitrary: p n rule: less_induct)
  case less
  show ?case
  proof (cases "p < length s")
    case True
    then obtain c q where g: "string_utf8_get s p (length s) = Some (c, q)" "p < q" "q \<le> length s"
      using get_total [of p "length s" s] by auto
    then have "\<exists>k. string_utf8_length_from s q (length s) (n + 1) = Some (n + 1 + of_nat k) \<and> k \<le> length s - q"
      using True by (intro less.hyps) auto
    then obtain k where k: "string_utf8_length_from s q (length s) (n + 1) = Some (n + 1 + of_nat k)" "k \<le> length s - q"
      by blast
    have "string_utf8_length_from s p (length s) n = Some (n + of_nat (Suc k))"
      using True g(1) k(1) by (subst string_utf8_length_from.simps) (simp add: add.assoc)
    moreover have "Suc k \<le> length s - p" using g(2,3) k(2) by simp
    ultimately show ?thesis by blast
  next
    case False
    then have "string_utf8_length_from s p (length s) n = Some (n + of_nat 0)"
      by (subst string_utf8_length_from.simps) simp
    then show ?thesis by blast
  qed
qed

section \<open>Properties\<close>



text \<open>
  \<open>string_utf8_put\<close> and \<open>string_utf8_get\<close> round trip: every scalar value put at the end of a
  buffer is read back from its place in the buffer's bytes, whatever follows it.
\<close>

theorem string_utf8_put_get:
  assumes "buffer_holds b bs" "length bs + 4 \<le> buffer_limit" "scalar (unat c)"
  shows "\<exists>b' xs. string_utf8_put b c = Some b' \<and> buffer_holds b' (bs @ xs) \<and>
    (\<forall>r. string_utf8_get (bs @ xs @ r) (length bs) (length (bs @ xs @ r)) = Some (c, length bs + length xs))"
proof -
  obtain b' where "string_utf8_put b c = Some b'" "buffer_holds b' (bs @ utf8_bytes c)"
    using put_holds [OF assms(1), of c] utf8_bytes_length(1) [of c] assms(2) by auto
  then show ?thesis using utf8_get_bytes [OF assms(3), of "length bs"] by (intro exI [of _ b'] exI [of _ "utf8_bytes c"]) simp
qed

lemma string_utf8_put_get_witness:
  "\<exists>b' xs. string_utf8_put (buffer_of [65]) 0x20AC = Some b' \<and> buffer_holds b' ([65] @ xs) \<and>
    (\<forall>r. string_utf8_get ([65] @ xs @ r) (length [65 :: byte]) (length ([65] @ xs @ r)) = Some (0x20AC, length [65 :: byte] + length xs))"
  by (rule string_utf8_put_get) (simp_all add: buffer_limit_def scalar_def)

text \<open>
  C29: \<open>string_utf8_length\<close> returns for every string, at most one code per byte, and for a valid
  UTF-8 string it is the number of code points.
\<close>

theorem string_utf8_length_counts:
  assumes "data_bytes str = Some s"
  shows "\<exists>k. string_utf8_length str = Some (of_nat k) \<and> k \<le> length s \<and>
    (\<forall>cs. scalars cs \<and> s = utf8_string cs \<longrightarrow> (of_nat k :: size_t) = of_nat (length cs))"
proof -
  obtain k where k: "string_utf8_length_from s 0 (length s) 0 = Some (of_nat k)" "k \<le> length s"
    using length_from_total [of 0 s 0] by auto
  moreover have "(of_nat k :: size_t) = of_nat (length cs)" if "scalars cs" "s = utf8_string cs" for cs
    using length_from_valid [of 0 s cs 0] k(1) that by simp
  ultimately show ?thesis using assms by (auto simp: string_utf8_length_def)
qed

lemma string_utf8_length_counts_witness:
  "\<exists>k. string_utf8_length (data_literal [0x41, 0xC3, 0xA9]) = Some (of_nat k) \<and> k \<le> 3 \<and> (of_nat k :: size_t) = 2"
proof -
  have s: "scalars [0x41, 0xE9] \<and> [0x41, 0xC3, 0xA9] = utf8_string [0x41, 0xE9]"
    by (simp add: utf8_bytes_def scalar_def)
  have "data_bytes (data_literal [0x41, 0xC3, 0xA9]) = Some [0x41, 0xC3, 0xA9]"
    by (simp add: data_bytes_def data_literal_def ptr_bytes_def)
  from string_utf8_length_counts [OF this] obtain k where
    k: "string_utf8_length (data_literal [0x41, 0xC3, 0xA9]) = Some (of_nat k)" "k \<le> length [0x41, 0xC3, 0xA9 :: byte]"
      "\<forall>cs. scalars cs \<and> [0x41, 0xC3, 0xA9] = utf8_string cs \<longrightarrow> (of_nat k :: size_t) = of_nat (length cs)"
    by blast
  have "(of_nat k :: size_t) = of_nat (length [0x41, 0xE9 :: u32])" using k(3) s by blast
  then show ?thesis using k(1,2) by (intro exI [of _ k]) simp
qed

text \<open>
  \<open>string_utf8_encode\<close> returns for every string, valid UTF-8 or not; what it appends has no
  control character, and with the ascii option only 7-bit bytes.
\<close>

theorem string_utf8_encode_clean:
  assumes "data_bytes str = Some s" "buffer_holds b bs" "length bs + 12 * length s \<le> buffer_limit"
  shows "\<exists>b' out. string_utf8_encode b str ascii = Some (b', True) \<and> buffer_holds b' (bs @ out) \<and>
    (\<forall>x\<in>set out. 0x20 \<le> x \<and> (ascii \<longrightarrow> x < 0x80))"
  using encode_from_total [of 0 s b bs ascii] assms by (auto simp: string_utf8_encode_def clean_byte_def)

lemma string_utf8_encode_clean_witness:
  "\<exists>b' out. string_utf8_encode (buffer_of []) (data_literal [0xFF, 10]) True = Some (b', True) \<and>
    buffer_holds b' ([] @ out) \<and> (\<forall>x\<in>set out. 0x20 \<le> x \<and> (True \<longrightarrow> x < 0x80))"
  by (rule string_utf8_encode_clean [where s = "[0xFF, 10]"])
    (simp_all add: data_bytes_def data_literal_def ptr_bytes_def buffer_limit_def)

text \<open>
  C27: Escaping a valid UTF-8 string and decoding the result up to a closing quote gives the
  same string, zero-terminated, and the position of the quote. With the ascii option a code
  point above the basic plane comes back as \<open>reread_code\<close> says: unchanged exactly when bit 16
  of its offset from 0x10000 is clear.
\<close>

theorem string_utf8_encode_decode:
  assumes "data_bytes str = Some (utf8_string cs)" "scalars cs"
    "length (escape_string ascii cs) \<le> buffer_limit" "length (utf8_string (map (reread ascii) cs)) + 1 \<le> buffer_limit"
  shows "\<exists>b out. string_utf8_encode buffer_construct str ascii = Some (b, True) \<and> buffer_holds b out \<and>
    string_utf8_decode (out @ [34]) 0 = Some (string_holding (utf8_string (map (reread ascii) cs)), length out) \<and>
    (\<forall>c\<in>set cs. reread ascii c = c \<longleftrightarrow> \<not> ascii \<or> c < 0x10000 \<or> \<not> bit (c - 0x10000) 16)"
proof -
  have h: "buffer_holds buffer_construct []" by (simp add: buffer_holds_def buffer_ok_def buffer_cells_def)
  obtain b where b: "string_utf8_encode_from buffer_construct (utf8_string cs) ascii 0 = Some b"
    "buffer_holds b (escape_string ascii cs)"
    using encode_from_holds [of 0 "utf8_string cs" cs buffer_construct "[]" ascii] h assms(2,3) by auto
  obtain b1 where b1: "string_utf8_decode_from (escape_string ascii cs @ [34]) buffer_construct 0 =
      Some (b1, length (escape_string ascii cs))"
    "buffer_holds b1 (utf8_string (map (reread ascii) cs))"
    using decode_from_holds [of 0 "escape_string ascii cs @ [34]" ascii cs 34 "[]" buffer_construct "[]"] h assms(2,4)
    by (auto simp: string_utf8_regular_def)
  obtain b2 where "buffer_append b1 (data_literal [0]) = Some b2"
    "buffer_data (buffer_resize (buffer_compact b2) (buffer_size (buffer_compact b2) - 1)) =
      string_holding (utf8_string (map (reread ascii) cs))"
    using decode_close [OF b1(2) assms(4)] by blast
  then have "string_utf8_decode (escape_string ascii cs @ [34]) 0 =
      Some (string_holding (utf8_string (map (reread ascii) cs)), length (escape_string ascii cs))"
    using b1(1) by (simp add: string_utf8_decode_def Let_def)
  moreover have "reread ascii c = c \<longleftrightarrow> \<not> ascii \<or> c < 0x10000 \<or> \<not> bit (c - 0x10000) 16" if "c \<in> set cs" for c
    using reread_code_eq [of c] assms(2) that by (auto simp: reread_def scalars_def)
  moreover have "string_utf8_encode buffer_construct str ascii = Some (b, True)"
    using assms(1) b(1) by (simp add: string_utf8_encode_def)
  ultimately show ?thesis using b by blast
qed

lemma string_utf8_encode_decode_witness:
  "\<exists>b out. string_utf8_encode buffer_construct (data_literal (utf8_string [0x41, 0x20000])) True = Some (b, True) \<and>
    buffer_holds b out \<and>
    string_utf8_decode (out @ [34]) 0 = Some (string_holding (utf8_string [0x41, 0x10000]), length out)"
proof -
  have r1: "reread True 0x20000 = 0x10000" by (simp add: reread_def reread_code_def)
  then have r: "map (reread True) [0x41, 0x20000] = [0x41, 0x10000]" by simp
  have l: "length (escape_string True [0x41, 0x20000]) \<le> 24" "length (utf8_string [0x41, 0x10000]) \<le> 8"
    using encoded_code_clean_byte(2) [of "0x20000"] utf8_bytes_length(1) [of "0x10000"]
    by (simp_all add: escape_code_def plain_def string_utf8_regular_def)
  have d: "data_bytes (data_literal (utf8_string [0x41, 0x20000])) = Some (utf8_string [0x41, 0x20000])"
    by (rule data_bytes_literal) (use utf8_bytes_length(1) [of "0x20000"] in simp)
  have "\<exists>b out. string_utf8_encode buffer_construct (data_literal (utf8_string [0x41, 0x20000])) True = Some (b, True) \<and>
      buffer_holds b out \<and>
      string_utf8_decode (out @ [34]) 0 = Some (string_holding (utf8_string (map (reread True) [0x41, 0x20000])), length out) \<and>
      (\<forall>c\<in>set [0x41, 0x20000]. reread True c = c \<longleftrightarrow> \<not> True \<or> c < 0x10000 \<or> \<not> bit (c - 0x10000) 16)"
    using l by (intro string_utf8_encode_decode d) (simp_all add: scalar_def buffer_limit_def r1 del: seq_simps(2))
  then show ?thesis unfolding r by blast
qed

text \<open>
  C30: A literal whose last byte before the end of its block is the lead byte of a two-byte
  sequence and the terminating zero: \<open>string_utf8_decode\<close> takes the zero for the second byte and
  then reads behind the block.
\<close>

theorem string_utf8_decode_overrun:
  assumes "194 \<le> unat lead" "unat lead < 224"
  shows "string_utf8_decode [lead, 0] 0 = None"
proof -
  have r: "\<not> string_utf8_regular lead" "0x80 \<le> lead"
    using assms by (auto simp: string_utf8_regular_def word_le_nat_alt word_less_nat_alt)
  have "string_utf8_get [lead, 0] 0 4 = Some (0xFFFD, 2)"
    using assms utf8_start [of 0 lead] get_loop_step [of 0 4 "[lead, 0]" 0 0] get_loop_step [of 1 4 "[lead, 0]" 24]
      utf8_states(1) [of _ 0]
    by (simp add: string_utf8_get_def STATE_ACCEPT_def)
  moreover have "\<exists>b. string_utf8_put buffer_construct 0xFFFD = Some b"
    using put_holds [of buffer_construct "[]" "0xFFFD"] utf8_bytes_length(1) [of "0xFFFD"]
    by (auto simp: buffer_holds_def buffer_ok_def buffer_cells_def buffer_limit_def)
  then obtain b where "string_utf8_put buffer_construct 0xFFFD = Some b" ..
  ultimately have "string_utf8_decode_step [lead, 0] buffer_construct 0 = Some (b, 2)"
    using r by (simp add: string_utf8_decode_step_def char_at_def)
  moreover have "string_utf8_decode_from [lead, 0] b 2 = None"
    by (subst string_utf8_decode_from.simps) (simp add: string_utf8_decode_step_def char_at_def)
  ultimately have "string_utf8_decode_from [lead, 0] buffer_construct 0 = None"
    by (subst string_utf8_decode_from.simps) simp
  then show ?thesis by (simp add: string_utf8_decode_def)
qed

lemma string_utf8_decode_overrun_witness: "string_utf8_decode [0xC3, 0] 0 = None"
  by (rule string_utf8_decode_overrun) simp_all

end
