(* ===== verification/Value.thy ===== *)
theory Value
  imports Vector Maps Utf8_Escape
begin

text \<open>
  Dynamic values (\<^verbatim>\<open>src/reactor/value.c\<close>): reference-counted blocks on an explicit heap. A value is
  an address; \<open>NULL\<close> is the undefined value. The constructors of \<open>value_content\<close> stand for the static
  tables, and hold what the block holds: a vector of pointers for an array, a map with pointers for an
  object. The C type \<open>long double\<close> is the type variable \<open>'n\<close>.

  Releasing a value for the last time destroys it. The callbacks that release the elements of an array
  and the entries of an object are called in order; here they collect the pointers, which are then
  released in this order. A block that has been freed is unmapped, and an access to it is \<open>None\<close>, as is
  every access outside a block. A string constant shares its bytes with its owner; here it holds them.
\<close>

section \<open>The heap\<close>

type_synonym value_t = u64

datatype 'n value_content =
    Null_value
  | Bool_value bool
  | Number_value 'n
  | String_value string_t
  | Array_value vector
  | Object_value mapd

record 'n value_header =
  value_refs :: size_t
  value_of :: "'n value_content"

text \<open>
  The blocks in use, and the addresses \<open>malloc\<close> is going to return. \<open>malloc\<close> never returns \<open>NULL\<close> here,
  nor the address of a static object or of a block in use.
\<close>

record 'n value_heap =
  value_blocks :: "value_t \<rightharpoonup> 'n value_header"
  value_supply :: "value_t list"

definition value_undefined :: value_t where
  "value_undefined = 0"

text \<open>The address of the static header's value.\<close>

definition value_null :: value_t where
  "value_null = 8"

definition value_header :: "'n value_heap \<Rightarrow> value_t \<Rightarrow> 'n value_header option" where
  "value_header h v =
     (if v = value_null then Some \<lparr>value_refs = 0, value_of = Null_value\<rparr> else value_blocks h v)"

definition value_update :: "value_t \<Rightarrow> 'n value_header \<Rightarrow> 'n value_heap \<Rightarrow> 'n value_heap" where
  "value_update v x h = h\<lparr>value_blocks := (value_blocks h)(v \<mapsto> x)\<rparr>"

definition value_free :: "value_t \<Rightarrow> 'n value_heap \<Rightarrow> 'n value_heap" where
  "value_free v h = h\<lparr>value_blocks := (value_blocks h)(v := None)\<rparr>"

definition value_create :: "'n value_content \<Rightarrow> 'n value_heap \<Rightarrow> (value_t \<times> 'n value_heap) option" where
  "value_create x h =
     (case value_supply h of
        [] \<Rightarrow> None
      | v # vs \<Rightarrow>
          if v = value_undefined \<or> v = value_null \<or> v \<in> dom (value_blocks h) then None
          else Some (v, value_update v \<lparr>value_refs = 1, value_of = x\<rparr> (h\<lparr>value_supply := vs\<rparr>)))"

section \<open>Reference counts\<close>

definition value_ref :: "value_t \<Rightarrow> 'n value_heap \<Rightarrow> size_t option" where
  "value_ref v h = (if v = value_undefined then Some 0 else map_option value_refs (value_header h v))"

definition value_hold :: "value_t \<Rightarrow> 'n value_heap \<Rightarrow> 'n value_heap option" where
  "value_hold v h =
     (if v = value_undefined then Some h
      else map_option (\<lambda>x. if value_refs x \<noteq> 0 then value_update v (x\<lparr>value_refs := value_refs x + 1\<rparr>) h else h)
        (value_header h v))"

text \<open>The pointers that destroying a value releases, in order: \<open>value_array_destroy\<close>, \<open>value_object_release\<close>.\<close>

definition value_array_destroy :: "vector \<Rightarrow> value_t list option" where
  "value_array_destroy array =
     Option.bind (vector_destruct array (Some (\<lambda>element released. released @ [cells_word element])) []) those"

definition value_object_release :: "mapd \<Rightarrow> value_t list option" where
  "value_object_release object = mapd_destruct object (Some (\<lambda>entry released. released @ [mapd_value entry])) []"

definition value_destroy :: "'n value_content \<Rightarrow> value_t list option" where
  "value_destroy x =
     (case x of
        Array_value array \<Rightarrow> value_array_destroy array
      | Object_value object \<Rightarrow> value_object_release object
      | _ \<Rightarrow> Some [])"

text \<open>\<open>value_release\<close> on values one after the other, each with all it owns.\<close>

partial_function (option) value_release_all :: "value_t list \<Rightarrow> 'n value_heap \<Rightarrow> 'n value_heap option" where
  "value_release_all vs h =
     (case vs of
        [] \<Rightarrow> Some h
      | v # vs \<Rightarrow>
          if v = value_undefined then value_release_all vs h
          else Option.bind (value_header h v) (\<lambda>x.
            if value_refs x = 0 then value_release_all vs h
            else if value_refs x - 1 \<noteq> 0
            then value_release_all vs (value_update v (x\<lparr>value_refs := value_refs x - 1\<rparr>) h)
            else Option.bind (value_destroy (value_of x)) (\<lambda>owned.
              Option.bind (value_release_all owned (value_update v (x\<lparr>value_refs := 0\<rparr>) h)) (\<lambda>h.
                value_release_all vs (value_free v h)))))"

declare value_release_all.simps [code]

definition value_release :: "value_t \<Rightarrow> 'n value_heap \<Rightarrow> 'n value_heap option" where
  "value_release v h = value_release_all [v] h"

section \<open>Types\<close>

datatype value_type =
    VALUE_UNDEFINED | VALUE_NULL | VALUE_BOOL | VALUE_NUMBER | VALUE_STRING | VALUE_ARRAY | VALUE_OBJECT

definition value_user :: "'n value_content \<Rightarrow> value_type" where
  "value_user x =
     (case x of
        Null_value \<Rightarrow> VALUE_NULL
      | Bool_value _ \<Rightarrow> VALUE_BOOL
      | Number_value _ \<Rightarrow> VALUE_NUMBER
      | String_value _ \<Rightarrow> VALUE_STRING
      | Array_value _ \<Rightarrow> VALUE_ARRAY
      | Object_value _ \<Rightarrow> VALUE_OBJECT)"

definition value_type :: "value_t \<Rightarrow> 'n value_heap \<Rightarrow> value_type option" where
  "value_type v h =
     (if v = value_undefined then Some VALUE_UNDEFINED
      else map_option (\<lambda>x. value_user (value_of x)) (value_header h v))"

definition value_is :: "value_type \<Rightarrow> value_t \<Rightarrow> 'n value_heap \<Rightarrow> bool option" where
  "value_is t v h = map_option (\<lambda>u. u = t) (value_type v h)"

definition value_is_undefined :: "value_t \<Rightarrow> 'n value_heap \<Rightarrow> bool option" where
  "value_is_undefined v h = value_is VALUE_UNDEFINED v h"

definition value_is_null :: "value_t \<Rightarrow> 'n value_heap \<Rightarrow> bool option" where
  "value_is_null v h = value_is VALUE_NULL v h"

definition value_is_bool :: "value_t \<Rightarrow> 'n value_heap \<Rightarrow> bool option" where
  "value_is_bool v h = value_is VALUE_BOOL v h"

definition value_is_number :: "value_t \<Rightarrow> 'n value_heap \<Rightarrow> bool option" where
  "value_is_number v h = value_is VALUE_NUMBER v h"

definition value_is_string :: "value_t \<Rightarrow> 'n value_heap \<Rightarrow> bool option" where
  "value_is_string v h = value_is VALUE_STRING v h"

definition value_is_array :: "value_t \<Rightarrow> 'n value_heap \<Rightarrow> bool option" where
  "value_is_array v h = value_is VALUE_ARRAY v h"

definition value_is_object :: "value_t \<Rightarrow> 'n value_heap \<Rightarrow> bool option" where
  "value_is_object v h = value_is VALUE_OBJECT v h"

text \<open>
  What a function does with a value: reading \<open>*value\<close> after the test of its type. \<open>otherwise\<close> is the
  answer for values of other types, the undefined one among them.
\<close>

definition value_read :: "('n value_content \<Rightarrow> 'b option) \<Rightarrow> 'b \<Rightarrow> value_t \<Rightarrow> 'n value_heap \<Rightarrow> 'b option" where
  "value_read get otherwise v h =
     (if v = value_undefined then Some otherwise
      else map_option (\<lambda>x. case get (value_of x) of Some y \<Rightarrow> y | None \<Rightarrow> otherwise) (value_header h v))"

section \<open>Scalars and strings\<close>

definition value_bool :: "bool \<Rightarrow> 'n value_heap \<Rightarrow> (value_t \<times> 'n value_heap) option" where
  "value_bool b h = value_create (Bool_value b) h"

definition value_bool_get :: "value_t \<Rightarrow> 'n value_heap \<Rightarrow> bool option" where
  "value_bool_get = value_read (\<lambda>x. case x of Bool_value b \<Rightarrow> Some b | _ \<Rightarrow> None) False"

definition value_number :: "'n \<Rightarrow> 'n value_heap \<Rightarrow> (value_t \<times> 'n value_heap) option" where
  "value_number n h = value_create (Number_value n) h"

definition value_number_get :: "value_t \<Rightarrow> 'n::zero value_heap \<Rightarrow> 'n option" where
  "value_number_get = value_read (\<lambda>x. case x of Number_value n \<Rightarrow> Some n | _ \<Rightarrow> None) 0"

definition value_string :: "string_t \<Rightarrow> 'n value_heap \<Rightarrow> (value_t \<times> 'n value_heap) option" where
  "value_string s h = Option.bind (data_copyz s) (\<lambda>s. value_create (String_value s) h)"

definition value_string_constant :: "string_t \<Rightarrow> 'n value_heap \<Rightarrow> (value_t \<times> 'n value_heap) option" where
  "value_string_constant s h = value_create (String_value s) h"

definition value_string_release :: "string_t \<Rightarrow> 'n value_heap \<Rightarrow> (value_t \<times> 'n value_heap) option" where
  "value_string_release s h = value_create (String_value s) h"

definition value_string_get :: "value_t \<Rightarrow> 'n value_heap \<Rightarrow> string_t option" where
  "value_string_get = value_read (\<lambda>x. case x of String_value s \<Rightarrow> Some s | _ \<Rightarrow> None) string_null"

definition value_string_base :: "value_t \<Rightarrow> 'n value_heap \<Rightarrow> ptr option" where
  "value_string_base = value_read (\<lambda>x. case x of String_value s \<Rightarrow> Some (string_base s) | _ \<Rightarrow> None) None"

definition value_string_size :: "value_t \<Rightarrow> 'n value_heap \<Rightarrow> size_t option" where
  "value_string_size = value_read (\<lambda>x. case x of String_value s \<Rightarrow> Some (string_size s) | _ \<Rightarrow> None) 0"

section \<open>Arrays\<close>

text \<open>The vector or the map of a value, if it is an array or an object.\<close>

definition value_vector :: "value_t \<Rightarrow> 'n value_heap \<Rightarrow> vector option option" where
  "value_vector = value_read (\<lambda>x. case x of Array_value vec \<Rightarrow> Some (Some vec) | _ \<Rightarrow> None) None"

definition value_map :: "value_t \<Rightarrow> 'n value_heap \<Rightarrow> mapd option option" where
  "value_map = value_read (\<lambda>x. case x of Object_value m \<Rightarrow> Some (Some m) | _ \<Rightarrow> None) None"

definition value_write :: "value_t \<Rightarrow> 'n value_content \<Rightarrow> 'n value_heap \<Rightarrow> 'n value_heap option" where
  "value_write v y h = map_option (\<lambda>x. value_update v (x\<lparr>value_of := y\<rparr>) h) (value_blocks h v)"

definition value_array :: "'n value_heap \<Rightarrow> (value_t \<times> 'n value_heap) option" where
  "value_array h = value_create (Array_value (vector_construct 8)) h"

definition value_array_length :: "value_t \<Rightarrow> 'n value_heap \<Rightarrow> size_t option" where
  "value_array_length = value_read (\<lambda>x. case x of Array_value vec \<Rightarrow> Some (vector_size vec) | _ \<Rightarrow> None) 0"

definition value_array_append :: "value_t \<Rightarrow> value_t \<Rightarrow> 'n value_heap \<Rightarrow> 'n value_heap option" where
  "value_array_append array element h = do {
     a \<leftarrow> value_vector array h;
     (if a = None then Some h
      else do {
        h \<leftarrow> value_hold element h;
        a \<leftarrow> value_vector array h;
        vec \<leftarrow> a;
        vec \<leftarrow> vector_push_back vec (Some (word_cells element));
        value_write array (Array_value vec) h }) }"

definition value_array_append_release :: "value_t \<Rightarrow> value_t \<Rightarrow> 'n value_heap \<Rightarrow> 'n value_heap option" where
  "value_array_append_release array element h =
     Option.bind (value_array_append array element h) (value_release element)"

definition value_array_get :: "value_t \<Rightarrow> size_t \<Rightarrow> 'n value_heap \<Rightarrow> value_t option" where
  "value_array_get array index h =
     Option.bind (value_vector array h) (\<lambda>a.
       case a of
         None \<Rightarrow> Some value_undefined
       | Some vec \<Rightarrow> Option.bind (vector_object vec (vector_at vec index)) cells_word)"

text \<open>The element is released before the vector closes the gap.\<close>

definition value_array_remove :: "value_t \<Rightarrow> size_t \<Rightarrow> 'n value_heap \<Rightarrow> 'n value_heap option" where
  "value_array_remove array index h =
     Option.bind (value_vector array h) (\<lambda>a.
       case a of
         None \<Rightarrow> Some h
       | Some vec \<Rightarrow> do {
           (vec, released) \<leftarrow> vector_erase vec index (Some (\<lambda>element released. released @ [cells_word element])) [];
           released \<leftarrow> those released;
           h \<leftarrow> value_release_all released h;
           value_write array (Array_value vec) h })"

section \<open>Objects\<close>

definition value_object :: "'n value_heap \<Rightarrow> (value_t \<times> 'n value_heap) option" where
  "value_object h = Option.bind mapd_construct (\<lambda>m. value_create (Object_value m) h)"

definition value_object_size :: "value_t \<Rightarrow> 'n value_heap \<Rightarrow> size_t option" where
  "value_object_size = value_read (\<lambda>x. case x of Object_value m \<Rightarrow> Some (mapd_size m) | _ \<Rightarrow> None) 0"

definition value_object_delete :: "value_t \<Rightarrow> string_t \<Rightarrow> 'n value_heap \<Rightarrow> 'n value_heap option" where
  "value_object_delete object key h =
     Option.bind (value_map object h) (\<lambda>a.
       case a of
         None \<Rightarrow> Some h
       | Some m \<Rightarrow> do {
           k \<leftarrow> data_bytes key;
           (m, released) \<leftarrow> mapd_erase m k (Some (\<lambda>entry released. released @ [mapd_value entry])) [];
           h \<leftarrow> value_release_all released h;
           value_write object (Object_value m) h })"

text \<open>The key is copied into the map, which keeps its bytes.\<close>

definition value_object_set :: "value_t \<Rightarrow> string_t \<Rightarrow> value_t \<Rightarrow> 'n value_heap \<Rightarrow> 'n value_heap option" where
  "value_object_set object key v h = do {
     a \<leftarrow> value_map object h;
     (if a = None then Some h
      else do {
        h \<leftarrow> value_object_delete object key h;
        h \<leftarrow> value_hold v h;
        a \<leftarrow> value_map object h;
        m \<leftarrow> a;
        copy \<leftarrow> string_copy key;
        k \<leftarrow> data_bytes copy;
        (m, released) \<leftarrow> mapd_insert m k v (Some (\<lambda>entry released. released @ [mapd_value entry])) [];
        h \<leftarrow> value_release_all released h;
        value_write object (Object_value m) h }) }"

definition value_object_set_release :: "value_t \<Rightarrow> string_t \<Rightarrow> value_t \<Rightarrow> 'n value_heap \<Rightarrow> 'n value_heap option" where
  "value_object_set_release object key v h =
     Option.bind (value_object_set object key v h) (value_release v)"

definition value_object_get :: "value_t \<Rightarrow> string_t \<Rightarrow> 'n value_heap \<Rightarrow> value_t option" where
  "value_object_get object key h =
     Option.bind (value_map object h) (\<lambda>a.
       case a of
         None \<Rightarrow> Some value_undefined
       | Some m \<Rightarrow> Option.bind (data_bytes key) (\<lambda>k. mapd_at m k))"

text \<open>
  The comparison of two keys: \<open>memcmp\<close> on the common length, then the longer one is greater. Equal keys
  do not occur.
\<close>

definition keys_compare :: "byte list \<Rightarrow> byte list \<Rightarrow> int" where
  "keys_compare xs ys =
     (let result = bytes_compare xs ys
      in if result \<noteq> 0 then result else if length xs > length ys then 1 else - 1)"

definition value_key :: "'n value_heap \<Rightarrow> block \<Rightarrow> byte list option" where
  "value_key h p = Option.bind (cells_word p) (\<lambda>v. Option.bind (value_string_get v h) data_bytes)"

definition value_object_keys_compare :: "'n value_heap \<Rightarrow> block \<Rightarrow> block \<Rightarrow> int" where
  "value_object_keys_compare h p1 p2 =
     (case value_key h p1 of
        None \<Rightarrow> 0
      | Some xs \<Rightarrow> (case value_key h p2 of None \<Rightarrow> 0 | Some ys \<Rightarrow> keys_compare xs ys))"

text \<open>The loop over the slots of the map; a slot without a key is free.\<close>

fun value_object_keys_loop :: "value_t \<Rightarrow> mapd_entry list \<Rightarrow> 'n value_heap \<Rightarrow> 'n value_heap option" where
  "value_object_keys_loop array [] h = Some h"
| "value_object_keys_loop array (entry # entries) h =
     (case mapd_key entry of
        None \<Rightarrow> value_object_keys_loop array entries h
      | Some k \<Rightarrow>
          Option.bind (value_string_constant (string_holding k) h) (\<lambda>(element, h).
            Option.bind (value_array_append_release array element h) (value_object_keys_loop array entries)))"

definition value_object_keys :: "value_t \<Rightarrow> 'n value_heap \<Rightarrow> (value_t \<times> 'n value_heap) option" where
  "value_object_keys object h = do {
     (array, h) \<leftarrow> value_array h;
     a \<leftarrow> value_map object h;
     h \<leftarrow> (case a of
         None \<Rightarrow> Some h
       | Some m \<Rightarrow>
           (case elements m of
              None \<Rightarrow> if elements_capacity m = 0 then Some h else None
            | Some es \<Rightarrow>
                if unat (elements_capacity m) \<le> length es
                then value_object_keys_loop array (take (unat (elements_capacity m)) es) h else None));
     a \<leftarrow> value_vector array h;
     vec \<leftarrow> a;
     vec \<leftarrow> vector_sort vec (value_object_keys_compare h);
     h \<leftarrow> value_write array (Array_value vec) h;
     Some (array, h) }"

end
