(* ===== verification/Decode.thy ===== *)
theory Decode
  imports Value
begin

text \<open>
  The JSON decoder (\<^verbatim>\<open>src/reactor/decode.c\<close>): a state machine over a zero-terminated text with a stack
  of the arrays, objects and keys that are not complete. A character pointer is a block of bytes with an
  index, as in \<^verbatim>\<open>string.c\<close>. The vector used as the stack is represented by the list of its pointers, the
  back of the vector first; only \<open>vector_push_back\<close>, \<open>vector_back\<close> and \<open>vector_pop_back\<close> are used.
\<close>

section \<open>Tokens\<close>

text \<open>
  The C library's conversions of \<open>long double\<close>. \<open>strtold s p\<close> is the number at a position, the position
  behind it, and whether \<open>errno\<close> is set; \<open>sprint_number\<close> are the characters of \<open>%.32Lg\<close>.
\<close>

record 'n number_format =
  strtold :: "byte list \<Rightarrow> nat \<Rightarrow> 'n \<times> nat \<times> bool"
  sprint_number :: "'n \<Rightarrow> byte list"

definition whitespace :: "byte \<Rightarrow> bool" where
  "whitespace c \<longleftrightarrow> c = 32 \<or> c = 10 \<or> c = 13 \<or> c = 9"

function value_decode_whitespace :: "byte list \<Rightarrow> nat \<Rightarrow> nat option" where
  "value_decode_whitespace s p =
     (if p < length s then if whitespace (s ! p) then value_decode_whitespace s (p + 1) else Some p else None)"
  by pat_completeness auto
termination by (relation "measure (\<lambda>(s, p). length s - p)") auto

declare value_decode_whitespace.simps [simp del]

text \<open>\<open>strncmp(from, text, n) == 0\<close> for a text of \<open>n\<close> characters.\<close>

definition strncmp_equal :: "byte list \<Rightarrow> nat \<Rightarrow> string \<Rightarrow> bool option" where
  "strncmp_equal s from text = chars_test s from (map (\<lambda>c. (=) (of_char c)) text)"

text \<open>A token function returns the value, the new position and the new heap.\<close>

definition value_decode_null :: "byte list \<Rightarrow> nat \<Rightarrow> 'n value_heap \<Rightarrow> (value_t \<times> nat \<times> 'n value_heap) option" where
  "value_decode_null s from h = do {
     equal \<leftarrow> strncmp_equal s from ''null'';
     Some (if equal then (value_null, from + 4, h) else (value_undefined, from, h)) }"

definition value_decode_bool :: "byte list \<Rightarrow> nat \<Rightarrow> 'n value_heap \<Rightarrow> (value_t \<times> nat \<times> 'n value_heap) option" where
  "value_decode_bool s from h = do {
     equal \<leftarrow> strncmp_equal s from ''true'';
     (if equal then do { (v, h) \<leftarrow> value_bool True h; Some (v, from + 4, h) }
      else do {
        equal \<leftarrow> strncmp_equal s from ''false'';
        (if equal then do { (v, h) \<leftarrow> value_bool False h; Some (v, from + 5, h) }
         else Some (value_undefined, from, h)) }) }"

text \<open>The position behind the digits, or \<open>None\<close> within \<open>Some\<close> if there is no digit.\<close>

function digits_end :: "byte list \<Rightarrow> nat \<Rightarrow> nat option" where
  "digits_end s p = (if p < length s then if isdigit (s ! p) then digits_end s (p + 1) else Some p else None)"
  by pat_completeness auto
termination by (relation "measure (\<lambda>(s, p). length s - p)") auto

declare digits_end.simps [simp del]

definition value_skip_digits :: "byte list \<Rightarrow> nat \<Rightarrow> nat option option" where
  "value_skip_digits s p = do {
     c \<leftarrow> char_at s p;
     (if \<not> isdigit c then Some None else map_option Some (digits_end s (p + 1))) }"

text \<open>\<open>*p == '0' && isdigit(p[1])\<close>.\<close>

definition leading_zero :: "byte list \<Rightarrow> nat \<Rightarrow> bool option" where
  "leading_zero s p = chars_test s p [(=) 48, isdigit]"

text \<open>The position behind the number, or \<open>None\<close> within \<open>Some\<close>.\<close>

definition decode_number_integer :: "byte list \<Rightarrow> nat \<Rightarrow> nat option option" where
  "decode_number_integer s p = do {
     zero \<leftarrow> leading_zero s p;
     (if zero then Some None else value_skip_digits s p) }"

definition decode_number_fraction :: "byte list \<Rightarrow> nat \<Rightarrow> nat option option" where
  "decode_number_fraction s p = do {
     c \<leftarrow> char_at s p;
     (if c = 46 then value_skip_digits s (p + 1) else Some (Some p)) }"

definition decode_number_exponent :: "byte list \<Rightarrow> nat \<Rightarrow> nat option option" where
  "decode_number_exponent s p = do {
     c \<leftarrow> char_at s p;
     (if c = 101 \<or> c = 69
      then do {
        c \<leftarrow> char_at s (p + 1);
        decode_number_integer s (if c = 45 \<or> c = 43 then p + 2 else p + 1) }
      else Some (Some p)) }"

definition number_end :: "byte list \<Rightarrow> nat \<Rightarrow> nat option option" where
  "number_end s from = do {
     c \<leftarrow> char_at s from;
     p \<leftarrow> decode_number_integer s (if c = 45 then from + 1 else from);
     (case p of
        None \<Rightarrow> Some None
      | Some p \<Rightarrow> do {
          p \<leftarrow> decode_number_fraction s p;
          (case p of None \<Rightarrow> Some None | Some p \<Rightarrow> decode_number_exponent s p) }) }"

definition value_decode_number ::
    "'n number_format \<Rightarrow> byte list \<Rightarrow> nat \<Rightarrow> 'n value_heap \<Rightarrow> (value_t \<times> nat \<times> 'n value_heap) option" where
  "value_decode_number fmt s from h = do {
     p \<leftarrow> number_end s from;
     (case p of
        None \<Rightarrow> Some (value_undefined, from, h)
      | Some p \<Rightarrow>
          let (n, to, errno) = strtold fmt s from
          in if to = p \<and> \<not> errno then do { (v, h) \<leftarrow> value_number n h; Some (v, to, h) }
             else Some (value_undefined, to, h)) }"

definition value_decode_string :: "byte list \<Rightarrow> nat \<Rightarrow> 'n value_heap \<Rightarrow> (value_t \<times> nat \<times> 'n value_heap) option" where
  "value_decode_string s from h = do {
     (str, p) \<leftarrow> string_utf8_decode s (from + 1);
     c \<leftarrow> char_at s p;
     (if c \<noteq> 34 then Some (value_undefined, from, h)
      else do { (v, h) \<leftarrow> value_string_release str h; Some (v, p + 1, h) }) }"

section \<open>The state machine\<close>

datatype decode_state =
    DECODE_VALUE_START | DECODE_VALUE_END | DECODE_NULL | DECODE_BOOL | DECODE_NUMBER | DECODE_STRING
  | DECODE_ARRAY_FIRST | DECODE_ARRAY_REST | DECODE_ARRAY_EMPTY | DECODE_ARRAY_END
  | DECODE_OBJECT_FIRST | DECODE_OBJECT_MAP | DECODE_OBJECT_REST | DECODE_OBJECT_EMPTY | DECODE_OBJECT_END
  | DECODE_REDUCE | DECODE_ACCEPT | DECODE_REJECT

record 'n decoder =
  decode_state :: decode_state
  decode_position :: nat
  decode_stack :: "value_t list"
  decode_value :: value_t
  decode_heap :: "'n value_heap"

definition decode_start :: "byte \<Rightarrow> decode_state" where
  "decode_start c =
     (if c = 110 then DECODE_NULL
      else if c = 116 \<or> c = 102 then DECODE_BOOL
      else if isdigit c \<or> c = 45 then DECODE_NUMBER
      else if c = 34 then DECODE_STRING
      else if c = 91 then DECODE_ARRAY_FIRST
      else if c = 93 then DECODE_ARRAY_EMPTY
      else if c = 123 then DECODE_OBJECT_FIRST
      else if c = 125 then DECODE_OBJECT_EMPTY
      else DECODE_REJECT)"

text \<open>\<open>value = value_decode_...(p, &p); state = STATE_VALUE_END\<close>.\<close>

definition decode_token :: "(value_t \<times> nat \<times> 'n value_heap) option \<Rightarrow> 'n decoder \<Rightarrow> 'n decoder option" where
  "decode_token token d =
     map_option (\<lambda>(v, p, h). d\<lparr>decode_state := DECODE_VALUE_END, decode_position := p, decode_value := v, decode_heap := h\<rparr>) token"

text \<open>Begin an array or an object, and end it.\<close>

definition decode_push :: "(value_t \<times> 'n value_heap) option \<Rightarrow> 'n decoder \<Rightarrow> 'n decoder option" where
  "decode_push parent d =
     map_option (\<lambda>(v, h). d\<lparr>decode_state := DECODE_VALUE_START, decode_position := decode_position d + 1,
       decode_stack := v # decode_stack d, decode_heap := h\<rparr>) parent"

definition decode_pop :: "'n decoder \<Rightarrow> 'n decoder option" where
  "decode_pop d =
     (case decode_stack d of
        [] \<Rightarrow> None
      | parent # stack \<Rightarrow> Some (d\<lparr>decode_state := DECODE_VALUE_END, decode_position := decode_position d + 1,
          decode_stack := stack, decode_value := parent\<rparr>))"

text \<open>A comma goes on with the next value, a closing bracket ends the array or object.\<close>

definition decode_rest :: "byte \<Rightarrow> byte \<Rightarrow> decode_state \<Rightarrow> 'n decoder \<Rightarrow> 'n decoder" where
  "decode_rest c close end_state d =
     (if c = 44 then d\<lparr>decode_state := DECODE_VALUE_START, decode_position := decode_position d + 1\<rparr>
      else if c = close then d\<lparr>decode_state := end_state\<rparr>
      else d\<lparr>decode_state := DECODE_REJECT\<rparr>)"

text \<open>A closing bracket where a value is expected ends an array or object without elements.\<close>

definition decode_empty ::
    "(value_t \<Rightarrow> 'n value_heap \<Rightarrow> bool option) \<Rightarrow> (value_t \<Rightarrow> 'n value_heap \<Rightarrow> size_t option) \<Rightarrow> decode_state \<Rightarrow>
      'n decoder \<Rightarrow> 'n decoder option" where
  "decode_empty is_type size_of end_state d =
     (case decode_stack d of
        [] \<Rightarrow> Some (d\<lparr>decode_state := DECODE_REJECT\<rparr>)
      | parent # _ \<Rightarrow> do {
          same \<leftarrow> is_type parent (decode_heap d);
          n \<leftarrow> (if same then size_of parent (decode_heap d) else Some 1);
          Some (d\<lparr>decode_state := (if n = 0 then end_state else DECODE_REJECT)\<rparr>) })"

text \<open>\<open>STATE_REDUCE\<close>: the value goes into the array, becomes a key of the object, or gets its key.\<close>

definition decode_reduce :: "'n decoder \<Rightarrow> 'n decoder option" where
  "decode_reduce d =
     (case decode_stack d of
        [] \<Rightarrow> None
      | parent # stack \<Rightarrow> do {
          let h = decode_heap d;
          let v = decode_value d;
          array \<leftarrow> value_is_array parent h;
          object \<leftarrow> value_is_object parent h;
          key \<leftarrow> value_is_string v h;
          pending \<leftarrow> value_is_string parent h;
          (if array then do {
             h \<leftarrow> value_array_append_release parent v h;
             Some (d\<lparr>decode_state := DECODE_ARRAY_REST, decode_value := value_undefined, decode_heap := h\<rparr>) }
           else if object \<and> key then
             Some (d\<lparr>decode_state := DECODE_OBJECT_MAP, decode_value := value_undefined, decode_stack := v # decode_stack d\<rparr>)
           else if pending then
             (case stack of
                [] \<Rightarrow> None
              | object # _ \<Rightarrow> do {
                  k \<leftarrow> value_string_get parent h;
                  h \<leftarrow> value_object_set_release object k v h;
                  h \<leftarrow> value_release parent h;
                  Some (d\<lparr>decode_state := DECODE_OBJECT_REST, decode_value := value_undefined, decode_stack := stack,
                    decode_heap := h\<rparr>) })
           else Some (d\<lparr>decode_state := DECODE_REJECT\<rparr>)) })"

text \<open>One pass of the loop, behind the white space; \<open>c\<close> is the character there.\<close>

definition value_decode_step :: "'n number_format \<Rightarrow> byte list \<Rightarrow> byte \<Rightarrow> 'n decoder \<Rightarrow> 'n decoder option" where
  "value_decode_step fmt s c d =
     (let p = decode_position d; h = decode_heap d
      in case decode_state d of
        DECODE_VALUE_START \<Rightarrow> Some (d\<lparr>decode_state := decode_start c\<rparr>)
      | DECODE_VALUE_END \<Rightarrow>
          map_option (\<lambda>undefined. d\<lparr>decode_state :=
              (if undefined then DECODE_REJECT else if decode_stack d = [] then DECODE_ACCEPT else DECODE_REDUCE)\<rparr>)
            (value_is_undefined (decode_value d) h)
      | DECODE_NULL \<Rightarrow> decode_token (value_decode_null s p h) d
      | DECODE_BOOL \<Rightarrow> decode_token (value_decode_bool s p h) d
      | DECODE_NUMBER \<Rightarrow> decode_token (value_decode_number fmt s p h) d
      | DECODE_STRING \<Rightarrow> decode_token (value_decode_string s p h) d
      | DECODE_ARRAY_FIRST \<Rightarrow> decode_push (value_array h) d
      | DECODE_ARRAY_REST \<Rightarrow> Some (decode_rest c 93 DECODE_ARRAY_END d)
      | DECODE_ARRAY_EMPTY \<Rightarrow> decode_empty value_is_array value_array_length DECODE_ARRAY_END d
      | DECODE_ARRAY_END \<Rightarrow> decode_pop d
      | DECODE_OBJECT_FIRST \<Rightarrow> decode_push (value_object h) d
      | DECODE_OBJECT_MAP \<Rightarrow>
          Some (if c = 58 then d\<lparr>decode_state := DECODE_VALUE_START, decode_position := p + 1\<rparr>
                else d\<lparr>decode_state := DECODE_REJECT\<rparr>)
      | DECODE_OBJECT_REST \<Rightarrow> Some (decode_rest c 125 DECODE_OBJECT_END d)
      | DECODE_OBJECT_EMPTY \<Rightarrow> decode_empty value_is_object value_object_size DECODE_OBJECT_END d
      | DECODE_OBJECT_END \<Rightarrow> decode_pop d
      | DECODE_REDUCE \<Rightarrow> decode_reduce d
      | _ \<Rightarrow> None)"

text \<open>
  The loop: the value, the position for \<open>*end\<close>, which is set only on acceptance, and the heap. The
  stack is released from its bottom.
\<close>

partial_function (option) value_decode_loop ::
    "'n number_format \<Rightarrow> byte list \<Rightarrow> 'n decoder \<Rightarrow> (value_t \<times> nat option \<times> 'n value_heap) option" where
  "value_decode_loop fmt s d =
     Option.bind (value_decode_whitespace s (decode_position d)) (\<lambda>p.
       if decode_state d = DECODE_ACCEPT
       then Option.bind (value_release_all (rev (decode_stack d)) (decode_heap d)) (\<lambda>h. Some (decode_value d, Some p, h))
       else if decode_state d = DECODE_REJECT
       then Option.bind (value_release_all (rev (decode_stack d)) (decode_heap d)) (\<lambda>h.
         Option.bind (value_release (decode_value d) h) (\<lambda>h. Some (value_undefined, None, h)))
       else Option.bind (char_at s p) (\<lambda>c.
         Option.bind (value_decode_step fmt s c (d\<lparr>decode_position := p\<rparr>)) (value_decode_loop fmt s)))"

declare value_decode_loop.simps [code]

definition value_decode ::
    "'n number_format \<Rightarrow> byte list \<Rightarrow> 'n value_heap \<Rightarrow> (value_t \<times> nat option \<times> 'n value_heap) option" where
  "value_decode fmt from h =
     value_decode_loop fmt from \<lparr>decode_state = DECODE_VALUE_START, decode_position = 0, decode_stack = [],
       decode_value = value_undefined, decode_heap = h\<rparr>"

end
