(* ===== verification/Encode.thy ===== *)
theory Encode
  imports Decode
begin

text \<open>
  The JSON encoder (\<^verbatim>\<open>src/reactor/encode.c\<close>): a state machine with a stack of the arrays and objects
  that are being written. The vector used as the stack is represented by the list of its contexts, the
  back of the vector first. An object is written with its keys in ascending order.
\<close>

record encode_context =
  context_value :: value_t
  context_keys :: value_t
  context_index :: size_t

datatype encode_state =
    ENCODE_VALUE_START | ENCODE_VALUE_END | ENCODE_NULL | ENCODE_BOOL | ENCODE_NUMBER | ENCODE_STRING
  | ENCODE_ARRAY_FIRST | ENCODE_ARRAY_REST | ENCODE_OBJECT_FIRST | ENCODE_OBJECT_REST
  | ENCODE_ACCEPT | ENCODE_REJECT

definition VALUE_ENCODE_PRETTY :: u32 where
  "VALUE_ENCODE_PRETTY = 1"

definition VALUE_ENCODE_ASCII :: u32 where
  "VALUE_ENCODE_ASCII = 2"

text \<open>\<open>snprintf\<close> keeps 63 characters.\<close>

definition value_buffer_encode_number :: "'n number_format \<Rightarrow> buffer \<Rightarrow> 'n \<Rightarrow> buffer option" where
  "value_buffer_encode_number fmt b number = buffer_append b (data_literal (take 63 (sprint_number fmt number)))"

definition value_buffer_encode_string :: "buffer \<Rightarrow> string_t \<Rightarrow> bool \<Rightarrow> buffer option" where
  "value_buffer_encode_string b s ascii = do {
     b \<leftarrow> buffer_append b (literal [CHR 0x22]);
     (b, _) \<leftarrow> string_utf8_encode b s ascii;
     buffer_append b (literal [CHR 0x22]) }"

text \<open>A new line, indented by the depth of the stack.\<close>

definition encode_line :: "buffer \<Rightarrow> nat \<Rightarrow> buffer option" where
  "encode_line b depth = do {
     b \<leftarrow> buffer_append b (literal [CHR 0x0A]);
     buffer_insert_fill b (buffer_size b) (of_nat depth * 2) (literal '' '') }"

record 'n encoder =
  encode_state :: encode_state
  encode_value :: value_t
  encode_stack :: "encode_context list"
  encode_buffer :: buffer
  encode_heap :: "'n value_heap"

definition encode_start :: "value_type \<Rightarrow> encode_state" where
  "encode_start t =
     (case t of
        VALUE_NULL \<Rightarrow> ENCODE_NULL
      | VALUE_BOOL \<Rightarrow> ENCODE_BOOL
      | VALUE_NUMBER \<Rightarrow> ENCODE_NUMBER
      | VALUE_STRING \<Rightarrow> ENCODE_STRING
      | VALUE_OBJECT \<Rightarrow> ENCODE_OBJECT_FIRST
      | VALUE_ARRAY \<Rightarrow> ENCODE_ARRAY_FIRST
      | VALUE_UNDEFINED \<Rightarrow> ENCODE_REJECT)"

text \<open>A scalar is written and the value is complete.\<close>

definition encode_scalar :: "buffer option \<Rightarrow> 'n encoder \<Rightarrow> 'n encoder option" where
  "encode_scalar b d = map_option (\<lambda>b. d\<lparr>encode_state := ENCODE_VALUE_END, encode_buffer := b\<rparr>) b"

definition encode_open :: "string \<Rightarrow> encode_state \<Rightarrow> value_t \<Rightarrow> 'n encoder \<Rightarrow> 'n encoder option" where
  "encode_open bracket rest_state keys d =
     map_option (\<lambda>b. d\<lparr>encode_state := rest_state,
         encode_stack := \<lparr>context_value = encode_value d, context_keys = keys, context_index = 0\<rparr> # encode_stack d,
         encode_buffer := b\<rparr>)
       (buffer_append (encode_buffer d) (literal bracket))"

text \<open>The end of an array or object, with the keys released: \<open>value_encode_release_context\<close>.\<close>

definition encode_close :: "bool \<Rightarrow> string \<Rightarrow> encode_context \<Rightarrow> encode_context list \<Rightarrow> 'n encoder \<Rightarrow> 'n encoder option" where
  "encode_close pretty bracket ctx stack d = do {
     h \<leftarrow> value_release (context_keys ctx) (encode_heap d);
     b \<leftarrow> (if pretty \<and> context_index ctx \<noteq> 0 then encode_line (encode_buffer d) (length stack) else Some (encode_buffer d));
     b \<leftarrow> buffer_append b (literal bracket);
     Some (d\<lparr>encode_state := ENCODE_VALUE_END, encode_stack := stack, encode_buffer := b, encode_heap := h\<rparr>) }"

text \<open>What comes before an element: a comma unless it is the first, and a new line.\<close>

definition encode_separate :: "bool \<Rightarrow> encode_context \<Rightarrow> nat \<Rightarrow> buffer \<Rightarrow> buffer option" where
  "encode_separate pretty ctx depth b = do {
     b \<leftarrow> (if context_index ctx \<noteq> 0 then buffer_append b (literal '','') else Some b);
     (if pretty then encode_line b depth else Some b) }"

definition encode_array_rest :: "bool \<Rightarrow> 'n encoder \<Rightarrow> 'n encoder option" where
  "encode_array_rest pretty d =
     (case encode_stack d of
        [] \<Rightarrow> None
      | ctx # stack \<Rightarrow> do {
          n \<leftarrow> value_array_length (context_value ctx) (encode_heap d);
          (if context_index ctx = n then encode_close pretty '']'' ctx stack d
           else do {
             b \<leftarrow> encode_separate pretty ctx (length (encode_stack d)) (encode_buffer d);
             v \<leftarrow> value_array_get (context_value ctx) (context_index ctx) (encode_heap d);
             Some (d\<lparr>encode_state := ENCODE_VALUE_START, encode_value := v,
               encode_stack := ctx\<lparr>context_index := context_index ctx + 1\<rparr> # stack, encode_buffer := b\<rparr>) }) })"

definition encode_object_rest :: "bool \<Rightarrow> bool \<Rightarrow> 'n encoder \<Rightarrow> 'n encoder option" where
  "encode_object_rest pretty ascii d =
     (case encode_stack d of
        [] \<Rightarrow> None
      | ctx # stack \<Rightarrow> do {
          n \<leftarrow> value_array_length (context_keys ctx) (encode_heap d);
          (if context_index ctx = n then encode_close pretty ''}'' ctx stack d
           else do {
             b \<leftarrow> encode_separate pretty ctx (length (encode_stack d)) (encode_buffer d);
             k \<leftarrow> value_array_get (context_keys ctx) (context_index ctx) (encode_heap d);
             key \<leftarrow> value_string_get k (encode_heap d);
             b \<leftarrow> value_buffer_encode_string b key ascii;
             b \<leftarrow> buffer_append b (literal (if pretty then '': '' else '':''));
             v \<leftarrow> value_object_get (context_value ctx) key (encode_heap d);
             Some (d\<lparr>encode_state := ENCODE_VALUE_START, encode_value := v,
               encode_stack := ctx\<lparr>context_index := context_index ctx + 1\<rparr> # stack, encode_buffer := b\<rparr>) }) })"

definition value_encode_step :: "'n::zero number_format \<Rightarrow> bool \<Rightarrow> bool \<Rightarrow> 'n encoder \<Rightarrow> 'n encoder option" where
  "value_encode_step fmt pretty ascii d =
     (let v = encode_value d; b = encode_buffer d; h = encode_heap d
      in case encode_state d of
        ENCODE_VALUE_START \<Rightarrow> map_option (\<lambda>t. d\<lparr>encode_state := encode_start t\<rparr>) (value_type v h)
      | ENCODE_VALUE_END \<Rightarrow>
          Some (d\<lparr>encode_state :=
            (case encode_stack d of
               [] \<Rightarrow> ENCODE_ACCEPT
             | ctx # _ \<Rightarrow> if context_keys ctx \<noteq> 0 then ENCODE_OBJECT_REST else ENCODE_ARRAY_REST)\<rparr>)
      | ENCODE_NULL \<Rightarrow> encode_scalar (buffer_append b (literal ''null'')) d
      | ENCODE_BOOL \<Rightarrow>
          Option.bind (value_bool_get v h) (\<lambda>x. encode_scalar (buffer_append b (literal (if x then ''true'' else ''false''))) d)
      | ENCODE_NUMBER \<Rightarrow> Option.bind (value_number_get v h) (\<lambda>x. encode_scalar (value_buffer_encode_number fmt b x) d)
      | ENCODE_STRING \<Rightarrow> Option.bind (value_string_get v h) (\<lambda>x. encode_scalar (value_buffer_encode_string b x ascii) d)
      | ENCODE_ARRAY_FIRST \<Rightarrow> encode_open ''['' ENCODE_ARRAY_REST value_undefined d
      | ENCODE_ARRAY_REST \<Rightarrow> encode_array_rest pretty d
      | ENCODE_OBJECT_FIRST \<Rightarrow>
          Option.bind (value_object_keys v h) (\<lambda>(keys, h). encode_open ''{'' ENCODE_OBJECT_REST keys (d\<lparr>encode_heap := h\<rparr>))
      | ENCODE_OBJECT_REST \<Rightarrow> encode_object_rest pretty ascii d
      | _ \<Rightarrow> None)"

text \<open>The answer, the buffer and the heap. The contexts left on the stack are released from the bottom.\<close>

partial_function (option) value_encode_loop ::
    "'n::zero number_format \<Rightarrow> bool \<Rightarrow> bool \<Rightarrow> 'n encoder \<Rightarrow> (bool \<times> buffer \<times> 'n value_heap) option" where
  "value_encode_loop fmt pretty ascii d =
     (if encode_state d = ENCODE_ACCEPT \<or> encode_state d = ENCODE_REJECT
      then Option.bind (value_release_all (map context_keys (rev (encode_stack d))) (encode_heap d))
        (\<lambda>h. Some (encode_state d = ENCODE_ACCEPT, encode_buffer d, h))
      else Option.bind (value_encode_step fmt pretty ascii d) (value_encode_loop fmt pretty ascii))"

declare value_encode_loop.simps [code]

definition value_buffer_encode ::
    "'n::zero number_format \<Rightarrow> buffer \<Rightarrow> value_t \<Rightarrow> u32 \<Rightarrow> 'n value_heap \<Rightarrow> (bool \<times> buffer \<times> 'n value_heap) option" where
  "value_buffer_encode fmt b v options h =
     value_encode_loop fmt (options AND VALUE_ENCODE_PRETTY \<noteq> 0) (options AND VALUE_ENCODE_ASCII \<noteq> 0)
       \<lparr>encode_state = ENCODE_VALUE_START, encode_value = v, encode_stack = [], encode_buffer = b, encode_heap = h\<rparr>"

definition value_encode ::
    "'n::zero number_format \<Rightarrow> value_t \<Rightarrow> u32 \<Rightarrow> 'n value_heap \<Rightarrow> (string_t \<times> 'n value_heap) option" where
  "value_encode fmt v options h = do {
     (status, b, h) \<leftarrow> value_buffer_encode fmt buffer_construct v options h;
     (if \<not> status then Some (string_null, h)
      else do {
        b \<leftarrow> buffer_append b (data_literal [0]);
        let b = buffer_compact b;
        let b = buffer_resize b (buffer_size b - 1);
        Some (buffer_data b, h) }) }"

end
