(* ===== verification/Value_Owned.thy ===== *)
theory Value_Owned
  imports Decode "HOL-Library.List_Lexorder"
begin

text \<open>
  What a value on the heap stands for: a JSON tree all of whose blocks are owned by it. The heap
  predicate \<open>owns c v j A\<close> says that the value at \<open>v\<close> is the tree \<open>j\<close>, that its blocks are exactly
  those at the addresses \<open>A\<close>, and that each has one reference.
\<close>

section \<open>Trees\<close>

text \<open>The members of an object are in ascending order of their keys.\<close>

datatype 'n json =
    JNull
  | JBool bool
  | JNumber 'n
  | JString "byte list"
  | JArray "'n json list"
  | JObject "(byte list \<times> 'n json) list"

fun put_member :: "byte list \<Rightarrow> 'b \<Rightarrow> (byte list \<times> 'b) list \<Rightarrow> (byte list \<times> 'b) list" where
  "put_member k v [] = [(k, v)]"
| "put_member k v ((k', v') # kvs) =
     (if k < k' then (k, v) # (k', v') # kvs else if k = k' then (k, v) # kvs else (k', v') # put_member k v kvs)"

definition ascending :: "(byte list \<times> 'b) list \<Rightarrow> bool" where
  "ascending kvs \<longleftrightarrow> sorted_wrt (<) (map fst kvs)"

lemma set_put_member: "fst ` set (put_member k v kvs) = insert k (fst ` set kvs)"
  by (induction kvs) (force split: if_splits)+

lemma ascending_put_member: "ascending kvs \<Longrightarrow> ascending (put_member k v kvs)"
proof (induction kvs)
  case (Cons x kvs)
  obtain k' v' where x: "x = (k', v')" by (cases x)
  have "\<forall>a\<in>fst ` set (put_member k v kvs). k' < a" if "k' < k"
    using Cons.prems that by (auto simp: set_put_member ascending_def x)
  then show ?case using Cons by (fastforce simp: ascending_def x)
qed (simp add: ascending_def)

lemma ascending_distinct: "ascending kvs \<Longrightarrow> distinct (map fst kvs)"
  by (simp add: ascending_def strict_sorted_iff)

lemma map_of_put_member: "ascending kvs \<Longrightarrow> map_of (put_member k v kvs) = (map_of kvs)(k \<mapsto> v)"
proof (induction kvs)
  case (Cons x kvs)
  obtain k' v' where x: "x = (k', v')" by (cases x)
  have "map_of kvs k = None" if "k < k'"
    using Cons.prems that by (force simp: ascending_def x map_of_eq_None_iff)
  then show ?case using Cons by (auto simp: ascending_def x fun_eq_iff)
qed simp

lemma map_put_member: "map (\<lambda>(k, v). (k, f v)) (put_member k v kvs) = put_member k (f v) (map (\<lambda>(k, v). (k, f v)) kvs)"
  by (induction kvs) auto

text \<open>The members that stay.\<close>

lemma put_member_set:
  "ascending kvs \<Longrightarrow> set (put_member k v kvs) = insert (k, v) {x \<in> set kvs. fst x \<noteq> k}"
  by (induction kvs) (force simp: ascending_def)+

section \<open>Ownership\<close>

type_synonym 'n blocks = "value_t \<rightharpoonup> 'n value_header"

text \<open>A block's contents, with the values it points to, each with its tree, and the tree it stands for.\<close>

fun contents :: "'n value_content \<Rightarrow> (value_t \<times> 'n json) list \<Rightarrow> 'n json \<Rightarrow> bool" where
  "contents (Bool_value b) ps j \<longleftrightarrow> ps = [] \<and> j = JBool b"
| "contents (Number_value n) ps j \<longleftrightarrow> ps = [] \<and> j = JNumber n"
| "contents (String_value s) ps j \<longleftrightarrow> ps = [] \<and> (\<exists>bs. data_bytes s = Some bs \<and> j = JString bs)"
| "contents (Array_value vec) ps j \<longleftrightarrow>
     vec_object_size vec = 8 \<and> vector_holds vec (map (word_cells \<circ> fst) ps) \<and> j = JArray (map snd ps)"
| "contents (Object_value m) ps j \<longleftrightarrow>
     (\<exists>kps. mapd_inv m \<and> ascending kps \<and> ps = map snd kps \<and> mapd_lookup m = map_of (map (\<lambda>(k, p). (k, fst p)) kps) \<and>
       j = JObject (map (\<lambda>(k, p). (k, snd p)) kps))"
| "contents Null_value ps j \<longleftrightarrow> False"

inductive owns :: "'n blocks \<Rightarrow> value_t \<Rightarrow> 'n json \<Rightarrow> value_t set \<Rightarrow> bool"
  and owns_all :: "'n blocks \<Rightarrow> (value_t \<times> 'n json) list \<Rightarrow> value_t set \<Rightarrow> bool" for c where
  owns_null: "owns c value_null JNull {}"
| owns_block: "c v = Some \<lparr>value_refs = 1, value_of = x\<rparr> \<Longrightarrow> v \<noteq> value_undefined \<Longrightarrow> v \<noteq> value_null \<Longrightarrow>
    contents x ps j \<Longrightarrow> owns_all c ps B \<Longrightarrow> v \<notin> B \<Longrightarrow> owns c v j (insert v B)"
| owns_Nil: "owns_all c [] {}"
| owns_Cons: "owns c v j A \<Longrightarrow> owns_all c ps B \<Longrightarrow> A \<inter> B = {} \<Longrightarrow> owns_all c ((v, j) # ps) (A \<union> B)"

inductive_cases owns_ConsE: "owns_all c ((v, j) # ps) A"
inductive_cases owns_NilE [elim!]: "owns_all c [] A"
inductive_cases ownsE: "owns c v j A"

lemma owns_frame:
  "owns c v j A \<Longrightarrow> (\<forall>a\<in>A. c' a = c a) \<longrightarrow> owns c' v j A"
  "owns_all c ps A \<Longrightarrow> (\<forall>a\<in>A. c' a = c a) \<longrightarrow> owns_all c' ps A"
  by (induction rule: owns_owns_all.inducts) (auto intro: owns_owns_all.intros)

lemma owns_dom:
  "owns c v j A \<Longrightarrow> A \<subseteq> dom c"
  "owns_all c ps A \<Longrightarrow> A \<subseteq> dom c"
  by (induction rule: owns_owns_all.inducts) auto

lemma owns_not_undefined: "owns c v j A \<Longrightarrow> v \<noteq> value_undefined"
  by (auto elim: ownsE simp: value_null_def value_undefined_def)

lemma owns_addresses:
  "owns c v j A \<Longrightarrow> value_undefined \<notin> A \<and> value_null \<notin> A"
  "owns_all c ps A \<Longrightarrow> value_undefined \<notin> A \<and> value_null \<notin> A"
  by (induction rule: owns_owns_all.inducts) auto

lemma owns_all_Cons_iff:
  "owns_all c ((v, j) # ps) A \<longleftrightarrow> (\<exists>A1 A2. owns c v j A1 \<and> owns_all c ps A2 \<and> A1 \<inter> A2 = {} \<and> A = A1 \<union> A2)"
  by (metis owns_ConsE owns_Cons)

lemma owns_all_append_iff:
  "owns_all c (ps @ qs) A \<longleftrightarrow> (\<exists>A1 A2. owns_all c ps A1 \<and> owns_all c qs A2 \<and> A1 \<inter> A2 = {} \<and> A = A1 \<union> A2)"
proof (induction ps arbitrary: A)
  case Nil
  then show ?case by (auto intro: owns_Nil)
next
  case (Cons p ps)
  obtain v j where p: "p = (v, j)" by (cases p)
  show ?case
  proof
    assume "owns_all c ((p # ps) @ qs) A"
    then obtain A1 A2 B1 B2 where "owns c v j A1" "owns_all c ps B1" "owns_all c qs B2" "B1 \<inter> B2 = {}"
      "A1 \<inter> A2 = {}" "A = A1 \<union> A2" "A2 = B1 \<union> B2"
      unfolding p append_Cons owns_all_Cons_iff Cons.IH by blast
    then show "\<exists>A1 A2. owns_all c (p # ps) A1 \<and> owns_all c qs A2 \<and> A1 \<inter> A2 = {} \<and> A = A1 \<union> A2"
      unfolding p by (intro exI [of _ "A1 \<union> B1"] exI [of _ B2]) (auto intro: owns_Cons)
  next
    assume "\<exists>A1 A2. owns_all c (p # ps) A1 \<and> owns_all c qs A2 \<and> A1 \<inter> A2 = {} \<and> A = A1 \<union> A2"
    then obtain A1 B1 B2 where "owns c v j A1" "owns_all c ps B1" "owns_all c qs B2" "A1 \<inter> B1 = {}"
      "(A1 \<union> B1) \<inter> B2 = {}" "A = (A1 \<union> B1) \<union> B2"
      unfolding p owns_all_Cons_iff by blast
    moreover from this have "owns_all c (ps @ qs) (B1 \<union> B2)" unfolding Cons.IH by blast
    ultimately show "owns_all c ((p # ps) @ qs) A"
      unfolding p append_Cons owns_all_Cons_iff by (intro exI [of _ A1] exI [of _ "B1 \<union> B2"]) auto
  qed
qed

lemma owns_all_appendI: "owns_all c ps A \<Longrightarrow> owns_all c qs B \<Longrightarrow> A \<inter> B = {} \<Longrightarrow> owns_all c (ps @ qs) (A \<union> B)"
  by (auto simp: owns_all_append_iff)

lemma owns_all_single: "owns_all c [(v, j)] A \<longleftrightarrow> owns c v j A"
  by (auto simp: owns_all_Cons_iff intro: owns_Nil)

text \<open>The order of the values does not matter.\<close>

lemma owns_all_perm: "mset ps = mset qs \<Longrightarrow> owns_all c ps A \<Longrightarrow> owns_all c qs A"
proof (induction ps arbitrary: qs A)
  case (Cons p ps)
  obtain v j where p: "p = (v, j)" by (cases p)
  have "p \<in> set qs" using Cons.prems(1) by (metis list.set_intros(1) set_mset_mset)
  then obtain q1 q2 where q: "qs = q1 @ p # q2" by (auto simp: in_set_conv_decomp)
  obtain A1 A2 where a: "owns c v j A1" "owns_all c ps A2" "A1 \<inter> A2 = {}" "A = A1 \<union> A2"
    using Cons.prems(2) by (auto simp: p owns_all_Cons_iff)
  have "owns_all c (q1 @ q2) A2" using Cons.IH [OF _ a(2)] Cons.prems(1) q by simp
  then obtain B1 B2 where b: "owns_all c q1 B1" "owns_all c q2 B2" "B1 \<inter> B2 = {}" "A2 = B1 \<union> B2"
    by (auto simp: owns_all_append_iff)
  have "owns_all c (p # q2) (A1 \<union> B2)" using a b unfolding p by (intro owns_Cons) auto
  then show ?case unfolding q owns_all_append_iff using a b by (intro exI [of _ B1] exI [of _ "A1 \<union> B2"]) auto
qed auto

section \<open>Releasing\<close>

lemma fold_collect: "fold (\<lambda>x ys. ys @ [f x]) xs ys = ys @ map f xs"
  by (induction xs arbitrary: ys) auto

lemma array_destroy:
  assumes "vector_holds vec (map (word_cells \<circ> fst) ps)"
  shows "value_array_destroy vec = Some (map fst ps)"
  using vector_clear_objects [OF assms, of "Some (\<lambda>element released. released @ [cells_word element])" "[]"]
  by (auto simp: value_array_destroy_def vector_destruct_def fold_collect comp_def those_map_Some)

lemma map_of_members: "map_of (map (\<lambda>(k, p). (k, f p)) kps) k = map_option f (map_of kps k)"
  by (simp add: map_of_map)

lemma object_destroy:
  assumes m: "mapd_inv m" "ascending kps" "mapd_lookup m = map_of (map (\<lambda>(k, p). (k, fst p)) kps)"
  shows "\<exists>qs. value_object_release m = Some (map fst qs) \<and> mset qs = mset (map snd kps)"
proof -
  let ?es = "map_entries mapd_key m"
  have inv: "map_inv mapd_hash mapd_set mapd_key m" using m(1) by (simp add: mapd_inv_def)
  note es = mapd.entries [OF inv]
  have key: "mapd_key e = Some k" if "map_lookup mapd_key m k = Some e" for e k
    using that by (auto simp: map_lookup_def table_lookup_def find_Some_iff split: option.splits)
  define kqs where "kqs = map (\<lambda>e. (the (mapd_key e), the (map_of kps (the (mapd_key e))))) ?es"
  have look: "map_option mapd_value (map_lookup mapd_key m k) = map_option fst (map_of kps k)" for k
    using fun_cong [OF m(3), of k] by (simp add: mapd_lookup_def map_of_members)
  have e: "\<exists>k p. mapd_key e = Some k \<and> map_of kps k = Some p \<and> mapd_value e = fst p" if mem: "e \<in> set ?es" for e
  proof -
    obtain k where k: "map_lookup mapd_key m k = Some e" using mem unfolding es(2) by blast
    then show ?thesis using look [of k] key [OF k] by (cases "map_of kps k") auto
  qed
  have "set kqs = set kps"
  proof (intro set_eqI iffI)
    fix x assume "x \<in> set kqs"
    then obtain e where "e \<in> set ?es" "x = (the (mapd_key e), the (map_of kps (the (mapd_key e))))" by (auto simp: kqs_def)
    then show "x \<in> set kps" using e [of e] by (auto dest: map_of_SomeD)
  next
    fix x assume x: "x \<in> set kps"
    have kx: "map_of kps (fst x) = Some (snd x)" using x ascending_distinct [OF m(2)] by (simp add: map_of_eq_Some_iff)
    then obtain e' where e': "map_lookup mapd_key m (fst x) = Some e'" using look [of "fst x"] by auto
    then have "e' \<in> set ?es" using es(2) by auto
    then show "x \<in> set kqs" using key [OF e'] kx by (force simp: kqs_def)
  qed
  moreover have "distinct (map fst kqs)"
  proof -
    have "map fst kqs = map (the \<circ> mapd_key) ?es" by (simp add: kqs_def comp_def)
    moreover have "\<forall>x\<in>mapd_key ` set ?es. x \<noteq> None" using e by fastforce
    then have "inj_on the (mapd_key ` set ?es)" by (intro inj_onI) (metis option.expand)
    ultimately show ?thesis using es(1) by (simp add: distinct_map comp_inj_on)
  qed
  then have "distinct kqs" by (simp add: distinct_map)
  moreover have "distinct kps" using ascending_distinct [OF m(2)] by (simp add: distinct_map)
  ultimately have perm: "mset kqs = mset kps" by (simp add: set_eq_iff_mset_eq_distinct)
  have "map (fst \<circ> snd) kqs = map mapd_value ?es" using e by (fastforce simp: kqs_def)
  then have "value_object_release m = Some (map fst (map snd kqs))"
    using mapd.release_all [OF inv, of "Some (\<lambda>entry released. released @ [mapd_value entry])" "[]"]
    by (simp add: value_object_release_def mapd_destruct_def map_destruct_def fold_collect)
  moreover have "mset (map snd kqs) = mset (map snd kps)" using perm by simp
  ultimately show ?thesis by blast
qed

lemma contents_destroy: "contents x ps j \<Longrightarrow> \<exists>qs. value_destroy x = Some (map fst qs) \<and> mset qs = mset ps"
proof (induction x ps j rule: contents.induct)
  case (4 vec ps j)
  then show ?case using array_destroy [of vec ps] by (auto simp: value_destroy_def)
next
  case (5 m ps j)
  then obtain kps where "mapd_inv m" "ascending kps" "ps = map snd kps" "mapd_lookup m = map_of (map (\<lambda>(k, p). (k, fst p)) kps)"
    by auto
  then show ?case using object_destroy [of m kps] by (simp add: value_destroy_def)
qed (auto simp: value_destroy_def)

fun children :: "'n json \<Rightarrow> 'n json list" where
  "children (JArray js) = js"
| "children (JObject kvs) = map snd kvs"
| "children _ = []"

lemma contents_children: "contents x ps j \<Longrightarrow> map snd ps = children j"
  by (induction x ps j rule: contents.induct) auto

lemma children_size: "sum_list (map size (children j)) < size j"
proof (cases j)
  case (JObject kvs)
  have "sum_list (map size (map snd kvs)) \<le> size_list (size_prod (\<lambda>_. 0) size) kvs"
    by (induction kvs) auto
  then show ?thesis using JObject by simp
next
  case (JArray js)
  have "sum_list (map size js) \<le> size_list size js" by (induction js) auto
  then show ?thesis using JArray by simp
qed auto

lemma release_simps [simp]:
  "value_release_all [] h = Some h"
  "value_release_all (value_undefined # vs) h = value_release_all vs h"
  "value_release_all (value_null # vs) h = value_release_all vs h"
  by (subst value_release_all.simps, simp add: value_header_def value_null_def value_undefined_def)+

lemma release_block:
  assumes "value_blocks h v = Some \<lparr>value_refs = 1, value_of = x\<rparr>" "v \<noteq> value_undefined" "v \<noteq> value_null"
    "value_destroy x = Some ws"
  shows "value_release_all (v # vs) h =
    Option.bind (value_release_all ws (value_update v \<lparr>value_refs = 0, value_of = x\<rparr> h)) (\<lambda>h. value_release_all vs (value_free v h))"
  using assms by (subst value_release_all.simps) (simp add: value_header_def)

text \<open>Releasing values that own their blocks frees exactly these.\<close>

lemma release_owned:
  "owns_all (value_blocks h) ps A \<Longrightarrow>
    value_release_all (map fst ps) h = Some (h\<lparr>value_blocks := value_blocks h |` (- A)\<rparr>)"
proof (induction "sum_list (map (\<lambda>p. size (snd p)) ps)" arbitrary: ps h A rule: less_induct)
  case less
  show ?case
  proof (cases ps)
    case Nil
    then show ?thesis using less.prems by (auto simp: restrict_map_def)
  next
    case (Cons p qs)
    obtain v j where p: "p = (v, j)" by (cases p)
    obtain A1 A2 where a: "owns (value_blocks h) v j A1" "owns_all (value_blocks h) qs A2" "A1 \<inter> A2 = {}" "A = A1 \<union> A2"
      using less.prems by (auto simp: Cons p owns_all_Cons_iff)
    have smaller: "sum_list (map (\<lambda>p. size (snd p)) qs) < sum_list (map (\<lambda>p. size (snd p)) ps)"
      by (cases j) (auto simp: Cons p)
    from a(1) show ?thesis
    proof (cases rule: owns.cases)
      case owns_null
      then show ?thesis using less.hyps [OF smaller a(2)] a(4) by (simp add: Cons p)
    next
      case 2: (owns_block x cs B)
      obtain ws where ws: "value_destroy x = Some (map fst ws)" "mset ws = mset cs" using contents_destroy [OF 2(5)] by blast
      let ?h = "value_update v \<lparr>value_refs = 0, value_of = x\<rparr> h"
      have B: "owns_all (value_blocks ?h) ws B"
        using owns_frame(2) [OF owns_all_perm [OF ws(2) [symmetric] 2(6)], of "value_blocks ?h"] 2(7) by (simp add: value_update_def)
      have "sum_list (map size (map snd ws)) = sum_list (map size (map snd cs))"
        using ws(2) by (metis mset_map sum_mset_sum_list)
      also have "\<dots> < size j" using children_size [of j] contents_children [OF 2(5)] by simp
      finally have "sum_list (map (\<lambda>p. size (snd p)) ws) < sum_list (map (\<lambda>p. size (snd p)) ps)"
        by (simp add: Cons p comp_def)
      note r1 = less.hyps [OF this B]
      let ?h2 = "value_free v (?h\<lparr>value_blocks := value_blocks ?h |` (- B)\<rparr>)"
      have blocks: "value_blocks ?h2 = value_blocks h |` (- A1)"
        using 2(1) by (auto simp: value_free_def value_update_def restrict_map_def fun_eq_iff)
      have "owns_all (value_blocks ?h2) qs A2"
        using owns_frame(2) [OF a(2), of "value_blocks ?h2"] a(3) blocks by (auto simp: restrict_map_def)
      note r2 = less.hyps [OF smaller this]
      have "value_blocks ?h2 |` (- A2) = value_blocks h |` (- A)" unfolding blocks using a(4) by simp
      moreover have "value_supply ?h2 = value_supply h" by (simp add: value_free_def value_update_def)
      ultimately have "?h2\<lparr>value_blocks := value_blocks ?h2 |` (- A2)\<rparr> = h\<lparr>value_blocks := value_blocks h |` (- A)\<rparr>"
        by (cases h) (simp only: value_heap.simps value_free_def value_update_def)
      then have "value_release_all (map fst qs) ?h2 = Some (h\<lparr>value_blocks := value_blocks h |` (- A)\<rparr>)" using r2 by simp
      then have "value_release_all (v # map fst qs) h = Some (h\<lparr>value_blocks := value_blocks h |` (- A)\<rparr>)"
        unfolding release_block [OF 2(2,3,4) ws(1), of "map fst qs"] r1 by simp
      then show ?thesis by (simp add: Cons p)
    qed
  qed
qed

end
