(* ===== verification/Value_Ops.thy ===== *)
theory Value_Ops
  imports Value_Owned
begin

text \<open>
  The operations on arrays and objects in terms of the trees their values own: appending, setting and
  deleting act on the tree, move the ownership of the element, and touch no other block.
\<close>

section \<open>Blocks\<close>

lemma value_create_iff:
  "value_create x h = Some (v, h') \<longleftrightarrow> v \<noteq> value_undefined \<and> v \<noteq> value_null \<and> v \<notin> dom (value_blocks h) \<and>
    value_supply h = v # value_supply h' \<and> value_blocks h' = (value_blocks h)(v \<mapsto> \<lparr>value_refs = 1, value_of = x\<rparr>)"
  by (cases h; cases h'; auto simp: value_create_def value_update_def split: list.splits)

lemma owns_created:
  assumes "value_create x h = Some (v, h')" "contents x [] j"
  shows "owns (value_blocks h') v j {v}"
  using assms owns_block [of "value_blocks h'" v x "[]" j "{}"] by (simp add: value_create_iff owns_Nil)

lemma owns_blockE:
  assumes "owns c v j A" "j \<noteq> JNull"
  obtains x ps B where "c v = Some \<lparr>value_refs = 1, value_of = x\<rparr>" "v \<noteq> value_undefined" "v \<noteq> value_null"
    "contents x ps j" "owns_all c ps B" "v \<notin> B" "A = insert v B"
  using assms(1)
proof (cases rule: owns.cases)
  case owns_null
  then show ?thesis using assms(2) by simp
next
  case (owns_block x ps B)
  then show ?thesis using that by blast
qed

lemma value_read_block:
  assumes "value_blocks h v = Some \<lparr>value_refs = n, value_of = x\<rparr>" "v \<noteq> value_undefined" "v \<noteq> value_null"
  shows "value_read get otherwise v h = Some (case get x of Some y \<Rightarrow> y | None \<Rightarrow> otherwise)"
  using assms by (simp add: value_read_def value_header_def)

lemma value_type_block:
  assumes "value_blocks h v = Some \<lparr>value_refs = n, value_of = x\<rparr>" "v \<noteq> value_undefined" "v \<noteq> value_null"
  shows "value_type v h = Some (value_user x)"
  using assms by (simp add: value_type_def value_header_def)

lemma value_get_block:
  assumes "value_blocks h v = Some \<lparr>value_refs = n, value_of = x\<rparr>" "v \<noteq> value_undefined" "v \<noteq> value_null"
  shows "x = Array_value vec \<Longrightarrow> value_vector v h = Some (Some vec)"
    "x = Object_value m \<Longrightarrow> value_map v h = Some (Some m)"
    "x = String_value s \<Longrightarrow> value_string_get v h = Some s"
    "x = Array_value vec \<Longrightarrow> value_array_length v h = Some (vector_size vec)"
    "x = Object_value m \<Longrightarrow> value_object_size v h = Some (mapd_size m)"
    "x = Bool_value b \<Longrightarrow> value_bool_get v h = Some b"
  using assms by (simp_all add: value_vector_def value_map_def value_string_get_def value_array_length_def
      value_object_size_def value_bool_get_def value_read_def value_header_def)

lemma value_number_get_block:
  "value_blocks h v = Some \<lparr>value_refs = n, value_of = Number_value x\<rparr> \<Longrightarrow> v \<noteq> value_undefined \<Longrightarrow> v \<noteq> value_null \<Longrightarrow>
    value_number_get v h = Some x"
  by (simp add: value_number_get_def value_read_def value_header_def)

text \<open>The type of a tree is the type of its value.\<close>

definition json_type :: "'n json \<Rightarrow> value_type" where
  "json_type j = (case j of JNull \<Rightarrow> VALUE_NULL | JBool _ \<Rightarrow> VALUE_BOOL | JNumber _ \<Rightarrow> VALUE_NUMBER
     | JString _ \<Rightarrow> VALUE_STRING | JArray _ \<Rightarrow> VALUE_ARRAY | JObject _ \<Rightarrow> VALUE_OBJECT)"

lemma contents_type: "contents x ps j \<Longrightarrow> value_user x = json_type j"
  by (induction x ps j rule: contents.induct) (auto simp: value_user_def json_type_def)

lemma owns_type:
  assumes "owns (value_blocks h) v j A"
  shows "value_type v h = Some (json_type j)"
  using assms
proof (cases rule: owns.cases)
  case owns_null
  then show ?thesis by (simp add: value_type_def value_header_def value_null_def value_undefined_def value_user_def json_type_def)
next
  case (owns_block x ps B)
  then show ?thesis using value_type_block [of h v 1 x] contents_type [of x ps j] by simp
qed

text \<open>Holding a value and releasing it again.\<close>

lemma value_hold_release:
  assumes v: "owns (value_blocks h) v j A"
  obtains h1 where "value_hold v h = Some h1" "value_supply h1 = value_supply h"
    "\<And>a. a \<noteq> v \<Longrightarrow> value_blocks h1 a = value_blocks h a"
    "\<And>h2. value_blocks h2 v = value_blocks h1 v \<Longrightarrow>
      value_release v h2 = Some (h2\<lparr>value_blocks := (value_blocks h2)(v := value_blocks h v)\<rparr>)"
  using v
proof (cases rule: owns.cases)
  case owns_null
  have "value_hold v h = Some h" using owns_null by (simp add: value_hold_def value_header_def value_null_def value_undefined_def)
  moreover have "value_release v h2 = Some (h2\<lparr>value_blocks := (value_blocks h2)(v := value_blocks h v)\<rparr>)"
    if "value_blocks h2 v = value_blocks h v" for h2
    using that owns_null by (cases h2) (simp add: value_release_def fun_upd_idem)
  ultimately show ?thesis using that by blast
next
  case (owns_block x ps B)
  let ?h = "value_update v \<lparr>value_refs = 2, value_of = x\<rparr> h"
  have "value_hold v h = Some ?h" using owns_block by (simp add: value_hold_def value_header_def)
  moreover have "value_release v h2 = Some (h2\<lparr>value_blocks := (value_blocks h2)(v := value_blocks h v)\<rparr>)"
    if "value_blocks h2 v = value_blocks ?h v" for h2
  proof -
    have h2: "value_header h2 v = Some \<lparr>value_refs = 2, value_of = x\<rparr>"
      using that owns_block by (simp add: value_header_def value_update_def)
    then show ?thesis unfolding value_release_def using owns_block
      by (subst value_release_all.simps) (simp add: value_update_def)
  qed
  ultimately show ?thesis using that [of ?h] by (simp add: value_update_def)
qed

section \<open>Arrays\<close>

lemma array_append_release_owned:
  assumes own: "owns_all (value_blocks h) ((v, j) # (a, JArray js) # ps) A" and len: "length js < 2 ^ 59"
  shows "\<exists>h'. value_array_append_release a v h = Some h' \<and> owns_all (value_blocks h') ((a, JArray (js @ [j])) # ps) A \<and>
    (\<forall>x. x \<notin> A \<longrightarrow> value_blocks h' x = value_blocks h x) \<and> value_supply h' = value_supply h"
proof -
  obtain A1 A2 A3 where own: "owns (value_blocks h) v j A1" "owns (value_blocks h) a (JArray js) A2" "owns_all (value_blocks h) ps A3"
    "A2 \<inter> A1 = {}" "A1 \<inter> A3 = {}" "A2 \<inter> A3 = {}" "A = A2 \<union> A1 \<union> A3"
    using own by (auto simp: owns_all_Cons_iff)
  obtain x qs B where x: "value_blocks h a = Some \<lparr>value_refs = 1, value_of = x\<rparr>" "a \<noteq> value_undefined" "a \<noteq> value_null"
    "contents x qs (JArray js)" "A2 = insert a B" "owns_all (value_blocks h) qs B" "a \<notin> B"
    using owns_blockE [OF own(2)] by blast
  obtain vec where vec: "x = Array_value vec" "vec_object_size vec = 8" "vector_holds vec (map (word_cells \<circ> fst) qs)" "js = map snd qs"
    using x(4) by (cases x) auto
  have "a \<noteq> v" using own(1,4) x(3,5) by (auto elim!: owns.cases)
  obtain h1 where h1: "value_hold v h = Some h1" "value_supply h1 = value_supply h"
    "\<And>a. a \<noteq> v \<Longrightarrow> value_blocks h1 a = value_blocks h a"
    "\<And>h2. value_blocks h2 v = value_blocks h1 v \<Longrightarrow>
      value_release v h2 = Some (h2\<lparr>value_blocks := (value_blocks h2)(v := value_blocks h v)\<rparr>)"
    using value_hold_release [OF own(1)] by metis
  obtain vec' where vec': "vector_push_back vec (Some (word_cells v)) = Some vec'" "vec_object_size vec' = 8"
    "vector_holds vec' (map (word_cells \<circ> fst) qs @ [word_cells v])"
    using vector_push_back_objects [OF vec(3), of "Some (word_cells v)" "word_cells v"] vec(2,4) len
    by (auto simp: vector_object_def vector_fits_def buffer_limit_def)
  have vv: "value_vector a h0 = Some (Some vec)" if "value_blocks h0 a = value_blocks h a" for h0
    using value_get_block(1) [of h0 a 1 x vec] that x(1-3) vec(1) by simp
  let ?h2 = "value_update a \<lparr>value_refs = 1, value_of = Array_value vec'\<rparr> h1"
  let ?h3 = "?h2\<lparr>value_blocks := (value_blocks ?h2)(v := value_blocks h v)\<rparr>"
  have "value_array_append a v h = Some ?h2"
    using vv [OF refl] vv [of h1] h1(1,3) \<open>a \<noteq> v\<close> vec'(1) x(1) vec(1)
    by (simp add: value_array_append_def value_write_def)
  moreover have "value_release v ?h2 = Some ?h3"
    by (rule h1(4)) (use \<open>a \<noteq> v\<close> in \<open>simp add: value_update_def\<close>)
  ultimately have app: "value_array_append_release a v h = Some ?h3"
    by (simp only: value_array_append_release_def) simp
  have blocks: "value_blocks ?h3 = (value_blocks h)(a \<mapsto> \<lparr>value_refs = 1, value_of = Array_value vec'\<rparr>)"
    using h1(3) \<open>a \<noteq> v\<close> by (auto simp: value_update_def fun_eq_iff)
  have "owns (value_blocks ?h3) a (JArray (js @ [j])) (A2 \<union> A1)"
  proof -
    have "owns_all (value_blocks ?h3) (qs @ [(v, j)]) (B \<union> A1)"
      using owns_frame(2) [OF x(6), of "value_blocks ?h3"] owns_frame(1) [OF own(1), of "value_blocks ?h3"] own(4) x(5,7)
      by (intro owns_all_appendI) (auto simp: blocks owns_all_single)
    from owns_block [OF _ x(2,3) _ this, of "Array_value vec'" "JArray (js @ [j])"] show ?thesis
      using vec'(2,3) vec(4) x(5,7) own(4) by (simp add: blocks)
  qed
  moreover have "owns_all (value_blocks ?h3) ps A3"
    using owns_frame(2) [OF own(3), of "value_blocks ?h3"] own(6) x(5) by (auto simp: blocks)
  ultimately have "owns_all (value_blocks ?h3) ((a, JArray (js @ [j])) # ps) A"
    unfolding owns_all_Cons_iff using own(4-7) by (intro exI [of _ "A2 \<union> A1"] exI [of _ A3]) auto
  moreover have "\<forall>y. y \<notin> A \<longrightarrow> value_blocks ?h3 y = value_blocks h y" using own(7) x(5) by (simp add: blocks)
  moreover have "value_supply ?h3 = value_supply h" by (simp add: value_update_def h1(2))
  ultimately show ?thesis using app by blast
qed

section \<open>Objects\<close>

text \<open>Of the blocks \<open>A\<close> those in \<open>A'\<close> are left, the others are freed; no other block has changed.\<close>

definition reduces :: "'n value_heap \<Rightarrow> 'n value_heap \<Rightarrow> value_t set \<Rightarrow> value_t set \<Rightarrow> bool" where
  "reduces h h' A A' \<longleftrightarrow> A' \<subseteq> A \<and> value_supply h' = value_supply h \<and>
     (\<forall>x. x \<notin> A \<longrightarrow> value_blocks h' x = value_blocks h x) \<and> (\<forall>x \<in> A - A'. value_blocks h' x = None)"

definition del_member :: "byte list \<Rightarrow> (byte list \<times> 'b) list \<Rightarrow> (byte list \<times> 'b) list" where
  "del_member k kvs = filter (\<lambda>x. fst x \<noteq> k) kvs"

lemma ascending_del_member: "ascending kvs \<Longrightarrow> ascending (del_member k kvs)"
  unfolding ascending_def del_member_def by (induction kvs) auto

lemma map_of_del_member: "map_of (del_member k kvs) = (map_of kvs)(k := None)"
  by (induction kvs) (auto simp: del_member_def fun_eq_iff)

lemma put_del_member: "ascending kvs \<Longrightarrow> put_member k v (del_member k kvs) = put_member k v kvs"
proof (induction kvs)
  case (Cons x kvs)
  obtain k' v' where x: "x = (k', v')" by (cases x)
  have "del_member k kvs = kvs" if "k \<le> k'"
    using Cons.prems that by (force simp: ascending_def x del_member_def filter_id_conv)
  moreover have "put_member k v kvs = (k, v) # kvs" if "k = k'"
    using Cons.prems that by (cases kvs) (auto simp: ascending_def x)
  ultimately show ?case using Cons by (auto simp: ascending_def x del_member_def)
qed (simp add: del_member_def)

lemma map_members_del: "map (\<lambda>(k, p). (k, f p)) (del_member k kps) = del_member k (map (\<lambda>(k, p). (k, f p)) kps)"
  by (induction kps) (auto simp: del_member_def)

lemma mset_del_member:
  assumes "ascending kps" "map_of kps k = Some p"
  shows "mset kps = mset ((k, p) # del_member k kps)"
  using assms
proof (induction kps)
  case (Cons x kps)
  obtain k' p' where x: "x = (k', p')" by (cases x)
  have "del_member k kps = kps" if "k = k'"
    using Cons.prems(1) that by (force simp: ascending_def x del_member_def filter_id_conv)
  then have "mset (del_member k kps) = mset kps" if "k = k'" using that by simp
  then show ?case using Cons by (auto simp: ascending_def x del_member_def)
qed simp

lemma mset_put_member:
  assumes "k \<notin> fst ` set kps"
  shows "mset (put_member k p kps) = mset ((k, p) # kps)"
  using assms by (induction kps) auto

lemma owns_objectE:
  assumes "owns c a (JObject kvs) A"
  obtains m kps B where "c a = Some \<lparr>value_refs = 1, value_of = Object_value m\<rparr>" "a \<noteq> value_undefined" "a \<noteq> value_null"
    "mapd_inv m" "ascending kps" "mapd_lookup m = map_of (map (\<lambda>(k, p). (k, fst p)) kps)"
    "kvs = map (\<lambda>(k, p). (k, snd p)) kps" "owns_all c (map snd kps) B" "a \<notin> B" "A = insert a B"
proof -
  obtain x ps B where x: "c a = Some \<lparr>value_refs = 1, value_of = x\<rparr>" "a \<noteq> value_undefined" "a \<noteq> value_null"
    "contents x ps (JObject kvs)" "owns_all c ps B" "a \<notin> B" "A = insert a B"
    using owns_blockE [OF assms] by blast
  then show ?thesis using that by (cases x) auto
qed

lemma owns_objectI:
  assumes "c a = Some \<lparr>value_refs = 1, value_of = Object_value m\<rparr>" "a \<noteq> value_undefined" "a \<noteq> value_null"
    "mapd_inv m" "ascending kps" "mapd_lookup m = map_of (map (\<lambda>(k, p). (k, fst p)) kps)"
    "owns_all c (map snd kps) B" "a \<notin> B"
  shows "owns c a (JObject (map (\<lambda>(k, p). (k, snd p)) kps)) (insert a B)"
  by (rule owns_block [OF assms(1-3) _ assms(7,8)]) (use assms(4-6) in auto)

lemma object_delete_owned:
  assumes own: "owns (value_blocks h) a (JObject kvs) A" and k: "data_bytes key = Some k"
  shows "\<exists>h' A'. value_object_delete a key h = Some h' \<and> owns (value_blocks h') a (JObject (del_member k kvs)) A' \<and>
    reduces h h' A A' \<and> a \<in> A'"
proof -
  obtain m kps B where o: "value_blocks h a = Some \<lparr>value_refs = 1, value_of = Object_value m\<rparr>" "a \<noteq> value_undefined"
    "a \<noteq> value_null" "mapd_inv m" "ascending kps" "mapd_lookup m = map_of (map (\<lambda>(k, p). (k, fst p)) kps)"
    "kvs = map (\<lambda>(k, p). (k, snd p)) kps" "owns_all (value_blocks h) (map snd kps) B" "a \<notin> B" "A = insert a B"
    by (rule owns_objectE [OF own])
  obtain m' where m': "mapd_erase m k (Some (\<lambda>entry released. released @ [mapd_value entry])) [] =
      Some (m', case map_lookup mapd_key m k of None \<Rightarrow> [] | Some e \<Rightarrow> [mapd_value e])"
    "mapd_inv m'" "mapd_lookup m' = (mapd_lookup m)(k := None)"
    using mapd_erase_spec [OF o(4), of k "Some (\<lambda>entry released. released @ [mapd_value entry])" "[]"] by (auto split: option.splits)
  have look': "mapd_lookup m' = map_of (map (\<lambda>(k, p). (k, fst p)) (del_member k kps))"
    unfolding m'(3) o(6) map_members_del map_of_del_member ..
  have look: "map_option mapd_value (map_lookup mapd_key m k) = map_option fst (map_of kps k)"
    using fun_cong [OF o(6), of k] by (simp add: mapd_lookup_def map_of_members)
  have map: "value_map a h = Some (Some m)" using value_get_block(2) [OF o(1-3) refl] .
  obtain B1 B2 where B: "owns_all (value_blocks h) (case map_of kps k of None \<Rightarrow> [] | Some p \<Rightarrow> [p]) B1"
    "owns_all (value_blocks h) (map snd (del_member k kps)) B2" "B1 \<inter> B2 = {}" "B = B1 \<union> B2"
  proof (cases "map_of kps k")
    case None
    then have "del_member k kps = kps" by (auto simp: del_member_def filter_id_conv map_of_eq_None_iff)
    then show ?thesis using that [of "{}" B] None o(8) by (simp add: owns_Nil)
  next
    case (Some p)
    have "mset (map snd kps) = mset (p # map snd (del_member k kps))"
      using arg_cong [OF mset_del_member [OF o(5) Some], of "image_mset snd"] by simp
    then have "owns_all (value_blocks h) ([p] @ map snd (del_member k kps)) B" using owns_all_perm [OF _ o(8)] by simp
    then show ?thesis using that Some unfolding owns_all_append_iff by auto
  qed
  have released: "(case map_lookup mapd_key m k of None \<Rightarrow> [] | Some e \<Rightarrow> [mapd_value e]) =
      map fst (case map_of kps k of None \<Rightarrow> [] | Some p \<Rightarrow> [p])"
    using look by (auto split: option.splits)
  let ?h1 = "h\<lparr>value_blocks := value_blocks h |` (- B1)\<rparr>"
  let ?h' = "value_update a \<lparr>value_refs = 1, value_of = Object_value m'\<rparr> ?h1"
  have "value_object_delete a key h = Some ?h'"
    using map k m'(1) release_owned [OF B(1)] o(1,9) B(4)
    by (simp add: value_object_delete_def released value_write_def restrict_map_def)
  moreover have "owns_all (value_blocks ?h') (map snd (del_member k kps)) B2"
    using owns_frame(2) [OF B(2), of "value_blocks ?h'"] B(3,4) o(9) by (auto simp: value_update_def restrict_map_def)
  then have "owns (value_blocks ?h') a (JObject (del_member k kvs)) (insert a B2)"
    unfolding o(7) map_members_del [symmetric] using o(2,3,9) B(4) m'(2) look' ascending_del_member [OF o(5)]
    by (intro owns_objectI) (auto simp: value_update_def)
  moreover have "reduces h ?h' A (insert a B2)"
    using B(3,4) o(9,10) by (auto simp: reduces_def value_update_def restrict_map_def)
  ultimately show ?thesis by blast
qed

lemma reducesD:
  assumes "reduces h h' A A'"
  shows "A' \<subseteq> A" "value_supply h' = value_supply h" "\<And>x. x \<notin> A \<Longrightarrow> value_blocks h' x = value_blocks h x"
    "\<And>x. x \<in> A \<Longrightarrow> x \<notin> A' \<Longrightarrow> value_blocks h' x = None"
  using assms by (auto simp: reduces_def)

lemma object_count:
  assumes "mapd_inv m" "ascending kps" "mapd_lookup m = map_of (map (\<lambda>(k, p). (k, fst p)) kps)"
  shows "unat (elements_count m) = length kps"
proof -
  have inv: "map_inv mapd_hash mapd_set mapd_key m" using assms(1) by (simp add: mapd_inv_def)
  obtain qs where "value_object_release m = Some (map fst qs)" "mset qs = mset (map snd kps)"
    using object_destroy [OF assms] by blast
  moreover have "value_object_release m = Some (map mapd_value (map_entries mapd_key m))"
    using mapd.release_all [OF inv, of "Some (\<lambda>entry released. released @ [mapd_value entry])" "[]"]
    by (simp add: value_object_release_def mapd_destruct_def map_destruct_def fold_collect)
  ultimately have "length (map_entries mapd_key m) = length kps" by (metis length_map option.inject mset_eq_length)
  then show ?thesis using mapd.entries(3) [OF inv] by simp
qed

lemma length_del_member: "length (del_member k kvs) \<le> length kvs"
  by (simp add: del_member_def)

lemma object_set_release_owned:
  assumes own: "owns_all (value_blocks h) ((v, j) # (a, JObject kvs) # ps) A"
    and k: "data_bytes key = Some k" "string_copy key = Some copy" "data_bytes copy = Some k" and len: "length kvs < 2 ^ 59"
  shows "\<exists>h' A'. value_object_set_release a key v h = Some h' \<and>
    owns_all (value_blocks h') ((a, JObject (put_member k j kvs)) # ps) A' \<and> reduces h h' A A'"
proof -
  obtain A1 A2 A3 where A: "owns (value_blocks h) v j A1" "owns (value_blocks h) a (JObject kvs) A2" "owns_all (value_blocks h) ps A3"
    "A2 \<inter> A1 = {}" "A1 \<inter> A3 = {}" "A2 \<inter> A3 = {}" "A = A2 \<union> A1 \<union> A3"
    using own by (auto simp: owns_all_Cons_iff)
  obtain h1 A2' where d: "value_object_delete a key h = Some h1"
    "owns (value_blocks h1) a (JObject (del_member k kvs)) A2'" "reduces h h1 A2 A2'" "a \<in> A2'"
    using object_delete_owned [OF A(2) k(1)] by blast
  note d' = reducesD [OF d(3)]
  have v1: "owns (value_blocks h1) v j A1" using owns_frame(1) [OF A(1), of "value_blocks h1"] A(4) d'(3) by blast
  have p1: "owns_all (value_blocks h1) ps A3" using owns_frame(2) [OF A(3), of "value_blocks h1"] A(6) d'(3) by blast
  obtain m kps B where o: "value_blocks h1 a = Some \<lparr>value_refs = 1, value_of = Object_value m\<rparr>" "a \<noteq> value_undefined"
    "a \<noteq> value_null" "mapd_inv m" "ascending kps" "mapd_lookup m = map_of (map (\<lambda>(k, p). (k, fst p)) kps)"
    "del_member k kvs = map (\<lambda>(k, p). (k, snd p)) kps" "owns_all (value_blocks h1) (map snd kps) B" "a \<notin> B" "A2' = insert a B"
    by (rule owns_objectE [OF d(2)])
  obtain m0 kps0 where o0: "value_blocks h a = Some \<lparr>value_refs = 1, value_of = Object_value m0\<rparr>"
    "kvs = map (\<lambda>(k, p). (k, snd p)) kps0" "ascending kps0" "mapd_lookup m0 = map_of (map (\<lambda>(k, p). (k, fst p)) kps0)"
    by (rule owns_objectE [OF A(2)]) (rule that)
  have "a \<noteq> v" using A(1,4) o(3) d(4) d'(1) by (auto elim!: owns.cases)
  obtain h2 where h2: "value_hold v h1 = Some h2" "value_supply h2 = value_supply h1"
    "\<And>a. a \<noteq> v \<Longrightarrow> value_blocks h2 a = value_blocks h1 a"
    "\<And>h3. value_blocks h3 v = value_blocks h2 v \<Longrightarrow>
      value_release v h3 = Some (h3\<lparr>value_blocks := (value_blocks h3)(v := value_blocks h1 v)\<rparr>)"
    using value_hold_release [OF v1] by metis
  have gone: "k \<notin> fst ` set kps"
  proof -
    have "k \<notin> fst ` set (del_member k kvs)" by (auto simp: del_member_def)
    then show ?thesis unfolding o(7) by (simp add: image_image case_prod_unfold)
  qed
  then have none: "map_of kps k = None" by (simp add: map_of_eq_None_iff)
  have cnt: "unat (elements_count m) = length kps" by (rule object_count [OF o(4-6)])
  have "length kps < 2 ^ 59" using len length_del_member [of k kvs] o(7) by simp
  then obtain m' where m': "mapd_insert m k v (Some (\<lambda>entry released. released @ [mapd_value entry])) [] = Some (m', [])"
    "mapd_inv m'" "mapd_lookup m' = (mapd_lookup m)(k \<mapsto> v)"
    using mapd_insert_spec [OF o(4), of k v "Some (\<lambda>entry released. released @ [mapd_value entry])" "[]"] cnt
      fun_cong [OF o(6), of k] none by (auto simp: map_of_members)
  let ?h3 = "value_update a \<lparr>value_refs = 1, value_of = Object_value m'\<rparr> h2"
  let ?h' = "?h3\<lparr>value_blocks := (value_blocks ?h3)(v := value_blocks h1 v)\<rparr>"
  have a2: "value_blocks h2 a = Some \<lparr>value_refs = 1, value_of = Object_value m\<rparr>" using h2(3) \<open>a \<noteq> v\<close> o(1) by simp
  have "value_object_set a key v h = Some ?h3"
    using value_get_block(2) [OF o0(1) o(2,3) refl] value_get_block(2) [OF a2 o(2,3) refl] d(1) h2(1) k m'(1) a2
    by (simp add: value_object_set_def value_write_def)
  moreover have "value_release v ?h3 = Some ?h'"
    by (rule h2(4)) (use \<open>a \<noteq> v\<close> in \<open>simp add: value_update_def\<close>)
  ultimately have set: "value_object_set_release a key v h = Some ?h'"
    by (simp only: value_object_set_release_def) simp
  have blocks: "value_blocks ?h' = (value_blocks h1)(a \<mapsto> \<lparr>value_refs = 1, value_of = Object_value m'\<rparr>)"
    using h2(3) \<open>a \<noteq> v\<close> by (auto simp: value_update_def fun_eq_iff)
  let ?kps = "put_member k (v, j) kps"
  have disj: "A1 \<inter> B = {}" "a \<notin> A1" "a \<notin> A3" "A3 \<inter> B = {}" using A(4,6) o(10) d'(1) by auto
  have "owns_all (value_blocks ?h') ((v, j) # map snd kps) (A1 \<union> B)"
    using owns_frame(1) [OF v1, of "value_blocks ?h'"] owns_frame(2) [OF o(8), of "value_blocks ?h'"] disj o(9)
    by (intro owns_Cons) (auto simp: blocks)
  moreover have "mset ((v, j) # map snd kps) = mset (map snd ?kps)"
    using arg_cong [OF mset_put_member [OF gone, of "(v, j)"], of "image_mset snd"] by simp
  ultimately have "owns_all (value_blocks ?h') (map snd ?kps) (A1 \<union> B)" using owns_all_perm by metis
  moreover have "mapd_lookup m' = map_of (map (\<lambda>(k, p). (k, fst p)) ?kps)"
    unfolding m'(3) o(6) map_put_member using map_of_put_member [of "map (\<lambda>(k, p). (k, fst p)) kps" k v] o(5)
    by (simp add: ascending_def comp_def case_prod_unfold)
  ultimately have "owns (value_blocks ?h') a (JObject (map (\<lambda>(k, p). (k, snd p)) ?kps)) (insert a (A1 \<union> B))"
    using o(2,3,9) disj m'(2) ascending_put_member [OF o(5)] by (intro owns_objectI) (auto simp: blocks)
  moreover have "map (\<lambda>(k, p). (k, snd p)) ?kps = put_member k j kvs"
  proof -
    have "ascending kvs" using o0(2,3) by (simp add: ascending_def comp_def case_prod_unfold)
    then show ?thesis using put_del_member [of kvs k j] unfolding map_put_member o(7) by simp
  qed
  ultimately have own': "owns (value_blocks ?h') a (JObject (put_member k j kvs)) (insert a (A1 \<union> B))" by simp
  have "owns_all (value_blocks ?h') ps A3"
    using owns_frame(2) [OF p1, of "value_blocks ?h'"] disj by (auto simp: blocks)
  from owns_Cons [OF own' this] have "owns_all (value_blocks ?h') ((a, JObject (put_member k j kvs)) # ps) (insert a (A1 \<union> B) \<union> A3)"
    using disj A(5) by auto
  moreover have "reduces h ?h' A (insert a (A1 \<union> B) \<union> A3)"
  proof -
    have "value_supply ?h' = value_supply h" using h2(2) d'(2) by (simp add: value_update_def)
    moreover have "value_blocks ?h' x = value_blocks h x" if "x \<notin> A" for x
      using that A(7) d'(1,3) d(4) unfolding blocks by auto
    moreover have "value_blocks ?h' x = None" if "x \<in> A" "x \<notin> insert a (A1 \<union> B) \<union> A3" for x
      using that A(7) d'(4) o(10) unfolding blocks by auto
    moreover have "insert a (A1 \<union> B) \<union> A3 \<subseteq> A" using A(7) d'(1) o(10) by auto
    ultimately show ?thesis unfolding reduces_def by blast
  qed
  ultimately show ?thesis using set by blast
qed

end
