(* ===== verification/Decode_Tokens.thy ===== *)
theory Decode_Tokens
  imports Value_Ops
begin

text \<open>
  The tokens of the JSON decoder on any text: what they accept, where they end, and that on a text of
  7-bit characters with a terminating zero they never leave it.
\<close>

section \<open>Strings\<close>

lemma get_loop_within:
  "string_utf8_get_loop s st c p to = Some (c', q) \<Longrightarrow> p \<le> q \<and> (p \<le> length s \<longrightarrow> q \<le> length s)"
proof (induction s st c p to arbitrary: c' q rule: string_utf8_get_loop.induct)
  case (1 s st c p to)
  show ?case
  proof (cases "p < to \<and> p < length s")
    case True
    obtain st' code where dc: "string_utf8_decode_code st c (s ! p) = (st', code)" by fastforce
    have at: "char_at s p = Some (s ! p)" using True by (simp add: char_at_def)
    show ?thesis
    proof (cases "st' = STATE_ACCEPT \<or> st' = STATE_REJECT \<or> p + 1 = to")
      case True
      then show ?thesis using 1(2) dc at \<open>p < to \<and> p < length s\<close>
        by (subst (asm) string_utf8_get_loop.simps) (auto simp: Let_def split: if_splits)
    next
      case False
      have "string_utf8_get_loop s st' code (p + 1) to = Some (c', q)"
        using 1(2) dc at \<open>p < to \<and> p < length s\<close> False by (subst (asm) string_utf8_get_loop.simps) (simp add: Let_def)
      then show ?thesis using "1.IH" [of "s ! p" "(st', code)" st' code "p + 1" c' q] True at dc False by simp
    qed
  next
    case False
    then show ?thesis using 1(2) by (subst (asm) string_utf8_get_loop.simps) (auto simp: char_at_def split: if_splits)
  qed
qed

lemma get_within: "string_utf8_get s p to = Some (c, q) \<Longrightarrow> p \<le> length s \<Longrightarrow> p \<le> q \<and> q \<le> length s"
  unfolding string_utf8_get_def using get_loop_within by blast

lemma chars_test_within: "chars_test s p ts = Some True \<Longrightarrow> p \<le> length s \<Longrightarrow> p + length ts \<le> length s"
  by (induction s p ts rule: chars_test.induct) (auto simp: char_at_def split: if_splits)

lemma get_encoded_basic_within:
  "string_utf8_get_encoded_basic s p = Some (w, q) \<Longrightarrow> p \<le> length s \<Longrightarrow> p \<le> q \<and> q \<le> length s"
  using chars_test_within [of s p "[(=) 92, (=) 117, isxdigit, isxdigit, isxdigit, isxdigit]"]
  by (auto simp: string_utf8_get_encoded_basic_def split: bind_splits if_splits)

lemma get_encoded_within:
  "string_utf8_get_encoded s p = Some (c, q) \<Longrightarrow> p \<le> length s \<Longrightarrow> p \<le> q \<and> q \<le> length s"
  by (auto simp: string_utf8_get_encoded_def split: bind_splits if_splits dest!: get_encoded_basic_within)

lemma regular_scan_within: "regular_scan s p = Some q \<Longrightarrow> p \<le> q \<and> q < length s"
  by (induction s p rule: regular_scan.induct) (subst (asm) regular_scan.simps, auto split: if_splits)

lemma decode_step_within:
  assumes step: "string_utf8_decode_step s b p = Some (b', q)" and b: "buffer_holds b bs" and p: "p \<le> length s"
    and lim: "length bs + 4 * length s \<le> buffer_limit"
  shows "p \<le> q \<and> q \<le> length s \<and> (\<exists>ys. buffer_holds b' (bs @ ys) \<and> length ys \<le> (if q = p then 4 else 4 * (q - p)))"
proof -
  have put: "\<exists>ys. buffer_holds b' (bs @ ys) \<and> length ys \<le> 4"
    if "string_utf8_put b code = Some b'" "0 < length s" for code
  proof -
    have "length bs + length (utf8_bytes code) \<le> buffer_limit" using utf8_bytes_length(1) [of code] that(2) lim by linarith
    then show ?thesis using put_holds [OF b, of code] that(1) utf8_bytes_length(1) [of code] by auto
  qed
  have append: "\<exists>ys. buffer_holds b' (bs @ ys) \<and> length ys = length xs"
    if "buffer_append b (data_literal xs) = Some b'" "length xs \<le> length s" for xs
    using append_bytes [OF b, of xs] that lim by fastforce
  obtain c where c: "char_at s p = Some c" using step by (auto simp: string_utf8_decode_step_def split: bind_splits)
  then have ps: "p < length s" by (simp add: char_at_def split: if_splits)
  consider (regular) "string_utf8_regular c" | (code) "\<not> string_utf8_regular c" "0x80 \<le> c"
    | (escape) "\<not> string_utf8_regular c" "\<not> 0x80 \<le> c" "c = 92" | (stop) "\<not> string_utf8_regular c" "\<not> 0x80 \<le> c" "c \<noteq> 92"
    by blast
  then show ?thesis
  proof cases
    case regular
    then obtain b1 where r: "regular_scan s (p + 1) = Some q" "buffer_append b (data_literal (range_of s p q)) = Some b'"
      using step c by (auto simp: string_utf8_decode_step_def split: bind_splits)
    note w = regular_scan_within [OF r(1)]
    then have "length (range_of s p q) = q - p" by (auto simp: range_of_def)
    then show ?thesis using append [OF r(2)] w by fastforce
  next
    case code
    then obtain u where u: "string_utf8_get s p (p + 4) = Some (u, q)" "string_utf8_put b u = Some b'"
      using step c by (auto simp: string_utf8_decode_step_def split: bind_splits)
    obtain st' cd where "string_utf8_decode_code STATE_ACCEPT 0 (s ! p) = (st', cd)" by fastforce
    have "p < q" using u(1) ps unfolding string_utf8_get_def
      by (subst (asm) string_utf8_get_loop.simps) (auto simp: char_at_def Let_def split: if_splits prod.splits dest!: get_loop_within)
    have "0 < length s" using ps by linarith
    from put [OF u(2) this] show ?thesis using \<open>p < q\<close> get_within [OF u(1)] ps by fastforce
  next
    case escape
    obtain c' where c': "char_at s (p + 1) = Some c'" using step c escape by (auto simp: string_utf8_decode_step_def split: bind_splits)
    have p1: "p + 2 \<le> length s" using c' by (simp add: char_at_def split: if_splits)
    show ?thesis
    proof (cases "short_unescape c'")
      case (Some e)
      then have "buffer_append b (data_literal [e]) = Some b'" "q = p + 2"
        using step c c' escape by (auto simp: string_utf8_decode_step_def split: bind_splits)
      then show ?thesis using append [of "[e]"] p1 by fastforce
    next
      case None
      show ?thesis
      proof (cases "c' = 117")
        case True
        then obtain u where u: "string_utf8_get_encoded s p = Some (u, q)" "string_utf8_put b u = Some b'"
          using step c c' escape None by (auto simp: string_utf8_decode_step_def split: bind_splits)
        have "0 < length s" using ps by linarith
        from put [OF u(2) this] show ?thesis using get_encoded_within [OF u(1)] ps by fastforce
      next
        case False
        then show ?thesis using step c c' escape None b ps by (auto simp: string_utf8_decode_step_def intro!: exI [of _ "[]"])
      qed
    qed
  next
    case stop
    then show ?thesis using step c b ps by (auto simp: string_utf8_decode_step_def intro!: exI [of _ "[]"])
  qed
qed

lemma decode_from_within:
  assumes "string_utf8_decode_from s b p = Some (b', q)" "buffer_holds b bs" "p \<le> length s" "length bs \<le> 4 * p"
    "8 * length s + 8 \<le> buffer_limit"
  shows "p \<le> q \<and> q \<le> length s \<and> (\<exists>bs'. buffer_holds b' bs' \<and> length bs' \<le> 4 * length s + 4)"
proof -
  define P where "P = (\<lambda>(s :: byte list) b p r. \<forall>bs. buffer_holds b bs \<longrightarrow> p \<le> length s \<longrightarrow> length bs \<le> 4 * p \<longrightarrow> 8 * length s + 8 \<le> buffer_limit \<longrightarrow>
     p \<le> snd r \<and> snd r \<le> length s \<and> (\<exists>bs'. buffer_holds (fst r) bs' \<and> length bs' \<le> 4 * length s + 4))"
  have "P s b p (b', q)"
  proof (rule string_utf8_decode_from.raw_induct [OF _ assms(1)])
    fix f s b p r
    assume IH: "\<And>s b p r. f s b p = Some r \<Longrightarrow> P s b p r"
      and eq: "Option.bind (string_utf8_decode_step s b p) (\<lambda>(b, q). if q = p then Some (b, q) else f s b q) = Some r"
    obtain b1 q1 where step: "string_utf8_decode_step s b p = Some (b1, q1)"
      and rest: "(if q1 = p then Some (b1, q1) else f s b1 q1) = Some r"
      using eq by (auto split: bind_splits)
    show "P s b p r" unfolding P_def
    proof (intro allI impI)
      fix bs assume h: "buffer_holds b bs" "p \<le> length s" "length bs \<le> 4 * p" "8 * length s + 8 \<le> buffer_limit"
      have lim: "length bs + 4 * length s \<le> buffer_limit" using h(2-4) by linarith
      obtain ys where w: "p \<le> q1" "q1 \<le> length s" "buffer_holds b1 (bs @ ys)" "length ys \<le> (if q1 = p then 4 else 4 * (q1 - p))"
        using decode_step_within [OF step h(1,2) lim] by blast
      show "p \<le> snd r \<and> snd r \<le> length s \<and> (\<exists>bs'. buffer_holds (fst r) bs' \<and> length bs' \<le> 4 * length s + 4)"
      proof (cases "q1 = p")
        case True
        then have "length (bs @ ys) \<le> 4 * length s + 4" using w(4) h(2,3) by simp
        then show ?thesis using True rest w(1-3) by auto
      next
        case False
        have "length (bs @ ys) \<le> 4 * q1" using w(1,4) h(3) False by simp
        moreover have "P s b1 q1 r" by (rule IH) (use rest False in simp)
        ultimately show ?thesis using w(1-3) h(4) unfolding P_def by (meson le_trans)
      qed
    qed
  qed
  then show ?thesis using assms by (auto simp: P_def)
qed

lemma string_decode_within:
  assumes "string_utf8_decode s p = Some (str, q)" "p \<le> length s" "8 * length s + 8 \<le> buffer_limit"
  shows "p \<le> q" "\<exists>bs. data_bytes str = Some bs \<and> length bs + 1 < 2 ^ 64"
proof -
  obtain b where b: "string_utf8_decode_from s buffer_construct p = Some (b, q)"
    using assms(1) by (auto simp: string_utf8_decode_def Let_def split: bind_splits)
  obtain bs where bs: "p \<le> q" "buffer_holds b bs" "length bs \<le> 4 * length s + 4"
    using decode_from_within [OF b, of "[]"] assms(2,3) by auto
  have len: "length bs + 1 \<le> buffer_limit" using bs(3) assms(3) by linarith
  then have "str = string_holding bs"
    using decode_close [OF bs(2) len] b assms(1) by (auto simp: string_utf8_decode_def Let_def)
  moreover have "length bs + 1 < 2 ^ 64" using len by (simp add: buffer_limit_def)
  ultimately show "\<exists>bs. data_bytes str = Some bs \<and> length bs + 1 < 2 ^ 64" using string_holding_bytes [of bs] by auto
  show "p \<le> q" by (rule bs(1))
qed

section \<open>Numbers\<close>

lemma digits_end_within: "digits_end s p = Some q \<Longrightarrow> p \<le> q \<and> q < length s"
  by (induction s p rule: digits_end.induct) (subst (asm) digits_end.simps, auto split: if_splits)

lemma skip_digits_within: "value_skip_digits s p = Some (Some q) \<Longrightarrow> p < q"
  by (auto simp: value_skip_digits_def split: bind_splits if_splits dest: digits_end_within)

lemma number_end_within: "number_end s p = Some (Some q) \<Longrightarrow> p < q"
  by (auto simp: number_end_def decode_number_integer_def decode_number_fraction_def decode_number_exponent_def
      split: bind_splits if_splits option.splits dest!: skip_digits_within)

section \<open>Tokens and ownership\<close>

text \<open>The blocks \<open>A\<close> are new, and no other has changed.\<close>

definition grown :: "'n value_heap \<Rightarrow> 'n value_heap \<Rightarrow> value_t set \<Rightarrow> bool" where
  "grown h h' A \<longleftrightarrow> (\<forall>x\<in>A. value_blocks h x = None) \<and> (\<forall>x. x \<notin> A \<longrightarrow> value_blocks h' x = value_blocks h x)"

definition token_ok :: "'n value_heap \<Rightarrow> nat \<Rightarrow> value_t \<times> nat \<times> 'n value_heap \<Rightarrow> bool" where
  "token_ok h p t = (case t of (v, q, h') \<Rightarrow>
     (v = value_undefined \<and> h' = h) \<or> (\<exists>j A. owns (value_blocks h') v j A \<and> grown h h' A \<and> p \<le> q))"

lemma token_created:
  assumes "value_create x h = Some (v, h')" "contents x [] j" "p \<le> q"
  shows "token_ok h p (v, q, h')"
  using owns_created [OF assms(1,2)] assms(1,3) by (auto simp: token_ok_def grown_def value_create_iff)

lemma decode_null_ok: "value_decode_null s p h = Some t \<Longrightarrow> token_ok h p t"
  by (auto simp: value_decode_null_def token_ok_def grown_def split: bind_splits if_splits intro!: exI [of _ "{}"] owns_null)

lemma decode_bool_ok: "value_decode_bool s p h = Some t \<Longrightarrow> token_ok h p t"
  by (auto simp: value_decode_bool_def value_bool_def split: bind_splits if_splits
      intro: token_created) (auto simp: token_ok_def)

lemma decode_number_ok: "value_decode_number fmt s p h = Some t \<Longrightarrow> token_ok h p t"
  by (auto simp: value_decode_number_def value_number_def Let_def split: bind_splits if_splits option.splits prod.splits
      dest!: number_end_within intro: token_created) (auto simp: token_ok_def)

lemma decode_string_ok:
  assumes "value_decode_string s p h = Some t" "p < length s" "8 * length s + 8 \<le> buffer_limit"
  shows "token_ok h p t"
proof -
  obtain str q c where d: "string_utf8_decode s (p + 1) = Some (str, q)" "char_at s q = Some c"
    using assms(1) by (auto simp: value_decode_string_def split: bind_splits)
  have "Suc p \<le> length s" using assms(2) by simp
  then obtain bs where bs: "p + 1 \<le> q" "data_bytes str = Some bs"
    using string_decode_within [OF d(1) _ assms(3)] by auto
  show ?thesis using assms(1) d bs token_created [of "String_value str" h _ _ "JString bs" p "q + 1"]
    by (auto simp: value_decode_string_def value_string_release_def token_ok_def split: if_splits bind_splits)
qed

end
