(* ===== verification/Decode_Sound.thy ===== *)
theory Decode_Sound
  imports Decode_Tokens
begin

text \<open>
  Whatever the text is, the decoder keeps exact account of its blocks: the values on the stack and the
  current value own all that has been allocated. In the end either everything is freed, or what is left
  is the tree that is returned.
\<close>

section \<open>The invariant\<close>

definition json_count :: "'n json \<Rightarrow> nat" where
  "json_count j = (case j of JArray js \<Rightarrow> length js | JObject kvs \<Rightarrow> length kvs | _ \<Rightarrow> 0)"

text \<open>A key lies on its object.\<close>

fun stack_ok :: "'n json list \<Rightarrow> bool" where
  "stack_ok [] \<longleftrightarrow> True"
| "stack_ok (JArray _ # js) \<longleftrightarrow> stack_ok js"
| "stack_ok (JObject _ # js) \<longleftrightarrow> stack_ok js"
| "stack_ok (JString _ # JObject _ # js) \<longleftrightarrow> stack_ok js"
| "stack_ok _ \<longleftrightarrow> False"

text \<open>An array or object has no more elements than characters have been read.\<close>

definition counts_below :: "nat \<Rightarrow> (value_t \<times> 'n json) list \<Rightarrow> bool" where
  "counts_below n ps \<longleftrightarrow> (\<forall>p \<in> set ps. json_count (snd p) < n)"

definition has_element :: "decode_state \<Rightarrow> bool" where
  "has_element st \<longleftrightarrow> st \<in> {DECODE_ARRAY_REST, DECODE_ARRAY_END, DECODE_OBJECT_REST, DECODE_OBJECT_END}"

definition with_value :: "decode_state \<Rightarrow> bool" where
  "with_value st \<longleftrightarrow> st \<in> {DECODE_VALUE_END, DECODE_REDUCE, DECODE_ACCEPT, DECODE_REJECT}"

text \<open>The current value, as a list.\<close>

definition current :: "value_t \<Rightarrow> (value_t \<times> 'n json) list \<Rightarrow> bool" where
  "current v vs \<longleftrightarrow> (if v = value_undefined then vs = [] else \<exists>j. vs = [(v, j)])"

definition decode_owned ::
    "'n value_heap \<Rightarrow> 'n decoder \<Rightarrow> (value_t \<times> 'n json) list \<Rightarrow> (value_t \<times> 'n json) list \<Rightarrow> value_t set \<Rightarrow> bool" where
  "decode_owned h0 d vs ps A \<longleftrightarrow> map fst ps = decode_stack d \<and> current (decode_value d) vs \<and>
     owns_all (value_blocks (decode_heap d)) (vs @ ps) A \<and> grown h0 (decode_heap d) A \<and> stack_ok (map snd ps)"

definition decode_fits :: "'n decoder \<Rightarrow> (value_t \<times> 'n json) list \<Rightarrow> bool" where
  "decode_fits d ps \<longleftrightarrow> decode_state d = DECODE_REJECT \<or> decode_state d = DECODE_VALUE_END \<and> decode_value d = value_undefined \<or>
     counts_below (if has_element (decode_state d) then Suc (decode_position d) else decode_position d) ps"

definition decode_inv :: "'n value_heap \<Rightarrow> 'n decoder \<Rightarrow> bool" where
  "decode_inv h0 d \<longleftrightarrow> (\<exists>vs ps A. decode_owned h0 d vs ps A \<and> decode_fits d ps) \<and>
     (decode_value d \<noteq> value_undefined \<longrightarrow> with_value (decode_state d)) \<and>
     (decode_state d = DECODE_REDUCE \<longrightarrow> decode_value d \<noteq> value_undefined) \<and>
     (decode_state d = DECODE_ACCEPT \<longrightarrow> decode_value d \<noteq> value_undefined \<and> decode_stack d = [])"

lemma counts_below_mono: "counts_below n ps \<Longrightarrow> n \<le> m \<Longrightarrow> counts_below m ps"
  by (auto simp: counts_below_def)

lemma counts_below_Suc: "counts_below n ps \<Longrightarrow> counts_below (Suc n) ps"
  by (auto simp: counts_below_def)

lemma grown_token:
  assumes "grown h0 h A" "owns_all (value_blocks h) ps A" "owns (value_blocks h') v j B" "grown h h' B"
  shows "grown h0 h' (B \<union> A)" "owns_all (value_blocks h') ((v, j) # ps) (B \<union> A)"
proof -
  have disj: "B \<inter> A = {}" using owns_dom(2) [OF assms(2)] assms(4) by (auto simp: grown_def)
  then have "owns_all (value_blocks h') ps A" using owns_frame(2) [OF assms(2), of "value_blocks h'"] assms(4) by (auto simp: grown_def)
  then show "owns_all (value_blocks h') ((v, j) # ps) (B \<union> A)" by (rule owns_Cons [OF assms(3) _ disj])
  show "grown h0 h' (B \<union> A)"
    using assms(1,4) unfolding grown_def by (metis Un_iff)
qed

lemma grown_reduces: "grown h0 h A \<Longrightarrow> reduces h h' A A' \<Longrightarrow> grown h0 h' A'"
  unfolding grown_def reduces_def by (metis DiffI subsetD)

section \<open>The steps\<close>

text \<open>A step that only changes the state and the position.\<close>

lemma decode_inv_goto:
  assumes "decode_owned h0 d vs ps A" "decode_fits (d\<lparr>decode_state := st, decode_position := p\<rparr>) ps"
    "decode_value d \<noteq> value_undefined \<longrightarrow> with_value st" "st = DECODE_REDUCE \<longrightarrow> decode_value d \<noteq> value_undefined"
    "st = DECODE_ACCEPT \<longrightarrow> decode_value d \<noteq> value_undefined \<and> decode_stack d = []"
  shows "decode_inv h0 (d\<lparr>decode_state := st, decode_position := p\<rparr>)"
  using assms by (auto simp: decode_inv_def decode_owned_def)

lemma decode_inv_token:
  assumes d: "decode_owned h0 d [] ps A" "decode_fits d ps" "decode_state d \<notin> {DECODE_REJECT, DECODE_VALUE_END}"
      "\<not> has_element (decode_state d)" "decode_value d = value_undefined"
    and t: "decode_token t d = Some d'" "\<And>x. t = Some x \<Longrightarrow> token_ok (decode_heap d) (decode_position d) x"
  shows "decode_inv h0 d'"
proof -
  obtain v p h where x: "t = Some (v, p, h)" using t(1) by (auto simp: decode_token_def)
  have d': "d' = d\<lparr>decode_state := DECODE_VALUE_END, decode_position := p, decode_value := v, decode_heap := h\<rparr>"
    using t(1) x by (simp add: decode_token_def)
  show ?thesis
  proof (cases "v = value_undefined \<and> h = decode_heap d")
    case True
    then have "decode_owned h0 d' [] ps A" using d(1,5) by (auto simp: decode_owned_def d')
    then show ?thesis unfolding decode_inv_def decode_fits_def using True by (auto simp: d' with_value_def)
  next
    case False
    then obtain j B where j: "owns (value_blocks h) v j B" "grown (decode_heap d) h B" "decode_position d \<le> p"
      using t(2) [OF x] by (auto simp: token_ok_def)
    have own: "owns_all (value_blocks (decode_heap d)) ps A" "grown h0 (decode_heap d) A" using d(1) by (auto simp: decode_owned_def)
    have "decode_owned h0 d' [(v, j)] ps (B \<union> A)"
      using d(1) grown_token [OF own(2,1) j(1,2)] owns_not_undefined [OF j(1)] by (simp add: decode_owned_def d' current_def)
    moreover have "decode_fits d' ps"
      using d(2-4) j(3) by (auto simp: decode_fits_def d' has_element_def intro: counts_below_mono)
    ultimately show ?thesis unfolding decode_inv_def by (auto simp: d' with_value_def)
  qed
qed

lemma decode_inv_push:
  assumes d: "decode_owned h0 d [] ps A" "decode_fits d ps" "decode_state d \<notin> {DECODE_REJECT, DECODE_VALUE_END}"
      "\<not> has_element (decode_state d)" "decode_value d = value_undefined"
    and t: "decode_push (value_create x (decode_heap d)) d = Some d'" and x: "contents x [] j" "stack_ok [j]" "json_count j = 0"
  shows "decode_inv h0 d'"
proof -
  obtain v h where v: "value_create x (decode_heap d) = Some (v, h)"
    "d' = d\<lparr>decode_state := DECODE_VALUE_START, decode_position := decode_position d + 1, decode_stack := v # decode_stack d, decode_heap := h\<rparr>"
    using t by (auto simp: decode_push_def)
  have own: "owns_all (value_blocks (decode_heap d)) ps A" "grown h0 (decode_heap d) A" using d(1) by (auto simp: decode_owned_def)
  have new: "owns (value_blocks h) v j {v}" "grown (decode_heap d) h {v}"
    using owns_created [OF v(1) x(1)] v(1) by (auto simp: value_create_iff grown_def)
  have "stack_ok (j # map snd ps)" using x(2) d(1) by (cases j) (auto simp: decode_owned_def)
  then have "decode_owned h0 d' [] ((v, j) # ps) ({v} \<union> A)"
    using d(1,5) grown_token [OF own(2,1) new] by (simp add: decode_owned_def v(2) current_def)
  moreover have "decode_fits d' ((v, j) # ps)"
    using d(2-4) x(3) by (auto simp: decode_fits_def v(2) has_element_def counts_below_def)
  ultimately show ?thesis unfolding decode_inv_def using d(5) by (auto simp: v(2) with_value_def)
qed

lemma decode_inv_pop:
  assumes d: "decode_owned h0 d [] ps A" "counts_below (Suc (decode_position d)) ps" "decode_pop d = Some d'"
  shows "decode_inv h0 d'"
proof -
  obtain v stack where v: "decode_stack d = v # stack"
    "d' = d\<lparr>decode_state := DECODE_VALUE_END, decode_position := decode_position d + 1, decode_stack := stack, decode_value := v\<rparr>"
    using d(3) by (auto simp: decode_pop_def split: list.splits)
  obtain j qs where ps: "ps = (v, j) # qs" "map fst qs = stack" using d(1) v(1) by (cases ps) (auto simp: decode_owned_def)
  have "v \<noteq> value_undefined" using d(1) by (auto simp: ps decode_owned_def owns_all_Cons_iff dest: owns_not_undefined)
  moreover have "stack_ok (map snd qs)"
    using d(1) unfolding decode_owned_def ps by (cases j; cases qs; simp; cases "snd (hd qs)"; auto)
  ultimately have "decode_owned h0 d' [(v, j)] qs A" using d(1) ps by (simp add: decode_owned_def v(2) current_def)
  moreover have "decode_fits d' qs" using d(2) ps by (simp add: decode_fits_def v(2) has_element_def counts_below_def)
  ultimately show ?thesis unfolding decode_inv_def by (auto simp: v(2) with_value_def)
qed

lemma owns_is:
  assumes "owns (value_blocks h) v j A"
  shows "value_is t v h = Some (json_type j = t)"
  using owns_type [OF assms] by (simp add: value_is_def)

lemma owns_stringE:
  assumes "owns c a (JString k) A"
  obtains x where "c a = Some \<lparr>value_refs = 1, value_of = String_value x\<rparr>" "a \<noteq> value_undefined" "a \<noteq> value_null"
    "data_bytes x = Some k"
proof -
  obtain x ps B where x: "c a = Some \<lparr>value_refs = 1, value_of = x\<rparr>" "a \<noteq> value_undefined" "a \<noteq> value_null"
    "contents x ps (JString k)"
    using owns_blockE [OF assms] by blast
  then show ?thesis using that by (cases x) auto
qed

lemma string_copy_bytes:
  assumes "string_copy x = Some y" "data_bytes x = Some k"
  shows "data_bytes y = Some k"
proof (cases "length k + 1 < 2 ^ 64")
  case True
  then show ?thesis using data_copyz_bytes [OF assms(2)] assms(1) by (auto simp: string_copy_def)
next
  case False
  have len: "length k = unat (data_size x)" by (rule length_data_bytes [OF assms(2)])
  then have "18446744073709551615 \<le> unat (data_size x)" using False by simp
  then have "unat (data_size x) = 18446744073709551615" using unat_lt64 [of "data_size x"] by linarith
  then have "data_size x = 18446744073709551615" by (simp add: word_unat_eq_iff)
  then have "data_size x + 1 = 0" by simp
  then have "string_copy x = None"
    using False len by (auto simp: string_copy_def data_copyz_def malloc_def block_write_def length_ptr_read split: bind_splits)
  then show ?thesis using assms(1) by simp
qed

lemma decode_inv_reduce:
  assumes d: "decode_owned h0 d [(decode_value d, j)] ps A" "counts_below (decode_position d) ps" "decode_position d < 2 ^ 59"
    "decode_value d \<noteq> value_undefined" "decode_state d = DECODE_REDUCE" and r: "decode_reduce d = Some d'"
  shows "decode_inv h0 d'"
proof -
  let ?v = "decode_value d" and ?h = "decode_heap d"
  obtain a qs i where ps: "ps = (a, i) # qs" and stack: "decode_stack d = a # map fst qs"
    using d(1) r by (cases ps) (auto simp: decode_owned_def decode_reduce_def)
  have own: "owns_all (value_blocks ?h) ((?v, j) # (a, i) # qs) A" "grown h0 ?h A" using d(1) by (auto simp: decode_owned_def ps)
  then obtain A1 A2 where o: "owns (value_blocks ?h) ?v j A1" "owns (value_blocks ?h) a i A2" by (auto simp: owns_all_Cons_iff)
  note types = owns_is [OF o(1)] owns_is [OF o(2)]
  consider (array) js where "i = JArray js" | (key) kvs k where "i = JObject kvs" "j = JString k"
    | (member) k where "i = JString k" | (reject) "json_type i \<noteq> VALUE_ARRAY" "json_type i \<noteq> VALUE_STRING"
        "\<not> (json_type i = VALUE_OBJECT \<and> json_type j = VALUE_STRING)"
    by (cases i; cases j) (auto simp: json_type_def)
  then show ?thesis
  proof cases
    case array
    have "length js < 2 ^ 59" using d(2,3) by (auto simp: counts_below_def ps array json_count_def)
    then obtain h' where h': "value_array_append_release a ?v ?h = Some h'" "owns_all (value_blocks h') ((a, JArray (js @ [j])) # qs) A"
      "\<forall>x. x \<notin> A \<longrightarrow> value_blocks h' x = value_blocks ?h x"
      using array_append_release_owned [OF own(1) [unfolded array]] by blast
    have d': "d' = d\<lparr>decode_state := DECODE_ARRAY_REST, decode_value := value_undefined, decode_heap := h'\<rparr>"
      using r h'(1) types by (simp add: decode_reduce_def stack Let_def value_is_array_def value_is_object_def value_is_string_def array json_type_def)
    have "decode_owned h0 d' [] ((a, JArray (js @ [j])) # qs) A"
      using d(1) h'(2,3) own(2) by (auto simp: decode_owned_def d' ps array current_def grown_def)
    moreover have "decode_fits d' ((a, JArray (js @ [j])) # qs)"
      using d(2) by (auto simp: decode_fits_def d' has_element_def counts_below_def ps array json_count_def)
    ultimately show ?thesis unfolding decode_inv_def by (auto simp: d' with_value_def)
  next
    case key
    have d': "d' = d\<lparr>decode_state := DECODE_OBJECT_MAP, decode_value := value_undefined, decode_stack := ?v # decode_stack d\<rparr>"
      using r types by (simp add: decode_reduce_def stack Let_def value_is_array_def value_is_object_def value_is_string_def key json_type_def)
    have "decode_owned h0 d' [] ((?v, j) # ps) A"
      using d(1) by (auto simp: decode_owned_def d' ps key current_def)
    moreover have "decode_fits d' ((?v, j) # ps)"
      using d(2) by (auto simp: decode_fits_def d' has_element_def counts_below_def key json_count_def ps)
    ultimately show ?thesis unfolding decode_inv_def by (auto simp: d' with_value_def)
  next
    case member
    obtain b kvs qs' where qs: "qs = (b, JObject kvs) # qs'" "stack_ok (map snd qs')"
      using d(1) by (cases qs) (auto simp: decode_owned_def ps member elim: stack_ok.elims)
    obtain x where x: "value_blocks ?h a = Some \<lparr>value_refs = 1, value_of = String_value x\<rparr>" "a \<noteq> value_undefined" "a \<noteq> value_null"
      "data_bytes x = Some k"
      using o(2) unfolding member by (rule owns_stringE)
    note get = value_get_block(3) [OF x(1-3) refl]
    obtain h1 h2 where r': "value_object_set_release b x ?v ?h = Some h1" "value_release a h1 = Some h2"
      "d' = d\<lparr>decode_state := DECODE_OBJECT_REST, decode_value := value_undefined, decode_stack := b # map fst qs', decode_heap := h2\<rparr>"
      using r types by (auto simp: decode_reduce_def stack qs Let_def value_is_array_def value_is_object_def value_is_string_def
          member json_type_def get split: bind_splits)
    have perm: "owns_all (value_blocks ?h) ((?v, j) # (b, JObject kvs) # (a, JString k) # qs') A"
      by (rule owns_all_perm [OF _ own(1)]) (simp add: member qs)
    obtain copy where copy: "string_copy x = Some copy"
    proof (cases "string_copy x")
      case None
      have "value_object_set b x ?v ?h = None"
      proof -
        obtain B where "owns (value_blocks ?h) b (JObject kvs) B" using own(1) by (auto simp: owns_all_Cons_iff qs)
        then obtain m where m: "value_blocks ?h b = Some \<lparr>value_refs = 1, value_of = Object_value m\<rparr>" "b \<noteq> value_undefined" "b \<noteq> value_null"
          by (rule owns_objectE)
        show ?thesis using value_get_block(2) [OF m refl] None by (simp add: value_object_set_def split: bind_splits)
      qed
      then show ?thesis using r'(1) by (simp add: value_object_set_release_def)
    qed
    have "length kvs < 2 ^ 59" using d(2,3) by (auto simp: counts_below_def ps qs json_count_def)
    from object_set_release_owned [OF perm x(4) copy string_copy_bytes [OF copy x(4)] this] obtain A' where
      h1: "owns_all (value_blocks h1) ((b, JObject (put_member k j kvs)) # (a, JString k) # qs') A'" "reduces ?h h1 A A'"
      using r'(1) by auto
    have "owns_all (value_blocks h1) ((a, JString k) # (b, JObject (put_member k j kvs)) # qs') A'"
      by (rule owns_all_perm [OF _ h1(1)]) simp
    then obtain B1 B2 where B: "owns (value_blocks h1) a (JString k) B1"
      "owns_all (value_blocks h1) ((b, JObject (put_member k j kvs)) # qs') B2" "B1 \<inter> B2 = {}" "A' = B1 \<union> B2"
      by (auto simp: owns_all_Cons_iff [of _ a])
    have h2: "h2 = h1\<lparr>value_blocks := value_blocks h1 |` (- B1)\<rparr>"
      using release_owned [of h1 "[(a, JString k)]" B1] B(1) r'(2) by (simp add: owns_all_single value_release_def)
    have "grown h0 h2 B2"
      using grown_reduces [OF own(2) h1(2)] B(3,4) by (auto simp: grown_def h2 restrict_map_def)
    moreover have "owns_all (value_blocks h2) ((b, JObject (put_member k j kvs)) # qs') B2"
      using owns_frame(2) [OF B(2), of "value_blocks h2"] B(3) by (auto simp: h2 restrict_map_def)
    ultimately have "decode_owned h0 d' [] ((b, JObject (put_member k j kvs)) # qs') B2"
      using qs(2) by (simp add: decode_owned_def r'(3) current_def)
    moreover have "length (put_member k j kvs) \<le> Suc (length kvs)" by (induction kvs) auto
    then have "decode_fits d' ((b, JObject (put_member k j kvs)) # qs')"
      using d(2) by (auto simp: decode_fits_def r'(3) has_element_def counts_below_def ps qs json_count_def)
    ultimately show ?thesis unfolding decode_inv_def by (auto simp: r'(3) with_value_def)
  next
    case reject
    then have d': "d' = d\<lparr>decode_state := DECODE_REJECT\<rparr>"
      using r types by (auto simp: decode_reduce_def stack Let_def value_is_array_def value_is_object_def value_is_string_def split: if_splits)
    have "decode_owned h0 d' [(?v, j)] ps A" using d(1) by (simp add: decode_owned_def d')
    then show ?thesis unfolding decode_inv_def by (auto simp: d' with_value_def decode_fits_def)
  qed
qed

lemma decode_inv_step:
  assumes inv: "decode_inv h0 d" and step: "value_decode_step fmt s c d = Some d'"
    and p: "decode_position d < length s" "length s < 2 ^ 59"
  shows "decode_inv h0 d'"
proof -
  have lim: "8 * length s + 8 \<le> buffer_limit" using p(2) by (simp add: buffer_limit_def)
  obtain vs ps A where d: "decode_owned h0 d vs ps A" "decode_fits d ps"
    using inv by (auto simp: decode_inv_def)
  have none: "vs = []" "decode_value d = value_undefined" if "\<not> with_value (decode_state d)"
    using inv d(1) that by (auto simp: decode_inv_def decode_owned_def current_def)
  have goto: "decode_inv h0 (d\<lparr>decode_state := st, decode_position := q\<rparr>)"
    if "\<not> with_value (decode_state d)" "st \<noteq> DECODE_REDUCE" "st \<noteq> DECODE_ACCEPT"
      "decode_fits (d\<lparr>decode_state := st, decode_position := q\<rparr>) ps" for st q
    using decode_inv_goto [OF d(1) that(4)] none(2) [OF that(1)] that(2,3) by simp
  have goto0: "decode_inv h0 (d\<lparr>decode_state := st\<rparr>)"
    if "\<not> with_value (decode_state d)" "st \<noteq> DECODE_REDUCE" "st \<noteq> DECODE_ACCEPT" "decode_fits (d\<lparr>decode_state := st\<rparr>) ps" for st
    using goto [of st "decode_position d"] that by simp
  show ?thesis
  proof (cases "decode_state d")
    case DECODE_VALUE_START
    then have "d' = d\<lparr>decode_state := decode_start c\<rparr>" using step by (simp add: value_decode_step_def Let_def)
    then show ?thesis using d(2) DECODE_VALUE_START
      by (auto intro!: goto0 simp: with_value_def decode_start_def decode_fits_def has_element_def)
  next
    case DECODE_VALUE_END
    have "value_is_undefined (decode_value d) (decode_heap d) = Some (decode_value d = value_undefined)"
    proof (cases "decode_value d = value_undefined")
      case False
      then obtain j where "vs = [(decode_value d, j)]" using d(1) by (auto simp: decode_owned_def current_def)
      then obtain B where "owns (value_blocks (decode_heap d)) (decode_value d) j B"
        using d(1) by (auto simp: decode_owned_def owns_all_Cons_iff)
      then show ?thesis using False owns_is [of "decode_heap d" "decode_value d" j B VALUE_UNDEFINED]
        by (cases j) (auto simp: value_is_undefined_def json_type_def)
    qed (simp add: value_is_undefined_def value_is_def value_type_def)
    then have "d' = d\<lparr>decode_state := (if decode_value d = value_undefined then DECODE_REJECT
        else if decode_stack d = [] then DECODE_ACCEPT else DECODE_REDUCE), decode_position := decode_position d\<rparr>"
      using step DECODE_VALUE_END by (auto simp: value_decode_step_def Let_def)
    then show ?thesis using decode_inv_goto [OF d(1), where p = "decode_position d"] d(2) DECODE_VALUE_END
      by (auto simp: decode_fits_def has_element_def with_value_def)
  next
    case DECODE_NULL
    then show ?thesis using step none decode_inv_token [OF _ d(2)] d(1) decode_null_ok [of s "decode_position d" "decode_heap d"]
      by (auto simp: value_decode_step_def Let_def with_value_def has_element_def)
  next
    case DECODE_BOOL
    then show ?thesis using step none decode_inv_token [OF _ d(2)] d(1) decode_bool_ok [of s "decode_position d" "decode_heap d"]
      by (auto simp: value_decode_step_def Let_def with_value_def has_element_def)
  next
    case DECODE_NUMBER
    then show ?thesis using step none decode_inv_token [OF _ d(2)] d(1) decode_number_ok [of fmt s "decode_position d" "decode_heap d"]
      by (auto simp: value_decode_step_def Let_def with_value_def has_element_def)
  next
    case DECODE_STRING
    then show ?thesis using step none decode_inv_token [OF _ d(2)] d(1) decode_string_ok [OF _ p(1) lim, of "decode_heap d"]
      by (auto simp: value_decode_step_def Let_def with_value_def has_element_def)
  next
    case DECODE_ARRAY_FIRST
    have "contents (Array_value (vector_construct 8)) [] (JArray [])"
      using vector_construct_holds [of 8] by (simp add: vector_construct_def)
    then show ?thesis using step none decode_inv_push [OF _ d(2)] d(1) DECODE_ARRAY_FIRST
      by (auto simp: value_decode_step_def Let_def with_value_def has_element_def value_array_def json_count_def)
  next
    case DECODE_OBJECT_FIRST
    obtain m where m: "mapd_construct = Some m" "mapd_inv m" "mapd_lookup m = (\<lambda>_. None)"
      using mapd_construct_spec by blast
    have "value_object (decode_heap d) = value_create (Object_value m) (decode_heap d)" unfolding value_object_def m(1) by simp
    then have "decode_push (value_create (Object_value m) (decode_heap d)) d = Some d'"
      using step DECODE_OBJECT_FIRST by (simp add: value_decode_step_def Let_def)
    moreover have "decode_owned h0 d [] ps A" "decode_value d = value_undefined" using none d(1) DECODE_OBJECT_FIRST by (auto simp: with_value_def)
    ultimately show ?thesis using decode_inv_push [of h0 d ps A "Object_value m" d' "JObject []"] d(2) DECODE_OBJECT_FIRST m
      by (auto simp: has_element_def json_count_def ascending_def)
  next
    case DECODE_ARRAY_REST
    then show ?thesis using step d(2)
      by (auto simp: value_decode_step_def Let_def decode_rest_def with_value_def decode_fits_def has_element_def
          intro!: goto goto0 split: if_splits)
  next
    case DECODE_OBJECT_REST
    then show ?thesis using step d(2)
      by (auto simp: value_decode_step_def Let_def decode_rest_def with_value_def decode_fits_def has_element_def
          intro!: goto goto0 split: if_splits)
  next
    case DECODE_OBJECT_MAP
    then show ?thesis using step d(2)
      by (auto simp: value_decode_step_def Let_def decode_rest_def with_value_def decode_fits_def has_element_def
          intro!: goto goto0 intro: counts_below_Suc split: if_splits)
  next
    case DECODE_ARRAY_EMPTY
    then show ?thesis using step d(2)
      by (auto simp: value_decode_step_def Let_def decode_empty_def with_value_def decode_fits_def has_element_def
          intro!: goto0 intro: counts_below_Suc split: list.splits bind_splits if_splits)
  next
    case DECODE_OBJECT_EMPTY
    then show ?thesis using step d(2)
      by (auto simp: value_decode_step_def Let_def decode_empty_def with_value_def decode_fits_def has_element_def
          intro!: goto0 intro: counts_below_Suc split: list.splits bind_splits if_splits)
  next
    case DECODE_ARRAY_END
    then show ?thesis using step d none decode_inv_pop [of h0 d ps A d']
      by (auto simp: value_decode_step_def Let_def with_value_def decode_fits_def has_element_def)
  next
    case DECODE_OBJECT_END
    then show ?thesis using step d none decode_inv_pop [of h0 d ps A d']
      by (auto simp: value_decode_step_def Let_def with_value_def decode_fits_def has_element_def)
  next
    case DECODE_REDUCE
    then have "decode_value d \<noteq> value_undefined" using inv by (simp add: decode_inv_def)
    moreover from this obtain j where "vs = [(decode_value d, j)]" using d(1) by (auto simp: decode_owned_def current_def)
    moreover have "counts_below (decode_position d) ps" "decode_position d < 2 ^ 59" "decode_reduce d = Some d'"
      using d(2) p step DECODE_REDUCE by (simp_all add: decode_fits_def has_element_def value_decode_step_def Let_def)
    ultimately show ?thesis using decode_inv_reduce DECODE_REDUCE d(1) by blast
  next
    case DECODE_ACCEPT
    then show ?thesis using step by (simp add: value_decode_step_def Let_def)
  next
    case DECODE_REJECT
    then show ?thesis using step by (simp add: value_decode_step_def Let_def)
  qed
qed

section \<open>The outcome\<close>

text \<open>
  What a call of the decoder leaves: a tree that owns all the new blocks, or nothing.
\<close>

definition decode_outcome :: "'n value_heap \<Rightarrow> value_t \<times> nat option \<times> 'n value_heap \<Rightarrow> bool" where
  "decode_outcome h r = (case r of (v, end, h') \<Rightarrow>
     if v = value_undefined then end = None \<and> value_blocks h' = value_blocks h
     else end \<noteq> None \<and> (\<exists>j A. owns (value_blocks h') v j A \<and> grown h h' A))"

lemma whitespace_within: "value_decode_whitespace s p = Some q \<Longrightarrow> p \<le> q \<and> q < length s"
  by (induction s p rule: value_decode_whitespace.induct) (subst (asm) value_decode_whitespace.simps, auto split: if_splits)

lemma decode_inv_position:
  assumes "decode_inv h0 d" "decode_position d \<le> p"
  shows "decode_inv h0 (d\<lparr>decode_position := p\<rparr>)"
proof -
  obtain vs ps A where "decode_owned h0 d vs ps A" "decode_fits d ps" using assms(1) by (auto simp: decode_inv_def)
  moreover from this have "decode_fits (d\<lparr>decode_position := p\<rparr>) ps"
    using assms(2) by (auto simp: decode_fits_def intro: counts_below_mono)
  ultimately show ?thesis using assms(1) unfolding decode_inv_def by (auto simp: decode_owned_def)
qed

lemma decode_reject:
  assumes "decode_owned h0 d vs ps A" "value_release_all (rev (decode_stack d)) (decode_heap d) = Some h"
    "value_release (decode_value d) h = Some h'"
  shows "value_blocks h' = value_blocks h0"
proof -
  obtain A1 A2 where A: "owns_all (value_blocks (decode_heap d)) vs A1" "owns_all (value_blocks (decode_heap d)) ps A2"
    "A1 \<inter> A2 = {}" "A = A1 \<union> A2"
    using assms(1) by (auto simp: decode_owned_def owns_all_append_iff)
  have "owns_all (value_blocks (decode_heap d)) (rev ps) A2" by (rule owns_all_perm [OF _ A(2)]) simp
  from release_owned [OF this] have h: "h = (decode_heap d)\<lparr>value_blocks := value_blocks (decode_heap d) |` (- A2)\<rparr>"
    using assms(1,2) by (simp add: decode_owned_def flip: rev_map)
  have "owns_all (value_blocks h) vs A1" using owns_frame(2) [OF A(1), of "value_blocks h"] A(3) by (auto simp: h restrict_map_def)
  from release_owned [OF this] have h': "h' = h\<lparr>value_blocks := value_blocks h |` (- A1)\<rparr>"
    using assms(1,3) by (auto simp: decode_owned_def current_def value_release_def restrict_map_def split: if_splits)
  show ?thesis using assms(1) A(4) by (auto simp: h' h decode_owned_def grown_def restrict_map_def fun_eq_iff)
qed

lemma decode_loop_outcome:
  assumes "value_decode_loop fmt s d = Some r" "decode_inv h0 d" "length s < 2 ^ 59"
  shows "decode_outcome h0 r"
proof -
  define P where "P = (\<lambda>(fmt :: 'a number_format) (s :: byte list) d r. decode_inv h0 d \<longrightarrow> length s < 2 ^ 59 \<longrightarrow> decode_outcome h0 r)"
  have "P fmt s d r"
  proof (rule value_decode_loop.raw_induct [OF _ assms(1)])
    fix f fmt s d and r :: "value_t \<times> nat option \<times> 'a value_heap"
    assume IH: "\<And>fmt s d r. f fmt s d = Some r \<Longrightarrow> P fmt s d r"
    assume eq: "Option.bind (value_decode_whitespace s (decode_position d)) (\<lambda>p.
       if decode_state d = DECODE_ACCEPT
       then Option.bind (value_release_all (rev (decode_stack d)) (decode_heap d)) (\<lambda>h. Some (decode_value d, Some p, h))
       else if decode_state d = DECODE_REJECT
       then Option.bind (value_release_all (rev (decode_stack d)) (decode_heap d)) (\<lambda>h.
         Option.bind (value_release (decode_value d) h) (\<lambda>h. Some (value_undefined, None, h)))
       else Option.bind (char_at s p) (\<lambda>c.
         Option.bind (value_decode_step fmt s c (d\<lparr>decode_position := p\<rparr>)) (f fmt s))) = Some r"
    show "P fmt s d r" unfolding P_def
    proof (intro impI)
      assume inv: "decode_inv h0 d" and len: "length s < 2 ^ 59"
      obtain p where p: "value_decode_whitespace s (decode_position d) = Some p" using eq by (cases "value_decode_whitespace s (decode_position d)") auto
      note w = whitespace_within [OF p]
      consider (accept) "decode_state d = DECODE_ACCEPT" | (reject) "decode_state d = DECODE_REJECT"
        | (step) "decode_state d \<noteq> DECODE_ACCEPT" "decode_state d \<noteq> DECODE_REJECT" by blast
      then show "decode_outcome h0 r"
      proof cases
        case accept
        then have r: "r = (decode_value d, Some p, decode_heap d)" using eq p inv by (auto simp: decode_inv_def)
        obtain vs ps A where d: "decode_owned h0 d vs ps A" using inv by (auto simp: decode_inv_def)
        have "decode_value d \<noteq> value_undefined" "ps = []" using inv accept d by (auto simp: decode_inv_def decode_owned_def)
        then obtain j where "owns (value_blocks (decode_heap d)) (decode_value d) j A" "grown h0 (decode_heap d) A"
          using d by (auto simp: decode_owned_def current_def owns_all_single)
        then show ?thesis using owns_not_undefined by (auto simp: decode_outcome_def r)
      next
        case reject
        obtain vs ps A where d: "decode_owned h0 d vs ps A" using inv by (auto simp: decode_inv_def)
        have "Option.bind (value_release_all (rev (decode_stack d)) (decode_heap d)) (\<lambda>h.
            Option.bind (value_release (decode_value d) h) (\<lambda>h. Some (value_undefined, None, h))) = Some r"
          using eq p reject by simp
        then obtain h h' where r: "value_release_all (rev (decode_stack d)) (decode_heap d) = Some h"
          "value_release (decode_value d) h = Some h'" "r = (value_undefined, None, h')"
          unfolding bind_eq_Some_conv by blast
        show ?thesis using decode_reject [OF d r(1,2)] by (simp add: decode_outcome_def r(3))
      next
        case step
        obtain c d' where d': "value_decode_step fmt s c (d\<lparr>decode_position := p\<rparr>) = Some d'" "f fmt s d' = Some r"
        proof -
          have "Option.bind (char_at s p) (\<lambda>c. Option.bind (value_decode_step fmt s c (d\<lparr>decode_position := p\<rparr>)) (f fmt s)) = Some r"
            using eq p step by simp
          then show ?thesis using that unfolding bind_eq_Some_conv by blast
        qed
        have "decode_inv h0 (d\<lparr>decode_position := p\<rparr>)" using decode_inv_position [OF inv] w by simp
        then have "decode_inv h0 d'" using decode_inv_step [OF _ d'(1)] w len by simp
        then show ?thesis using IH [OF d'(2)] len by (simp add: P_def)
      qed
    qed
  qed
  then show ?thesis using assms by (simp add: P_def)
qed

lemma decode_inv_start:
  "decode_inv h \<lparr>decode_state = DECODE_VALUE_START, decode_position = 0, decode_stack = [], decode_value = value_undefined, decode_heap = h\<rparr>"
  unfolding decode_inv_def
  by (auto simp: decode_owned_def current_def grown_def decode_fits_def counts_below_def intro!: exI [of _ "[]"] exI [of _ "{}"] owns_Nil)


end
