(* ===== verification/Decode_Texts.thy ===== *)
theory Decode_Texts
  imports Decode_Sound
begin

text \<open>
  JSON texts, and the decoder on them: it returns the tree the text stands for, from whatever state of
  the heap, and stops behind the text.
\<close>

section \<open>Texts\<close>

text \<open>A number as the JSON grammar has it: sign, integer, fraction and exponent.\<close>

definition digit_run :: "byte list \<Rightarrow> bool" where
  "digit_run t \<longleftrightarrow> t \<noteq> [] \<and> list_all isdigit t"

definition integer_run :: "byte list \<Rightarrow> bool" where
  "integer_run t \<longleftrightarrow> digit_run t \<and> (hd t = 48 \<longrightarrow> length t = 1)"

definition number_text :: "byte list \<Rightarrow> bool" where
  "number_text t \<longleftrightarrow> (\<exists>sign whole fraction expo. t = sign @ whole @ fraction @ expo \<and> sign \<in> {[], [45]} \<and> integer_run whole \<and>
     (fraction = [] \<or> (\<exists>ds. fraction = 46 # ds \<and> digit_run ds)) \<and>
     (expo = [] \<or> (\<exists>e es ds. expo = e # es @ ds \<and> e \<in> {101, 69} \<and> es \<in> {[], [45], [43]} \<and> integer_run ds)))"

text \<open>What may follow a number, and what \<open>strtold\<close> does with one.\<close>

definition delimiter :: "byte \<Rightarrow> bool" where
  "delimiter c \<longleftrightarrow> whitespace c \<or> c = 44 \<or> c = 93 \<or> c = 125 \<or> c = 0"

definition strtold_reads :: "'n number_format \<Rightarrow> byte list \<Rightarrow> 'n \<Rightarrow> bool" where
  "strtold_reads fmt t n \<longleftrightarrow>
     (\<forall>s p c r. drop p s = t @ c # r \<longrightarrow> delimiter c \<longrightarrow> strtold fmt s p = (n, p + length t, False))"

text \<open>A string literal in either form of the encoder, and the bytes it stands for.\<close>

definition string_text :: "byte list \<Rightarrow> byte list \<Rightarrow> bool" where
  "string_text t bs \<longleftrightarrow> (\<exists>ascii cs. scalars cs \<and> t = 34 # escape_string ascii cs @ [34] \<and>
     bs = utf8_string (map (reread ascii) cs))"

text \<open>Texts begin with any white space. The elements of arrays and objects come with the closing bracket.\<close>

inductive json_text :: "'n number_format \<Rightarrow> byte list \<Rightarrow> 'n json \<Rightarrow> bool"
  and elements_text :: "'n number_format \<Rightarrow> byte list \<Rightarrow> 'n json list \<Rightarrow> bool"
  and members_text :: "'n number_format \<Rightarrow> byte list \<Rightarrow> (byte list \<times> 'n json) list \<Rightarrow> bool" for fmt where
  text_space: "whitespace c \<Longrightarrow> json_text fmt t j \<Longrightarrow> json_text fmt (c # t) j"
| text_null: "json_text fmt [110, 117, 108, 108] JNull"
| text_true: "json_text fmt [116, 114, 117, 101] (JBool True)"
| text_false: "json_text fmt [102, 97, 108, 115, 101] (JBool False)"
| text_number: "number_text t \<Longrightarrow> strtold_reads fmt t n \<Longrightarrow> json_text fmt t (JNumber n)"
| text_string: "string_text t bs \<Longrightarrow> json_text fmt t (JString bs)"
| text_empty_array: "list_all whitespace w \<Longrightarrow> json_text fmt (91 # w @ [93]) (JArray [])"
| text_array: "elements_text fmt t js \<Longrightarrow> json_text fmt (91 # t) (JArray js)"
| text_empty_object: "list_all whitespace w \<Longrightarrow> json_text fmt (123 # w @ [125]) (JObject [])"
| text_object: "members_text fmt t ms \<Longrightarrow> json_text fmt (123 # t) (JObject (fold (\<lambda>(k, j). put_member k j) ms []))"
| elements_last: "json_text fmt t j \<Longrightarrow> list_all whitespace w \<Longrightarrow> elements_text fmt (t @ w @ [93]) [j]"
| elements_more: "json_text fmt t j \<Longrightarrow> list_all whitespace w \<Longrightarrow> elements_text fmt u js \<Longrightarrow>
    elements_text fmt (t @ w @ 44 # u) (j # js)"
| members_last: "list_all whitespace w1 \<Longrightarrow> string_text t k \<Longrightarrow> list_all whitespace w2 \<Longrightarrow> json_text fmt u j \<Longrightarrow>
    list_all whitespace w3 \<Longrightarrow> members_text fmt (w1 @ t @ w2 @ 58 # u @ w3 @ [125]) [(k, j)]"
| members_more: "list_all whitespace w1 \<Longrightarrow> string_text t k \<Longrightarrow> list_all whitespace w2 \<Longrightarrow> json_text fmt u j \<Longrightarrow>
    list_all whitespace w3 \<Longrightarrow> members_text fmt v ms \<Longrightarrow>
    members_text fmt (w1 @ t @ w2 @ 58 # u @ w3 @ 44 # v) ((k, j) # ms)"

section \<open>Scanning\<close>

lemma drop_within: "drop p s = t @ c # r \<Longrightarrow> p + length t < length s"
  by (drule arg_cong [of _ _ length]) auto

lemma nth_drop_at: "drop p s = t @ c # r \<Longrightarrow> s ! (p + length t) = c"
  using drop_within [of p s t c r] nth_drop [of p s "length t"] by (simp add: nth_append)

lemma drop_at: "drop p s = t @ c # r \<Longrightarrow> char_at s (p + length t) = Some c"
  using nth_drop_at [of p s t c r] drop_within [of p s t c r] by (simp add: char_at_def)

lemma drop_Suc_tail: "drop p s = c # r \<Longrightarrow> drop (Suc p) s = r"
  by (metis drop_Suc list.sel(3) tl_drop)

lemma drop_more: "drop p s = t @ r \<Longrightarrow> drop (p + length t) s = r"
  by (metis add.commute append_eq_conv_conj drop_drop)

lemma whitespace_run:
  "drop p s = w @ c # r \<Longrightarrow> list_all whitespace w \<Longrightarrow> \<not> whitespace c \<Longrightarrow> value_decode_whitespace s p = Some (p + length w)"
proof (induction w arbitrary: p)
  case Nil
  then show ?case using nth_drop_at [of p s "[]"] drop_within [of p s "[]"] by (simp add: value_decode_whitespace.simps)
next
  case (Cons a w)
  have "s ! p = a" "p < length s" using nth_drop_at [of p s "[]" a] drop_within [of p s "[]" a] Cons.prems(1) by simp_all
  moreover have "drop (Suc p) s = w @ c # r" using drop_Suc_tail Cons.prems(1) by simp
  ultimately show ?case using Cons.IH [of "Suc p"] Cons.prems(2,3) by (subst value_decode_whitespace.simps) simp
qed

lemma digits_run:
  "drop p s = ds @ c # r \<Longrightarrow> list_all isdigit ds \<Longrightarrow> \<not> isdigit c \<Longrightarrow> digits_end s p = Some (p + length ds)"
proof (induction ds arbitrary: p)
  case Nil
  then show ?case using nth_drop_at [of p s "[]"] drop_within [of p s "[]"] by (simp add: digits_end.simps)
next
  case (Cons a ds)
  have "s ! p = a" "p < length s" using nth_drop_at [of p s "[]" a] drop_within [of p s "[]" a] Cons.prems(1) by simp_all
  moreover have "drop (Suc p) s = ds @ c # r" using drop_Suc_tail Cons.prems(1) by simp
  ultimately show ?case using Cons.IH [of "Suc p"] Cons.prems(2,3) by (subst digits_end.simps) simp
qed

lemma skip_digits_run:
  assumes "drop p s = ds @ c # r" "digit_run ds" "\<not> isdigit c"
  shows "value_skip_digits s p = Some (Some (p + length ds))"
proof -
  obtain d ds' where ds: "ds = d # ds'" using assms(2) by (cases ds) (auto simp: digit_run_def)
  have "char_at s p = Some d" using drop_at [of p s "[]" d] assms(1) ds by simp
  moreover have "digits_end s (p + 1) = Some (p + 1 + length ds')"
    using digits_run [of "p + 1" s ds' c r] drop_Suc_tail [of p s d] assms ds by (simp add: digit_run_def)
  ultimately show ?thesis using assms(2) ds by (simp add: value_skip_digits_def digit_run_def)
qed

lemma integer_scan:
  assumes "drop p s = ds @ c # r" "integer_run ds" "\<not> isdigit c"
  shows "decode_number_integer s p = Some (Some (p + length ds))"
proof -
  obtain d ds' where ds: "ds = d # ds'" using assms(2) by (cases ds) (auto simp: integer_run_def digit_run_def)
  have d: "char_at s p = Some d" using drop_at [of p s "[]" d] assms(1) ds by simp
  have "leading_zero s p = Some False"
  proof (cases "d = 48")
    case True
    then have "ds' = []" using assms(2) ds by (simp add: integer_run_def)
    then have "char_at s (p + 1) = Some c" using drop_at [of p s "[d]" c r] assms(1) ds by simp
    then show ?thesis using d True assms(3) by (simp add: leading_zero_def)
  qed (use d in \<open>simp add: leading_zero_def\<close>)
  then show ?thesis using skip_digits_run [OF assms(1) _ assms(3)] assms(2) by (simp add: decode_number_integer_def integer_run_def)
qed

lemma delimiter_not: "delimiter c \<Longrightarrow> \<not> isdigit c \<and> c \<noteq> 46 \<and> c \<noteq> 101 \<and> c \<noteq> 69"
  by (auto simp: delimiter_def whitespace_def isdigit_def)

lemma exponent_scan:
  assumes "drop p s = expo @ c # r" "delimiter c"
    "expo = [] \<or> (\<exists>e es ds. expo = e # es @ ds \<and> e \<in> {101, 69} \<and> es \<in> {[], [45], [43]} \<and> integer_run ds)"
  shows "decode_number_exponent s p = Some (Some (p + length expo))"
  using assms(3)
proof (elim disjE exE conjE)
  assume "expo = []"
  then show ?thesis using drop_at [of p s "[]" c] assms(1) delimiter_not [OF assms(2)] by (simp add: decode_number_exponent_def)
next
  fix e es ds assume e: "expo = e # es @ ds" "e \<in> {101, 69}" "es \<in> {[], [45], [43]}" "integer_run ds"
  obtain d ds' where ds: "ds = d # ds'" "isdigit d" using e(4) by (cases ds) (auto simp: integer_run_def digit_run_def)
  have at: "char_at s p = Some e" using drop_at [of p s "[]" e] assms(1) e(1) by simp
  have int: "decode_number_integer s (p + length (e # es)) = Some (Some (p + length (e # es) + length ds))"
    using integer_scan [OF _ e(4), of "p + length (e # es)" s c r] drop_more [of p s "e # es" "ds @ c # r"] assms(1) e(1)
      delimiter_not [OF assms(2)] by simp
  show ?thesis
  proof (cases es)
    case Nil
    have "char_at s (p + 1) = Some d" using drop_at [of p s "[e]" d "ds' @ c # r"] assms(1) e(1) ds(1) Nil by simp
    moreover have "d \<noteq> 45" "d \<noteq> 43" using ds(2) by (auto simp: isdigit_def)
    ultimately show ?thesis using at int e(1,2) Nil by (auto simp: decode_number_exponent_def)
  next
    case (Cons x xs)
    then have x: "es = [x]" "x = 45 \<or> x = 43" using e(3) by auto
    have "char_at s (p + 1) = Some x" using drop_at [of p s "[e]" x "ds @ c # r"] assms(1) e(1) x(1) by simp
    then show ?thesis using at int e(1,2) x by (auto simp: decode_number_exponent_def)
  qed
qed

lemma fraction_scan:
  assumes "drop p s = fraction @ c # r" "\<not> isdigit c" "c \<noteq> 46" "fraction = [] \<or> (\<exists>ds. fraction = 46 # ds \<and> digit_run ds)"
  shows "decode_number_fraction s p = Some (Some (p + length fraction))"
  using assms(4)
proof (elim disjE exE conjE)
  assume "fraction = []"
  then show ?thesis using drop_at [of p s "[]" c] assms(1,3) by (simp add: decode_number_fraction_def)
next
  fix ds assume ds: "fraction = 46 # ds" "digit_run ds"
  have "char_at s p = Some 46" using drop_at [of p s "[]" 46] assms(1) ds(1) by simp
  moreover have "value_skip_digits s (p + 1) = Some (Some (p + 1 + length ds))"
    using skip_digits_run [of "p + 1" s ds c r] drop_Suc_tail [of p s 46] assms(1,2) ds by simp
  ultimately show ?thesis using ds(1) by (simp add: decode_number_fraction_def)
qed

lemma number_scan:
  assumes t: "drop p s = t @ c # r" "number_text t" "delimiter c"
  shows "number_end s p = Some (Some (p + length t))"
proof -
  obtain sign whole fraction expo where n: "t = sign @ whole @ fraction @ expo" "sign \<in> {[], [45]}" "integer_run whole"
    "fraction = [] \<or> (\<exists>ds. fraction = 46 # ds \<and> digit_run ds)"
    "expo = [] \<or> (\<exists>e es ds. expo = e # es @ ds \<and> e \<in> {101, 69} \<and> es \<in> {[], [45], [43]} \<and> integer_run ds)"
    using t(2) unfolding number_text_def by blast
  note dc = delimiter_not [OF t(3)]
  obtain c1 r1 where c1: "expo @ c # r = c1 # r1" "\<not> isdigit c1" "c1 \<noteq> 46"
    using n(5) dc by (cases expo) (auto simp: isdigit_def)
  obtain c2 r2 where c2: "fraction @ expo @ c # r = c2 # r2" "\<not> isdigit c2"
    using n(4) c1 by (cases fraction) (auto simp: isdigit_def)
  let ?p1 = "p + length sign" and ?p2 = "p + length (sign @ whole)" and ?p3 = "p + length (sign @ whole @ fraction)"
  have d: "drop ?p1 s = whole @ c2 # r2" "drop ?p2 s = fraction @ c1 # r1" "drop ?p3 s = expo @ c # r"
    using drop_more [of p s sign] drop_more [of p s "sign @ whole"] drop_more [of p s "sign @ whole @ fraction"] t(1) n(1) c1(1) c2(1)
    by simp_all
  obtain w ws where w: "whole = w # ws" "isdigit w" using n(3) by (cases whole) (auto simp: integer_run_def digit_run_def)
  have sign: "char_at s p = Some (if sign = [] then w else 45)"
    using drop_at [of p s "[]" w] drop_at [of p s "[]" 45] t(1) n(1,2) w(1) by auto
  have "w \<noteq> 45" using w(2) by (auto simp: isdigit_def)
  then have "(if (if sign = [] then w else 45) = 45 then p + 1 else p) = ?p1" using n(2) by auto
  then show ?thesis
    using sign integer_scan [OF d(1) n(3) c2(2)] fraction_scan [OF d(2) c1(2,3) n(4)] exponent_scan [OF d(3) t(3) n(5)] n(1)
    by (simp add: number_end_def add.assoc)
qed

end
