(* ===== verification/Decode_Complete.thy ===== *)
theory Decode_Complete
  imports Decode_Texts
begin

text \<open>The decoder accepts every JSON text and returns its tree.\<close>

section \<open>Allocation\<close>

text \<open>\<open>malloc\<close> keeps its contract: the addresses it is going to return are different and not in use.\<close>

definition supply_ok :: "'n value_heap \<Rightarrow> bool" where
  "supply_ok h \<longleftrightarrow> distinct (value_supply h) \<and> value_undefined \<notin> set (value_supply h) \<and> value_null \<notin> set (value_supply h) \<and>
     set (value_supply h) \<inter> dom (value_blocks h) = {}"

lemma create_ok:
  assumes "supply_ok h" "value_supply h \<noteq> []"
  obtains v h' where "value_create x h = Some (v, h')" "supply_ok h'" "length (value_supply h) = Suc (length (value_supply h'))"
proof -
  obtain v vs where vs: "value_supply h = v # vs" using assms(2) by (cases "value_supply h") auto
  let ?h' = "h\<lparr>value_blocks := (value_blocks h)(v \<mapsto> \<lparr>value_refs = 1, value_of = x\<rparr>), value_supply := vs\<rparr>"
  have "value_create x h = Some (v, ?h')" using assms(1) by (auto simp: value_create_iff supply_ok_def vs)
  then show ?thesis using that [of v ?h'] assms(1) vs by (auto simp: supply_ok_def)
qed

lemma supply_ok_shrink:
  assumes "supply_ok h" "value_supply h' = value_supply h" "\<And>x. value_blocks h x = None \<Longrightarrow> value_blocks h' x = None"
  shows "supply_ok h'"
proof -
  have "dom (value_blocks h') \<subseteq> dom (value_blocks h)" using assms(3) by (auto simp: dom_def) (metis not_None_eq)
  then show ?thesis using assms(1,2) by (auto simp: supply_ok_def)
qed

section \<open>String literals\<close>

lemma reread_length: "length (utf8_string (map (reread ascii) cs)) \<le> 4 * length cs"
proof (induction cs)
  case (Cons c cs)
  then show ?case using utf8_bytes_length(1) [of "reread ascii c"] by simp
qed simp

lemma escape_length: "length cs \<le> length (escape_string ascii cs)"
proof (induction cs)
  case (Cons c cs)
  have "encoded_bytes w \<noteq> []" for w by (simp add: encoded_bytes_def)
  then have "escape_code ascii c \<noteq> []"
    using utf8_bytes_length(2) [of c] short_escape_chars [of "ucast c"] by (auto simp: escape_code_def encoded_code_def split: option.splits)
  then have "1 \<le> length (escape_code ascii c)" by (cases "escape_code ascii c") auto
  then show ?case using Cons by simp
qed simp

lemma string_scan:
  assumes "drop p s = t @ r" "string_text t bs" "length s < 2 ^ 59"
  obtains str q where "string_utf8_decode s (p + 1) = Some (str, q)" "data_bytes str = Some bs" "char_at s q = Some 34" "q + 1 = p + length t"
    "hd t = 34"
proof -
  obtain ascii cs where t: "scalars cs" "t = 34 # escape_string ascii cs @ [34]" "bs = utf8_string (map (reread ascii) cs)"
    using assms(2) by (auto simp: string_text_def)
  have d: "drop (p + 1) s = escape_string ascii cs @ 34 # r" using drop_Suc_tail [of p s 34] assms(1) t(2) by simp
  have "length (escape_string ascii cs) < length s" using drop_within [OF d] by simp
  then have len: "length bs + 1 \<le> buffer_limit"
    using reread_length [of ascii cs] escape_length [of cs ascii] assms(3) t(3) by (simp add: buffer_limit_def)
  obtain b where b: "string_utf8_decode_from s buffer_construct (p + 1) = Some (b, p + 1 + length (escape_string ascii cs))"
    "buffer_holds b bs"
    using decode_from_holds [OF d _ _ _ t(1), of buffer_construct "[]"] len t(3) by (auto simp: string_utf8_regular_def)
  have "string_utf8_decode s (p + 1) = Some (string_holding bs, p + 1 + length (escape_string ascii cs))"
    using decode_close [OF b(2) len] b(1) by (auto simp: string_utf8_decode_def Let_def)
  moreover have "length bs < 2 ^ 64" using len by (simp add: buffer_limit_def)
  ultimately show ?thesis using that string_holding_bytes [of bs] drop_at [OF d] t(2) by simp
qed

section \<open>Running the machine\<close>

definition dec :: "decode_state \<Rightarrow> nat \<Rightarrow> value_t list \<Rightarrow> value_t \<Rightarrow> 'n value_heap \<Rightarrow> 'n decoder" where
  "dec st p stack v h = \<lparr>decode_state = st, decode_position = p, decode_stack = stack, decode_value = v, decode_heap = h\<rparr>"

lemma dec_simps [simp]:
  "decode_state (dec st p stack v h) = st" "decode_position (dec st p stack v h) = p" "decode_stack (dec st p stack v h) = stack"
  "decode_value (dec st p stack v h) = v" "decode_heap (dec st p stack v h) = h"
  "(dec st p stack v h)\<lparr>decode_state := st'\<rparr> = dec st' p stack v h"
  "(dec st p stack v h)\<lparr>decode_position := p'\<rparr> = dec st p' stack v h"
  "(dec st p stack v h)\<lparr>decode_stack := stack'\<rparr> = dec st p stack' v h"
  "(dec st p stack v h)\<lparr>decode_value := v'\<rparr> = dec st p stack v' h"
  "(dec st p stack v h)\<lparr>decode_heap := h'\<rparr> = dec st p stack v h'"
  by (simp_all add: dec_def)

lemma loop_step:
  assumes at: "drop p s = w @ c # r" "list_all whitespace w" "\<not> whitespace c"
    and st: "st \<noteq> DECODE_ACCEPT" "st \<noteq> DECODE_REJECT"
    and step: "value_decode_step fmt s c (dec st (p + length w) stack v h) = Some d'"
  shows "value_decode_loop fmt s (dec st p stack v h) = value_decode_loop fmt s d'"
  using whitespace_run [OF at] drop_at [OF at(1)] st step by (subst value_decode_loop.simps) simp

text \<open>The same without white space.\<close>

lemma loop_step0:
  assumes "drop p s = c # r" "\<not> whitespace c" "st \<noteq> DECODE_ACCEPT" "st \<noteq> DECODE_REJECT"
    "value_decode_step fmt s c (dec st p stack v h) = Some d'"
  shows "value_decode_loop fmt s (dec st p stack v h) = value_decode_loop fmt s d'"
  using loop_step [of p s "[]" c r] assms by simp

definition reads ::
    "'n number_format \<Rightarrow> byte list \<Rightarrow> nat \<Rightarrow> nat \<Rightarrow> 'n json \<Rightarrow> bool" where
  "reads fmt s p n j \<longleftrightarrow> (\<forall>stack h. supply_ok h \<longrightarrow> n \<le> length (value_supply h) \<longrightarrow>
     (\<exists>v h' A. value_decode_loop fmt s (dec DECODE_VALUE_START p stack value_undefined h) =
         value_decode_loop fmt s (dec DECODE_VALUE_END (p + n) stack v h') \<and>
       owns (value_blocks h') v j A \<and> grown h h' A \<and> supply_ok h' \<and> length (value_supply h) \<le> length (value_supply h') + n))"

lemma reads_created:
  assumes at: "drop p s = c # r" "\<not> whitespace c" "decode_start c = st" "st \<in> {DECODE_BOOL, DECODE_NUMBER, DECODE_STRING}"
    and tok: "\<And>stack h v h'. value_create x h = Some (v, h') \<Longrightarrow>
      value_decode_step fmt s c (dec st p stack value_undefined h) = Some (dec DECODE_VALUE_END (p + n) stack v h')"
    and x: "contents x [] j" "0 < n"
  shows "reads fmt s p n j"
  unfolding reads_def
proof (intro allI impI)
  fix stack :: "value_t list" and h :: "'a value_heap" assume h: "supply_ok h" "n \<le> length (value_supply h)"
  have "value_supply h \<noteq> []" using h(2) x(2) by auto
  obtain v h' where v: "value_create x h = Some (v, h')" "supply_ok h'" "length (value_supply h) = Suc (length (value_supply h'))"
    using create_ok [OF h(1) \<open>value_supply h \<noteq> []\<close>] by blast
  have "value_decode_step fmt s c (dec DECODE_VALUE_START p stack value_undefined h) = Some (dec st p stack value_undefined h)"
    using at(3) by (simp add: value_decode_step_def Let_def)
  then have "value_decode_loop fmt s (dec DECODE_VALUE_START p stack value_undefined h) =
      value_decode_loop fmt s (dec st p stack value_undefined h)" by (rule loop_step0 [OF at(1,2), rotated 2]) simp_all
  also have "\<dots> = value_decode_loop fmt s (dec DECODE_VALUE_END (p + n) stack v h')"
    by (rule loop_step0 [OF at(1,2) _ _ tok [OF v(1)]]) (use at(4) in auto)
  finally have "value_decode_loop fmt s (dec DECODE_VALUE_START p stack value_undefined h) =
      value_decode_loop fmt s (dec DECODE_VALUE_END (p + n) stack v h')" .
  moreover have "grown h h' {v}" using v(1) by (auto simp: value_create_iff grown_def)
  ultimately show "\<exists>v h' A. value_decode_loop fmt s (dec DECODE_VALUE_START p stack value_undefined h) =
         value_decode_loop fmt s (dec DECODE_VALUE_END (p + n) stack v h') \<and>
       owns (value_blocks h') v j A \<and> grown h h' A \<and> supply_ok h' \<and> length (value_supply h) \<le> length (value_supply h') + n"
    using owns_created [OF v(1) x(1)] v(2,3) x(2) by (intro exI conjI) (assumption+, simp)
qed


lemma readsE:
  assumes "reads fmt s p n j" "supply_ok h" "n \<le> length (value_supply h)"
  obtains v h' A where "value_decode_loop fmt s (dec DECODE_VALUE_START p stack value_undefined h) =
         value_decode_loop fmt s (dec DECODE_VALUE_END (p + n) stack v h')"
    "owns (value_blocks h') v j A" "grown h h' A" "supply_ok h'" "length (value_supply h) \<le> length (value_supply h') + n"
  using assms unfolding reads_def by blast

lemma reads_space:
  assumes at: "drop p s = c # r" "whitespace c" and "reads fmt s (Suc p) n j"
  shows "reads fmt s p (Suc n) j"
proof -
  have p: "p < length s" "s ! p = c" using drop_within [of p s "[]"] nth_drop_at [of p s "[]"] at(1) by simp_all
  then have "value_decode_whitespace s p = value_decode_whitespace s (Suc p)"
    using at(2) by (subst value_decode_whitespace.simps) simp
  then have loop: "value_decode_loop fmt s (dec DECODE_VALUE_START p stack v h) = value_decode_loop fmt s (dec DECODE_VALUE_START (Suc p) stack v h)"
    for stack v and h :: "'a value_heap"
    by (subst (1 2) value_decode_loop.simps) simp
  then show ?thesis unfolding reads_def
  proof (intro allI impI)
    fix stack :: "value_t list" and h :: "'a value_heap" assume h: "supply_ok h" "Suc n \<le> length (value_supply h)"
    have n: "n \<le> length (value_supply h)" using h(2) by simp
    from readsE [OF assms(3) h(1) n, of stack] obtain v h' A where "value_decode_loop fmt s (dec DECODE_VALUE_START (Suc p) stack value_undefined h) =
        value_decode_loop fmt s (dec DECODE_VALUE_END (Suc p + n) stack v h')"
      "owns (value_blocks h') v j A" "grown h h' A" "supply_ok h'" "length (value_supply h) \<le> length (value_supply h') + n"
      by metis
    then show "\<exists>v h' A. value_decode_loop fmt s (dec DECODE_VALUE_START p stack value_undefined h) =
         value_decode_loop fmt s (dec DECODE_VALUE_END (p + Suc n) stack v h') \<and>
       owns (value_blocks h') v j A \<and> grown h h' A \<and> supply_ok h' \<and> length (value_supply h) \<le> length (value_supply h') + Suc n"
      using loop by (intro exI conjI) (assumption | simp)+
  qed
qed

lemma reads_spaces:
  "drop p s = w @ r \<Longrightarrow> list_all whitespace w \<Longrightarrow> reads fmt s (p + length w) n j \<Longrightarrow> reads fmt s p (length w + n) j"
proof (induction w arbitrary: p)
  case (Cons c w)
  then have "reads fmt s (Suc p) (length w + n) j" using Cons.IH [of "Suc p"] drop_Suc_tail [of p s c] by simp
  then show ?case using reads_space [of p s c "w @ r" fmt "length w + n" j] Cons.prems by simp
qed simp

lemma chars_test_prefix: "drop p s = map of_char chars @ r \<Longrightarrow> strncmp_equal s p chars = Some True"
proof (induction chars arbitrary: p)
  case (Cons c chars)
  have "char_at s p = Some (of_char c)" using drop_at [of p s "[]" "of_char c"] Cons.prems by simp
  moreover have "strncmp_equal s (Suc p) chars = Some True" using Cons drop_Suc_tail [of p s] by simp
  ultimately show ?case by (simp add: strncmp_equal_def)
qed (simp add: strncmp_equal_def)

lemma reads_null:
  assumes "drop p s = [110, 117, 108, 108] @ r"
  shows "reads fmt s p 4 JNull"
  unfolding reads_def
proof (intro allI impI)
  fix stack :: "value_t list" and h :: "'a value_heap" assume h: "supply_ok h" "4 \<le> length (value_supply h)"
  have at: "drop p s = 110 # [117, 108, 108] @ r" "\<not> whitespace 110" using assms by (simp_all add: whitespace_def)
  have "strncmp_equal s p ''null'' = Some True" using chars_test_prefix [of p s "''null''" r] assms by simp
  then have tok: "value_decode_null s p h = Some (value_null, p + 4, h)" by (simp add: value_decode_null_def)
  have "value_decode_loop fmt s (dec DECODE_VALUE_START p stack value_undefined h) =
      value_decode_loop fmt s (dec DECODE_NULL p stack value_undefined h)"
    by (rule loop_step0 [OF at]) (simp_all add: value_decode_step_def Let_def decode_start_def)
  also have "\<dots> = value_decode_loop fmt s (dec DECODE_VALUE_END (p + 4) stack value_null h)"
    by (rule loop_step0 [OF at]) (simp_all add: value_decode_step_def Let_def tok decode_token_def)
  finally show "\<exists>v h' A. value_decode_loop fmt s (dec DECODE_VALUE_START p stack value_undefined h) =
         value_decode_loop fmt s (dec DECODE_VALUE_END (p + 4) stack v h') \<and>
       owns (value_blocks h') v JNull A \<and> grown h h' A \<and> supply_ok h' \<and> length (value_supply h) \<le> length (value_supply h') + 4"
    using h(1) owns_null by (intro exI [of _ value_null] exI [of _ h] exI [of _ "{}"]) (simp add: grown_def)
qed

lemma reads_bool:
  assumes "drop p s = map of_char (if b then ''true'' else ''false'') @ r"
  shows "reads fmt s p (if b then 4 else 5) (JBool b)"
proof (rule reads_created [where st = DECODE_BOOL and x = "Bool_value b" and c = "if b then 116 else 102"])
  show "drop p s = (if b then 116 else 102) # tl (map of_char (if b then ''true'' else ''false'') @ r)" using assms by simp
  fix stack h v and h' :: "'a value_heap" assume v: "value_create (Bool_value b) h = Some (v, h')"
  have "strncmp_equal s p ''true'' = Some b"
  proof (cases b)
    case False
    then have "char_at s p = Some 102" using assms drop_at [of p s "[]" 102] by simp
    then show ?thesis using False by (simp add: strncmp_equal_def)
  qed (use chars_test_prefix [of p s "''true''" r] assms in simp)
  moreover have "\<not> b \<longrightarrow> strncmp_equal s p ''false'' = Some True" using chars_test_prefix [of p s "''false''" r] assms by simp
  ultimately have "value_decode_bool s p h = Some (v, p + (if b then 4 else 5), h')"
    using v by (cases b) (simp_all add: value_decode_bool_def value_bool_def)
  then show "value_decode_step fmt s (if b then 116 else 102) (dec DECODE_BOOL p stack value_undefined h) =
      Some (dec DECODE_VALUE_END (p + (if b then 4 else 5)) stack v h')"
    by (simp add: value_decode_step_def Let_def decode_token_def)
qed (simp_all add: whitespace_def decode_start_def isdigit_def)

lemma number_text_start: "number_text t \<Longrightarrow> \<exists>c u. t = c # u \<and> (isdigit c \<or> c = 45)"
  by (auto simp: number_text_def integer_run_def digit_run_def neq_Nil_conv)

lemma reads_number:
  assumes "drop p s = t @ c # r" "number_text t" "strtold_reads fmt t n" "delimiter c"
  shows "reads fmt s p (length t) (JNumber n)"
proof -
  obtain a u where a: "t = a # u" "isdigit a \<or> a = 45" using number_text_start [OF assms(2)] by blast
  show ?thesis
  proof (rule reads_created [where st = DECODE_NUMBER and x = "Number_value n" and c = a and r = "u @ c # r"])
    fix stack h v and h' :: "'a value_heap" assume v: "value_create (Number_value n) h = Some (v, h')"
    have "strtold fmt s p = (n, p + length t, False)" using assms unfolding strtold_reads_def by blast
    then have "value_decode_number fmt s p h = Some (v, p + length t, h')"
      using number_scan [OF assms(1,2,4)] v by (simp add: value_decode_number_def value_number_def)
    then show "value_decode_step fmt s a (dec DECODE_NUMBER p stack value_undefined h) =
        Some (dec DECODE_VALUE_END (p + length t) stack v h')"
      by (simp add: value_decode_step_def Let_def decode_token_def)
  next
    show "decode_start a = DECODE_NUMBER" using a(2) by (auto simp: decode_start_def isdigit_def)
    show "\<not> whitespace a" using a(2) by (auto simp: whitespace_def isdigit_def)
  qed (use a assms in simp_all)
qed

lemma reads_string:
  assumes "drop p s = t @ r" "string_text t bs" "length s < 2 ^ 59"
  shows "reads fmt s p (length t) (JString bs)"
proof -
  obtain str q where d: "string_utf8_decode s (p + 1) = Some (str, q)" "data_bytes str = Some bs" "char_at s q = Some 34"
    "q + 1 = p + length t" "hd t = 34"
    by (rule string_scan [OF assms])
  obtain u where u: "t = 34 # u" using d(5) assms(2) by (cases t) (auto simp: string_text_def)
  show ?thesis
  proof (rule reads_created [where st = DECODE_STRING and x = "String_value str" and c = 34 and r = "u @ r"])
    fix stack h v and h' :: "'a value_heap" assume v: "value_create (String_value str) h = Some (v, h')"
    have "value_decode_string s p h = Some (v, p + length t, h')"
      using d v by (simp add: value_decode_string_def value_string_release_def)
    then show "value_decode_step fmt s 34 (dec DECODE_STRING p stack value_undefined h) =
        Some (dec DECODE_VALUE_END (p + length t) stack v h')"
      by (simp add: value_decode_step_def Let_def decode_token_def)
  qed (use u assms(1) d(2) in \<open>simp_all add: decode_start_def isdigit_def whitespace_def\<close>)
qed


section \<open>Arrays and objects\<close>

lemma grown_trans_single:
  assumes "grown h0 h1 A" "A' \<subseteq> A" "\<forall>x. x \<notin> A \<longrightarrow> value_blocks h2 x = value_blocks h1 x" "\<forall>x \<in> A - A'. value_blocks h2 x = None"
  shows "grown h0 h2 A'"
  using assms unfolding grown_def by (metis Diff_iff subsetD)

text \<open>The opening bracket puts a new array or object on the stack.\<close>

lemma opened:
  assumes at: "drop p s = c # r" and c: "c = 91 \<and> j = JArray [] \<or> c = 123 \<and> j = JObject []"
    and h: "supply_ok h" "1 \<le> length (value_supply h)"
  obtains a h' where "value_decode_loop fmt s (dec DECODE_VALUE_START p stack value_undefined h) =
      value_decode_loop fmt s (dec DECODE_VALUE_START (p + 1) (a # stack) value_undefined h')"
    "owns (value_blocks h') a j {a}" "grown h h' {a}" "supply_ok h'" "length (value_supply h) = Suc (length (value_supply h'))"
proof -
  obtain m where m: "mapd_construct = Some m" "mapd_inv m" "mapd_lookup m = (\<lambda>_. None)"
    using mapd_construct_spec by blast
  have obj: "value_object h = value_create (Object_value m) h" unfolding value_object_def m(1) by simp
  define x :: "'a value_content" where "x = (if c = 91 then Array_value (vector_construct 8) else Object_value m)"
  define st where "st = (if c = 91 then DECODE_ARRAY_FIRST else DECODE_OBJECT_FIRST)"
  have x: "contents x [] j" using c m(2,3) vector_construct_holds [of 8] by (auto simp: x_def vector_construct_def ascending_def)
  have "value_supply h \<noteq> []" using h(2) by auto
  obtain a h' where a: "value_create x h = Some (a, h')" "supply_ok h'" "length (value_supply h) = Suc (length (value_supply h'))"
    using create_ok [OF h(1) \<open>value_supply h \<noteq> []\<close>] by blast
  have ws: "\<not> whitespace c" using c by (auto simp: whitespace_def)
  have "value_decode_loop fmt s (dec DECODE_VALUE_START p stack value_undefined h) = value_decode_loop fmt s (dec st p stack value_undefined h)"
    by (rule loop_step0 [OF at ws]) (use c in \<open>auto simp: value_decode_step_def Let_def decode_start_def isdigit_def st_def\<close>)
  also have "value_decode_step fmt s c (dec st p stack value_undefined h) =
      Some (dec DECODE_VALUE_START (p + 1) (a # stack) value_undefined h')"
    using a(1) obj c by (auto simp: value_decode_step_def Let_def st_def x_def value_array_def decode_push_def)
  then have "value_decode_loop fmt s (dec st p stack value_undefined h) =
      value_decode_loop fmt s (dec DECODE_VALUE_START (p + 1) (a # stack) value_undefined h')"
    by (rule loop_step0 [OF at ws, rotated 2]) (simp_all add: st_def)
  finally have "value_decode_loop fmt s (dec DECODE_VALUE_START p stack value_undefined h) =
      value_decode_loop fmt s (dec DECODE_VALUE_START (p + 1) (a # stack) value_undefined h')" .
  moreover have "grown h h' {a}" using a(1) by (auto simp: value_create_iff grown_def)
  ultimately show ?thesis using that owns_created [OF a(1) x] a(2,3) by blast
qed

text \<open>The closing bracket takes it from the stack.\<close>

lemma closed:
  assumes at: "drop p s = c # r" and c: "c = 93 \<and> st = DECODE_ARRAY_REST \<or> c = 125 \<and> st = DECODE_OBJECT_REST"
  shows "value_decode_loop fmt s (dec st p (a # stack) value_undefined h) =
    value_decode_loop fmt s (dec DECODE_VALUE_END (p + 1) stack a h)"
proof -
  define st' where "st' = (if c = 93 then DECODE_ARRAY_END else DECODE_OBJECT_END)"
  have ws: "\<not> whitespace c" using c by (auto simp: whitespace_def)
  have "value_decode_loop fmt s (dec st p (a # stack) value_undefined h) =
      value_decode_loop fmt s (dec st' p (a # stack) value_undefined h)"
    by (rule loop_step0 [OF at ws]) (use c in \<open>auto simp: value_decode_step_def Let_def decode_rest_def st'_def\<close>)
  also have "\<dots> = value_decode_loop fmt s (dec DECODE_VALUE_END (p + 1) stack a h)"
    by (rule loop_step0 [OF at ws]) (use c in \<open>auto simp: value_decode_step_def Let_def decode_pop_def st'_def\<close>)
  finally show ?thesis .
qed

lemma comma:
  assumes at: "drop p s = 44 # r" and st: "st = DECODE_ARRAY_REST \<or> st = DECODE_OBJECT_REST"
  shows "value_decode_loop fmt s (dec st p stack v h) = value_decode_loop fmt s (dec DECODE_VALUE_START (p + 1) stack v h)"
  by (rule loop_step0 [OF at]) (use st in \<open>auto simp: whitespace_def value_decode_step_def Let_def decode_rest_def\<close>)

text \<open>An array or object without elements.\<close>

lemma closed_empty:
  assumes at: "drop p s = w @ c # r" "list_all whitespace w"
    and c: "c = 93 \<and> j = JArray [] \<or> c = 125 \<and> j = JObject []" and own: "owns (value_blocks h) a j A"
  shows "value_decode_loop fmt s (dec DECODE_VALUE_START p (a # stack) value_undefined h) =
    value_decode_loop fmt s (dec DECODE_VALUE_END (p + length w + 1) stack a h)"
proof -
  define st where "st = (if c = 93 then DECODE_ARRAY_EMPTY else DECODE_OBJECT_EMPTY)"
  define st' where "st' = (if c = 93 then DECODE_ARRAY_END else DECODE_OBJECT_END)"
  have ws: "\<not> whitespace c" using c by (auto simp: whitespace_def)
  have at': "drop (p + length w) s = c # r" using drop_more [OF at(1)] .
  have len: "value_array_length a h = Some 0" if arr: "j = JArray []"
  proof -
    obtain x ps B where x: "value_blocks h a = Some \<lparr>value_refs = 1, value_of = x\<rparr>" "a \<noteq> value_undefined" "a \<noteq> value_null"
      "contents x ps j"
      by (rule owns_blockE [OF own]) (use arr in auto)
    then obtain vec where "x = Array_value vec" "vector_holds vec []" using arr by (cases x) auto
    then show ?thesis using value_get_block(4) [OF x(1-3)] vector_holds_sizes(2) [of vec "[]"] by (simp add: word_unat_eq_iff)
  qed
  have size: "value_object_size a h = Some 0" if obj: "j = JObject []"
  proof -
    obtain m and kps :: "(byte list \<times> value_t \<times> 'a json) list" where m: "value_blocks h a = Some \<lparr>value_refs = 1, value_of = Object_value m\<rparr>" "a \<noteq> value_undefined" "a \<noteq> value_null"
      "mapd_inv m" "ascending kps" "mapd_lookup m = map_of (map (\<lambda>(k, p). (k, fst p)) kps)" "[] = map (\<lambda>(k, p). (k, snd p)) kps"
      by (rule owns_objectE [OF own [unfolded obj]]) (rule that, assumption+)
    then show ?thesis using value_get_block(5) [OF m(1-3)] object_count [OF m(4-6)] by (simp add: mapd_size_def map_size_def word_unat_eq_iff)
  qed
  have "value_decode_loop fmt s (dec DECODE_VALUE_START p (a # stack) value_undefined h) =
      value_decode_loop fmt s (dec st (p + length w) (a # stack) value_undefined h)"
    by (rule loop_step [OF at ws]) (use c in \<open>auto simp: value_decode_step_def Let_def decode_start_def isdigit_def st_def\<close>)
  also have "\<dots> = value_decode_loop fmt s (dec st' (p + length w) (a # stack) value_undefined h)"
    by (rule loop_step0 [OF at' ws]) (use c len size owns_is [OF own] in \<open>auto simp: value_decode_step_def Let_def decode_empty_def
      st_def st'_def value_is_array_def value_is_object_def json_type_def\<close>)
  also have "\<dots> = value_decode_loop fmt s (dec DECODE_VALUE_END (p + length w + 1) stack a h)"
    by (rule loop_step0 [OF at' ws]) (use c in \<open>auto simp: value_decode_step_def Let_def decode_pop_def st'_def\<close>)
  finally show ?thesis .
qed

lemma reads_empty:
  assumes at: "drop p s = b # w @ c # r" "list_all whitespace w"
    and c: "b = 91 \<and> c = 93 \<and> j = JArray [] \<or> b = 123 \<and> c = 125 \<and> j = JObject []"
  shows "reads fmt s p (length w + 2) j"
  unfolding reads_def
proof (intro allI impI)
  fix stack :: "value_t list" and h :: "'a value_heap" assume h: "supply_ok h" "length w + 2 \<le> length (value_supply h)"
  have at': "drop (p + 1) s = w @ c # r" using drop_Suc_tail [OF at(1)] by simp
  have h1: "1 \<le> length (value_supply h)" using h(2) by simp
  obtain a h' where a: "value_decode_loop fmt s (dec DECODE_VALUE_START p stack value_undefined h) =
      value_decode_loop fmt s (dec DECODE_VALUE_START (p + 1) (a # stack) value_undefined h')"
    "owns (value_blocks h') a j {a}" "grown h h' {a}" "supply_ok h'" "length (value_supply h) = Suc (length (value_supply h'))"
    by (rule opened [OF at(1) _ h(1) h1, of j]) (use c in blast)+
  have "value_decode_loop fmt s (dec DECODE_VALUE_START (p + 1) (a # stack) value_undefined h') =
      value_decode_loop fmt s (dec DECODE_VALUE_END (p + (length w + 2)) stack a h')"
    using closed_empty [OF at' at(2) _ a(2), of fmt stack] c by auto
  then show "\<exists>v h' A. value_decode_loop fmt s (dec DECODE_VALUE_START p stack value_undefined h) =
         value_decode_loop fmt s (dec DECODE_VALUE_END (p + (length w + 2)) stack v h') \<and>
       owns (value_blocks h') v j A \<and> grown h h' A \<and> supply_ok h' \<and> length (value_supply h) \<le> length (value_supply h') + (length w + 2)"
    using a by (intro exI conjI) (assumption | simp)+
qed


text \<open>Reading an element appends it to the array, and what follows is a comma or the closing bracket.\<close>

lemma value_end_reduce:
  assumes at: "drop p s = w @ c # r" "list_all whitespace w" "\<not> whitespace c" and own: "owns (value_blocks h) v j A"
  shows "value_decode_loop fmt s (dec DECODE_VALUE_END p (a # stack) v h) =
    value_decode_loop fmt s (dec DECODE_REDUCE (p + length w) (a # stack) v h)"
proof (rule loop_step [OF at])
  have "value_is_undefined v h = Some False"
    using owns_is [OF own, of VALUE_UNDEFINED] by (cases j) (auto simp: value_is_undefined_def json_type_def)
  then show "value_decode_step fmt s c (dec DECODE_VALUE_END (p + length w) (a # stack) v h) =
      Some (dec DECODE_REDUCE (p + length w) (a # stack) v h)"
    by (simp add: value_decode_step_def Let_def)
qed simp_all

lemma read_element:
  assumes r: "reads fmt s p n j" and at: "drop (p + n) s = w @ c # r" "list_all whitespace w" "\<not> whitespace c"
    and own: "owns (value_blocks h) a (JArray js) A" "grown h0 h A" and h: "supply_ok h" "n \<le> length (value_supply h)"
    and len: "length js < 2 ^ 59"
  obtains h' A' where "value_decode_loop fmt s (dec DECODE_VALUE_START p (a # stack) value_undefined h) =
      value_decode_loop fmt s (dec DECODE_ARRAY_REST (p + n + length w) (a # stack) value_undefined h')"
    "owns (value_blocks h') a (JArray (js @ [j])) A'" "grown h0 h' A'" "supply_ok h'"
    "length (value_supply h) \<le> length (value_supply h') + n"
proof -
  obtain v h1 B where v: "value_decode_loop fmt s (dec DECODE_VALUE_START p (a # stack) value_undefined h) =
         value_decode_loop fmt s (dec DECODE_VALUE_END (p + n) (a # stack) v h1)"
    "owns (value_blocks h1) v j B" "grown h h1 B" "supply_ok h1" "length (value_supply h) \<le> length (value_supply h1) + n"
    by (rule readsE [OF r h])
  have own1: "owns_all (value_blocks h1) [(v, j), (a, JArray js)] (B \<union> A)" "grown h0 h1 (B \<union> A)"
    using grown_token [OF own(2) _ v(2,3), of "[(a, JArray js)]"] own(1) by (simp_all add: owns_all_single)
  obtain h' where h': "value_array_append_release a v h1 = Some h'" "owns_all (value_blocks h') [(a, JArray (js @ [j]))] (B \<union> A)"
    "\<forall>x. x \<notin> B \<union> A \<longrightarrow> value_blocks h' x = value_blocks h1 x" "value_supply h' = value_supply h1"
    using array_append_release_owned [OF own1(1) len] by blast
  obtain A2 where a: "owns (value_blocks h1) a (JArray js) A2" using own1(1) by (auto simp: owns_all_Cons_iff)
  note v(1)
  also note value_end_reduce [OF at v(2)]
  also have "value_decode_loop fmt s (dec DECODE_REDUCE (p + n + length w) (a # stack) v h1) =
      value_decode_loop fmt s (dec DECODE_ARRAY_REST (p + n + length w) (a # stack) value_undefined h')"
    using owns_is [OF a] owns_is [OF v(2)] h'(1)
    by (intro loop_step0 [OF drop_more [OF at(1)] at(3)]) (simp_all add: value_decode_step_def Let_def decode_reduce_def
        value_is_array_def value_is_object_def value_is_string_def json_type_def)
  finally have "value_decode_loop fmt s (dec DECODE_VALUE_START p (a # stack) value_undefined h) =
      value_decode_loop fmt s (dec DECODE_ARRAY_REST (p + n + length w) (a # stack) value_undefined h')" .
  moreover have "grown h0 h' (B \<union> A)" using own1(2) h'(3) by (auto simp: grown_def)
  moreover have "supply_ok h'"
  proof (rule supply_ok_shrink [OF v(4) h'(4)])
    fix x assume "value_blocks h1 x = None"
    then have "x \<notin> B \<union> A" using owns_dom(2) [OF own1(1)] by blast
    then show "value_blocks h' x = None" using h'(3) \<open>value_blocks h1 x = None\<close> by simp
  qed
  ultimately show ?thesis using that h'(2,4) v(5) by (simp add: owns_all_single)
qed

definition reads_elements :: "'n number_format \<Rightarrow> byte list \<Rightarrow> nat \<Rightarrow> nat \<Rightarrow> 'n json list \<Rightarrow> bool" where
  "reads_elements fmt s p n js \<longleftrightarrow> (\<forall>stack h0 h a old A. owns (value_blocks h) a (JArray old) A \<longrightarrow> grown h0 h A \<longrightarrow>
     supply_ok h \<longrightarrow> n \<le> length (value_supply h) \<longrightarrow> length old + n < 2 ^ 59 \<longrightarrow>
     (\<exists>h' A'. value_decode_loop fmt s (dec DECODE_VALUE_START p (a # stack) value_undefined h) =
         value_decode_loop fmt s (dec DECODE_VALUE_END (p + n) stack a h') \<and>
       owns (value_blocks h') a (JArray (old @ js)) A' \<and> grown h0 h' A' \<and> supply_ok h' \<and>
       length (value_supply h) \<le> length (value_supply h') + n))"

lemma reads_last:
  assumes r: "reads fmt s p n j" and at: "drop (p + n) s = w @ 93 # r" "list_all whitespace w"
  shows "reads_elements fmt s p (n + length w + 1) [j]"
  unfolding reads_elements_def
proof (intro allI impI)
  fix stack a old A and h0 h :: "'a value_heap"
  assume h: "owns (value_blocks h) a (JArray old) A" "grown h0 h A" "supply_ok h" "n + length w + 1 \<le> length (value_supply h)"
    "length old + (n + length w + 1) < 2 ^ 59"
  have len: "n \<le> length (value_supply h)" "length old < 2 ^ 59" using h(4,5) by simp_all
  obtain h' A' where "value_decode_loop fmt s (dec DECODE_VALUE_START p (a # stack) value_undefined h) =
      value_decode_loop fmt s (dec DECODE_ARRAY_REST (p + n + length w) (a # stack) value_undefined h')"
    and o: "owns (value_blocks h') a (JArray (old @ [j])) A'" "grown h0 h' A'" "supply_ok h'"
    "length (value_supply h) \<le> length (value_supply h') + n"
    by (rule read_element [OF r at _ h(1-3) len]) (simp add: whitespace_def)
  note this(1)
  also have "value_decode_loop fmt s (dec DECODE_ARRAY_REST (p + n + length w) (a # stack) value_undefined h') =
      value_decode_loop fmt s (dec DECODE_VALUE_END (p + n + length w + 1) stack a h')"
    by (rule closed [OF drop_more [OF at(1)]]) simp
  finally show "\<exists>h' A'. value_decode_loop fmt s (dec DECODE_VALUE_START p (a # stack) value_undefined h) =
         value_decode_loop fmt s (dec DECODE_VALUE_END (p + (n + length w + 1)) stack a h') \<and>
       owns (value_blocks h') a (JArray (old @ [j])) A' \<and> grown h0 h' A' \<and> supply_ok h' \<and>
       length (value_supply h) \<le> length (value_supply h') + (n + length w + 1)"
    using o by (intro exI [of _ h'] exI [of _ A']) (simp add: add.assoc)
qed

lemma reads_more:
  assumes r: "reads fmt s p n j" and at: "drop (p + n) s = w @ 44 # r" "list_all whitespace w"
    and more: "reads_elements fmt s (p + n + length w + 1) m js"
  shows "reads_elements fmt s p (n + length w + 1 + m) (j # js)"
  unfolding reads_elements_def
proof (intro allI impI)
  fix stack a old A and h0 h :: "'a value_heap"
  assume h: "owns (value_blocks h) a (JArray old) A" "grown h0 h A" "supply_ok h" "n + length w + 1 + m \<le> length (value_supply h)"
    "length old + (n + length w + 1 + m) < 2 ^ 59"
  have len: "n \<le> length (value_supply h)" "length old < 2 ^ 59" using h(4,5) by simp_all
  obtain h1 A1 where "value_decode_loop fmt s (dec DECODE_VALUE_START p (a # stack) value_undefined h) =
      value_decode_loop fmt s (dec DECODE_ARRAY_REST (p + n + length w) (a # stack) value_undefined h1)"
    and o: "owns (value_blocks h1) a (JArray (old @ [j])) A1" "grown h0 h1 A1" "supply_ok h1"
    "length (value_supply h) \<le> length (value_supply h1) + n"
    by (rule read_element [OF r at _ h(1-3) len]) (simp add: whitespace_def)
  note this(1)
  also have "value_decode_loop fmt s (dec DECODE_ARRAY_REST (p + n + length w) (a # stack) value_undefined h1) =
      value_decode_loop fmt s (dec DECODE_VALUE_START (p + n + length w + 1) (a # stack) value_undefined h1)"
    by (rule comma [OF drop_more [OF at(1)]]) simp
  also obtain h' A' where m: "value_decode_loop fmt s (dec DECODE_VALUE_START (p + n + length w + 1) (a # stack) value_undefined h1) =
         value_decode_loop fmt s (dec DECODE_VALUE_END (p + n + length w + 1 + m) stack a h')"
    "owns (value_blocks h') a (JArray ((old @ [j]) @ js)) A'" "grown h0 h' A'" "supply_ok h'"
       "length (value_supply h1) \<le> length (value_supply h') + m"
  proof -
    have "m \<le> length (value_supply h1)" "length (old @ [j]) + m < 2 ^ 59" using h(4,5) o(4) by simp_all
    then show ?thesis using more o(1-3) that unfolding reads_elements_def by blast
  qed
  note m(1)
  finally show "\<exists>h' A'. value_decode_loop fmt s (dec DECODE_VALUE_START p (a # stack) value_undefined h) =
         value_decode_loop fmt s (dec DECODE_VALUE_END (p + (n + length w + 1 + m)) stack a h') \<and>
       owns (value_blocks h') a (JArray (old @ j # js)) A' \<and> grown h0 h' A' \<and> supply_ok h' \<and>
       length (value_supply h) \<le> length (value_supply h') + (n + length w + 1 + m)"
    using o(4) m(2-5) by (intro exI [of _ h'] exI [of _ A']) (simp add: add.assoc)
qed

lemma reads_array:
  assumes at: "drop p s = 91 # r" and el: "reads_elements fmt s (p + 1) n js" and n: "n + 1 < 2 ^ 59"
  shows "reads fmt s p (Suc n) (JArray js)"
  unfolding reads_def
proof (intro allI impI)
  fix stack :: "value_t list" and h :: "'a value_heap" assume h: "supply_ok h" "Suc n \<le> length (value_supply h)"
  have h1: "1 \<le> length (value_supply h)" using h(2) by simp
  obtain a h1 where a: "value_decode_loop fmt s (dec DECODE_VALUE_START p stack value_undefined h) =
      value_decode_loop fmt s (dec DECODE_VALUE_START (p + 1) (a # stack) value_undefined h1)"
    "owns (value_blocks h1) a (JArray []) {a}" "grown h h1 {a}" "supply_ok h1" "length (value_supply h) = Suc (length (value_supply h1))"
    by (rule opened [OF at _ h(1) h1, of "JArray []"]) auto
  have "n \<le> length (value_supply h1)" "length [] + n < 2 ^ 59" using h(2) a(5) n by simp_all
  then obtain h' A' where "value_decode_loop fmt s (dec DECODE_VALUE_START (p + 1) (a # stack) value_undefined h1) =
         value_decode_loop fmt s (dec DECODE_VALUE_END (p + 1 + n) stack a h')"
    "owns (value_blocks h') a (JArray ([] @ js)) A'" "grown h h' A'" "supply_ok h'"
       "length (value_supply h1) \<le> length (value_supply h') + n"
    using el a(2-4) unfolding reads_elements_def by blast
  then show "\<exists>v h' A. value_decode_loop fmt s (dec DECODE_VALUE_START p stack value_undefined h) =
         value_decode_loop fmt s (dec DECODE_VALUE_END (p + Suc n) stack v h') \<and>
       owns (value_blocks h') v (JArray js) A \<and> grown h h' A \<and> supply_ok h' \<and> length (value_supply h) \<le> length (value_supply h') + Suc n"
    using a(1,5) by (intro exI [of _ a] exI [of _ h'] exI [of _ A']) simp
qed


text \<open>Reading a member: its key lies on the object until its value is complete.\<close>

lemma string_text_length: "string_text t k \<Longrightarrow> length k \<le> 4 * length t"
proof -
  assume "string_text t k"
  then obtain ascii cs where "t = 34 # escape_string ascii cs @ [34]" "k = utf8_string (map (reread ascii) cs)"
    by (auto simp: string_text_def)
  then show ?thesis using reread_length [of ascii cs] escape_length [of cs ascii] by simp
qed

lemma read_key:
  assumes r: "reads fmt s p n (JString k)" and at: "drop (p + n) s = w @ 58 # r" "list_all whitespace w"
    and own: "owns (value_blocks h) a (JObject ms) A" "grown h0 h A" and h: "supply_ok h" "n \<le> length (value_supply h)"
  obtains key h' A' where "value_decode_loop fmt s (dec DECODE_VALUE_START p (a # stack) value_undefined h) =
      value_decode_loop fmt s (dec DECODE_VALUE_START (p + n + length w + 1) (key # a # stack) value_undefined h')"
    "owns_all (value_blocks h') [(key, JString k), (a, JObject ms)] A'" "grown h0 h' A'" "supply_ok h'"
    "length (value_supply h) \<le> length (value_supply h') + n"
proof -
  obtain v h1 B where v: "value_decode_loop fmt s (dec DECODE_VALUE_START p (a # stack) value_undefined h) =
         value_decode_loop fmt s (dec DECODE_VALUE_END (p + n) (a # stack) v h1)"
    "owns (value_blocks h1) v (JString k) B" "grown h h1 B" "supply_ok h1" "length (value_supply h) \<le> length (value_supply h1) + n"
    by (rule readsE [OF r h])
  have own1: "owns_all (value_blocks h1) [(v, JString k), (a, JObject ms)] (B \<union> A)" "grown h0 h1 (B \<union> A)"
    using grown_token [OF own(2) _ v(2,3), of "[(a, JObject ms)]"] own(1) by (simp_all add: owns_all_single)
  obtain A2 where a: "owns (value_blocks h1) a (JObject ms) A2" using own1(1) by (auto simp: owns_all_Cons_iff)
  have ws: "\<not> whitespace 58" by (simp add: whitespace_def)
  note v(1)
  also note value_end_reduce [OF at ws v(2)]
  also have "value_decode_loop fmt s (dec DECODE_REDUCE (p + n + length w) (a # stack) v h1) =
      value_decode_loop fmt s (dec DECODE_OBJECT_MAP (p + n + length w) (v # a # stack) value_undefined h1)"
    using owns_is [OF a] owns_is [OF v(2)]
    by (intro loop_step0 [OF drop_more [OF at(1)] ws]) (simp_all add: value_decode_step_def Let_def decode_reduce_def
        value_is_array_def value_is_object_def value_is_string_def json_type_def)
  also have "\<dots> = value_decode_loop fmt s (dec DECODE_VALUE_START (p + n + length w + 1) (v # a # stack) value_undefined h1)"
    by (rule loop_step0 [OF drop_more [OF at(1)] ws]) (simp_all add: value_decode_step_def Let_def)
  finally show ?thesis using that own1 v(4,5) by blast
qed

lemma read_member:
  assumes r: "reads fmt s p n j" and at: "drop (p + n) s = w @ c # r" "list_all whitespace w" "\<not> whitespace c"
    and own: "owns_all (value_blocks h) [(key, JString k), (a, JObject ms)] A" "grown h0 h A"
    and h: "supply_ok h" "n \<le> length (value_supply h)" and len: "length ms < 2 ^ 59" "length k + 1 < 2 ^ 64"
  obtains h' A' where "value_decode_loop fmt s (dec DECODE_VALUE_START p (key # a # stack) value_undefined h) =
      value_decode_loop fmt s (dec DECODE_OBJECT_REST (p + n + length w) (a # stack) value_undefined h')"
    "owns (value_blocks h') a (JObject (put_member k j ms)) A'" "grown h0 h' A'" "supply_ok h'"
    "length (value_supply h) \<le> length (value_supply h') + n"
proof -
  obtain v h1 B where v: "value_decode_loop fmt s (dec DECODE_VALUE_START p (key # a # stack) value_undefined h) =
         value_decode_loop fmt s (dec DECODE_VALUE_END (p + n) (key # a # stack) v h1)"
    "owns (value_blocks h1) v j B" "grown h h1 B" "supply_ok h1" "length (value_supply h) \<le> length (value_supply h1) + n"
    by (rule readsE [OF r h])
  note own1 = grown_token [OF own(2,1) v(2,3)]
  obtain K where key: "owns (value_blocks h1) key (JString k) K" using own1(2) by (auto simp: owns_all_Cons_iff)
  obtain x where x: "value_blocks h1 key = Some \<lparr>value_refs = 1, value_of = String_value x\<rparr>" "key \<noteq> value_undefined" "key \<noteq> value_null"
    "data_bytes x = Some k"
    by (rule owns_stringE [OF key])
  note get = value_get_block(3) [OF x(1-3) refl]
  obtain copy where copy: "string_copy x = Some copy" using data_copyz_bytes [OF x(4) len(2)] by (auto simp: string_copy_def)
  have perm: "owns_all (value_blocks h1) [(v, j), (a, JObject ms), (key, JString k)] (B \<union> A)"
    by (rule owns_all_perm [OF _ own1(2)]) simp
  obtain h2 A2 where h2: "value_object_set_release a x v h1 = Some h2"
    "owns_all (value_blocks h2) [(a, JObject (put_member k j ms)), (key, JString k)] A2" "reduces h1 h2 (B \<union> A) A2"
    using object_set_release_owned [OF perm x(4) copy string_copy_bytes [OF copy x(4)] len(1)] by blast
  obtain A3 A4 where A: "owns (value_blocks h2) a (JObject (put_member k j ms)) A3" "owns (value_blocks h2) key (JString k) A4"
    "A3 \<inter> A4 = {}" "A2 = A3 \<union> A4"
    using h2(2) by (auto simp: owns_all_Cons_iff)
  define h3 where "h3 = h2\<lparr>value_blocks := value_blocks h2 |` (- A4)\<rparr>"
  have h3: "value_release key h2 = Some h3"
    using release_owned [of h2 "[(key, JString k)]" A4] A(2) by (simp add: owns_all_single value_release_def h3_def)
  note v(1)
  also note value_end_reduce [OF at v(2)]
  also have "value_decode_loop fmt s (dec DECODE_REDUCE (p + n + length w) (key # a # stack) v h1) =
      value_decode_loop fmt s (dec DECODE_OBJECT_REST (p + n + length w) (a # stack) value_undefined h3)"
    using owns_is [OF key] owns_is [OF v(2)] h2(1) h3 get
    by (intro loop_step0 [OF drop_more [OF at(1)] at(3)]) (simp_all add: value_decode_step_def Let_def decode_reduce_def
        value_is_array_def value_is_object_def value_is_string_def json_type_def)
  finally have "value_decode_loop fmt s (dec DECODE_VALUE_START p (key # a # stack) value_undefined h) =
      value_decode_loop fmt s (dec DECODE_OBJECT_REST (p + n + length w) (a # stack) value_undefined h3)" .
  moreover have "grown h0 h3 A3"
    using grown_reduces [OF own1(1) h2(3)] A(3,4) by (auto simp: grown_def h3_def restrict_map_def)
  moreover have "owns (value_blocks h3) a (JObject (put_member k j ms)) A3"
    using owns_frame(1) [OF A(1), of "value_blocks h3"] A(3) by (auto simp: h3_def restrict_map_def)
  moreover have "supply_ok h3"
  proof (rule supply_ok_shrink [OF v(4)])
    show "value_supply h3 = value_supply h1" using reducesD(2) [OF h2(3)] by (simp add: h3_def)
    fix y assume y: "value_blocks h1 y = None"
    then have "y \<notin> B \<union> A" using owns_dom(2) [OF own1(2)] by blast
    then show "value_blocks h3 y = None" using reducesD(3) [OF h2(3)] y by (simp add: h3_def restrict_map_def)
  qed
  moreover have "value_supply h3 = value_supply h1" using reducesD(2) [OF h2(3)] by (simp add: h3_def)
  ultimately show ?thesis using that v(5) by simp
qed

definition reads_members :: "'n number_format \<Rightarrow> byte list \<Rightarrow> nat \<Rightarrow> nat \<Rightarrow> (byte list \<times> 'n json) list \<Rightarrow> bool" where
  "reads_members fmt s p n ms \<longleftrightarrow> (\<forall>stack h0 h a old A. owns (value_blocks h) a (JObject old) A \<longrightarrow> grown h0 h A \<longrightarrow>
     supply_ok h \<longrightarrow> n \<le> length (value_supply h) \<longrightarrow> length old + n < 2 ^ 59 \<longrightarrow>
     (\<exists>h' A'. value_decode_loop fmt s (dec DECODE_VALUE_START p (a # stack) value_undefined h) =
         value_decode_loop fmt s (dec DECODE_VALUE_END (p + n) stack a h') \<and>
       owns (value_blocks h') a (JObject (fold (\<lambda>(k, j). put_member k j) ms old)) A' \<and> grown h0 h' A' \<and> supply_ok h' \<and>
       length (value_supply h) \<le> length (value_supply h') + n))"

lemma length_put_member: "length (put_member k j ms) \<le> Suc (length ms)"
  by (induction ms) auto

text \<open>A member with its key; \<open>n1\<close> and \<open>n2\<close> are the characters up to the end of the key and of the value.\<close>

lemma read_pair:
  assumes key: "reads fmt s p n1 (JString k)" "drop (p + n1) s = w2 @ 58 # r2" "list_all whitespace w2" "length k + 1 < 2 ^ 64"
    and elem: "reads fmt s (p + n1 + length w2 + 1) n2 j" "drop (p + n1 + length w2 + 1 + n2) s = w3 @ c # r" "list_all whitespace w3"
      "\<not> whitespace c"
    and h: "owns (value_blocks h) a (JObject old) A" "grown h0 h A" "supply_ok h" "n1 + n2 \<le> length (value_supply h)" "length old < 2 ^ 59"
  obtains h' A' where "value_decode_loop fmt s (dec DECODE_VALUE_START p (a # stack) value_undefined h) =
      value_decode_loop fmt s (dec DECODE_OBJECT_REST (p + n1 + length w2 + 1 + n2 + length w3) (a # stack) value_undefined h')"
    "owns (value_blocks h') a (JObject (put_member k j old)) A'" "grown h0 h' A'" "supply_ok h'"
    "length (value_supply h) \<le> length (value_supply h') + (n1 + n2)"
proof -
  have n1: "n1 \<le> length (value_supply h)" using h(4) by simp
  obtain key h1 A1 where k: "value_decode_loop fmt s (dec DECODE_VALUE_START p (a # stack) value_undefined h) =
      value_decode_loop fmt s (dec DECODE_VALUE_START (p + n1 + length w2 + 1) (key # a # stack) value_undefined h1)"
    "owns_all (value_blocks h1) [(key, JString k), (a, JObject old)] A1" "grown h0 h1 A1" "supply_ok h1"
    "length (value_supply h) \<le> length (value_supply h1) + n1"
    by (rule read_key [OF key(1-3) h(1-3) n1])
  have n2: "n2 \<le> length (value_supply h1)" using k(5) h(4) by simp
  obtain h2 A2 where e: "value_decode_loop fmt s (dec DECODE_VALUE_START (p + n1 + length w2 + 1) (key # a # stack) value_undefined h1) =
      value_decode_loop fmt s (dec DECODE_OBJECT_REST (p + n1 + length w2 + 1 + n2 + length w3) (a # stack) value_undefined h2)"
    "owns (value_blocks h2) a (JObject (put_member k j old)) A2" "grown h0 h2 A2" "supply_ok h2"
    "length (value_supply h1) \<le> length (value_supply h2) + n2"
    by (rule read_member [OF elem k(2-4) n2 h(5) key(4)])
  show ?thesis by (rule that [OF k(1) [unfolded e(1)] e(2-4)]) (use k(5) e(5) in simp)
qed


lemma reads_last_member:
  assumes key: "reads fmt s p n1 (JString k)" "drop (p + n1) s = w2 @ 58 # r2" "list_all whitespace w2" "length k + 1 < 2 ^ 64"
    and elem: "reads fmt s (p + n1 + length w2 + 1) n2 j" "drop (p + n1 + length w2 + 1 + n2) s = w3 @ 125 # r" "list_all whitespace w3"
  shows "reads_members fmt s p (n1 + length w2 + 1 + n2 + length w3 + 1) [(k, j)]"
  unfolding reads_members_def
proof (intro allI impI)
  fix stack a old A and h0 h :: "'a value_heap"
  assume h: "owns (value_blocks h) a (JObject old) A" "grown h0 h A" "supply_ok h"
    "n1 + length w2 + 1 + n2 + length w3 + 1 \<le> length (value_supply h)" "length old + (n1 + length w2 + 1 + n2 + length w3 + 1) < 2 ^ 59"
  have len: "n1 + n2 \<le> length (value_supply h)" "length old < 2 ^ 59" "\<not> whitespace 125" using h(4,5) by (simp_all add: whitespace_def)
  obtain h' A' where "value_decode_loop fmt s (dec DECODE_VALUE_START p (a # stack) value_undefined h) =
      value_decode_loop fmt s (dec DECODE_OBJECT_REST (p + n1 + length w2 + 1 + n2 + length w3) (a # stack) value_undefined h')"
    and o: "owns (value_blocks h') a (JObject (put_member k j old)) A'" "grown h0 h' A'" "supply_ok h'"
    "length (value_supply h) \<le> length (value_supply h') + (n1 + n2)"
    by (rule read_pair [OF key elem len(3) h(1-3) len(1,2)])
  note this(1)
  also note closed [OF drop_more [OF elem(2)], of DECODE_OBJECT_REST]
  finally show "\<exists>h' A'. value_decode_loop fmt s (dec DECODE_VALUE_START p (a # stack) value_undefined h) =
         value_decode_loop fmt s (dec DECODE_VALUE_END (p + (n1 + length w2 + 1 + n2 + length w3 + 1)) stack a h') \<and>
       owns (value_blocks h') a (JObject (fold (\<lambda>(k, j). put_member k j) [(k, j)] old)) A' \<and> grown h0 h' A' \<and> supply_ok h' \<and>
       length (value_supply h) \<le> length (value_supply h') + (n1 + length w2 + 1 + n2 + length w3 + 1)"
    using o by (intro exI [of _ h'] exI [of _ A']) (simp add: add.assoc)
qed

lemma reads_more_members:
  assumes key: "reads fmt s p n1 (JString k)" "drop (p + n1) s = w2 @ 58 # r2" "list_all whitespace w2" "length k + 1 < 2 ^ 64"
    and elem: "reads fmt s (p + n1 + length w2 + 1) n2 j" "drop (p + n1 + length w2 + 1 + n2) s = w3 @ 44 # r" "list_all whitespace w3"
    and more: "reads_members fmt s (p + n1 + length w2 + 1 + n2 + length w3 + 1) m ms" and n2: "0 < n2"
  shows "reads_members fmt s p (n1 + length w2 + 1 + n2 + length w3 + 1 + m) ((k, j) # ms)"
  unfolding reads_members_def
proof (intro allI impI)
  fix stack a old A and h0 h :: "'a value_heap"
  let ?n = "n1 + length w2 + 1 + n2 + length w3 + 1 + m" and ?p = "p + n1 + length w2 + 1 + n2 + length w3 + 1"
  assume h: "owns (value_blocks h) a (JObject old) A" "grown h0 h A" "supply_ok h" "?n \<le> length (value_supply h)" "length old + ?n < 2 ^ 59"
  have len: "n1 + n2 \<le> length (value_supply h)" "length old < 2 ^ 59" "\<not> whitespace 44" using h(4,5) by (simp_all add: whitespace_def)
  obtain h1 A1 where "value_decode_loop fmt s (dec DECODE_VALUE_START p (a # stack) value_undefined h) =
      value_decode_loop fmt s (dec DECODE_OBJECT_REST (p + n1 + length w2 + 1 + n2 + length w3) (a # stack) value_undefined h1)"
    and o: "owns (value_blocks h1) a (JObject (put_member k j old)) A1" "grown h0 h1 A1" "supply_ok h1"
    "length (value_supply h) \<le> length (value_supply h1) + (n1 + n2)"
    by (rule read_pair [OF key elem len(3) h(1-3) len(1,2)])
  note this(1)
  also have "value_decode_loop fmt s (dec DECODE_OBJECT_REST (p + n1 + length w2 + 1 + n2 + length w3) (a # stack) value_undefined h1) =
      value_decode_loop fmt s (dec DECODE_VALUE_START ?p (a # stack) value_undefined h1)"
    by (rule comma [OF drop_more [OF elem(2)]]) simp
  also obtain h' A' where m: "value_decode_loop fmt s (dec DECODE_VALUE_START ?p (a # stack) value_undefined h1) =
         value_decode_loop fmt s (dec DECODE_VALUE_END (?p + m) stack a h')"
    "owns (value_blocks h') a (JObject (fold (\<lambda>(k, j). put_member k j) ms (put_member k j old))) A'" "grown h0 h' A'" "supply_ok h'"
       "length (value_supply h1) \<le> length (value_supply h') + m"
  proof -
    have "m \<le> length (value_supply h1)" "length (put_member k j old) + m < 2 ^ 59"
      using h(4,5) o(4) length_put_member [of k j old] by simp_all
    then show ?thesis using more o(1-3) that unfolding reads_members_def by blast
  qed
  note m(1)
  finally show "\<exists>h' A'. value_decode_loop fmt s (dec DECODE_VALUE_START p (a # stack) value_undefined h) =
         value_decode_loop fmt s (dec DECODE_VALUE_END (p + ?n) stack a h') \<and>
       owns (value_blocks h') a (JObject (fold (\<lambda>(k, j). put_member k j) ((k, j) # ms) old)) A' \<and> grown h0 h' A' \<and> supply_ok h' \<and>
       length (value_supply h) \<le> length (value_supply h') + ?n"
    using o(4) m(2-5) by (intro exI [of _ h'] exI [of _ A']) (simp add: add.assoc)
qed

lemma reads_object:
  assumes at: "drop p s = 123 # r" and mem: "reads_members fmt s (p + 1) n ms" and n: "n + 1 < 2 ^ 59"
  shows "reads fmt s p (Suc n) (JObject (fold (\<lambda>(k, j). put_member k j) ms []))"
  unfolding reads_def
proof (intro allI impI)
  fix stack :: "value_t list" and h :: "'a value_heap" assume h: "supply_ok h" "Suc n \<le> length (value_supply h)"
  have h1: "1 \<le> length (value_supply h)" using h(2) by simp
  obtain a h1 where a: "value_decode_loop fmt s (dec DECODE_VALUE_START p stack value_undefined h) =
      value_decode_loop fmt s (dec DECODE_VALUE_START (p + 1) (a # stack) value_undefined h1)"
    "owns (value_blocks h1) a (JObject []) {a}" "grown h h1 {a}" "supply_ok h1" "length (value_supply h) = Suc (length (value_supply h1))"
    by (rule opened [OF at _ h(1) h1, of "JObject []"]) auto
  have "n \<le> length (value_supply h1)" "length [] + n < 2 ^ 59" using h(2) a(5) n by simp_all
  then obtain h' A' where "value_decode_loop fmt s (dec DECODE_VALUE_START (p + 1) (a # stack) value_undefined h1) =
         value_decode_loop fmt s (dec DECODE_VALUE_END (p + 1 + n) stack a h')"
    "owns (value_blocks h') a (JObject (fold (\<lambda>(k, j). put_member k j) ms [])) A'" "grown h h' A'" "supply_ok h'"
       "length (value_supply h1) \<le> length (value_supply h') + n"
    using mem a(2-4) unfolding reads_members_def by blast
  then show "\<exists>v h' A. value_decode_loop fmt s (dec DECODE_VALUE_START p stack value_undefined h) =
         value_decode_loop fmt s (dec DECODE_VALUE_END (p + Suc n) stack v h') \<and>
       owns (value_blocks h') v (JObject (fold (\<lambda>(k, j). put_member k j) ms [])) A \<and> grown h h' A \<and> supply_ok h' \<and>
       length (value_supply h) \<le> length (value_supply h') + Suc n"
    using a(1,5) by (intro exI [of _ a] exI [of _ h'] exI [of _ A']) simp
qed

section \<open>All texts\<close>

lemma string_text_at:
  assumes "drop p s = w @ t @ r" "list_all whitespace w" "string_text t bs" "length s < 2 ^ 59"
  shows "reads fmt s p (length (w @ t)) (JString bs)" "length bs + 1 < 2 ^ 64"
proof -
  have at: "drop (p + length w) s = t @ r" using drop_more [OF assms(1)] .
  have "reads fmt s p (length w + length t) (JString bs)"
    by (rule reads_spaces [OF assms(1,2) reads_string [OF at assms(3,4)]])
  then show "reads fmt s p (length (w @ t)) (JString bs)" by simp
  have "length t \<le> length s" using arg_cong [OF assms(1), of length] by simp
  then show "length bs + 1 < 2 ^ 64" using string_text_length [OF assms(3)] assms(4) by simp
qed

lemma whitespace_delimiter: "list_all whitespace w \<Longrightarrow> delimiter c \<Longrightarrow> \<exists>c' r'. w @ c # r = c' # r' \<and> delimiter c'"
  by (cases w) (auto simp: delimiter_def)

lemma reads_texts:
  "json_text fmt t j \<Longrightarrow> t \<noteq> [] \<and> (\<forall>s p c r. drop p s = t @ c # r \<longrightarrow> delimiter c \<longrightarrow> length s < 2 ^ 59 \<longrightarrow> reads fmt s p (length t) j)"
  "elements_text fmt t js \<Longrightarrow> \<forall>s p r. drop p s = t @ r \<longrightarrow> length s < 2 ^ 59 \<longrightarrow> reads_elements fmt s p (length t) js"
  "members_text fmt t ms \<Longrightarrow> \<forall>s p r. drop p s = t @ r \<longrightarrow> length s < 2 ^ 59 \<longrightarrow> reads_members fmt s p (length t) ms"
proof (induction rule: json_text_elements_text_members_text.inducts)
  case (text_space c t j)
  have "reads fmt s p (length (c # t)) j" if "drop p s = (c # t) @ d # r" "delimiter d" "length s < 2 ^ 59" for s p d r
    using reads_space [of p s c "t @ d # r" fmt "length t" j] drop_Suc_tail [of p s c "t @ d # r"] text_space that by simp
  then show ?case by blast
next
  case text_null
  have "reads fmt s p (length [110, 117, 108, 108 :: byte]) JNull" if "drop p s = [110, 117, 108, 108] @ d # r" for s p d r
    using reads_null [of p s "d # r" fmt] that by (simp add: eval_nat_numeral)
  then show ?case by blast
next
  case text_true
  have "reads fmt s p (length [116, 114, 117, 101 :: byte]) (JBool True)" if "drop p s = [116, 114, 117, 101] @ d # r" for s p d r
    using reads_bool [of p s True "d # r" fmt] that by (simp add: eval_nat_numeral)
  then show ?case by blast
next
  case text_false
  have "reads fmt s p (length [102, 97, 108, 115, 101 :: byte]) (JBool False)" if "drop p s = [102, 97, 108, 115, 101] @ d # r" for s p d r
    using reads_bool [of p s False "d # r" fmt] that by (simp add: eval_nat_numeral)
  then show ?case by blast
next
  case (text_number t n)
  have "reads fmt s p (length t) (JNumber n)" if "drop p s = t @ d # r" "delimiter d" for s p d r
    using reads_number [OF that(1) text_number that(2)] .
  then show ?case using number_text_start [OF text_number(1)] by blast
next
  case (text_string t bs)
  have "reads fmt s p (length t) (JString bs)" if "drop p s = t @ d # r" "length s < 2 ^ 59" for s p d r
    using reads_string [OF that(1) text_string that(2)] .
  then show ?case using text_string by (auto simp: string_text_def)
next
  case (text_empty_array w)
  have "reads fmt s p (length (91 # w @ [93])) (JArray [])" if "drop p s = (91 # w @ [93]) @ r" for s p r
    using reads_empty [of p s 91 w 93 r "JArray []" fmt] text_empty_array that by simp
  then show ?case by blast
next
  case (text_array t js)
  have "reads fmt s p (length (91 # t)) (JArray js)" if "drop p s = (91 # t) @ r" "length s < 2 ^ 59" for s p r
  proof -
    have "length t + 1 < 2 ^ 59" using arg_cong [OF that(1), of length] that(2) by simp
    then show ?thesis using reads_array [of p s "t @ r" fmt "length t" js] drop_Suc_tail [of p s 91 "t @ r"] text_array.IH that by simp
  qed
  then show ?case by blast
next
  case (text_empty_object w)
  have "reads fmt s p (length (123 # w @ [125])) (JObject [])" if "drop p s = (123 # w @ [125]) @ r" for s p r
    using reads_empty [of p s 123 w 125 r "JObject []" fmt] text_empty_object that by simp
  then show ?case by blast
next
  case (text_object t ms)
  have "reads fmt s p (length (123 # t)) (JObject (fold (\<lambda>(k, j). put_member k j) ms []))"
    if "drop p s = (123 # t) @ r" "length s < 2 ^ 59" for s p r
  proof -
    have "length t + 1 < 2 ^ 59" using arg_cong [OF that(1), of length] that(2) by simp
    then show ?thesis using reads_object [of p s "t @ r" fmt "length t" ms] drop_Suc_tail [of p s 123 "t @ r"] text_object.IH that by simp
  qed
  then show ?case by blast
next
  case (elements_last t j w)
  have "reads_elements fmt s p (length (t @ w @ [93])) [j]" if "drop p s = (t @ w @ [93]) @ r" "length s < 2 ^ 59" for s p r
  proof -
    obtain d r' where d: "w @ 93 # r = d # r'" "delimiter d" using whitespace_delimiter [OF elements_last(3), of 93 r] by (auto simp: delimiter_def)
    have "reads fmt s p (length t) j" using elements_last(2) d that by simp
    moreover have "drop (p + length t) s = w @ 93 # r" using drop_more [of p s t "w @ 93 # r"] that(1) by simp
    ultimately show ?thesis using reads_last [of fmt s p "length t" j w r] elements_last(3) by simp
  qed
  then show ?case by blast
next
  case (elements_more t j w u js)
  have "reads_elements fmt s p (length (t @ w @ 44 # u)) (j # js)" if "drop p s = (t @ w @ 44 # u) @ r" "length s < 2 ^ 59" for s p r
  proof -
    obtain d r' where d: "w @ 44 # u @ r = d # r'" "delimiter d"
      using whitespace_delimiter [OF elements_more(5), of 44 "u @ r"] by (auto simp: delimiter_def)
    have 1: "reads fmt s p (length t) j" using elements_more(2) d that by simp
    have 2: "drop (p + length t) s = w @ 44 # u @ r" using drop_more [of p s t "w @ 44 # u @ r"] that(1) by simp
    have "drop (p + length t + length w + 1) s = u @ r"
      using drop_more [of p s "t @ w @ [44]" "u @ r"] that(1) by (simp add: add.assoc)
    then have "reads_elements fmt s (p + length t + length w + 1) (length u) js" using elements_more(4) that(2) by blast
    from reads_more [OF 1 2 elements_more(5) this] show ?thesis by (simp add: add.assoc)
  qed
  then show ?case by blast
next
  case (members_last w1 t k w2 u j w3)
  have "reads_members fmt s p (length (w1 @ t @ w2 @ 58 # u @ w3 @ [125])) [(k, j)]"
    if at: "drop p s = (w1 @ t @ w2 @ 58 # u @ w3 @ [125]) @ r" "length s < 2 ^ 59" for s p r
  proof -
    have at0: "drop p s = w1 @ t @ w2 @ 58 # u @ w3 @ 125 # r" using at(1) by simp
    note key = string_text_at [OF at0 members_last(1,2) at(2)]
    obtain d r' where d: "w3 @ 125 # r = d # r'" "delimiter d"
      using whitespace_delimiter [OF members_last(4), of 125 r] by (auto simp: delimiter_def)
    have at1: "drop (p + length (w1 @ t)) s = w2 @ 58 # u @ w3 @ 125 # r"
      using drop_more [of p s "w1 @ t"] at0 by simp
    have at2: "drop (p + length (w1 @ t) + length w2 + 1) s = u @ w3 @ 125 # r"
      using drop_more [of p s "w1 @ t @ w2 @ [58]"] at0 by (simp add: add.assoc)
    have 1: "reads fmt s (p + length (w1 @ t) + length w2 + 1) (length u) j" using members_last(6) at2 d at(2) by (metis)
    show ?thesis
      using reads_last_member [OF key(1) at1 members_last(3) key(2) 1 drop_more [OF at2] members_last(4)] by (simp add: add.assoc)
  qed
  then show ?case by blast
next
  case (members_more w1 t k w2 u j w3 v ms)
  have "reads_members fmt s p (length (w1 @ t @ w2 @ 58 # u @ w3 @ 44 # v)) ((k, j) # ms)"
    if at: "drop p s = (w1 @ t @ w2 @ 58 # u @ w3 @ 44 # v) @ r" "length s < 2 ^ 59" for s p r
  proof -
    have at0: "drop p s = w1 @ t @ w2 @ 58 # u @ w3 @ 44 # v @ r" using at(1) by simp
    note key = string_text_at [OF at0 members_more(1,2) at(2)]
    obtain d r' where d: "w3 @ 44 # v @ r = d # r'" "delimiter d"
      using whitespace_delimiter [OF members_more(4), of 44 "v @ r"] by (auto simp: delimiter_def)
    have at1: "drop (p + length (w1 @ t)) s = w2 @ 58 # u @ w3 @ 44 # v @ r"
      using drop_more [of p s "w1 @ t"] at0 by simp
    have at2: "drop (p + length (w1 @ t) + length w2 + 1) s = u @ w3 @ 44 # v @ r"
      using drop_more [of p s "w1 @ t @ w2 @ [58]"] at0 by (simp add: add.assoc)
    have at3: "drop (p + length (w1 @ t) + length w2 + 1 + length u + length w3 + 1) s = v @ r"
      using drop_more [of p s "w1 @ t @ w2 @ [58] @ u @ w3 @ [44]"] at0 by (simp add: add.assoc)
    have 1: "reads fmt s (p + length (w1 @ t) + length w2 + 1) (length u) j" "0 < length u" using members_more(6) at2 d at(2) by (metis, simp)
    have 2: "reads_members fmt s (p + length (w1 @ t) + length w2 + 1 + length u + length w3 + 1) (length v) ms"
      using members_more(8) at3 at(2) by blast
    show ?thesis
      using reads_more_members [OF key(1) at1 members_more(3) key(2) 1(1) drop_more [OF at2] members_more(4) 2 1(2)] by (simp add: add.assoc)
  qed
  then show ?case by blast
qed


lemma decode_accepted:
  assumes r: "reads fmt s 0 n j" and at: "drop n s = w @ c # r" "list_all whitespace w" "\<not> whitespace c"
    and h: "supply_ok h" "n \<le> length (value_supply h)"
  shows "\<exists>v h' A. value_decode fmt s h = Some (v, Some (n + length w), h') \<and> owns (value_blocks h') v j A \<and> grown h h' A"
proof -
  obtain v h' A where v: "value_decode_loop fmt s (dec DECODE_VALUE_START 0 [] value_undefined h) =
      value_decode_loop fmt s (dec DECODE_VALUE_END (0 + n) [] v h')"
    "owns (value_blocks h') v j A" "grown h h' A" "supply_ok h'" "length (value_supply h) \<le> length (value_supply h') + n"
    by (rule readsE [OF r h])
  have at': "drop (0 + n) s = w @ c # r" using at(1) by simp
  have und: "value_is_undefined v h' = Some False"
    using owns_is [OF v(2), of VALUE_UNDEFINED] by (cases j) (auto simp: value_is_undefined_def json_type_def)
  note v(1)
  also have "value_decode_loop fmt s (dec DECODE_VALUE_END (0 + n) [] v h') =
      value_decode_loop fmt s (dec DECODE_ACCEPT (0 + n + length w) [] v h')"
    by (rule loop_step [OF at' at(2,3)]) (simp_all add: value_decode_step_def Let_def und)
  also have "\<dots> = Some (v, Some (n + length w), h')"
    using whitespace_run [of "n + length w" s "[]" c r] drop_more [OF at(1)] at(3) by (subst value_decode_loop.simps) simp
  finally show ?thesis using v(2,3) by (simp add: value_decode_def dec_def) blast
qed


definition example_format :: "int number_format" where
  "example_format = \<lparr>strtold = (\<lambda>s p. if take 1 (drop p s) = [49] then (1, p + 1, False) else (0, p, True)), sprint_number = (\<lambda>n. [49])\<rparr>"

definition example_supply :: "int value_heap" where
  "example_supply = \<lparr>value_blocks = Map.empty, value_supply = map (\<lambda>i. of_nat (16 * i)) [1..<101]\<rparr>"

lemma example_supply_ok: "supply_ok example_supply" "length (value_supply example_supply) = 100"
proof -
  have "inj_on (\<lambda>i. of_nat (16 * i) :: u64) {1..<101}"
    by (intro inj_onI) (simp add: word_unat_eq_iff unat_of_nat64 del: of_nat_mult)
  then have "distinct (value_supply example_supply)" by (simp add: example_supply_def distinct_map)
  moreover have "a \<noteq> 0 \<and> a \<noteq> 8" if "a \<in> set (value_supply example_supply)" for a
    using that by (auto simp: example_supply_def word_unat_eq_iff unat_of_nat64 simp del: of_nat_mult)
  ultimately show "supply_ok example_supply" "length (value_supply example_supply) = 100"
    by (auto simp: supply_ok_def example_supply_def value_undefined_def value_null_def)
qed

lemma example_number: "number_text [49]" "strtold_reads example_format [49] 1"
proof -
  have "[49 :: byte] = [] @ [49] @ [] @ []" "integer_run [49]" by (simp_all add: integer_run_def digit_run_def isdigit_def)
  then show "number_text [49]" unfolding number_text_def by blast
  show "strtold_reads example_format [49] 1" by (simp add: strtold_reads_def example_format_def)
qed

lemma example_text: "json_text example_format [123, 34, 97, 34, 58, 91, 49, 44, 32, 110, 117, 108, 108, 93, 125] (JObject [([97], JArray [JNumber 1, JNull])])"
proof -
  have one: "json_text example_format [49] (JNumber 1)" by (rule text_number [OF example_number])
  have null: "elements_text example_format ((32 # [110, 117, 108, 108]) @ [] @ [93]) [JNull]"
    by (rule elements_last, rule text_space) (simp_all add: whitespace_def text_null)
  have array: "json_text example_format (91 # [49] @ [] @ 44 # (32 # [110, 117, 108, 108]) @ [] @ [93]) (JArray [JNumber 1, JNull])"
    by (rule text_array, rule elements_more [OF one _ null]) simp
  have key: "string_text [34, 97, 34] [97]"
    by (auto simp: string_text_def scalars_def escape_code_def plain_def utf8_bytes_def reread_def scalar_def string_utf8_regular_def intro!: exI [of _ False] exI [of _ "[97]"])
  show ?thesis using text_object [OF members_last [OF _ key _ array, of "[]" "[]" "[]"]] by simp
qed




end
