(* ===== verification/Encode_Keys.thy ===== *)
theory Encode_Keys
  imports Encode Decode_Complete
begin

text \<open>The sorted array of the keys of an object.\<close>

section \<open>Sorting keys\<close>

lemma qsort_map: "qsort c (map f xs) = map f (qsort (\<lambda>x y. c (f x) (f y)) xs)"
proof -
  have ins: "qsort_insert c (f x) (map f ys) = map f (qsort_insert (\<lambda>x y. c (f x) (f y)) x ys)" for x ys
    by (induction ys) auto
  show ?thesis by (induction xs) (auto simp: ins)
qed

lemma qsort_cong: "(\<And>x y. x \<in> set xs \<Longrightarrow> y \<in> set xs \<Longrightarrow> c x y = d x y) \<Longrightarrow> qsort c xs = qsort d xs"
proof -
  have ins: "(\<And>y. y \<in> set ys \<Longrightarrow> c x y = d x y) \<Longrightarrow> qsort_insert c x ys = qsort_insert d x ys" for x ys
    by (induction ys) auto
  show "(\<And>x y. x \<in> set xs \<Longrightarrow> y \<in> set xs \<Longrightarrow> c x y = d x y) \<Longrightarrow> qsort c xs = qsort d xs"
    by (induction xs) (auto simp: set_qsort intro: ins)
qed

text \<open>The comparison is the lexicographic order.\<close>

lemma keys_compare_Cons: "keys_compare (x # xs) (y # ys) = (if x = y then keys_compare xs ys else uint x - uint y)"
  by (simp add: keys_compare_def Let_def word_uint_eq_iff)

lemma keys_compare_le: "keys_compare xs ys \<le> 0 \<longleftrightarrow> xs \<le> ys"
proof (induction xs arbitrary: ys)
  case Nil
  then show ?case by (simp add: keys_compare_def)
next
  case (Cons x xs)
  show ?case
  proof (cases ys)
    case Nil
    then show ?thesis by (simp add: keys_compare_def)
  next
    case (Cons y zs)
    then show ?thesis using Cons.IH [of zs] by (auto simp: keys_compare_Cons word_less_def word_uint_eq_iff)
  qed
qed


lemma sorted_keys:
  assumes "mset (map f ps) = mset ks" "distinct ks" "sorted ks"
  shows "map f (qsort (\<lambda>x y. keys_compare (f x) (f y)) ps) = ks"
proof -
  let ?qs = "qsort (\<lambda>x y. keys_compare (f x) (f y)) ps"
  have "sorted_wrt (\<lambda>x y. keys_compare (f x) (f y) \<le> 0) ?qs"
    by (rule sorted_qsort) (auto simp: keys_compare_le intro: order_trans)
  then have "sorted (map f ?qs)" by (simp add: keys_compare_le sorted_wrt_map)
  moreover have "mset (map f ?qs) = mset ks" using assms(1) mset_qsort [of _ ps] by (metis mset_map)
  ultimately show ?thesis using assms(3) by (metis properties_for_sort)
qed

section \<open>Collecting keys\<close>

definition slot_keys :: "mapd_entry list \<Rightarrow> byte list list" where
  "slot_keys es = map (\<lambda>e. the (mapd_key e)) (filter (\<lambda>e. mapd_key e \<noteq> None) es)"

lemma slot_keys_simps [simp]:
  "slot_keys [] = []"
  "slot_keys (e # es) = (case mapd_key e of None \<Rightarrow> slot_keys es | Some k \<Rightarrow> k # slot_keys es)"
  by (auto simp: slot_keys_def split: option.splits)

lemma keys_loop:
  assumes "owns (value_blocks h) a (JArray (map JString ks)) A" "grown h0 h A" "supply_ok h"
    "length (slot_keys es) \<le> length (value_supply h)" "length ks + length (slot_keys es) < 2 ^ 59"
    "\<forall>k\<in>set (slot_keys es). length k < 2 ^ 64"
  shows "\<exists>h' A'. value_object_keys_loop a es h = Some h' \<and> owns (value_blocks h') a (JArray (map JString (ks @ slot_keys es))) A' \<and>
    grown h0 h' A' \<and> supply_ok h' \<and> length (value_supply h) = length (value_supply h') + length (slot_keys es)"
  using assms
proof (induction es arbitrary: h A ks)
  case Nil
  then show ?case by auto
next
  case (Cons e es)
  show ?case
  proof (cases "mapd_key e")
    case None
    then show ?thesis using Cons by simp
  next
    case (Some k)
    have "value_supply h \<noteq> []" using Cons.prems(4) Some by auto
    obtain v h1 where v: "value_create (String_value (string_holding k)) h = Some (v, h1)" "supply_ok h1"
      "length (value_supply h) = Suc (length (value_supply h1))"
      using create_ok [OF Cons.prems(3) \<open>value_supply h \<noteq> []\<close>] by blast
    have "contents (String_value (string_holding k)) [] (JString k)"
      using string_holding_bytes [of k] Cons.prems(6) Some by simp
    note new = owns_created [OF v(1) this]
    have gr: "grown h h1 {v}" using v(1) by (auto simp: value_create_iff grown_def)
    have own1: "owns_all (value_blocks h1) [(v, JString k), (a, JArray (map JString ks))] ({v} \<union> A)" "grown h0 h1 ({v} \<union> A)"
      using grown_token [OF Cons.prems(2) _ new gr, of "[(a, JArray (map JString ks))]"] Cons.prems(1) by (simp_all add: owns_all_single)
    have len: "length (map JString ks) < 2 ^ 59" using Cons.prems(5) Some by simp
    obtain h2 where h2: "value_array_append_release a v h1 = Some h2"
      "owns_all (value_blocks h2) [(a, JArray (map JString ks @ [JString k]))] ({v} \<union> A)"
      "\<forall>x. x \<notin> {v} \<union> A \<longrightarrow> value_blocks h2 x = value_blocks h1 x" "value_supply h2 = value_supply h1"
      using array_append_release_owned [OF own1(1) len] by blast
    have own2: "owns (value_blocks h2) a (JArray (map JString (ks @ [k]))) ({v} \<union> A)" using h2(2) by (simp add: owns_all_single)
    have gr2: "grown h0 h2 ({v} \<union> A)" using own1(2) h2(3) by (auto simp: grown_def)
    have ok2: "supply_ok h2"
    proof (rule supply_ok_shrink [OF v(2) h2(4)])
      fix x assume "value_blocks h1 x = None"
      then have "x \<notin> {v} \<union> A" using owns_dom(2) [OF own1(1)] by blast
      then show "value_blocks h2 x = None" using h2(3) \<open>value_blocks h1 x = None\<close> by simp
    qed
    have rest: "length (slot_keys es) \<le> length (value_supply h2)" "length (ks @ [k]) + length (slot_keys es) < 2 ^ 59"
      "\<forall>k\<in>set (slot_keys es). length k < 2 ^ 64"
      using Cons.prems(4-6) Some v(3) h2(4) by simp_all
    obtain h' A' where "value_object_keys_loop a es h2 = Some h'"
      "owns (value_blocks h') a (JArray (map JString ((ks @ [k]) @ slot_keys es))) A'"
      "grown h0 h' A'" "supply_ok h'" "length (value_supply h2) = length (value_supply h') + length (slot_keys es)"
      using Cons.IH [OF own2 gr2 ok2 rest] by blast
    then show ?thesis using Some v(1,3) h2(1,4) by (auto simp: value_string_constant_def)
  qed
qed

lemma mset_slot_keys:
  assumes "mapd_inv m" "ascending kps" "mapd_lookup m = map_of (map (\<lambda>(k, p). (k, fst p)) kps)" "elements m = Some es"
  shows "mset (slot_keys es) = mset (map fst kps)"
proof -
  have inv: "map_inv mapd_hash mapd_set mapd_key m" using assms(1) by (simp add: mapd_inv_def)
  note es = mapd.entries [OF inv]
  let ?es = "map_entries mapd_key m"
  have eq: "slot_keys es = map (the \<circ> mapd_key) ?es" using assms(4) by (simp add: slot_keys_def map_entries_def)
  have key: "mapd_key e = Some k" if "map_lookup mapd_key m k = Some e" for e k
    using that by (auto simp: map_lookup_def table_lookup_def find_Some_iff split: option.splits)
  have look: "map_lookup mapd_key m k = None \<longleftrightarrow> k \<notin> fst ` set kps" for k
  proof -
    have "map_lookup mapd_key m k = None \<longleftrightarrow> map_of kps k = None"
      using fun_cong [OF assms(3), of k] by (simp add: mapd_lookup_def map_of_members) (metis map_option_is_None)
    then show ?thesis by (simp only: map_of_eq_None_iff)
  qed
  have "\<forall>x\<in>mapd_key ` set ?es. x \<noteq> None" using es(2) key by fastforce
  then have "inj_on the (mapd_key ` set ?es)" by (intro inj_onI) (metis option.expand)
  then have "distinct (slot_keys es)" unfolding eq using es(1) by (simp add: distinct_map comp_inj_on)
  moreover have "distinct (map fst kps)" by (rule ascending_distinct [OF assms(2)])
  moreover have "set (slot_keys es) = set (map fst kps)"
  proof (intro set_eqI iffI)
    fix k assume "k \<in> set (slot_keys es)"
    then obtain e k' where "map_lookup mapd_key m k' = Some e" "k = the (mapd_key e)" unfolding eq using es(2) by auto
    then have "k' = k" using key by simp
    then show "k \<in> set (map fst kps)" using look [of k] \<open>map_lookup mapd_key m k' = Some e\<close> by simp
  next
    fix k assume "k \<in> set (map fst kps)"
    then obtain e where e: "map_lookup mapd_key m k = Some e" using look [of k] by auto
    then have "e \<in> set ?es" unfolding es(2) by blast
    then show "k \<in> set (slot_keys es)" unfolding eq using key [OF e] by (auto intro!: image_eqI [of _ _ e])
  qed
  ultimately show ?thesis using set_eq_iff_mset_eq_distinct by blast
qed


text \<open>The array has all new blocks, and releasing it frees them again.\<close>

lemma object_keys_owned:
  assumes own: "owns (value_blocks h) a (JObject ms) A" and h: "supply_ok h" "length ms < length (value_supply h)"
    and len: "length ms < 2 ^ 59" "\<forall>k\<in>fst ` set ms. length k < 2 ^ 64"
  obtains ka h' K where "value_object_keys a h = Some (ka, h')" "owns (value_blocks h') ka (JArray (map (JString \<circ> fst) ms)) K"
    "grown h h' K" "supply_ok h'" "length (value_supply h) = length (value_supply h') + length ms + 1"
proof -
  obtain m kps B where o: "value_blocks h a = Some \<lparr>value_refs = 1, value_of = Object_value m\<rparr>" "a \<noteq> value_undefined"
    "a \<noteq> value_null" "mapd_inv m" "ascending kps" "mapd_lookup m = map_of (map (\<lambda>(k, p). (k, fst p)) kps)"
    "ms = map (\<lambda>(k, p). (k, snd p)) kps"
    by (rule owns_objectE [OF own]) (rule that, assumption+)
  have ms: "map fst kps = map fst ms" by (simp add: o(7) case_prod_unfold)
  obtain es where es: "elements m = Some es" "length es = unat (elements_capacity m)"
    using o(4) by (auto simp: mapd_inv_def map_inv_def)
  have keys: "mset (slot_keys es) = mset (map fst ms)" using mset_slot_keys [OF o(4-6) es(1)] ms by simp
  then have sk: "length (slot_keys es) = length ms" "set (slot_keys es) = fst ` set ms"
    by (metis length_map size_mset) (use keys in \<open>metis list.set_map set_mset_mset\<close>)
  have "value_supply h \<noteq> []" using h(2) by auto
  obtain ka h1 where ka: "value_create (Array_value (vector_construct 8)) h = Some (ka, h1)" "supply_ok h1"
    "length (value_supply h) = Suc (length (value_supply h1))"
    using create_ok [OF h(1) \<open>value_supply h \<noteq> []\<close>] by blast
  have "contents (Array_value (vector_construct 8)) [] (JArray (map JString []))"
    using vector_construct_holds [of 8] by (simp add: vector_construct_def)
  note new = owns_created [OF ka(1) this]
  have gr: "grown h h1 {ka}" using ka(1) by (auto simp: value_create_iff grown_def)
  have fits: "length (slot_keys es) \<le> length (value_supply h1)" "length [] + length (slot_keys es) < 2 ^ 59"
    "\<forall>k\<in>set (slot_keys es). length k < 2 ^ 64" using sk h(2) len ka(3) by simp_all
  obtain h2 K where h2: "value_object_keys_loop ka es h1 = Some h2"
    "owns (value_blocks h2) ka (JArray (map JString ([] @ slot_keys es))) K" "grown h h2 K" "supply_ok h2"
    "length (value_supply h1) = length (value_supply h2) + length (slot_keys es)"
    using keys_loop [OF new gr ka(2) fits] by blast
  have map: "value_map a h1 = Some (Some m)"
  proof -
    have "a \<noteq> ka" using o(1) ka(1) by (auto simp: value_create_iff)
    then have "value_blocks h1 a = value_blocks h a" using gr by (simp add: grown_def)
    then show ?thesis using value_get_block(2) [of h1 a 1 "Object_value m" m] o(1-3) by simp
  qed
  obtain vec ps C where v: "value_blocks h2 ka = Some \<lparr>value_refs = 1, value_of = Array_value vec\<rparr>" "ka \<noteq> value_undefined" "ka \<noteq> value_null"
    "vec_object_size vec = 8" "vector_holds vec (map (word_cells \<circ> fst) ps)" "map snd ps = map JString (slot_keys es)"
    "owns_all (value_blocks h2) ps C" "ka \<notin> C" "K = insert ka C"
  proof -
    obtain x ps C where x: "value_blocks h2 ka = Some \<lparr>value_refs = 1, value_of = x\<rparr>" "ka \<noteq> value_undefined" "ka \<noteq> value_null"
      "contents x ps (JArray (map JString (slot_keys es)))" "owns_all (value_blocks h2) ps C" "ka \<notin> C" "K = insert ka C"
      using owns_blockE [OF h2(2)] by auto
    then show ?thesis using that by (cases x) auto
  qed
  note vec = value_get_block(1) [OF v(1-3) refl]
  define key where "key p = (case snd p of JString k \<Rightarrow> k | _ \<Rightarrow> [])" for p :: "value_t \<times> 'a json"
  have key: "value_key h2 (word_cells (fst p)) = Some (key p)" if p: "p \<in> set ps" for p
  proof -
    have "snd p \<in> set (map snd ps)" using p by simp
    then obtain k where k: "snd p = JString k" unfolding v(6) by auto
    obtain C' where "owns (value_blocks h2) (fst p) (snd p) C'"
      using v(7) split_list [OF p] by (cases p) (auto simp: owns_all_append_iff owns_all_Cons_iff)
    then obtain x where x: "value_blocks h2 (fst p) = Some \<lparr>value_refs = 1, value_of = String_value x\<rparr>" "fst p \<noteq> value_undefined"
      "fst p \<noteq> value_null" "data_bytes x = Some k"
      unfolding k by (rule owns_stringE)
    then show ?thesis using value_get_block(3) [OF x(1-3) refl] k by (simp add: value_key_def key_def)
  qed
  let ?c = "value_object_keys_compare h2"
  have cmp: "?c ((word_cells \<circ> fst) p) ((word_cells \<circ> fst) q) = keys_compare (key p) (key q)" if "p \<in> set ps" "q \<in> set ps" for p q
    using key that by (simp add: value_object_keys_compare_def)
  define qs where "qs = qsort (\<lambda>p q. keys_compare (key p) (key q)) ps"
  have sort: "qsort ?c (map (word_cells \<circ> fst) ps) = map (word_cells \<circ> fst) qs"
    unfolding qsort_map qs_def by (rule arg_cong [OF qsort_cong]) (rule cmp)
  obtain vec' where vec': "vector_sort vec ?c = Some vec'" "vec_object_size vec' = 8" "vector_holds vec' (map (word_cells \<circ> fst) qs)"
    using vector_sort_objects [OF v(5), of ?c] v(4) sort by auto
  have "map key ps = slot_keys es"
  proof -
    have "map key ps = map (\<lambda>j. case j of JString k \<Rightarrow> k | _ \<Rightarrow> []) (map snd ps)" by (simp add: key_def)
    then show ?thesis unfolding v(6) by (simp add: comp_def)
  qed
  moreover have "ascending ms" using o(5) ms by (simp add: ascending_def)
  ultimately have "map key qs = map fst ms"
    unfolding qs_def using keys ascending_distinct [of ms] by (intro sorted_keys) (auto simp: ascending_def strict_sorted_iff)
  moreover have str: "snd p = JString (key p)" if "p \<in> set ps" for p
  proof -
    have "snd p \<in> set (map snd ps)" using that by simp
    then show ?thesis unfolding v(6) by (auto simp: key_def)
  qed
  then have "map snd qs = map JString (map key qs)" by (simp add: qs_def set_qsort)
  ultimately have snds: "map snd qs = map (JString \<circ> fst) ms" by simp
  define h' where "h' = value_update ka \<lparr>value_refs = 1, value_of = Array_value vec'\<rparr> h2"
  have "value_object_keys a h = Some (ka, h')"
    using ka(1) map es h2(1) vec vec'(1) v(1) by (simp add: value_object_keys_def value_array_def value_write_def h'_def)
  moreover have "owns_all (value_blocks h') qs C"
    using owns_all_perm [OF _ v(7), of qs] owns_frame(2) [of "value_blocks h2" qs C "value_blocks h'"] v(8)
    by (auto simp: qs_def mset_qsort h'_def value_update_def)
  then have "owns (value_blocks h') ka (JArray (map (JString \<circ> fst) ms)) K"
    unfolding v(9) using v(2,3,8) vec' snds
    by (intro owns_block [where ps = qs and x = "Array_value vec'"]) (auto simp: h'_def value_update_def)
  moreover have "grown h h' K" using h2(3) v(9) by (auto simp: grown_def h'_def value_update_def)
  moreover have "supply_ok h'"
    by (rule supply_ok_shrink [OF h2(4)]) (use v(1) in \<open>auto simp: h'_def value_update_def\<close>)
  moreover have "length (value_supply h) = length (value_supply h') + length ms + 1"
    using ka(3) h2(5) sk(1) by (simp add: h'_def value_update_def)
  ultimately show ?thesis using that by blast
qed

end
