(* ===== verification/Encode_Correct.thy ===== *)
theory Encode_Correct
  imports Encode_Keys
begin

text \<open>
  The encoder writes the text of a tree, and leaves the heap as it was; the decoder reads it back.
\<close>

section \<open>The text of a tree\<close>

text \<open>
  \<open>prints fmt pretty ascii n j t\<close>: the text of the tree \<open>j\<close> in \<open>n\<close> arrays and objects. Every string
  is valid UTF-8. For the elements \<open>sep\<close> says whether there have been any.
\<close>

definition text_line :: "bool \<Rightarrow> nat \<Rightarrow> byte list" where
  "text_line pretty n = (if pretty then 10 # replicate (2 * n) 32 else [])"

definition literal_text :: "bool \<Rightarrow> byte list \<Rightarrow> byte list \<Rightarrow> bool" where
  "literal_text ascii bs t \<longleftrightarrow> (\<exists>cs. scalars cs \<and> bs = utf8_string cs \<and> t = 34 # escape_string ascii cs @ [34])"

inductive prints :: "'n number_format \<Rightarrow> bool \<Rightarrow> bool \<Rightarrow> nat \<Rightarrow> 'n json \<Rightarrow> byte list \<Rightarrow> bool"
  and prints_elements :: "'n number_format \<Rightarrow> bool \<Rightarrow> bool \<Rightarrow> bool \<Rightarrow> nat \<Rightarrow> 'n json list \<Rightarrow> byte list \<Rightarrow> bool"
  and prints_members :: "'n number_format \<Rightarrow> bool \<Rightarrow> bool \<Rightarrow> bool \<Rightarrow> nat \<Rightarrow> (byte list \<times> 'n json) list \<Rightarrow> byte list \<Rightarrow> bool"
  for fmt pretty ascii where
  prints_null: "prints fmt pretty ascii n JNull [110, 117, 108, 108]"
| prints_bool: "prints fmt pretty ascii n (JBool x) (if x then [116, 114, 117, 101] else [102, 97, 108, 115, 101])"
| prints_number: "prints fmt pretty ascii n (JNumber x) (take 63 (sprint_number fmt x))"
| prints_string: "literal_text ascii bs t \<Longrightarrow> prints fmt pretty ascii n (JString bs) t"
| prints_array: "prints_elements fmt pretty ascii False (Suc n) js t \<Longrightarrow>
    prints fmt pretty ascii n (JArray js) (91 # t @ (if js = [] then [] else text_line pretty n) @ [93])"
| prints_object: "ascending ms \<Longrightarrow> prints_members fmt pretty ascii False (Suc n) ms t \<Longrightarrow>
    prints fmt pretty ascii n (JObject ms) (123 # t @ (if ms = [] then [] else text_line pretty n) @ [125])"
| elements_none: "prints_elements fmt pretty ascii sep n [] []"
| elements_next: "prints fmt pretty ascii n j t \<Longrightarrow> prints_elements fmt pretty ascii True n js u \<Longrightarrow>
    prints_elements fmt pretty ascii sep n (j # js) ((if sep then [44] else []) @ text_line pretty n @ t @ u)"
| members_none: "prints_members fmt pretty ascii sep n [] []"
| members_next: "literal_text ascii k s \<Longrightarrow> prints fmt pretty ascii n j t \<Longrightarrow> prints_members fmt pretty ascii True n ms u \<Longrightarrow>
    prints_members fmt pretty ascii sep n ((k, j) # ms)
      ((if sep then [44] else []) @ text_line pretty n @ s @ (if pretty then [58, 32] else [58]) @ t @ u)"

section \<open>Writing\<close>

lemma append_literal:
  "buffer_holds b bs \<Longrightarrow> length bs + length s \<le> buffer_limit \<Longrightarrow>
    \<exists>b'. buffer_append b (literal s) = Some b' \<and> buffer_holds b' (bs @ map of_char s)"
  using append_bytes [of b bs "map of_char s"] by (simp add: literal_def)

lemma encode_line_holds:
  assumes "buffer_holds b bs" "length bs + (2 * n + 1) \<le> buffer_limit"
  shows "\<exists>b'. encode_line b n = Some b' \<and> buffer_holds b' (bs @ text_line True n)"
proof -
  obtain b1 where b1: "buffer_append b (literal [CHR 0x0A]) = Some b1" "buffer_holds b1 (bs @ [10])"
    using append_literal [OF assms(1), of "[CHR 0x0A]"] assms(2) by auto
  have n: "unat (of_nat n * 2 :: size_t) = 2 * n"
    using assms(2) by (simp add: unat_mult64 unat_of_nat64 buffer_limit_def)
  have size: "unat (buffer_size b1) = length bs + 1" using buffer_holds_length [OF b1(2)] by simp
  have ok: "buffer_ok b1" "buffer_cells b1 = map Some (bs @ [10])" using b1(2) by (simp_all add: buffer_holds_def)
  have "ptr_read (data_base (literal '' '')) (unat (data_size (literal '' ''))) = Some [Some 32]"
    using ptr_read_literal [of "[32]"] by (simp add: literal_def)
  then obtain b2 where "buffer_insert_fill b1 (buffer_size b1) (of_nat n * 2) (literal '' '') = Some b2"
    "buffer_ok b2" "buffer_cells b2 = buffer_cells b1 @ replicate (2 * n) (Some 32)"
    using buffer_insert_fill_cells [OF ok(1), of "buffer_size b1" "literal '' ''" "[Some 32]" "of_nat n * 2"] size n assms(2)
      length_buffer_cells [OF ok(1)] by (auto simp: concat_replicate_single)
  then show ?thesis using b1(1) ok(2)
    by (simp add: encode_line_def buffer_holds_def text_line_def)
qed

lemma encode_string_holds:
  assumes "buffer_holds b bs" "data_bytes str = Some k" "literal_text ascii k t" "length bs + length t \<le> buffer_limit"
  shows "\<exists>b'. value_buffer_encode_string b str ascii = Some b' \<and> buffer_holds b' (bs @ t)"
proof -
  obtain cs where cs: "scalars cs" "k = utf8_string cs" "t = 34 # escape_string ascii cs @ [34]"
    using assms(3) by (auto simp: literal_text_def)
  obtain b1 where b1: "buffer_append b (literal [CHR 0x22]) = Some b1" "buffer_holds b1 (bs @ [34])"
    using append_literal [OF assms(1), of "[CHR 0x22]"] assms(4) cs(3) by auto
  obtain b2 where b2: "string_utf8_encode_from b1 k ascii 0 = Some b2" "buffer_holds b2 ((bs @ [34]) @ escape_string ascii cs)"
    using encode_from_holds [of 0 k cs b1 "bs @ [34]" ascii] cs b1(2) assms(4) by auto
  obtain b3 where "buffer_append b2 (literal [CHR 0x22]) = Some b3" "buffer_holds b3 (((bs @ [34]) @ escape_string ascii cs) @ [34])"
    using append_literal [OF b2(2), of "[CHR 0x22]"] assms(4) cs(3) by auto
  then show ?thesis using b1(1) b2(1) assms(2) cs(3) by (simp add: value_buffer_encode_string_def string_utf8_encode_def)
qed

section \<open>Running the machine\<close>

definition enc :: "encode_state \<Rightarrow> value_t \<Rightarrow> encode_context list \<Rightarrow> buffer \<Rightarrow> 'n value_heap \<Rightarrow> 'n encoder" where
  "enc st v stack b h = \<lparr>encode_state = st, encode_value = v, encode_stack = stack, encode_buffer = b, encode_heap = h\<rparr>"

lemma enc_simps [simp]:
  "encode_state (enc st v stack b h) = st" "encode_value (enc st v stack b h) = v" "encode_stack (enc st v stack b h) = stack"
  "encode_buffer (enc st v stack b h) = b" "encode_heap (enc st v stack b h) = h"
  "(enc st v stack b h)\<lparr>encode_state := st'\<rparr> = enc st' v stack b h"
  "(enc st v stack b h)\<lparr>encode_value := v'\<rparr> = enc st v' stack b h"
  "(enc st v stack b h)\<lparr>encode_stack := stack'\<rparr> = enc st v stack' b h"
  "(enc st v stack b h)\<lparr>encode_buffer := b'\<rparr> = enc st v stack b' h"
  "(enc st v stack b h)\<lparr>encode_heap := h'\<rparr> = enc st v stack b h'"
  by (simp_all add: enc_def)

lemma encode_loop_step:
  assumes "st \<noteq> ENCODE_ACCEPT" "st \<noteq> ENCODE_REJECT" "value_encode_step fmt pretty ascii (enc st v stack b h) = Some d'"
  shows "value_encode_loop fmt pretty ascii (enc st v stack b h) = value_encode_loop fmt pretty ascii d'"
  using assms by (subst value_encode_loop.simps) simp

text \<open>A context of an array or an object with \<open>i\<close> elements written.\<close>

definition ctx_at :: "value_t \<Rightarrow> value_t \<Rightarrow> nat \<Rightarrow> encode_context" where
  "ctx_at a keys i = \<lparr>context_value = a, context_keys = keys, context_index = of_nat i\<rparr>"

lemma ctx_at_simps [simp]:
  "context_value (ctx_at a keys i) = a" "context_keys (ctx_at a keys i) = keys" "context_index (ctx_at a keys i) = of_nat i"
  "(ctx_at a keys i)\<lparr>context_index := of_nat i + 1\<rparr> = ctx_at a keys (Suc i)"
  by (simp_all add: ctx_at_def)

definition writes :: "'n::zero number_format \<Rightarrow> bool \<Rightarrow> bool \<Rightarrow> nat \<Rightarrow> 'n json \<Rightarrow> byte list \<Rightarrow> bool" where
  "writes fmt pretty ascii n j t \<longleftrightarrow> (\<forall>v A stack b bs h. length stack = n \<longrightarrow> owns (value_blocks h) v j A \<longrightarrow>
     buffer_holds b bs \<longrightarrow> length bs + length t < 2 ^ 59 \<longrightarrow> supply_ok h \<longrightarrow> length t \<le> length (value_supply h) \<longrightarrow>
     (\<exists>b' v' h'. value_encode_loop fmt pretty ascii (enc ENCODE_VALUE_START v stack b h) =
         value_encode_loop fmt pretty ascii (enc ENCODE_VALUE_END v' stack b' h') \<and>
       buffer_holds b' (bs @ t) \<and> value_blocks h' = value_blocks h \<and> supply_ok h' \<and>
       length (value_supply h) \<le> length (value_supply h') + length t))"

lemma encode_started:
  assumes "owns (value_blocks h) v j A"
  shows "value_encode_loop fmt pretty ascii (enc ENCODE_VALUE_START v stack b h) =
    value_encode_loop fmt pretty ascii (enc (encode_start (json_type j)) v stack b h)"
  by (rule encode_loop_step) (use owns_type [OF assms] in \<open>simp_all add: value_encode_step_def Let_def\<close>)

text \<open>A scalar takes two steps.\<close>

lemma writes_scalar:
  assumes st: "encode_start (json_type j) = st" "st \<in> {ENCODE_NULL, ENCODE_BOOL, ENCODE_NUMBER, ENCODE_STRING}"
    and w: "\<And>h v A stack b bs. owns (value_blocks h) v j A \<Longrightarrow> buffer_holds b bs \<Longrightarrow> length bs + length t \<le> buffer_limit \<Longrightarrow>
      \<exists>b'. value_encode_step fmt pretty ascii (enc st v stack b h) = Some (enc ENCODE_VALUE_END v stack b' h) \<and> buffer_holds b' (bs @ t)"
  shows "writes fmt pretty ascii n j t"
  unfolding writes_def
proof (intro allI impI)
  fix v A stack b bs and h :: "'a value_heap"
  assume h: "owns (value_blocks h) v j A" "buffer_holds b bs" "length bs + length t < 2 ^ 59" "supply_ok h"
  have lim: "length bs + length t \<le> buffer_limit" using h(3) by (simp add: buffer_limit_def)
  obtain b' where b': "value_encode_step fmt pretty ascii (enc st v stack b h) = Some (enc ENCODE_VALUE_END v stack b' h)"
    "buffer_holds b' (bs @ t)"
    using w [OF h(1,2) lim] by blast
  have "value_encode_loop fmt pretty ascii (enc ENCODE_VALUE_START v stack b h) =
      value_encode_loop fmt pretty ascii (enc ENCODE_VALUE_END v stack b' h)"
    unfolding encode_started [OF h(1)] st(1) by (rule encode_loop_step [OF _ _ b'(1)]) (use st(2) in auto)
  then show "\<exists>b' v' h'. value_encode_loop fmt pretty ascii (enc ENCODE_VALUE_START v stack b h) =
         value_encode_loop fmt pretty ascii (enc ENCODE_VALUE_END v' stack b' h') \<and>
       buffer_holds b' (bs @ t) \<and> value_blocks h' = value_blocks h \<and> supply_ok h' \<and>
       length (value_supply h) \<le> length (value_supply h') + length t"
    using b'(2) h(4) by (intro exI [of _ b'] exI [of _ v] exI [of _ h]) simp
qed

lemma writes_null: "writes fmt pretty ascii n JNull [110, 117, 108, 108]"
proof (rule writes_scalar [where st = ENCODE_NULL])
  fix v A stack b bs and h :: "'a value_heap"
  assume h: "buffer_holds b bs" "length bs + length [110 :: byte, 117, 108, 108] \<le> buffer_limit"
  then obtain b' where "buffer_append b (literal ''null'') = Some b'" "buffer_holds b' (bs @ [110, 117, 108, 108])"
    using append_literal [OF h(1), of "''null''"] by auto
  then show "\<exists>b'. value_encode_step fmt pretty ascii (enc ENCODE_NULL v stack b h) = Some (enc ENCODE_VALUE_END v stack b' h) \<and>
      buffer_holds b' (bs @ [110, 117, 108, 108])"
    by (auto simp: value_encode_step_def Let_def encode_scalar_def)
qed (simp_all add: json_type_def encode_start_def)

lemma owns_scalar:
  assumes "owns (value_blocks h) v j A"
  shows "j = JBool x \<Longrightarrow> value_bool_get v h = Some x"
    "j = JNumber y \<Longrightarrow> value_number_get v h = Some y"
    "j = JString k \<Longrightarrow> \<exists>str. value_string_get v h = Some str \<and> data_bytes str = Some k"
proof -
  assume j: "j = JBool x"
  obtain c ps B where c: "value_blocks h v = Some \<lparr>value_refs = 1, value_of = c\<rparr>" "v \<noteq> value_undefined" "v \<noteq> value_null"
    "contents c ps j" by (rule owns_blockE [OF assms]) (use j in auto)
  then show "value_bool_get v h = Some x" using value_get_block(6) [OF c(1-3)] j by (cases c) auto
next
  assume j: "j = JNumber y"
  obtain c ps B where c: "value_blocks h v = Some \<lparr>value_refs = 1, value_of = c\<rparr>" "v \<noteq> value_undefined" "v \<noteq> value_null"
    "contents c ps j" by (rule owns_blockE [OF assms]) (use j in auto)
  then have "c = Number_value y" using j by (cases c) auto
  then show "value_number_get v h = Some y" using value_number_get_block c(1-3) by blast
next
  assume j: "j = JString k"
  obtain x where x: "value_blocks h v = Some \<lparr>value_refs = 1, value_of = String_value x\<rparr>" "v \<noteq> value_undefined" "v \<noteq> value_null"
    "data_bytes x = Some k" by (rule owns_stringE [OF assms [unfolded j]])
  then show "\<exists>str. value_string_get v h = Some str \<and> data_bytes str = Some k" using value_get_block(3) [OF x(1-3) refl] by auto
qed


lemma writes_bool: "writes fmt pretty ascii n (JBool x) (if x then [116, 114, 117, 101] else [102, 97, 108, 115, 101])"
proof (rule writes_scalar [where st = ENCODE_BOOL])
  fix v A stack b bs and h :: "'a value_heap"
  let ?s = "if x then ''true'' else ''false''"
  have t: "map of_char ?s = (if x then [116, 114, 117, 101] else [102, 97, 108, 115, 101] :: byte list)" by simp
  assume h: "owns (value_blocks h) v (JBool x) A" "buffer_holds b bs"
    "length bs + length (if x then [116, 114, 117, 101] else [102, 97, 108, 115, 101] :: byte list) \<le> buffer_limit"
  then obtain b' where "buffer_append b (literal ?s) = Some b'" "buffer_holds b' (bs @ map of_char ?s)"
    using append_literal [OF h(2), of ?s] by (cases x) auto
  then show "\<exists>b'. value_encode_step fmt pretty ascii (enc ENCODE_BOOL v stack b h) = Some (enc ENCODE_VALUE_END v stack b' h) \<and>
      buffer_holds b' (bs @ (if x then [116, 114, 117, 101] else [102, 97, 108, 115, 101]))"
    using owns_scalar(1) [OF h(1) refl] unfolding t by (auto simp: value_encode_step_def Let_def encode_scalar_def)
qed (simp_all add: json_type_def encode_start_def)

lemma writes_number: "writes fmt pretty ascii n (JNumber x) (take 63 (sprint_number fmt x))"
proof (rule writes_scalar [where st = ENCODE_NUMBER])
  fix v A stack b bs and h :: "'a value_heap"
  assume h: "owns (value_blocks h) v (JNumber x) A" "buffer_holds b bs"
    "length bs + length (take 63 (sprint_number fmt x)) \<le> buffer_limit"
  obtain b' where "buffer_append b (data_literal (take 63 (sprint_number fmt x))) = Some b'"
    "buffer_holds b' (bs @ take 63 (sprint_number fmt x))"
    using append_bytes [OF h(2,3)] by blast
  then show "\<exists>b'. value_encode_step fmt pretty ascii (enc ENCODE_NUMBER v stack b h) = Some (enc ENCODE_VALUE_END v stack b' h) \<and>
      buffer_holds b' (bs @ take 63 (sprint_number fmt x))"
    using owns_scalar(2) [OF h(1) refl]
    by (auto simp: value_encode_step_def Let_def encode_scalar_def value_buffer_encode_number_def)
qed (simp_all add: json_type_def encode_start_def)

lemma writes_string:
  assumes "literal_text ascii k t"
  shows "writes fmt pretty ascii n (JString k) t"
proof (rule writes_scalar [where st = ENCODE_STRING])
  fix v A stack b bs and h :: "'a value_heap"
  assume h: "owns (value_blocks h) v (JString k) A" "buffer_holds b bs" "length bs + length t \<le> buffer_limit"
  obtain str where str: "value_string_get v h = Some str" "data_bytes str = Some k" using owns_scalar(3) [OF h(1) refl] by blast
  obtain b' where "value_buffer_encode_string b str ascii = Some b'" "buffer_holds b' (bs @ t)"
    using encode_string_holds [OF h(2) str(2) assms h(3)] by blast
  then show "\<exists>b'. value_encode_step fmt pretty ascii (enc ENCODE_STRING v stack b h) = Some (enc ENCODE_VALUE_END v stack b' h) \<and>
      buffer_holds b' (bs @ t)"
    using str(1) by (auto simp: value_encode_step_def Let_def encode_scalar_def)
qed (simp_all add: json_type_def encode_start_def)

section \<open>Arrays\<close>

lemma owns_array:
  assumes "owns (value_blocks h) a (JArray js) A"
  shows "value_array_length a h = Some (of_nat (length js))" "length js < 2 ^ 64"
    "i < length js \<Longrightarrow> \<exists>v B. value_array_get a (of_nat i) h = Some v \<and> owns (value_blocks h) v (js ! i) B"
proof -
  obtain x ps B where x: "value_blocks h a = Some \<lparr>value_refs = 1, value_of = x\<rparr>" "a \<noteq> value_undefined" "a \<noteq> value_null"
    "contents x ps (JArray js)" "owns_all (value_blocks h) ps B" by (rule owns_blockE [OF assms]) auto
  then obtain vec where vec: "x = Array_value vec" "vector_holds vec (map (word_cells \<circ> fst) ps)" "js = map snd ps"
    by (cases x) auto
  have size: "unat (vector_size vec) = length js" using vector_holds_sizes(2) [OF vec(2)] vec(3) by simp
  show len: "length js < 2 ^ 64" using unat_lt64 [of "vector_size vec"] by (simp add: size)
  show "value_array_length a h = Some (of_nat (length js))"
    using value_get_block(4) [OF x(1-3) vec(1)] arg_cong [OF size, of "of_nat :: nat \<Rightarrow> size_t"] by simp
  assume i: "i < length js"
  then have "unat (of_nat i :: size_t) = i" using len by (simp add: unat_of_nat64)
  then have "vector_object vec (vector_at vec (of_nat i)) = Some (word_cells (fst (ps ! i)))"
    using vector_object_at [OF vec(2), of "of_nat i"] i vec(3) by simp
  then have "value_array_get a (of_nat i) h = Some (fst (ps ! i))"
    using value_get_block(1) [OF x(1-3) vec(1)] by (simp add: value_array_get_def)
  moreover obtain C where "owns (value_blocks h) (fst (ps ! i)) (snd (ps ! i)) C"
    using x(5) id_take_nth_drop [of i ps] i vec(3) by (metis length_map owns_all_append_iff owns_all_Cons_iff prod.collapse)
  ultimately show "\<exists>v B. value_array_get a (of_nat i) h = Some v \<and> owns (value_blocks h) v (js ! i) B"
    using i vec(3) by auto
qed

lemma of_nat64_eq: "i < 2 ^ 64 \<Longrightarrow> k < 2 ^ 64 \<Longrightarrow> (of_nat i :: size_t) = of_nat k \<longleftrightarrow> i = k"
  by (simp add: word_unat_eq_iff unat_of_nat64)

lemma encode_separate_holds:
  assumes "buffer_holds b bs" "i < 2 ^ 64" "length bs + length ((if i \<noteq> 0 then [44] else []) @ text_line pretty n) \<le> buffer_limit"
  shows "\<exists>b'. encode_separate pretty (ctx_at a keys i) n b = Some b' \<and>
    buffer_holds b' (bs @ (if i \<noteq> 0 then [44] else []) @ text_line pretty n)"
proof -
  have i: "(of_nat i :: size_t) = 0 \<longleftrightarrow> i = 0" using assms(2) by (simp add: word_unat_eq_iff unat_of_nat64)
  obtain b1 where b1: "(if i \<noteq> 0 then buffer_append b (literal '','') else Some b) = Some b1"
    "buffer_holds b1 (bs @ (if i \<noteq> 0 then [44] else []))"
    using append_literal [OF assms(1), of "'',''"] assms(1,3) by (cases "i = 0") auto
  show ?thesis
  proof (cases pretty)
    case True
    then obtain b2 where "encode_line b1 n = Some b2" "buffer_holds b2 ((bs @ (if i \<noteq> 0 then [44] else [])) @ text_line True n)"
      using encode_line_holds [OF b1(2), of n] assms(3) by (auto simp: text_line_def)
    then show ?thesis using b1(1) True i by (simp add: encode_separate_def)
  next
    case False
    then show ?thesis using b1 i by (simp add: encode_separate_def text_line_def)
  qed
qed

lemma encode_close_holds:
  assumes "buffer_holds b bs" "i < 2 ^ 64" "length stack = n"
    "length bs + length ((if i = 0 then [] else text_line pretty n) @ map of_char bracket :: byte list) \<le> buffer_limit"
    "value_release keys h = Some h'"
  shows "\<exists>b'. encode_close pretty bracket (ctx_at a keys i) stack (enc st v (c # stack) b h) =
      Some (enc ENCODE_VALUE_END v stack b' h') \<and> buffer_holds b' (bs @ (if i = 0 then [] else text_line pretty n) @ map of_char bracket)"
proof -
  have i: "(of_nat i :: size_t) = 0 \<longleftrightarrow> i = 0" using assms(2) by (simp add: word_unat_eq_iff unat_of_nat64)
  have "\<exists>b1. (if pretty \<and> i \<noteq> 0 then encode_line b n else Some b) = Some b1 \<and>
      buffer_holds b1 (bs @ (if i = 0 then [] else text_line pretty n))"
    using encode_line_holds [OF assms(1), of n] assms(1,4) by (cases "pretty \<and> i \<noteq> 0") (auto simp: text_line_def)
  then obtain b1 where b1: "(if pretty \<and> i \<noteq> 0 then encode_line b n else Some b) = Some b1"
    "buffer_holds b1 (bs @ (if i = 0 then [] else text_line pretty n))" by blast
  obtain b2 where "buffer_append b1 (literal bracket) = Some b2"
    "buffer_holds b2 ((bs @ (if i = 0 then [] else text_line pretty n)) @ map of_char bracket)"
    using append_literal [OF b1(2), of bracket] assms(4) by auto
  then show ?thesis using b1(1) assms(3,5) i by (cases "i = 0"; cases pretty) (auto simp: encode_close_def)
qed


definition writes_elements :: "'n::zero number_format \<Rightarrow> bool \<Rightarrow> bool \<Rightarrow> bool \<Rightarrow> nat \<Rightarrow> 'n json list \<Rightarrow> byte list \<Rightarrow> bool" where
  "writes_elements fmt pretty ascii sep n js t \<longleftrightarrow> (\<forall>v a A old rest b bs h. n = Suc (length rest) \<longrightarrow>
     owns (value_blocks h) a (JArray (old @ js)) A \<longrightarrow> sep = (old \<noteq> []) \<longrightarrow> buffer_holds b bs \<longrightarrow>
     length bs + length t < 2 ^ 59 \<longrightarrow> supply_ok h \<longrightarrow> length t \<le> length (value_supply h) \<longrightarrow>
     (\<exists>b' v' h'. value_encode_loop fmt pretty ascii (enc ENCODE_ARRAY_REST v (ctx_at a 0 (length old) # rest) b h) =
         value_encode_loop fmt pretty ascii (enc ENCODE_ARRAY_REST v' (ctx_at a 0 (length (old @ js)) # rest) b' h') \<and>
       buffer_holds b' (bs @ t) \<and> value_blocks h' = value_blocks h \<and> supply_ok h' \<and>
       length (value_supply h) \<le> length (value_supply h') + length t))"

lemma writes_elements_next:
  assumes j: "writes fmt pretty ascii n j t" and js: "writes_elements fmt pretty ascii True n js u"
  shows "writes_elements fmt pretty ascii sep n (j # js) ((if sep then [44] else []) @ text_line pretty n @ t @ u)"
  unfolding writes_elements_def
proof (intro allI impI)
  fix v a A old b bs and h :: "'a value_heap" and rest :: "encode_context list"
  let ?pre = "(if sep then [44] else []) @ text_line pretty n"
  assume h: "n = Suc (length rest)" "owns (value_blocks h) a (JArray (old @ j # js)) A" "sep = (old \<noteq> [])" "buffer_holds b bs"
    "length bs + length ((if sep then [44] else []) @ text_line pretty n @ t @ u) < 2 ^ 59" "supply_ok h"
    "length ((if sep then [44] else []) @ text_line pretty n @ t @ u) \<le> length (value_supply h)"
  let ?stack = "ctx_at a 0 (length old) # rest"
  have len: "length (bs @ ?pre) + length t < 2 ^ 59" "length (bs @ ?pre @ t) + length u < 2 ^ 59" "length t \<le> length (value_supply h)"
    using h(5,7) by simp_all
  note arr = owns_array [OF h(2)]
  have old: "length old < 2 ^ 64" using arr(2) by simp
  have more: "(of_nat (length old) :: size_t) \<noteq> of_nat (length (old @ j # js))"
    using of_nat64_eq [OF old arr(2)] by simp
  obtain w B where w: "value_array_get a (of_nat (length old)) h = Some w" "owns (value_blocks h) w j B"
    using arr(3) [of "length old"] by auto
  obtain b1 where b1: "encode_separate pretty (ctx_at a 0 (length old)) n b = Some b1" "buffer_holds b1 (bs @ ?pre)"
    using encode_separate_holds [OF h(4) old, of pretty n a 0] h(3) len(1) by (auto simp: buffer_limit_def)
  have "value_encode_loop fmt pretty ascii (enc ENCODE_ARRAY_REST v ?stack b h) =
      value_encode_loop fmt pretty ascii (enc ENCODE_VALUE_START w (ctx_at a 0 (Suc (length old)) # rest) b1 h)"
    using arr(1) more b1(1) w(1) h(1)
    by (intro encode_loop_step) (simp_all add: value_encode_step_def Let_def encode_array_rest_def)
  also obtain b2 v2 h2 where 2: "value_encode_loop fmt pretty ascii (enc ENCODE_VALUE_START w (ctx_at a 0 (Suc (length old)) # rest) b1 h) =
         value_encode_loop fmt pretty ascii (enc ENCODE_VALUE_END v2 (ctx_at a 0 (Suc (length old)) # rest) b2 h2)"
       "buffer_holds b2 ((bs @ ?pre) @ t)" "value_blocks h2 = value_blocks h" "supply_ok h2"
       "length (value_supply h) \<le> length (value_supply h2) + length t"
    using j w(2) b1(2) len(1,3) h(1,6) unfolding writes_def by (metis length_Cons)
  note 2(1)
  also have "value_encode_loop fmt pretty ascii (enc ENCODE_VALUE_END v2 (ctx_at a 0 (Suc (length old)) # rest) b2 h2) =
      value_encode_loop fmt pretty ascii (enc ENCODE_ARRAY_REST v2 (ctx_at a 0 (Suc (length old)) # rest) b2 h2)"
    by (rule encode_loop_step) (simp_all add: value_encode_step_def Let_def)
  also obtain b' v' h' where 3: "value_encode_loop fmt pretty ascii (enc ENCODE_ARRAY_REST v2 (ctx_at a 0 (length (old @ [j])) # rest) b2 h2) =
         value_encode_loop fmt pretty ascii (enc ENCODE_ARRAY_REST v' (ctx_at a 0 (length ((old @ [j]) @ js)) # rest) b' h')"
       "buffer_holds b' ((bs @ ?pre @ t) @ u)" "value_blocks h' = value_blocks h2" "supply_ok h'"
       "length (value_supply h2) \<le> length (value_supply h') + length u"
  proof -
    have "owns (value_blocks h2) a (JArray ((old @ [j]) @ js)) A" "True = (old @ [j] \<noteq> [])" "buffer_holds b2 (bs @ ?pre @ t)"
      "length u \<le> length (value_supply h2)"
      using h(2,7) 2(2,3,5) by simp_all
    then show ?thesis using js h(1) len(2) 2(4) that unfolding writes_elements_def by blast
  qed
  note 3(1) [simplified]
  finally show "\<exists>b' v' h'. value_encode_loop fmt pretty ascii (enc ENCODE_ARRAY_REST v ?stack b h) =
         value_encode_loop fmt pretty ascii (enc ENCODE_ARRAY_REST v' (ctx_at a 0 (length (old @ j # js)) # rest) b' h') \<and>
       buffer_holds b' (bs @ (if sep then [44] else []) @ text_line pretty n @ t @ u) \<and> value_blocks h' = value_blocks h \<and> supply_ok h' \<and>
       length (value_supply h) \<le> length (value_supply h') + length ((if sep then [44] else []) @ text_line pretty n @ t @ u)"
    using 2(3,5) 3(2-5) by (intro exI [of _ b'] exI [of _ v'] exI [of _ h']) simp
qed

lemma writes_array:
  assumes "writes_elements fmt pretty ascii False (Suc n) js t"
  shows "writes fmt pretty ascii n (JArray js) (91 # t @ (if js = [] then [] else text_line pretty n) @ [93])"
  unfolding writes_def
proof (intro allI impI)
  fix v A b bs and h :: "'a value_heap" and stack :: "encode_context list"
  let ?post = "(if js = [] then [] else text_line pretty n) @ [93]"
  assume h: "length stack = n" "owns (value_blocks h) v (JArray js) A" "buffer_holds b bs"
    "length bs + length (91 # t @ ?post) < 2 ^ 59" "supply_ok h" "length (91 # t @ ?post) \<le> length (value_supply h)"
  have len: "length (bs @ [91]) + length t < 2 ^ 59" "length t \<le> length (value_supply h)" using h(4,6) by simp_all
  obtain b1 where b1: "buffer_append b (literal ''['') = Some b1" "buffer_holds b1 (bs @ [91])"
    using append_literal [OF h(3), of "''[''"] h(4) by (auto simp: buffer_limit_def)
  have "value_encode_loop fmt pretty ascii (enc ENCODE_VALUE_START v stack b h) =
      value_encode_loop fmt pretty ascii (enc ENCODE_ARRAY_FIRST v stack b h)"
    using encode_started [OF h(2)] by (simp add: json_type_def encode_start_def)
  also have "\<dots> = value_encode_loop fmt pretty ascii (enc ENCODE_ARRAY_REST v (ctx_at v 0 0 # stack) b1 h)"
    using b1(1) by (intro encode_loop_step) (simp_all add: value_encode_step_def Let_def encode_open_def ctx_at_def value_undefined_def)
  also obtain b2 v2 h2 where 2: "value_encode_loop fmt pretty ascii (enc ENCODE_ARRAY_REST v (ctx_at v 0 (length ([] :: 'a json list)) # stack) b1 h) =
         value_encode_loop fmt pretty ascii (enc ENCODE_ARRAY_REST v2 (ctx_at v 0 (length ([] @ js)) # stack) b2 h2)"
       "buffer_holds b2 ((bs @ [91]) @ t)" "value_blocks h2 = value_blocks h" "supply_ok h2"
       "length (value_supply h) \<le> length (value_supply h2) + length t"
  proof -
    have "Suc n = Suc (length stack)" "owns (value_blocks h) v (JArray ([] @ js)) A" "False = ([] \<noteq> ([] :: 'a json list))"
      using h(1,2) by simp_all
    then show ?thesis using assms b1(2) len h(5) that unfolding writes_elements_def by blast
  qed
  note 2(1) [simplified]
  have own2: "owns (value_blocks h2) v (JArray js) A" using h(2) 2(3) by simp
  note arr = owns_array [OF own2]
  have rel: "value_release 0 h2 = Some h2"
    using release_simps(2) [of "[]" h2] by (simp add: value_release_def value_undefined_def)
  obtain b3 where 3: "encode_close pretty '']'' (ctx_at v 0 (length js)) stack (enc ENCODE_ARRAY_REST v2 (ctx_at v 0 (length js) # stack) b2 h2) =
      Some (enc ENCODE_VALUE_END v2 stack b3 h2)" "buffer_holds b3 (((bs @ [91]) @ t) @ ?post)"
    using encode_close_holds [OF 2(2) arr(2) h(1) _ rel, of pretty "'']''" v ENCODE_ARRAY_REST v2 "ctx_at v 0 (length js)"] h(4)
    by (auto simp: buffer_limit_def)
  have "value_encode_loop fmt pretty ascii (enc ENCODE_ARRAY_REST v2 (ctx_at v 0 (length js) # stack) b2 h2) =
      value_encode_loop fmt pretty ascii (enc ENCODE_VALUE_END v2 stack b3 h2)"
    using arr(1) 3(1) by (intro encode_loop_step) (simp_all add: value_encode_step_def Let_def encode_array_rest_def)
  then show "\<exists>b' v' h'. value_encode_loop fmt pretty ascii (enc ENCODE_VALUE_START v stack b h) =
         value_encode_loop fmt pretty ascii (enc ENCODE_VALUE_END v' stack b' h') \<and>
       buffer_holds b' (bs @ 91 # t @ ?post) \<and> value_blocks h' = value_blocks h \<and> supply_ok h' \<and>
       length (value_supply h) \<le> length (value_supply h') + length (91 # t @ ?post)"
    using calculation 2 3(2) by (intro exI [of _ b3] exI [of _ v2] exI [of _ h2]) simp
qed


section \<open>Objects\<close>

lemma owns_member:
  assumes own: "owns (value_blocks h) a (JObject ms) A" and mem: "(k, j) \<in> set ms" and key: "data_bytes key = Some k"
  shows "\<exists>v B. value_object_get a key h = Some v \<and> owns (value_blocks h) v j B"
proof -
  obtain m kps B where o: "value_blocks h a = Some \<lparr>value_refs = 1, value_of = Object_value m\<rparr>" "a \<noteq> value_undefined"
    "a \<noteq> value_null" "mapd_inv m" "ascending kps" "mapd_lookup m = map_of (map (\<lambda>(k, p). (k, fst p)) kps)"
    "ms = map (\<lambda>(k, p). (k, snd p)) kps" "owns_all (value_blocks h) (map snd kps) B"
    by (rule owns_objectE [OF own]) (rule that, assumption+)
  obtain v where v: "(k, v, j) \<in> set kps" using mem by (auto simp: o(7))
  then have "map_of kps k = Some (v, j)" using ascending_distinct [OF o(5)] by simp
  then have "mapd_at m k = Some v" using mapd_at_spec [OF o(4), of k] fun_cong [OF o(6), of k] by (simp add: map_of_members)
  then have "value_object_get a key h = Some v"
    using value_get_block(2) [OF o(1-3) refl] key by (simp add: value_object_get_def)
  moreover obtain C where "owns (value_blocks h) v j C"
    using o(8) split_list [OF v] by (auto simp: owns_all_append_iff owns_all_Cons_iff)
  ultimately show ?thesis by blast
qed

text \<open>The blocks for the keys are already there; every member has at least a character for its key.\<close>

definition writes_members ::
    "'n::zero number_format \<Rightarrow> bool \<Rightarrow> bool \<Rightarrow> bool \<Rightarrow> nat \<Rightarrow> (byte list \<times> 'n json) list \<Rightarrow> byte list \<Rightarrow> bool" where
  "writes_members fmt pretty ascii sep n ms t \<longleftrightarrow> (\<forall>v a A ka K old rest b bs h. n = Suc (length rest) \<longrightarrow>
     owns (value_blocks h) a (JObject (old @ ms)) A \<longrightarrow> owns (value_blocks h) ka (JArray (map (JString \<circ> fst) (old @ ms))) K \<longrightarrow>
     sep = (old \<noteq> []) \<longrightarrow> buffer_holds b bs \<longrightarrow>
     length bs + length t < 2 ^ 59 \<longrightarrow> supply_ok h \<longrightarrow> length t \<le> length (value_supply h) + length ms \<longrightarrow>
     (\<exists>b' v' h'. value_encode_loop fmt pretty ascii (enc ENCODE_OBJECT_REST v (ctx_at a ka (length old) # rest) b h) =
         value_encode_loop fmt pretty ascii (enc ENCODE_OBJECT_REST v' (ctx_at a ka (length (old @ ms)) # rest) b' h') \<and>
       buffer_holds b' (bs @ t) \<and> value_blocks h' = value_blocks h \<and> supply_ok h' \<and>
       length (value_supply h) + length ms \<le> length (value_supply h') + length t))"

lemma writes_members_next:
  assumes k: "literal_text ascii k s" and j: "writes fmt pretty ascii n j t" and ms: "writes_members fmt pretty ascii True n ms u"
    and size: "length ms \<le> length u"
  shows "writes_members fmt pretty ascii sep n ((k, j) # ms)
    ((if sep then [44] else []) @ text_line pretty n @ s @ (if pretty then [58, 32] else [58]) @ t @ u)"
  unfolding writes_members_def
proof (intro allI impI)
  fix v a A ka K old b bs and h :: "'a value_heap" and rest :: "encode_context list"
  let ?pre = "(if sep then [44] else []) @ text_line pretty n" and ?colon = "if pretty then [58, 32] else [58] :: byte list"
  assume h: "n = Suc (length rest)" "owns (value_blocks h) a (JObject (old @ (k, j) # ms)) A"
    "owns (value_blocks h) ka (JArray (map (JString \<circ> fst) (old @ (k, j) # ms))) K" "sep = (old \<noteq> [])" "buffer_holds b bs"
    "length bs + length ((if sep then [44] else []) @ text_line pretty n @ s @ ?colon @ t @ u) < 2 ^ 59" "supply_ok h"
    "length ((if sep then [44] else []) @ text_line pretty n @ s @ ?colon @ t @ u) \<le> length (value_supply h) + length ((k, j) # ms)"
  let ?stack = "ctx_at a ka (length old) # rest" and ?stack' = "ctx_at a ka (Suc (length old)) # rest"
  have sl: "2 \<le> length s" using k by (auto simp: literal_text_def)
  have len: "length (bs @ ?pre @ s @ ?colon) + length t < 2 ^ 59" "length (bs @ ?pre @ s @ ?colon @ t) + length u < 2 ^ 59"
    "length t \<le> length (value_supply h)"
    using h(6,8) sl size by simp_all
  note arr = owns_array [OF h(3)]
  have old: "length old < 2 ^ 64" "length (old @ (k, j) # ms) < 2 ^ 64" using arr(2) by simp_all
  have more: "(of_nat (length old) :: size_t) \<noteq> of_nat (length (old @ (k, j) # ms))" using of_nat64_eq [OF old] by simp
  obtain kv C where kv: "value_array_get ka (of_nat (length old)) h = Some kv" "owns (value_blocks h) kv (JString k) C"
    using arr(3) [of "length old"] by (auto simp: nth_append)
  obtain key where key: "value_string_get kv h = Some key" "data_bytes key = Some k" using owns_scalar(3) [OF kv(2) refl] by blast
  obtain w B where w: "value_object_get a key h = Some w" "owns (value_blocks h) w j B"
    using owns_member [OF h(2) _ key(2), of j] by auto
  obtain b1 where b1: "encode_separate pretty (ctx_at a ka (length old)) n b = Some b1" "buffer_holds b1 (bs @ ?pre)"
    using encode_separate_holds [OF h(5) old(1), of pretty n a ka] h(4) len(1) by (auto simp: buffer_limit_def)
  obtain b2 where b2: "value_buffer_encode_string b1 key ascii = Some b2" "buffer_holds b2 ((bs @ ?pre) @ s)"
    using encode_string_holds [OF b1(2) key(2) k] len(1) by (auto simp: buffer_limit_def)
  obtain b3 where b3: "buffer_append b2 (literal (if pretty then '': '' else '':'')) = Some b3"
    "buffer_holds b3 (((bs @ ?pre) @ s) @ map of_char (if pretty then '': '' else '':''))"
    using append_literal [OF b2(2), of "if pretty then '': '' else '':''"] len(1) by (cases pretty) (auto simp: buffer_limit_def)
  have b3': "buffer_holds b3 (bs @ ?pre @ s @ ?colon)" using b3(2) by (cases pretty) simp_all
  have "value_encode_loop fmt pretty ascii (enc ENCODE_OBJECT_REST v ?stack b h) =
      value_encode_loop fmt pretty ascii (enc ENCODE_VALUE_START w ?stack' b3 h)"
    using arr(1) more b1(1) b2(1) b3(1) kv(1) key(1) w(1) h(1)
    by (intro encode_loop_step) (simp_all add: value_encode_step_def Let_def encode_object_rest_def)
  also obtain b4 v4 h4 where 4: "value_encode_loop fmt pretty ascii (enc ENCODE_VALUE_START w ?stack' b3 h) =
         value_encode_loop fmt pretty ascii (enc ENCODE_VALUE_END v4 ?stack' b4 h4)"
       "buffer_holds b4 ((bs @ ?pre @ s @ ?colon) @ t)" "value_blocks h4 = value_blocks h" "supply_ok h4"
       "length (value_supply h) \<le> length (value_supply h4) + length t"
    using j w(2) b3' len(1,3) h(1,7) unfolding writes_def by (metis length_Cons)
  note 4(1)
  also have "value_encode_loop fmt pretty ascii (enc ENCODE_VALUE_END v4 ?stack' b4 h4) =
      value_encode_loop fmt pretty ascii (enc ENCODE_OBJECT_REST v4 ?stack' b4 h4)"
  proof (rule encode_loop_step)
    have "ka \<noteq> 0" using owns_not_undefined [OF h(3)] by (simp add: value_undefined_def)
    then show "value_encode_step fmt pretty ascii (enc ENCODE_VALUE_END v4 ?stack' b4 h4) = Some (enc ENCODE_OBJECT_REST v4 ?stack' b4 h4)"
      by (simp add: value_encode_step_def Let_def)
  qed simp_all
  also obtain b' v' h' where 5: "value_encode_loop fmt pretty ascii (enc ENCODE_OBJECT_REST v4 (ctx_at a ka (length (old @ [(k, j)])) # rest) b4 h4) =
         value_encode_loop fmt pretty ascii (enc ENCODE_OBJECT_REST v' (ctx_at a ka (length ((old @ [(k, j)]) @ ms)) # rest) b' h')"
       "buffer_holds b' ((bs @ ?pre @ s @ ?colon @ t) @ u)" "value_blocks h' = value_blocks h4" "supply_ok h'"
       "length (value_supply h4) + length ms \<le> length (value_supply h') + length u"
  proof -
    have "owns (value_blocks h4) a (JObject ((old @ [(k, j)]) @ ms)) A"
      "owns (value_blocks h4) ka (JArray (map (JString \<circ> fst) ((old @ [(k, j)]) @ ms))) K"
      "True = (old @ [(k, j)] \<noteq> [])" "buffer_holds b4 (bs @ ?pre @ s @ ?colon @ t)" "length u \<le> length (value_supply h4) + length ms"
      using h(2,3,8) 4(2,3,5) sl by simp_all
    then show ?thesis using ms h(1) len(2) 4(4) that unfolding writes_members_def by blast
  qed
  note 5(1) [simplified]
  finally show "\<exists>b' v' h'. value_encode_loop fmt pretty ascii (enc ENCODE_OBJECT_REST v ?stack b h) =
         value_encode_loop fmt pretty ascii (enc ENCODE_OBJECT_REST v' (ctx_at a ka (length (old @ (k, j) # ms)) # rest) b' h') \<and>
       buffer_holds b' (bs @ (if sep then [44] else []) @ text_line pretty n @ s @ ?colon @ t @ u) \<and>
       value_blocks h' = value_blocks h \<and> supply_ok h' \<and>
       length (value_supply h) + length ((k, j) # ms) \<le> length (value_supply h') + length ((if sep then [44] else []) @ text_line pretty n @ s @ ?colon @ t @ u)"
    using 4(3,5) 5(2-5) sl by (intro exI [of _ b'] exI [of _ v'] exI [of _ h']) simp
qed

lemma reread_False [simp]: "map (reread False) cs = cs"
  by (simp add: reread_def map_idI)

lemma members_length:
  "prints_members fmt pretty ascii sep n ms t \<Longrightarrow> length ms \<le> length t \<and> (\<forall>k\<in>fst ` set ms. length k \<le> 4 * length t)"
proof (induction sep n ms t rule: prints_prints_elements_prints_members.inducts(3) [where ?P1.0 = "\<lambda>_ _ _. True" and ?P2.0 = "\<lambda>_ _ _ _. True"])
  case (members_next k s n j t ms u sep)
  obtain cs where "k = utf8_string cs" "s = 34 # escape_string ascii cs @ [34]" using members_next(1) by (auto simp: literal_text_def)
  then have "length k \<le> 4 * length s" using reread_length [of False cs] escape_length [of cs ascii] by simp
  then show ?case using members_next(5) by auto
qed auto

lemma writes_object:
  assumes ms: "writes_members fmt pretty ascii False (Suc n) ms t"
    and size: "length ms \<le> length t" "\<forall>k\<in>fst ` set ms. length k \<le> 4 * length t"
  shows "writes fmt pretty ascii n (JObject ms) (123 # t @ (if ms = [] then [] else text_line pretty n) @ [125])"
  unfolding writes_def
proof (intro allI impI)
  fix v A b bs and h :: "'a value_heap" and stack :: "encode_context list"
  let ?post = "(if ms = [] then [] else text_line pretty n) @ [125]"
  assume h: "length stack = n" "owns (value_blocks h) v (JObject ms) A" "buffer_holds b bs"
    "length bs + length (123 # t @ ?post) < 2 ^ 59" "supply_ok h" "length (123 # t @ ?post) \<le> length (value_supply h)"
  have len: "length (bs @ [123]) + length t < 2 ^ 59" "length ms < length (value_supply h)" "length ms < 2 ^ 59" using h(4,6) size(1) by simp_all
  have "\<forall>k\<in>fst ` set ms. length k < 2 ^ 64" using size(2) h(4) by fastforce
  then obtain ka h1 K where ka: "value_object_keys v h = Some (ka, h1)"
    "owns (value_blocks h1) ka (JArray (map (JString \<circ> fst) ms)) K" "grown h h1 K" "supply_ok h1"
    "length (value_supply h) = length (value_supply h1) + length ms + 1"
    by (rule object_keys_owned [OF h(2,5) len(2,3)])
  have "A \<inter> K = {}" using owns_dom(1) [OF h(2)] ka(3) by (auto simp: grown_def)
  then have own1: "owns (value_blocks h1) v (JObject ms) A" using owns_frame(1) [OF h(2), of "value_blocks h1"] ka(3) by (auto simp: grown_def)
  obtain b1 where b1: "buffer_append b (literal ''{'') = Some b1" "buffer_holds b1 (bs @ [123])"
    using append_literal [OF h(3), of "''{''"] h(4) by (auto simp: buffer_limit_def)
  have "value_encode_loop fmt pretty ascii (enc ENCODE_VALUE_START v stack b h) =
      value_encode_loop fmt pretty ascii (enc ENCODE_OBJECT_FIRST v stack b h)"
    using encode_started [OF h(2)] by (simp add: json_type_def encode_start_def)
  also have "\<dots> = value_encode_loop fmt pretty ascii (enc ENCODE_OBJECT_REST v (ctx_at v ka 0 # stack) b1 h1)"
    using b1(1) ka(1) by (intro encode_loop_step) (simp_all add: value_encode_step_def Let_def encode_open_def ctx_at_def)
  also obtain b2 v2 h2 where 2: "value_encode_loop fmt pretty ascii (enc ENCODE_OBJECT_REST v (ctx_at v ka (length ([] :: (byte list \<times> 'a json) list)) # stack) b1 h1) =
         value_encode_loop fmt pretty ascii (enc ENCODE_OBJECT_REST v2 (ctx_at v ka (length ([] @ ms)) # stack) b2 h2)"
       "buffer_holds b2 ((bs @ [123]) @ t)" "value_blocks h2 = value_blocks h1" "supply_ok h2"
       "length (value_supply h1) + length ms \<le> length (value_supply h2) + length t"
  proof -
    have "Suc n = Suc (length stack)" "owns (value_blocks h1) v (JObject ([] @ ms)) A"
      "owns (value_blocks h1) ka (JArray (map (JString \<circ> fst) ([] @ ms))) K" "False = ([] \<noteq> ([] :: (byte list \<times> 'a json) list))"
      "length t \<le> length (value_supply h1) + length ms"
      using h(1,6) own1 ka(2,5) by simp_all
    then show ?thesis using ms b1(2) len(1) ka(4) that unfolding writes_members_def by blast
  qed
  note 2(1) [simplified]
  have own2: "owns (value_blocks h2) ka (JArray (map (JString \<circ> fst) ms)) K" using ka(2) 2(3) by simp
  note arr = owns_array [OF own2, unfolded length_map]
  define h3 where "h3 = h2\<lparr>value_blocks := value_blocks h2 |` (- K)\<rparr>"
  have rel: "value_release ka h2 = Some h3"
    using release_owned [of h2 "[(ka, JArray (map (JString \<circ> fst) ms))]" K] own2 by (simp add: owns_all_single value_release_def h3_def)
  have blocks: "value_blocks h3 = value_blocks h"
    using ka(3) 2(3) by (auto simp: h3_def grown_def restrict_map_def fun_eq_iff)
  have ok: "supply_ok h3" by (rule supply_ok_shrink [OF 2(4)]) (simp_all add: h3_def restrict_map_def)
  obtain b3 where 3: "encode_close pretty ''}'' (ctx_at v ka (length ms)) stack (enc ENCODE_OBJECT_REST v2 (ctx_at v ka (length ms) # stack) b2 h2) =
      Some (enc ENCODE_VALUE_END v2 stack b3 h3)" "buffer_holds b3 (((bs @ [123]) @ t) @ ?post)"
    using encode_close_holds [OF 2(2) arr(2) h(1) _ rel, of pretty "''}''" v ENCODE_OBJECT_REST v2 "ctx_at v ka (length ms)"] h(4)
    by (auto simp: buffer_limit_def)
  have "value_encode_loop fmt pretty ascii (enc ENCODE_OBJECT_REST v2 (ctx_at v ka (length ms) # stack) b2 h2) =
      value_encode_loop fmt pretty ascii (enc ENCODE_VALUE_END v2 stack b3 h3)"
    using arr(1) 3(1) by (intro encode_loop_step) (simp_all add: value_encode_step_def Let_def encode_object_rest_def)
  then show "\<exists>b' v' h'. value_encode_loop fmt pretty ascii (enc ENCODE_VALUE_START v stack b h) =
         value_encode_loop fmt pretty ascii (enc ENCODE_VALUE_END v' stack b' h') \<and>
       buffer_holds b' (bs @ 123 # t @ ?post) \<and> value_blocks h' = value_blocks h \<and> supply_ok h' \<and>
       length (value_supply h) \<le> length (value_supply h') + length (123 # t @ ?post)"
    using calculation 2(1,5) ka(5) 3(2) blocks ok by (intro exI [of _ b3] exI [of _ v2] exI [of _ h3]) (simp add: h3_def)
qed

section \<open>All trees\<close>

lemma writes_none: "writes_elements fmt pretty ascii sep n [] []" "writes_members fmt pretty ascii sep n [] []"
  unfolding writes_elements_def writes_members_def by fastforce+

lemma writes_prints:
  "prints fmt pretty ascii n j t \<Longrightarrow> writes fmt pretty ascii n j t"
  "prints_elements fmt pretty ascii sep n js t \<Longrightarrow> writes_elements fmt pretty ascii sep n js t"
  "prints_members fmt pretty ascii sep n ms t \<Longrightarrow> writes_members fmt pretty ascii sep n ms t"
proof (induction rule: prints_prints_elements_prints_members.inducts)
  case (prints_object ms n t)
  then show ?case using writes_object members_length by blast
next
  case (members_next k s n j t ms u sep)
  then show ?case using writes_members_next members_length by blast
qed (rule writes_null writes_bool writes_number writes_string writes_array writes_none writes_elements_next; assumption)+

end
