(* ===== verification/Encode_Decode.thy ===== *)
theory Encode_Decode
  imports Encode_Correct
begin

text \<open>What the encoder writes is a JSON text, and the decoder gives the tree back.\<close>

section \<open>The text is JSON\<close>

text \<open>A number the C library prints and reads exactly, and a string that comes back with the option.\<close>

definition number_survives :: "'n number_format \<Rightarrow> 'n \<Rightarrow> bool" where
  "number_survives fmt x \<longleftrightarrow> (let t = take 63 (sprint_number fmt x) in number_text t \<and> strtold_reads fmt t x)"

definition string_survives :: "bool \<Rightarrow> byte list \<Rightarrow> bool" where
  "string_survives ascii bs \<longleftrightarrow> (\<forall>cs. scalars cs \<longrightarrow> bs = utf8_string cs \<longrightarrow> (\<forall>c\<in>set cs. reread ascii c = c))"

fun json_strings :: "'n json \<Rightarrow> byte list list" where
  "json_strings (JString bs) = [bs]"
| "json_strings (JArray js) = concat (map json_strings js)"
| "json_strings (JObject ms) = concat (map (\<lambda>(k, j). k # json_strings j) ms)"
| "json_strings _ = []"

definition survives :: "'n number_format \<Rightarrow> bool \<Rightarrow> 'n json \<Rightarrow> bool" where
  "survives fmt ascii j \<longleftrightarrow> (\<forall>x\<in>set_json j. number_survives fmt x) \<and> (\<forall>bs\<in>set (json_strings j). string_survives ascii bs)"

lemma survives_simps [simp]:
  "survives fmt ascii JNull"
  "survives fmt ascii (JBool b)"
  "survives fmt ascii (JNumber x) = number_survives fmt x"
  "survives fmt ascii (JString bs) = string_survives ascii bs"
  "survives fmt ascii (JArray js) = (\<forall>j\<in>set js. survives fmt ascii j)"
  "survives fmt ascii (JObject ms) = (\<forall>(k, j)\<in>set ms. string_survives ascii k \<and> survives fmt ascii j)"
  by (fastforce simp: survives_def)+

lemma text_spaces: "list_all whitespace w \<Longrightarrow> json_text fmt t j \<Longrightarrow> json_text fmt (w @ t) j"
  by (induction w) (auto intro: text_space)

lemma whitespace_line: "list_all whitespace (text_line pretty n)"
  by (auto simp: text_line_def whitespace_def list_all_iff)

lemma literal_string: "literal_text ascii bs t \<Longrightarrow> string_survives ascii bs \<Longrightarrow> string_text t bs"
proof -
  assume "literal_text ascii bs t" "string_survives ascii bs"
  then obtain cs where cs: "scalars cs" "bs = utf8_string cs" "t = 34 # escape_string ascii cs @ [34]" "\<forall>c\<in>set cs. reread ascii c = c"
    by (auto simp: literal_text_def string_survives_def)
  then have "map (reread ascii) cs = cs" by (simp add: map_idI)
  then show ?thesis using cs unfolding string_text_def by (intro exI [of _ ascii] exI [of _ cs]) simp
qed

lemma put_member_last: "\<forall>k'\<in>fst ` set ms. k' < k \<Longrightarrow> put_member k j ms = ms @ [(k, j)]"
  by (induction ms) (auto simp: not_less_iff_gr_or_eq)

lemma fold_put_member: "ascending (old @ ms) \<Longrightarrow> fold (\<lambda>(k, j). put_member k j) ms old = old @ ms"
proof (induction ms arbitrary: old)
  case (Cons m ms)
  obtain k j where m: "m = (k, j)" by (cases m)
  have "put_member k j old = old @ [(k, j)]"
    using Cons.prems by (intro put_member_last) (auto simp: ascending_def m sorted_wrt_append)
  then show ?case using Cons.IH [of "old @ [m]"] Cons.prems by (simp add: m)
qed simp

lemma prints_json:
  "prints fmt pretty ascii n j t \<Longrightarrow> survives fmt ascii j \<longrightarrow> json_text fmt t j"
  "prints_elements fmt pretty ascii sep n js t \<Longrightarrow> (\<forall>j\<in>set js. survives fmt ascii j) \<longrightarrow>
    (if js = [] then t = [] else \<exists>u. t = (if sep then [44] else []) @ u \<and>
      (\<forall>w. list_all whitespace w \<longrightarrow> elements_text fmt (u @ w @ [93]) js))"
  "prints_members fmt pretty ascii sep n ms t \<Longrightarrow> (\<forall>(k, j)\<in>set ms. string_survives ascii k \<and> survives fmt ascii j) \<longrightarrow>
    (if ms = [] then t = [] else \<exists>u. t = (if sep then [44] else []) @ u \<and>
      (\<forall>w. list_all whitespace w \<longrightarrow> members_text fmt (u @ w @ [125]) ms))"
proof (induction rule: prints_prints_elements_prints_members.inducts)
  case (prints_bool n x)
  then show ?case by (simp add: text_true text_false)
next
  case (prints_number n x)
  then show ?case by (auto simp: number_survives_def Let_def intro: text_number)
next
  case (prints_array n js t)
  show ?case
  proof (cases "js = []")
    case True
    then show ?thesis using prints_array text_empty_array [of "[]"] by simp
  next
    case False
    then show ?thesis using prints_array whitespace_line [of pretty n] by (auto intro: text_array)
  qed
next
  case (prints_object ms n t)
  show ?case
  proof (cases "ms = []")
    case True
    then show ?thesis using prints_object text_empty_object [of "[]"] by simp
  next
    case False
    show ?thesis
    proof
      assume "survives fmt ascii (JObject ms)"
      then have "members_text fmt (t @ text_line pretty n @ [125]) ms" using prints_object False whitespace_line [of pretty n] by auto
      from text_object [OF this] show "json_text fmt (123 # t @ (if ms = [] then [] else text_line pretty n) @ [125]) (JObject ms)"
        using False fold_put_member [of "[]" ms] prints_object(1) by simp
    qed
  qed
next
  case (elements_next n j t js u sep)
  show ?case
  proof
    assume s: "\<forall>x\<in>set (j # js). survives fmt ascii x"
    then have 1: "json_text fmt (text_line pretty n @ t) j" using elements_next(2) text_spaces [OF whitespace_line] by simp
    have "elements_text fmt ((text_line pretty n @ t @ u) @ w @ [93]) (j # js)" if w: "list_all whitespace w" for w
    proof (cases "js = []")
      case True
      then show ?thesis using elements_last [OF 1 w] elements_next by simp
    next
      case False
      then obtain u' where "u = 44 # u'" "elements_text fmt (u' @ w @ [93]) js" using elements_next s w by auto
      then show ?thesis using elements_more [OF 1, of "[]"] by simp
    qed
    then show "if j # js = [] then (if sep then [44] else []) @ text_line pretty n @ t @ u = [] else
        \<exists>u'. (if sep then [44] else []) @ text_line pretty n @ t @ u = (if sep then [44] else []) @ u' \<and>
          (\<forall>w. list_all whitespace w \<longrightarrow> elements_text fmt (u' @ w @ [93]) (j # js))" by auto
  qed
next
  case (members_next k s n j t ms u sep)
  let ?colon = "if pretty then [58, 32] else [58] :: byte list"
  show ?case
  proof
    assume s: "\<forall>(k, j)\<in>set ((k, j) # ms). string_survives ascii k \<and> survives fmt ascii j"
    have key: "string_text s k" using literal_string members_next(1) s by auto
    obtain w2 where w2: "?colon = 58 # w2" "list_all whitespace w2" by (cases pretty) (auto simp: whitespace_def)
    have 1: "json_text fmt (w2 @ t) j" using members_next(3) s text_spaces [OF w2(2)] by simp
    have "members_text fmt ((text_line pretty n @ s @ ?colon @ t @ u) @ w @ [125]) ((k, j) # ms)" if w: "list_all whitespace w" for w
    proof (cases "ms = []")
      case True
      then show ?thesis using members_last [OF whitespace_line key _ 1 w, of "[]" pretty n] members_next w2(1) by simp
    next
      case False
      then obtain u' where "u = 44 # u'" "members_text fmt (u' @ w @ [125]) ms" using members_next s w by auto
      then show ?thesis using members_more [OF whitespace_line key _ 1, of "[]" "[]" _ _ pretty n] w2(1) by simp
    qed
    then show "if (k, j) # ms = [] then (if sep then [44] else []) @ text_line pretty n @ s @ ?colon @ t @ u = [] else
        \<exists>u'. (if sep then [44] else []) @ text_line pretty n @ s @ ?colon @ t @ u = (if sep then [44] else []) @ u' \<and>
          (\<forall>w. list_all whitespace w \<longrightarrow> members_text fmt (u' @ w @ [125]) ((k, j) # ms))" by auto
  qed
qed (auto intro: text_null text_string literal_string)


section \<open>Round trip\<close>

lemma buffer_encode_prints:
  assumes own: "owns (value_blocks h) v j A" and t: "prints fmt pretty ascii 0 j t" "length bs + length t < 2 ^ 59"
    and b: "buffer_holds b bs" and h: "supply_ok h" "length t \<le> length (value_supply h)"
    and o: "pretty = (options AND VALUE_ENCODE_PRETTY \<noteq> 0)" "ascii = (options AND VALUE_ENCODE_ASCII \<noteq> 0)"
  obtains b' h' where "value_buffer_encode fmt b v options h = Some (True, b', h')" "buffer_holds b' (bs @ t)"
    "value_blocks h' = value_blocks h" "supply_ok h'" "length (value_supply h) \<le> length (value_supply h') + length t"
proof -
  obtain b' v' h' where w: "value_encode_loop fmt pretty ascii (enc ENCODE_VALUE_START v [] b h) =
         value_encode_loop fmt pretty ascii (enc ENCODE_VALUE_END v' [] b' h')"
    "buffer_holds b' (bs @ t)" "value_blocks h' = value_blocks h" "supply_ok h'"
    "length (value_supply h) \<le> length (value_supply h') + length t"
    using writes_prints(1) [OF t(1)] own b t(2) h unfolding writes_def by (metis list.size(3))
  have "value_encode_loop fmt pretty ascii (enc ENCODE_VALUE_END v' [] b' h') =
      value_encode_loop fmt pretty ascii (enc ENCODE_ACCEPT v' [] b' h')"
    by (rule encode_loop_step) (simp_all add: value_encode_step_def Let_def)
  also have "\<dots> = Some (True, b', h')" by (subst value_encode_loop.simps) simp
  finally have "value_buffer_encode fmt b v options h = Some (True, b', h')"
    using w(1) o by (simp add: value_buffer_encode_def enc_def)
  then show ?thesis using that w(2-5) by blast
qed



lemma example_prints:
  "prints example_format True False 0 (JObject [([97], JArray [JNumber 1, JNull])])
    (map of_char ''{'' @ [10] @ map of_char ''  \"a\": ['' @ [10] @ map of_char ''    1,'' @ [10] @ map of_char ''    null'' @ [10] @
      map of_char ''  ]'' @ [10] @ map of_char ''}'')"
proof -
  have one: "prints example_format True False 2 (JNumber 1) [49]"
    using prints_number [of example_format True False 2 1] by (simp add: example_format_def)
  note elements_next [OF one elements_next [OF prints_null elements_none], of False]
  from prints_array [of _ _ _ 1, simplified, OF this [unfolded numeral_2_eq_2]]
  have array: "prints example_format True False 1 (JArray [JNumber 1, JNull])
    (map of_char ''['' @ [10] @ map of_char ''    1,'' @ [10] @ map of_char ''    null'' @ [10] @ map of_char ''  ]'')"
    by (simp add: text_line_def eval_nat_numeral)
  have key: "literal_text False [97] [34, 97, 34]"
    by (auto simp: literal_text_def scalars_def escape_code_def plain_def utf8_bytes_def scalar_def string_utf8_regular_def
      intro!: exI [of _ "[97]"])
  note members_next [OF key array members_none, of False]
  from prints_object [OF _ this [unfolded One_nat_def]] show ?thesis
    by (simp add: text_line_def eval_nat_numeral ascending_def)
qed


end
