(* ===== verification/Stream.thy ===== *)
theory Stream
  imports Handlers Buffer
begin

text \<open>
  Streams (\<^verbatim>\<open>src/reactor/stream.c\<close>): buffered input and output on a socket or a file, driven by
  the completions of the event loop.

  The handlers are given as state the address of the stream, here \<open>self\<close>. What the user's callback
  does to the world is the parameter \<open>invoke\<close>. The world holds the stream's memory (\<open>None\<close> once it
  is freed) and the \<open>abort\<close> variables of the calls of \<open>stream_recv\<close> that have not returned; the
  member \<open>abort\<close> is an index into them, or \<open>None\<close> for \<open>NULL\<close>. \<open>fstat\<close> is a parameter too.
\<close>

section \<open>State\<close>

definition STREAM_BLOCK_SIZE :: size_t where
  "STREAM_BLOCK_SIZE = 16384"

datatype stream_type = STREAM_TYPE_SOCKET | STREAM_TYPE_FILE

definition STREAM_ERROR :: int32 where
  "STREAM_ERROR = 0"

definition STREAM_READ :: int32 where
  "STREAM_READ = 1"

definition STREAM_CLOSE :: int32 where
  "STREAM_CLOSE = 2"

definition STREAM_WRITE_ONLY :: int32 where
  "STREAM_WRITE_ONLY = 1"

record 'a stream =
  stream_user :: "'a reactor_handler reactor_user"
  stream_fd_of :: int32
  stream_type_of :: stream_type
  stream_flags :: int32
  stream_abort :: "nat option"
  stream_reading :: reactor_t
  stream_input_offset :: size_t
  stream_input_buffer :: buffer
  stream_input_consumed :: size_t
  stream_writing :: reactor_t
  stream_output_offset :: size_t
  stream_output_partial :: size_t
  stream_output_writing :: buffer
  stream_output_waiting :: buffer
  stream_output_flushed :: size_t

record ('a, 'k, 'w) stream_world =
  world_reactor :: "('a reactor_handler, 'k) reactor"
  world_stream :: "'a stream option"
  world_abort :: "bool list"
  world_rest :: 'w

type_synonym ('a, 'k) stream_state = "('a reactor_handler, 'k) reactor \<times> 'a stream"

section \<open>Requests\<close>

definition stream_is_open :: "'a stream \<Rightarrow> bool" where
  "stream_is_open s \<longleftrightarrow> 0 \<le> sint (stream_fd_of s)"

definition stream_fd :: "'a stream \<Rightarrow> int32" where
  "stream_fd s = stream_fd_of s"

definition stream_input :: "'k reactor_env \<Rightarrow> operand \<Rightarrow> ('a, 'k) stream_state \<Rightarrow> ('a, 'k) stream_state option" where
  "stream_input e self rs = (case rs of (r, s) \<Rightarrow> do {
     s \<leftarrow> (if stream_input_consumed s \<noteq> 0
          then map_option (\<lambda>b. s\<lparr>stream_input_buffer := b, stream_input_consumed := 0\<rparr>)
                 (buffer_erase (stream_input_buffer s) 0 (stream_input_consumed s))
          else Some s);
     let b = buffer_reserve (stream_input_buffer s) (buffer_size (stream_input_buffer s) + STREAM_BLOCK_SIZE);
     let s = s\<lparr>stream_input_buffer := b\<rparr>;
     (r, ident) \<leftarrow> (case stream_type_of s of
          STREAM_TYPE_SOCKET \<Rightarrow>
            reactor_recv e (Some Stream_recv) self (stream_fd_of s) (Pointer (buffer_end b)) STREAM_BLOCK_SIZE 0 r
        | STREAM_TYPE_FILE \<Rightarrow>
            reactor_read e (Some Stream_recv) self (stream_fd_of s) (Pointer (buffer_end b)) STREAM_BLOCK_SIZE
              (stream_input_offset s) r);
     Some (r, s\<lparr>stream_reading := ident\<rparr>) })"

definition stream_output :: "'k reactor_env \<Rightarrow> operand \<Rightarrow> ('a, 'k) stream_state \<Rightarrow> ('a, 'k) stream_state option" where
  "stream_output e self rs = (case rs of (r, s) \<Rightarrow> do {
     let d = data_offset (buffer_data (stream_output_writing s)) (stream_output_partial s);
     (r, ident) \<leftarrow> (case stream_type_of s of
          STREAM_TYPE_SOCKET \<Rightarrow>
            reactor_send e (Some Stream_send) self (stream_fd_of s) (Pointer (data_base d)) (data_size d) 0 r
        | STREAM_TYPE_FILE \<Rightarrow>
            reactor_write e (Some Stream_send) self (stream_fd_of s) (Pointer (data_base d)) (data_size d)
              (stream_output_offset s) r);
     Some (r, s\<lparr>stream_writing := ident\<rparr>) })"

text \<open>\<open>!flags & STREAM_WRITE_ONLY\<close> negates \<open>flags\<close> first.\<close>

definition stream_update :: "'k reactor_env \<Rightarrow> operand \<Rightarrow> ('a, 'k) stream_state \<Rightarrow> ('a, 'k) stream_state option" where
  "stream_update e self rs = (case rs of (r, s) \<Rightarrow>
     if \<not> stream_is_open s \<or> stream_writing s \<noteq> 0 then Some (r, s)
     else if stream_output_partial s \<noteq> 0 then stream_output e self (r, s)
     else if stream_output_flushed s \<noteq> 0 then do {
       let s = s\<lparr>stream_output_partial := 0\<rparr>;
       let writing = buffer_clear (stream_output_writing s);
       writing \<leftarrow> buffer_append writing (data_offset (buffer_data (stream_output_waiting s)) (stream_output_flushed s));
       let waiting = buffer_resize (stream_output_waiting s) (stream_output_flushed s);
       let (waiting, writing) = buffer_switch waiting writing;
       stream_output e self
         (r, s\<lparr>stream_output_writing := writing, stream_output_waiting := waiting, stream_output_flushed := 0\<rparr>) }
     else if stream_reading s = 0 \<and> (if stream_flags s = 0 then 1 else 0) AND STREAM_WRITE_ONLY \<noteq> 0
     then stream_input e self (r, s)
     else Some (r, s))"

section \<open>Handlers\<close>

text \<open>A function on the reactor and the stream, in a world where the stream is allocated.\<close>

definition stream_at ::
    "(('a, 'k) stream_state \<Rightarrow> ('a, 'k) stream_state option) \<Rightarrow> ('a, 'k, 'w) stream_world \<Rightarrow> ('a, 'k, 'w) stream_world option" where
  "stream_at f w = do {
     s \<leftarrow> world_stream w;
     (r, s) \<leftarrow> f (world_reactor w, s);
     Some (w\<lparr>world_reactor := r, world_stream := Some s\<rparr>) }"

text \<open>The \<open>free\<close> leaves nothing behind that the model keeps.\<close>

definition stream_release_buffer :: "reactor_event \<Rightarrow> ('a, 'k, 'w) stream_world \<Rightarrow> ('a, 'k, 'w) stream_world option" where
  "stream_release_buffer event w = (case event_state event of Pointer _ \<Rightarrow> Some w | Number _ \<Rightarrow> None)"

definition stream_recv ::
    "('a reactor_handler \<Rightarrow> reactor_event \<Rightarrow> ('a, 'k, 'w) stream_world \<Rightarrow> ('a, 'k, 'w) stream_world option) \<Rightarrow>
      'k reactor_env \<Rightarrow> reactor_event \<Rightarrow> ('a, 'k, 'w) stream_world \<Rightarrow> ('a, 'k, 'w) stream_world option" where
  "stream_recv invoke e event w = do {
     s \<leftarrow> world_stream w;
     let result = (ucast (event_data event) :: int32);
     let s = s\<lparr>stream_reading := 0\<rparr>;
     (if sint result \<le> 0
      then reactor_call invoke (stream_user s) (if result = 0 then STREAM_CLOSE else STREAM_ERROR) (scast (- result))
             (w\<lparr>world_stream := Some s\<rparr>)
      else do {
        let s = s\<lparr>stream_input_offset := stream_input_offset s + scast result,
                  stream_input_buffer := buffer_resize (stream_input_buffer s)
                    (buffer_size (stream_input_buffer s) + scast result),
                  stream_abort := Some (length (world_abort w))\<rparr>;
        w' \<leftarrow> reactor_call invoke (stream_user s) STREAM_READ 0
               (w\<lparr>world_stream := Some s, world_abort := world_abort w @ [False]\<rparr>);
        let abort = last (world_abort w');
        let w' = w'\<lparr>world_abort := butlast (world_abort w')\<rparr>;
        (if abort then Some w'
         else do {
           s \<leftarrow> world_stream w';
           stream_at (stream_update e (event_state event)) (w'\<lparr>world_stream := Some (s\<lparr>stream_abort := None\<rparr>)\<rparr>) }) }) }"

definition stream_send ::
    "('a reactor_handler \<Rightarrow> reactor_event \<Rightarrow> ('a, 'k, 'w) stream_world \<Rightarrow> ('a, 'k, 'w) stream_world option) \<Rightarrow>
      'k reactor_env \<Rightarrow> reactor_event \<Rightarrow> ('a, 'k, 'w) stream_world \<Rightarrow> ('a, 'k, 'w) stream_world option" where
  "stream_send invoke e event w = do {
     s \<leftarrow> world_stream w;
     let result = (ucast (event_data event) :: int32);
     let s = s\<lparr>stream_writing := 0\<rparr>;
     (if sint result \<le> 0
      then reactor_call invoke (stream_user s) STREAM_ERROR (scast (- result)) (w\<lparr>world_stream := Some s\<rparr>)
      else do {
        let s = s\<lparr>stream_output_offset := stream_output_offset s + scast result,
                  stream_output_partial := stream_output_partial s + scast result\<rparr>;
        let s = (if stream_output_partial s = buffer_size (stream_output_writing s)
                 then s\<lparr>stream_output_partial := 0\<rparr> else s);
        stream_at (stream_update e (event_state event)) (w\<lparr>world_stream := Some s\<rparr>) }) }"

section \<open>Interface\<close>

definition stream_construct :: "'a reactor_handler option \<Rightarrow> operand \<Rightarrow> 'a stream" where
  "stream_construct callback state =
     \<lparr>stream_user = reactor_user_define callback state, stream_fd_of = - 1, stream_type_of = STREAM_TYPE_SOCKET,
      stream_flags = 0, stream_abort = None, stream_reading = 0, stream_input_offset = 0,
      stream_input_buffer = buffer_construct, stream_input_consumed = 0, stream_writing = 0,
      stream_output_offset = 0, stream_output_partial = 0, stream_output_writing = buffer_construct,
      stream_output_waiting = buffer_construct, stream_output_flushed = 0\<rparr>"

definition stream_close :: "'k reactor_env \<Rightarrow> ('a, 'k) stream_state \<Rightarrow> ('a, 'k) stream_state option" where
  "stream_close e rs = (case rs of (r, s) \<Rightarrow> do {
     (r, s) \<leftarrow> (if stream_reading s \<noteq> 0 then do {
         let (base, b) = buffer_deconstruct (stream_input_buffer s);
         r \<leftarrow> reactor_cancel e (stream_reading s) (Some Stream_release_buffer) (Pointer base) r;
         Some (r, s\<lparr>stream_input_buffer := b, stream_reading := 0\<rparr>) }
       else Some (r, s));
     (r, s) \<leftarrow> (if stream_writing s \<noteq> 0 then do {
         let (base, b) = buffer_deconstruct (stream_output_writing s);
         r \<leftarrow> reactor_cancel e (stream_writing s) (Some Stream_release_buffer) (Pointer base) r;
         Some (r, s\<lparr>stream_output_writing := b, stream_writing := 0\<rparr>) }
       else Some (r, s));
     (if stream_is_open s then do {
         (r, _) \<leftarrow> reactor_close e None (Number 0) (stream_fd_of s) r;
         Some (r, s\<lparr>stream_fd_of := - 1\<rparr>) }
      else Some (r, s)) })"

text \<open>Destruction sets the variable \<open>abort\<close> points to; the buffers are emptied.\<close>

definition stream_destruct :: "'k reactor_env \<Rightarrow> ('a, 'k, 'w) stream_world \<Rightarrow> ('a, 'k, 'w) stream_world option" where
  "stream_destruct e w = do {
     w \<leftarrow> stream_at (stream_close e) w;
     s \<leftarrow> world_stream w;
     w \<leftarrow> (case stream_abort s of
          None \<Rightarrow> Some w
        | Some i \<Rightarrow> if i < length (world_abort w) then Some (w\<lparr>world_abort := (world_abort w)[i := True]\<rparr>) else None);
     Some (w\<lparr>world_stream := Some (s\<lparr>stream_input_buffer := buffer_construct,
       stream_output_writing := buffer_construct, stream_output_waiting := buffer_construct\<rparr>)\<rparr>) }"

text \<open>\<open>fstat fd\<close> is the mode of the file, \<open>None\<close> when the call fails; the code asserts that it does not.\<close>

definition S_ISSOCK :: "u32 \<Rightarrow> bool" where
  "S_ISSOCK mode \<longleftrightarrow> mode AND 0xF000 = 0xC000"

definition stream_open ::
    "'k reactor_env \<Rightarrow> (int32 \<Rightarrow> u32 option) \<Rightarrow> operand \<Rightarrow> int32 \<Rightarrow> int32 \<Rightarrow> ('a, 'k) stream_state \<Rightarrow> ('a, 'k) stream_state option" where
  "stream_open e fstat self fd flags rs = (case rs of (r, s) \<Rightarrow> do {
     let s = s\<lparr>stream_fd_of := fd, stream_flags := flags\<rparr>;
     mode \<leftarrow> fstat fd;
     stream_update e self
       (r, s\<lparr>stream_type_of := (if S_ISSOCK mode then STREAM_TYPE_SOCKET else STREAM_TYPE_FILE)\<rparr>) })"

definition stream_read :: "'a stream \<Rightarrow> data" where
  "stream_read s = data_offset (buffer_data (stream_input_buffer s)) (stream_input_consumed s)"

definition stream_consume :: "'a stream \<Rightarrow> size_t \<Rightarrow> 'a stream" where
  "stream_consume s n = s\<lparr>stream_input_consumed := stream_input_consumed s + n\<rparr>"

text \<open>The returned pointer is the position in the waiting buffer.\<close>

definition stream_allocate :: "'a stream \<Rightarrow> size_t \<Rightarrow> 'a stream \<times> size_t" where
  "stream_allocate s n =
     (s\<lparr>stream_output_waiting := fst (buffer_allocate (stream_output_waiting s) n)\<rparr>,
      buffer_size (stream_output_waiting s))"

definition stream_write :: "'a stream \<Rightarrow> data \<Rightarrow> 'a stream option" where
  "stream_write s d = do {
     let (s, p) = stream_allocate s (data_size d);
     src \<leftarrow> ptr_read (data_base d) (unat (data_size d));
     b \<leftarrow> buffer_poke (stream_output_waiting s) p src;
     Some (s\<lparr>stream_output_waiting := b\<rparr>) }"

definition stream_flush :: "'k reactor_env \<Rightarrow> operand \<Rightarrow> ('a, 'k) stream_state \<Rightarrow> ('a, 'k) stream_state option" where
  "stream_flush e self rs = (case rs of (r, s) \<Rightarrow>
     stream_update e self (r, s\<lparr>stream_output_flushed := buffer_size (stream_output_waiting s)\<rparr>))"

end
