(* ===== verification/Stream_IO.thy ===== *)
theory Stream_IO
  imports Stream
begin

text \<open>
  What the operations of a stream do to its bytes: those received and not consumed, those handed
  to the kernel and not confirmed, and those written and not handed over yet.
\<close>

section \<open>The bytes of a stream\<close>

text \<open>
  \<open>input\<close>: in the input buffer, of which the first \<open>stream_input_consumed\<close> are consumed. \<open>flight\<close>: in
  the request under way, or due in the next one after a partial completion. \<open>waiting\<close>: written,
  not yet in flight.
\<close>

definition stream_input_ok :: "'a stream \<Rightarrow> byte list \<Rightarrow> bool" where
  "stream_input_ok s inp \<longleftrightarrow>
     buffer_holds (stream_input_buffer s) inp \<and> unat (stream_input_consumed s) \<le> length inp \<and>
     length inp + unat STREAM_BLOCK_SIZE \<le> buffer_limit \<and>
     (stream_reading s \<noteq> 0 \<longrightarrow> length inp + unat STREAM_BLOCK_SIZE \<le> unat (buf_capacity (stream_input_buffer s)))"

definition stream_busy :: "'a stream \<Rightarrow> bool" where
  "stream_busy s \<longleftrightarrow> stream_writing s \<noteq> 0 \<or> stream_output_partial s \<noteq> 0"

definition stream_flight_ok :: "'a stream \<Rightarrow> byte list \<Rightarrow> bool" where
  "stream_flight_ok s flight \<longleftrightarrow>
     (\<exists>out. buffer_holds (stream_output_writing s) out \<and> (stream_busy s \<longleftrightarrow> flight \<noteq> []) \<and>
        (stream_busy s \<longrightarrow> flight = drop (unat (stream_output_partial s)) out))"

definition stream_waiting_ok :: "'a stream \<Rightarrow> byte list \<Rightarrow> bool" where
  "stream_waiting_ok s waiting \<longleftrightarrow>
     buffer_holds (stream_output_waiting s) waiting \<and> unat (stream_output_flushed s) \<le> length waiting \<and>
     length waiting \<le> buffer_limit"

definition stream_ok :: "'a stream \<Rightarrow> byte list \<Rightarrow> byte list \<Rightarrow> byte list \<Rightarrow> bool" where
  "stream_ok s inp flight waiting \<longleftrightarrow> stream_input_ok s inp \<and> stream_flight_ok s flight \<and> stream_waiting_ok s waiting"

text \<open>The requests a stream has not got under way; each needs a user and an entry of the reactor.\<close>

definition stream_idle :: "'a stream \<Rightarrow> nat" where
  "stream_idle s = (if stream_reading s = 0 then 1 else 0) + (if stream_writing s = 0 then 1 else 0)"

section \<open>The requests\<close>

definition stream_output_sqe :: "'a stream \<Rightarrow> io_uring_sqe" where
  "stream_output_sqe s =
     (let d = data_offset (buffer_data (stream_output_writing s)) (stream_output_partial s)
      in sqe_zero\<lparr>sqe_fd := stream_fd_of s, sqe_addr := Pointer (data_base d), sqe_len := ucast (data_size d),
           sqe_opcode := (case stream_type_of s of STREAM_TYPE_SOCKET \<Rightarrow> IORING_OP_SEND | STREAM_TYPE_FILE \<Rightarrow> IORING_OP_WRITE),
           sqe_off := (case stream_type_of s of STREAM_TYPE_SOCKET \<Rightarrow> 0 | STREAM_TYPE_FILE \<Rightarrow> stream_output_offset s)\<rparr>)"

definition stream_input_sqe :: "'a stream \<Rightarrow> io_uring_sqe" where
  "stream_input_sqe s =
     sqe_zero\<lparr>sqe_fd := stream_fd_of s, sqe_addr := Pointer (buffer_end (stream_input_buffer s)),
       sqe_len := ucast STREAM_BLOCK_SIZE,
       sqe_opcode := (case stream_type_of s of STREAM_TYPE_SOCKET \<Rightarrow> IORING_OP_RECV | STREAM_TYPE_FILE \<Rightarrow> IORING_OP_READ),
       sqe_off := (case stream_type_of s of STREAM_TYPE_SOCKET \<Rightarrow> 0 | STREAM_TYPE_FILE \<Rightarrow> stream_input_offset s)\<rparr>"

lemma stream_output_submit:
  "stream_output e self (r, s) =
     map_option (\<lambda>(r, ident). (r, s\<lparr>stream_writing := ident\<rparr>))
       (reactor_submit e (Some Stream_send) self (stream_output_sqe s) r)"
  by (cases "stream_type_of s"; cases "reactor_submit e (Some Stream_send) self (stream_output_sqe s) r")
    (simp_all add: stream_output_def stream_output_sqe_def reactor_send_def reactor_write_def Let_def
      sqe_zero_def split_def)

lemma stream_input_submit:
  assumes ok: "stream_input_ok s inp"
  shows "\<exists>b. buffer_holds b (drop (unat (stream_input_consumed s)) inp) \<and>
    length inp - unat (stream_input_consumed s) + unat STREAM_BLOCK_SIZE \<le> unat (buf_capacity b) \<and>
    stream_input e self (r, s) =
      map_option (\<lambda>(r, ident). (r, s\<lparr>stream_input_buffer := b, stream_input_consumed := 0, stream_reading := ident\<rparr>))
        (reactor_submit e (Some Stream_recv) self (stream_input_sqe (s\<lparr>stream_input_buffer := b, stream_input_consumed := 0\<rparr>)) r)"
proof -
  let ?c = "stream_input_consumed s" and ?b = "stream_input_buffer s"
  have inp: "buffer_ok ?b" "buffer_cells ?b = map Some inp" "unat (buffer_size ?b) = length inp" "unat ?c \<le> length inp"
    "length inp + unat STREAM_BLOCK_SIZE \<le> buffer_limit"
    using ok buffer_holds_cells by (auto simp: stream_input_ok_def)
  obtain b1 where b1: "(if ?c \<noteq> 0 then map_option (\<lambda>b. s\<lparr>stream_input_buffer := b, stream_input_consumed := 0\<rparr>)
                 (buffer_erase ?b 0 ?c) else Some s) = Some (s\<lparr>stream_input_buffer := b1, stream_input_consumed := 0\<rparr>)"
    "buffer_ok b1" "buffer_cells b1 = map Some (drop (unat ?c) inp)"
  proof (cases "?c = 0")
    case True
    then have "s = s\<lparr>stream_input_buffer := ?b, stream_input_consumed := 0\<rparr>" by simp
    then show ?thesis using that [of ?b] True inp by simp
  next
    case False
    then show ?thesis using buffer_erase_cells [OF inp(1), of 0 ?c] inp that by (auto simp: drop_map)
  qed
  let ?n = "buffer_size b1 + STREAM_BLOCK_SIZE" and ?s = "\<lambda>b. s\<lparr>stream_input_buffer := b, stream_input_consumed := 0\<rparr>"
  have size: "unat (buffer_size b1) = length inp - unat ?c" using length_buffer_cells [OF b1(2)] b1(3) by simp
  then have n: "unat ?n = length inp - unat ?c + unat STREAM_BLOCK_SIZE"
    using inp(5) by (simp add: unat_add64 buffer_limit_def STREAM_BLOCK_SIZE_def)
  let ?b2 = "buffer_reserve b1 ?n"
  have b2: "buffer_ok ?b2" "buffer_cells ?b2 = map Some (drop (unat ?c) inp)" "?n \<le> buf_capacity ?b2"
    using buffer_reserve_spec [OF b1(2), of ?n] n inp(5) b1(3) by simp_all
  have "stream_input e self (r, s) =
      map_option (\<lambda>(r, ident). (r, s\<lparr>stream_input_buffer := ?b2, stream_input_consumed := 0, stream_reading := ident\<rparr>))
        (reactor_submit e (Some Stream_recv) self (stream_input_sqe (s\<lparr>stream_input_buffer := ?b2, stream_input_consumed := 0\<rparr>)) r)"
    unfolding stream_input_def case_prod_conv b1(1) Option.bind.simps
    by (cases "stream_type_of s"; cases "reactor_submit e (Some Stream_recv) self (stream_input_sqe (?s ?b2)) r")
      (simp_all add: stream_input_sqe_def reactor_recv_def reactor_read_def Let_def sqe_zero_def split_def)
  then show ?thesis using b2 n by (auto simp: buffer_holds_def word_le_nat_alt)
qed

section \<open>Updating\<close>

definition stream_frame :: "'a stream \<Rightarrow> 'a stream \<Rightarrow> bool" where
  "stream_frame s s' \<longleftrightarrow> stream_user s' = stream_user s \<and> stream_fd_of s' = stream_fd_of s \<and>
     stream_type_of s' = stream_type_of s \<and> stream_flags s' = stream_flags s \<and> stream_abort s' = stream_abort s \<and>
     stream_input_offset s' = stream_input_offset s \<and> stream_output_offset s' = stream_output_offset s"

text \<open>The requests an operation adds to those pending: at most one, with the stream's handler.\<close>

definition stream_requests :: "operand \<Rightarrow> ('a, 'k) stream_state \<Rightarrow> ('a, 'k) stream_state \<Rightarrow> bool" where
  "stream_requests self rs rs' = (case (rs, rs') of ((r, s), (r', s')) \<Rightarrow>
     if stream_writing s' \<noteq> stream_writing s
     then new_user (Some Stream_send) self r (stream_writing s') r' \<and> stream_reading s' = stream_reading s \<and>
       ring_pending (reactor_ring_of r') =
         ring_pending (reactor_ring_of r) @ [stream_output_sqe s'\<lparr>sqe_user_data := stream_writing s'\<rparr>]
     else if stream_reading s' \<noteq> stream_reading s
     then new_user (Some Stream_recv) self r (stream_reading s') r' \<and>
       ring_pending (reactor_ring_of r') =
         ring_pending (reactor_ring_of r) @ [stream_input_sqe s'\<lparr>sqe_user_data := stream_reading s'\<rparr>]
     else r' = r)"

definition stream_settled :: "'a stream \<Rightarrow> bool" where
  "stream_settled s \<longleftrightarrow> (stream_is_open s \<longrightarrow> stream_writing s \<noteq> 0 \<or>
     stream_output_partial s = 0 \<and> stream_output_flushed s = 0 \<and> (stream_flags s = 0 \<longrightarrow> stream_reading s \<noteq> 0))"

lemma stream_sqe_cong [simp]:
  "stream_output_sqe (s\<lparr>stream_writing := i\<rparr>) = stream_output_sqe s"
  "stream_input_sqe (s\<lparr>stream_reading := i\<rparr>) = stream_input_sqe s"
  by (cases "stream_type_of s"; simp add: stream_output_sqe_def stream_input_sqe_def)+

lemma stream_output_spec:
  assumes ok: "stream_input_ok s inp" "stream_waiting_ok s waiting" and out: "buffer_holds (stream_output_writing s) out"
    "unat (stream_output_partial s) < length out" "stream_writing s = 0"
    and r: "reactor_ready r (n + stream_idle s)"
  shows "\<exists>r' ident. stream_output e self (r, s) = Some (r', s\<lparr>stream_writing := ident\<rparr>) \<and> ident \<noteq> 0 \<and>
    stream_ok (s\<lparr>stream_writing := ident\<rparr>) inp (drop (unat (stream_output_partial s)) out) waiting \<and>
    reactor_ready r' (n + stream_idle (s\<lparr>stream_writing := ident\<rparr>)) \<and>
    new_user (Some Stream_send) self r ident r' \<and>
    ring_pending (reactor_ring_of r') = ring_pending (reactor_ring_of r) @ [stream_output_sqe s\<lparr>sqe_user_data := ident\<rparr>]"
proof -
  have "reactor_ready r (Suc (n + (if stream_reading s = 0 then 1 else 0)))"
    using r out(3) by (simp add: stream_idle_def split: if_splits)
  then obtain r' ident where s: "reactor_submit e (Some Stream_send) self (stream_output_sqe s) r = Some (r', ident)"
    "reactor_ready r' (n + (if stream_reading s = 0 then 1 else 0))" "submitted e (Some Stream_send) self (stream_output_sqe s) r ident r'"
    "ident \<noteq> 0" "ring_pending (reactor_ring_of r') = ring_pending (reactor_ring_of r) @ [stream_output_sqe s\<lparr>sqe_user_data := ident\<rparr>]"
    by (rule reactor_submit_ready)
  let ?s = "s\<lparr>stream_writing := ident\<rparr>"
  have "stream_flight_ok ?s (drop (unat (stream_output_partial s)) out)"
    using out s(4) by (simp add: stream_flight_ok_def stream_busy_def) blast
  moreover have "stream_input_ok ?s inp" "stream_waiting_ok ?s waiting"
    using ok by (simp_all add: stream_input_ok_def stream_waiting_ok_def)
  ultimately have "stream_ok ?s inp (drop (unat (stream_output_partial s)) out) waiting" by (simp add: stream_ok_def)
  moreover have "stream_output e self (r, s) = Some (r', ?s)" by (simp add: stream_output_submit s(1))
  moreover have "reactor_ready r' (n + stream_idle ?s)" using s(2,4) by (simp add: stream_idle_def)
  moreover have "new_user (Some Stream_send) self r ident r'" using s(3) by (simp add: submitted_def)
  ultimately show ?thesis using s(4,5) by blast
qed

lemma stream_move_waiting:
  assumes ok: "stream_flight_ok s flight" "stream_waiting_ok s waiting"
  shows "\<exists>w. buffer_append (buffer_clear (stream_output_writing s))
      (data_offset (buffer_data (stream_output_waiting s)) (stream_output_flushed s)) = Some w \<and>
    buffer_holds w (drop (unat (stream_output_flushed s)) waiting) \<and>
    buffer_holds (buffer_resize (stream_output_waiting s) (stream_output_flushed s))
      (take (unat (stream_output_flushed s)) waiting)"
proof -
  let ?w = "stream_output_waiting s" and ?f = "stream_output_flushed s"
  have w: "buffer_ok ?w" "buffer_cells ?w = map Some waiting" "unat (buffer_size ?w) = length waiting"
    "unat ?f \<le> length waiting" "length waiting \<le> buffer_limit"
    using ok(2) buffer_holds_cells by (auto simp: stream_waiting_ok_def)
  have o: "buffer_ok (stream_output_writing s)" using ok(1) by (auto simp: stream_flight_ok_def buffer_holds_def)
  have "data_bytes (buffer_data ?w) = Some waiting"
    using ok(2) buffer_base_holds by (fastforce simp: stream_waiting_ok_def buffer_write_def data_bytes_def
      buffer_data_def buffer_base_def buffer_size_def)
  moreover have "?f \<le> data_size (buffer_data ?w)"
    using w by (simp add: word_le_nat_alt buffer_data_def buffer_size_def)
  ultimately have d: "data_bytes (data_offset (buffer_data ?w) ?f) = Some (drop (unat ?f) waiting)"
    by (rule data_bytes_offset)
  have clear: "buffer_ok (buffer_clear (stream_output_writing s))" "buffer_cells (buffer_clear (stream_output_writing s)) = []"
    using buffer_clear_spec [OF o] by simp_all
  then have "unat (buffer_size (buffer_clear (stream_output_writing s))) = 0"
    using length_buffer_cells [OF clear(1)] by simp
  then obtain b where b: "buffer_append (buffer_clear (stream_output_writing s)) (data_offset (buffer_data ?w) ?f) = Some b"
    "buffer_ok b" "buffer_cells b = map Some (drop (unat ?f) waiting)"
    using buffer_append_cells [OF clear(1) data_bytes_read [OF d]] w clear(2) by (elim meta_impE exE conjE) simp_all
  have "buffer_ok (buffer_resize ?w ?f)" "buffer_size (buffer_resize ?w ?f) = ?f"
    "take (unat ?f) (buffer_cells (buffer_resize ?w ?f)) = take (unat ?f) (buffer_cells ?w)"
    using buffer_resize_spec [OF w(1), of ?f] w by (simp_all add: min_def)
  then have "buffer_holds (buffer_resize ?w ?f) (take (unat ?f) waiting)"
    using w length_buffer_cells [of "buffer_resize ?w ?f"] by (simp add: buffer_holds_def take_map)
  then show ?thesis using b by (auto simp: buffer_holds_def)
qed

text \<open>
  What an update makes of the bytes: when nothing is in flight the flushed bytes are, and otherwise
  when reading is resumed the consumed ones are dropped.
\<close>

definition stream_carries ::
    "'a stream \<Rightarrow> byte list \<Rightarrow> byte list \<Rightarrow> byte list \<Rightarrow> 'a stream \<Rightarrow> byte list \<Rightarrow> byte list \<Rightarrow> byte list \<Rightarrow> bool" where
  "stream_carries s inp flight waiting s' inp' flight' waiting' \<longleftrightarrow>
     (flight', waiting') = (if stream_is_open s \<and> flight = []
        then (take (unat (stream_output_flushed s)) waiting, drop (unat (stream_output_flushed s)) waiting)
        else (flight, waiting)) \<and>
     (inp', stream_input_consumed s') \<in>
        {(inp, stream_input_consumed s), (drop (unat (stream_input_consumed s)) inp, 0)}"

definition stream_updated ::
    "operand \<Rightarrow> ('a, 'k) stream_state \<Rightarrow> byte list \<Rightarrow> byte list \<Rightarrow> byte list \<Rightarrow> ('a, 'k) stream_state \<Rightarrow>
      byte list \<Rightarrow> byte list \<Rightarrow> byte list \<Rightarrow> bool" where
  "stream_updated self rs inp flight waiting rs' inp' flight' waiting' \<longleftrightarrow>
     stream_ok (snd rs') inp' flight' waiting' \<and> stream_carries (snd rs) inp flight waiting (snd rs') inp' flight' waiting' \<and>
     stream_frame (snd rs) (snd rs') \<and> stream_requests self rs rs' \<and> stream_settled (snd rs')"

lemma stream_update_flush:
  assumes ok: "stream_ok s inp [] waiting" and r: "reactor_ready r (n + stream_idle s)"
    and s: "stream_is_open s" "stream_output_flushed s \<noteq> 0"
  shows "\<exists>r' s'. stream_update e self (r, s) = Some (r', s') \<and> reactor_ready r' (n + stream_idle s') \<and>
    stream_updated self (r, s) inp [] waiting (r', s') inp (take (unat (stream_output_flushed s)) waiting)
      (drop (unat (stream_output_flushed s)) waiting)"
proof -
  let ?f = "stream_output_flushed s"
  have idle: "stream_writing s = 0" "stream_output_partial s = 0"
    using ok by (auto simp: stream_ok_def stream_flight_ok_def stream_busy_def)
  obtain w where w: "buffer_append (buffer_clear (stream_output_writing s))
      (data_offset (buffer_data (stream_output_waiting s)) ?f) = Some w" "buffer_holds w (drop (unat ?f) waiting)"
    "buffer_holds (buffer_resize (stream_output_waiting s) ?f) (take (unat ?f) waiting)"
    using stream_move_waiting [of s "[]" waiting] ok by (auto simp: stream_ok_def)
  have "length waiting \<le> buffer_limit" using ok by (simp add: stream_ok_def stream_waiting_ok_def)
  then have lim: "length waiting - unat ?f \<le> buffer_limit" by linarith
  have f: "0 < unat ?f" "unat ?f \<le> length waiting" using ok s(2) by (auto simp: stream_ok_def stream_waiting_ok_def unat_gt_0)
  define s1 where "s1 = s\<lparr>stream_output_partial := 0, stream_output_writing := buffer_resize (stream_output_waiting s) ?f,
    stream_output_waiting := w, stream_output_flushed := 0\<rparr>"
  have update: "stream_update e self (r, s) = stream_output e self (r, s1)"
    using s idle w(1) by (simp add: stream_update_def Let_def buffer_switch_def s1_def)
  have s1: "stream_input_ok s1 inp" "stream_waiting_ok s1 (drop (unat ?f) waiting)"
    "buffer_holds (stream_output_writing s1) (take (unat ?f) waiting)"
    "unat (stream_output_partial s1) < length (take (unat ?f) waiting)" "stream_writing s1 = 0"
    using ok w idle f lim by (simp_all add: s1_def stream_ok_def stream_input_ok_def stream_waiting_ok_def)
  have "reactor_ready r (n + stream_idle s1)" using r by (simp add: s1_def stream_idle_def)
  from stream_output_spec [OF s1 this, of e self]
  obtain r' ident where o: "stream_output e self (r, s1) = Some (r', s1\<lparr>stream_writing := ident\<rparr>)" "ident \<noteq> 0"
    "stream_ok (s1\<lparr>stream_writing := ident\<rparr>) inp (take (unat ?f) waiting) (drop (unat ?f) waiting)"
    "reactor_ready r' (n + stream_idle (s1\<lparr>stream_writing := ident\<rparr>))" "new_user (Some Stream_send) self r ident r'"
    "ring_pending (reactor_ring_of r') = ring_pending (reactor_ring_of r) @ [stream_output_sqe s1\<lparr>sqe_user_data := ident\<rparr>]"
    by (auto simp: s1_def)
  have "stream_requests self (r, s) (r', s1\<lparr>stream_writing := ident\<rparr>)"
    using o(2,5,6) idle by (simp add: stream_requests_def) (simp add: s1_def)
  moreover have "stream_frame s (s1\<lparr>stream_writing := ident\<rparr>)" by (simp add: stream_frame_def s1_def)
  moreover have "stream_carries s inp [] waiting (s1\<lparr>stream_writing := ident\<rparr>) inp (take (unat ?f) waiting) (drop (unat ?f) waiting)"
    using s by (simp add: stream_carries_def s1_def)
  moreover have "stream_settled (s1\<lparr>stream_writing := ident\<rparr>)" using o(2) by (simp add: stream_settled_def)
  ultimately show ?thesis using update o(1,3,4) by (auto simp: stream_updated_def)
qed

lemma stream_update_input:
  assumes ok: "stream_ok s inp [] waiting" and r: "reactor_ready r (n + stream_idle s)"
    and s: "stream_is_open s" "stream_output_flushed s = 0" "stream_reading s = 0" "stream_flags s = 0"
  shows "\<exists>r' s'. stream_update e self (r, s) = Some (r', s') \<and> reactor_ready r' (n + stream_idle s') \<and>
    stream_updated self (r, s) inp [] waiting (r', s') (drop (unat (stream_input_consumed s)) inp) [] waiting"
proof -
  have idle: "stream_writing s = 0" "stream_output_partial s = 0"
    using ok by (auto simp: stream_ok_def stream_flight_ok_def stream_busy_def)
  have inp: "stream_input_ok s inp" using ok by (simp add: stream_ok_def)
  then have lim: "unat (stream_input_consumed s) \<le> length inp" "length inp + unat STREAM_BLOCK_SIZE \<le> buffer_limit"
    by (simp_all add: stream_input_ok_def)
  obtain b where b: "buffer_holds b (drop (unat (stream_input_consumed s)) inp)"
    "length inp - unat (stream_input_consumed s) + unat STREAM_BLOCK_SIZE \<le> unat (buf_capacity b)"
    "stream_input e self (r, s) =
      map_option (\<lambda>(r, ident). (r, s\<lparr>stream_input_buffer := b, stream_input_consumed := 0, stream_reading := ident\<rparr>))
        (reactor_submit e (Some Stream_recv) self (stream_input_sqe (s\<lparr>stream_input_buffer := b, stream_input_consumed := 0\<rparr>)) r)"
    using stream_input_submit [OF inp, of e self r] by blast
  let ?s = "s\<lparr>stream_input_buffer := b, stream_input_consumed := 0\<rparr>"
  have "reactor_ready r (Suc (n + 1))" using r s idle by (simp add: stream_idle_def)
  then obtain r' ident where o: "reactor_submit e (Some Stream_recv) self (stream_input_sqe ?s) r = Some (r', ident)"
    "reactor_ready r' (n + 1)" "submitted e (Some Stream_recv) self (stream_input_sqe ?s) r ident r'"
    "ident \<noteq> 0" "ring_pending (reactor_ring_of r') = ring_pending (reactor_ring_of r) @ [stream_input_sqe ?s\<lparr>sqe_user_data := ident\<rparr>]"
    by (rule reactor_submit_ready)
  define s' where "s' = ?s\<lparr>stream_reading := ident\<rparr>"
  have "stream_update e self (r, s) = Some (r', s')"
    using s idle b(3) o(1) by (simp add: stream_update_def s'_def STREAM_WRITE_ONLY_def)
  moreover have "reactor_ready r' (n + stream_idle s')" using o(2,4) idle by (simp add: stream_idle_def s'_def)
  moreover have "stream_ok s' (drop (unat (stream_input_consumed s)) inp) [] waiting"
    using ok b(1,2) lim idle by (auto simp: stream_ok_def stream_input_ok_def stream_flight_ok_def stream_busy_def
      stream_waiting_ok_def s'_def)
  moreover have "stream_requests self (r, s) (r', s')"
    using o(3-5) s(3) by (simp add: stream_requests_def submitted_def s'_def)
  moreover have "stream_frame s s'" "stream_settled s'" using s idle o(4) by (simp_all add: stream_frame_def stream_settled_def s'_def)
  moreover have "stream_carries s inp [] waiting s' (drop (unat (stream_input_consumed s)) inp) [] waiting"
    using s by (simp add: stream_carries_def s'_def)
  ultimately show ?thesis by (auto simp: stream_updated_def)
qed

lemma stream_update_spec:
  assumes ok: "stream_ok s inp flight waiting" and r: "reactor_ready r (n + stream_idle s)"
  shows "\<exists>r' s' inp' flight' waiting'. stream_update e self (r, s) = Some (r', s') \<and> reactor_ready r' (n + stream_idle s') \<and>
    stream_updated self (r, s) inp flight waiting (r', s') inp' flight' waiting'"
proof -
  have busy: "stream_busy s \<longleftrightarrow> flight \<noteq> []" using ok by (auto simp: stream_ok_def stream_flight_ok_def)
  consider (stay) "\<not> stream_is_open s \<or> stream_writing s \<noteq> 0"
    | (partial) "stream_is_open s" "stream_writing s = 0" "stream_output_partial s \<noteq> 0"
    | (flush) "stream_is_open s" "flight = []" "stream_output_flushed s \<noteq> 0"
    | (input) "stream_is_open s" "flight = []" "stream_output_flushed s = 0" "stream_reading s = 0" "stream_flags s = 0"
    | (rest) "stream_is_open s" "flight = []" "stream_output_flushed s = 0" "stream_reading s \<noteq> 0 \<or> stream_flags s \<noteq> 0"
    using busy by (auto simp: stream_busy_def)
  then show ?thesis
  proof cases
    case stay
    then have "stream_update e self (r, s) = Some (r, s)" by (auto simp: stream_update_def)
    moreover have "stream_updated self (r, s) inp flight waiting (r, s) inp flight waiting"
      using ok stay busy by (auto simp: stream_updated_def stream_carries_def stream_frame_def stream_requests_def
        stream_settled_def stream_busy_def)
    ultimately show ?thesis using r by blast
  next
    case partial
    obtain out where out: "buffer_holds (stream_output_writing s) out" "flight = drop (unat (stream_output_partial s)) out" "flight \<noteq> []"
      using ok partial by (auto simp: stream_ok_def stream_flight_ok_def stream_busy_def)
    have o: "stream_input_ok s inp" "stream_waiting_ok s waiting" "unat (stream_output_partial s) < length out"
      using ok out by (auto simp: stream_ok_def)
    obtain r' ident where o: "stream_output e self (r, s) = Some (r', s\<lparr>stream_writing := ident\<rparr>)" "ident \<noteq> 0"
      "stream_ok (s\<lparr>stream_writing := ident\<rparr>) inp flight waiting"
      "reactor_ready r' (n + stream_idle (s\<lparr>stream_writing := ident\<rparr>))" "new_user (Some Stream_send) self r ident r'"
      "ring_pending (reactor_ring_of r') = ring_pending (reactor_ring_of r) @ [stream_output_sqe s\<lparr>sqe_user_data := ident\<rparr>]"
      using stream_output_spec [OF o(1,2) out(1) o(3) partial(2) r, of e self] out(2) by blast
    have "stream_update e self (r, s) = Some (r', s\<lparr>stream_writing := ident\<rparr>)"
      using partial o(1) by (simp add: stream_update_def)
    moreover have "stream_updated self (r, s) inp flight waiting (r', s\<lparr>stream_writing := ident\<rparr>) inp flight waiting"
      using o(2,3,5,6) partial out(3) by (simp add: stream_updated_def stream_carries_def stream_frame_def
        stream_requests_def stream_settled_def)
    ultimately show ?thesis using o(4) by blast
  next
    case flush
    then show ?thesis using stream_update_flush [of s inp waiting r n e self] ok r by blast
  next
    case input
    then show ?thesis using stream_update_input [of s inp waiting r n e self] ok r by blast
  next
    case rest
    have idle: "stream_writing s = 0" "stream_output_partial s = 0"
      using busy rest(2) by (auto simp: stream_busy_def)
    have "stream_update e self (r, s) = Some (r, s)"
      using rest idle by (auto simp: stream_update_def STREAM_WRITE_ONLY_def)
    moreover have "stream_updated self (r, s) inp flight waiting (r, s) inp flight waiting"
      using ok rest idle by (auto simp: stream_updated_def stream_carries_def stream_frame_def stream_requests_def
        stream_settled_def)
    ultimately show ?thesis using r by blast
  qed
qed

end
