(* ===== verification/Stream_Run.thy ===== *)
theory Stream_Run
  imports Stream_IO
begin

text \<open>
  Runs of a stream: the calls of its user and the completions of its requests in any order.
\<close>

section \<open>The operations of the user\<close>

lemma buffer_allocate_poke:
  assumes b: "buffer_ok b" and src: "length src = unat n" and lim: "unat (buffer_size b) + unat n \<le> buffer_limit"
  shows "\<exists>b'. buffer_poke (fst (buffer_allocate b n)) (buffer_size b) src = Some b' \<and> buffer_ok b' \<and>
    buffer_cells b' = buffer_cells b @ src"
proof -
  let ?s = "buffer_size b" and ?b = "buffer_resize b (buffer_size b + n)"
  have u: "unat (?s + n) = unat ?s + unat n" using lim by (simp add: unat_add64 buffer_limit_def)
  have rs: "buffer_ok ?b" "buffer_size ?b = ?s + n" "take (unat ?s) (buffer_cells ?b) = buffer_cells b"
    using buffer_resize_spec [OF b, of "?s + n"] u lim length_buffer_cells [OF b] by (simp_all add: min_absorb2)
  have alloc: "fst (buffer_allocate b n) = ?b" by (simp add: buffer_allocate_def Let_def)
  show ?thesis
  proof (cases "buffer_base ?b")
    case None
    then have "unat ?s + unat n = 0" using rs(1,2) u by (auto simp: buffer_ok_def)
    then show ?thesis using None src rs by (auto simp: alloc buffer_poke_def buffer_cells_def [of ?b])
  next
    case (Some blk)
    then have len: "length blk = unat (buf_capacity ?b)" "unat ?s + unat n \<le> length blk"
      using rs(1,2) u by (simp_all add: buffer_ok_def)
    have cells: "take (unat ?s) blk = buffer_cells b"
      using rs(3) Some u by (simp add: buffer_cells_def rs(2) min_def)
    let ?A = "take (unat ?s) blk" and ?X = "take (unat n) (drop (unat ?s) blk)" and ?C = "drop (unat n) (drop (unat ?s) blk)"
    have "blk = ?A @ ?X @ ?C" by (simp only: append_take_drop_id)
    then have "buffer_base ?b = Some (?A @ ?X @ ?C)" using Some by simp
    then have "buffer_poke ?b ?s src = Some (?b\<lparr>buf_data := data_of (Some (?A @ src @ ?C)) (buffer_size ?b)\<rparr>)"
      using len src by (intro buffer_poke_simp) auto
    then show ?thesis
      using len src u cells rs(2) length_buffer_cells [OF b]
      by (simp add: alloc buffer_ok_def buffer_cells_def [of "_\<lparr>buf_data := _\<rparr>"])
  qed
qed

lemma stream_write_spec:
  assumes ok: "stream_ok s inp flight waiting" and d: "data_bytes d = Some bs" and lim: "length waiting + length bs \<le> buffer_limit"
  shows "\<exists>b. stream_write s d = Some (s\<lparr>stream_output_waiting := b\<rparr>) \<and>
    stream_ok (s\<lparr>stream_output_waiting := b\<rparr>) inp flight (waiting @ bs)"
proof -
  let ?w = "stream_output_waiting s"
  have w: "buffer_ok ?w" "buffer_cells ?w = map Some waiting" "unat (buffer_size ?w) = length waiting"
    using ok buffer_holds_cells by (auto simp: stream_ok_def stream_waiting_ok_def)
  have n: "length bs = unat (data_size d)" by (rule length_data_bytes [OF d])
  obtain b where b: "buffer_poke (fst (buffer_allocate ?w (data_size d))) (buffer_size ?w) (map Some bs) = Some b"
    "buffer_ok b" "buffer_cells b = map Some (waiting @ bs)"
    using buffer_allocate_poke [OF w(1), of "map Some bs" "data_size d"] w n lim by auto
  have "stream_write s d = Some (s\<lparr>stream_output_waiting := b\<rparr>)"
    using b(1) data_bytes_read [OF d] by (simp add: stream_write_def stream_allocate_def)
  moreover have "stream_ok (s\<lparr>stream_output_waiting := b\<rparr>) inp flight (waiting @ bs)"
    using ok b(2,3) lim by (auto simp: stream_ok_def stream_input_ok_def stream_flight_ok_def stream_busy_def
      stream_waiting_ok_def buffer_holds_def)
  ultimately show ?thesis by blast
qed

lemma stream_flush_spec:
  assumes ok: "stream_ok s inp flight waiting" and r: "reactor_ready r (n + stream_idle s)"
  shows "\<exists>r' s' inp' flight' waiting'. stream_flush e self (r, s) = Some (r', s') \<and> reactor_ready r' (n + stream_idle s') \<and>
    stream_updated self (r, s\<lparr>stream_output_flushed := buffer_size (stream_output_waiting s)\<rparr>) inp flight waiting (r', s') inp' flight' waiting'"
proof -
  let ?s = "s\<lparr>stream_output_flushed := buffer_size (stream_output_waiting s)\<rparr>"
  have "stream_ok ?s inp flight waiting"
    using ok buffer_holds_cells by (auto simp: stream_ok_def stream_input_ok_def stream_flight_ok_def stream_busy_def stream_waiting_ok_def)
  moreover have "reactor_ready r (n + stream_idle ?s)" using r by (simp add: stream_idle_def)
  ultimately show ?thesis unfolding stream_flush_def case_prod_conv by (rule stream_update_spec)
qed

lemma stream_read_bytes:
  assumes "stream_ok s inp flight waiting"
  shows "data_bytes (stream_read s) = Some (drop (unat (stream_input_consumed s)) inp)"
proof -
  let ?b = "stream_input_buffer s"
  have h: "buffer_holds ?b inp" "unat (stream_input_consumed s) \<le> length inp"
    using assms by (auto simp: stream_ok_def stream_input_ok_def)
  have "data_bytes (buffer_data ?b) = Some inp"
    using buffer_base_holds [OF h(1)] by (simp add: buffer_write_def data_bytes_def buffer_data_def buffer_base_def buffer_size_def)
  moreover have "stream_input_consumed s \<le> data_size (buffer_data ?b)"
    using h buffer_holds_length [OF h(1)] by (simp add: word_le_nat_alt buffer_data_def buffer_size_def)
  ultimately show ?thesis unfolding stream_read_def by (rule data_bytes_offset)
qed

lemma stream_consume_spec:
  assumes ok: "stream_ok s inp flight waiting" and n: "unat (stream_input_consumed s) + unat n \<le> length inp"
  shows "stream_ok (stream_consume s n) inp flight waiting" "unat (stream_input_consumed (stream_consume s n)) = unat (stream_input_consumed s) + unat n"
proof -
  have "length inp \<le> buffer_limit" using ok by (auto simp: stream_ok_def stream_input_ok_def)
  then show *: "unat (stream_input_consumed (stream_consume s n)) = unat (stream_input_consumed s) + unat n"
    using n by (simp add: stream_consume_def unat_add64 buffer_limit_def)
  show "stream_ok (stream_consume s n) inp flight waiting"
    using ok n * by (auto simp: stream_ok_def stream_input_ok_def stream_flight_ok_def stream_busy_def
      stream_waiting_ok_def stream_consume_def)
qed

section \<open>Completions\<close>

text \<open>The bytes a send under way is given are those in flight.\<close>

lemma stream_flight_bytes:
  assumes ok: "stream_flight_ok s flight" and busy: "flight \<noteq> []"
  shows "data_bytes (data_offset (buffer_data (stream_output_writing s)) (stream_output_partial s)) = Some flight"
proof -
  let ?b = "stream_output_writing s"
  obtain out where out: "buffer_holds ?b out" "flight = drop (unat (stream_output_partial s)) out"
    using assms by (auto simp: stream_flight_ok_def)
  have "data_bytes (buffer_data ?b) = Some out"
    using buffer_base_holds [OF out(1)] by (simp add: buffer_write_def data_bytes_def buffer_data_def buffer_base_def buffer_size_def)
  moreover have "stream_output_partial s \<le> data_size (buffer_data ?b)"
    using out busy buffer_holds_length [OF out(1)] by (auto simp: word_le_nat_alt buffer_data_def buffer_size_def)
  ultimately show ?thesis unfolding out(2) by (rule data_bytes_offset)
qed

text \<open>A completion event with a positive result.\<close>

definition completion :: "operand \<Rightarrow> nat \<Rightarrow> reactor_event" where
  "completion self n = reactor_event_define self REACTOR_CALL (of_nat n)"

lemma completion_result:
  assumes "n < 2 ^ 31"
  shows "sint (ucast (event_data (completion self n)) :: int32) = int n"
    "unat (scast (ucast (event_data (completion self n)) :: int32) :: u64) = n"
    "event_state (completion self n) = self"
proof -
  have d: "event_data (completion self n) = of_nat n" "event_state (completion self n) = self"
    by (simp_all add: completion_def reactor_event_define_def)
  show "event_state (completion self n) = self" by (fact d(2))
  have u: "(ucast (of_nat n :: u64) :: int32) = of_nat n"
    using assms by (intro unsigned_word_eqI) (simp add: unsigned_ucast_eq unsigned_of_nat take_bit_nat_eq_self)
  have s: "sint (of_nat n :: int32) = int n"
    using assms by (simp add: signed_of_nat signed_take_bit_int_eq_self)
  show "sint (ucast (event_data (completion self n)) :: int32) = int n" unfolding d u by (fact s)
  have "(scast (of_nat n :: int32) :: u64) = of_nat n"
    unfolding scast_eq s by simp
  then show "unat (scast (ucast (event_data (completion self n)) :: int32) :: u64) = n"
    unfolding d u using assms by (simp add: unat_of_nat take_bit_eq_mod)
qed

lemma stream_send_completes:
  assumes ok: "stream_ok s inp flight waiting" and busy: "stream_writing s \<noteq> 0"
    and n: "0 < n" "n \<le> length flight" "n < 2 ^ 31" and w: "world_stream w = Some s"
  shows "\<exists>s1. stream_send invoke e (completion self n) w = stream_at (stream_update e self) (w\<lparr>world_stream := Some s1\<rparr>) \<and>
    stream_ok s1 inp (drop n flight) waiting \<and> stream_idle s1 = Suc (stream_idle s) \<and>
    stream_input_consumed s1 = stream_input_consumed s \<and> stream_output_flushed s1 = stream_output_flushed s \<and>
    stream_fd_of s1 = stream_fd_of s \<and> stream_flags s1 = stream_flags s \<and> stream_user s1 = stream_user s \<and>
    stream_abort s1 = stream_abort s \<and> stream_reading s1 = stream_reading s"
proof -
  let ?r = "scast (ucast (event_data (completion self n)) :: int32) :: u64" and ?p = "stream_output_partial s"
    and ?b = "stream_output_writing s"
  note res = completion_result [OF n(3), of self]
  obtain out where out: "buffer_holds ?b out" "flight = drop (unat ?p) out" "flight \<noteq> []" "unat ?p + n \<le> length out"
    using ok busy n by (auto simp: stream_ok_def stream_flight_ok_def stream_busy_def)
  have len: "unat (buffer_size ?b) = length out" using buffer_holds_length [OF out(1)] by simp
  have "unat ?p + n < 2 ^ 64" using out(4) len unat_lt64 [of "buffer_size ?b"] by simp
  then have p: "unat (?p + ?r) = unat ?p + n" using res(2) by (simp add: unat_add64)
  then have full: "?p + ?r = buffer_size ?b \<longleftrightarrow> unat ?p + n = length out"
    using len by (simp add: word_unat_eq_iff)
  define s1 where "s1 = s\<lparr>stream_writing := 0, stream_output_offset := stream_output_offset s + ?r,
    stream_output_partial := (if unat ?p + n = length out then 0 else ?p + ?r)\<rparr>"
  have "stream_send invoke e (completion self n) w = stream_at (stream_update e self) (w\<lparr>world_stream := Some s1\<rparr>)"
    using w n res full by (auto simp: stream_send_def Let_def s1_def)
  moreover have nz: "?p + ?r \<noteq> 0"
  proof
    assume "?p + ?r = 0"
    then have "unat ?p + n = 0" using p by simp
    then show False using n by simp
  qed
  have flight: "stream_flight_ok s1 (drop n flight)"
    unfolding stream_flight_ok_def
  proof (intro exI [of _ out] conjI impI)
    show "buffer_holds (stream_output_writing s1) out" using out(1) by (simp add: s1_def)
    show "stream_busy s1 = (drop n flight \<noteq> [])"
      using nz out by (auto simp: stream_busy_def s1_def)
    show "drop n flight = drop (unat (stream_output_partial s1)) out" if "stream_busy s1"
      using that p out(2) by (auto simp: stream_busy_def s1_def add.commute split: if_splits)
  qed
  have "stream_ok s1 inp (drop n flight) waiting"
    using ok flight by (simp add: stream_ok_def stream_input_ok_def stream_waiting_ok_def) (simp add: s1_def)
  moreover have "stream_idle s1 = Suc (stream_idle s)" using busy by (simp add: s1_def stream_idle_def)
  ultimately show ?thesis by (intro exI [of _ s1]) (simp add: s1_def)
qed

text \<open>A receive under way that gets the bytes \<open>bs\<close>: the kernel stores them behind those in the buffer.\<close>

definition stream_fill :: "'a stream \<Rightarrow> byte list \<Rightarrow> 'a stream option" where
  "stream_fill s bs =
     map_option (\<lambda>b. s\<lparr>stream_input_buffer := b\<rparr>)
       (buffer_poke (stream_input_buffer s) (buffer_size (stream_input_buffer s)) (map Some bs))"

text \<open>What \<open>stream_recv\<close> does after its callback has returned.\<close>

definition stream_recv_return ::
    "'k reactor_env \<Rightarrow> operand \<Rightarrow> ('a, 'k, 'w) stream_world \<Rightarrow> ('a, 'k, 'w) stream_world option" where
  "stream_recv_return e self w =
     (let w' = w\<lparr>world_abort := butlast (world_abort w)\<rparr>
      in if last (world_abort w) then Some w'
         else Option.bind (world_stream w) (\<lambda>s.
           stream_at (stream_update e self) (w'\<lparr>world_stream := Some (s\<lparr>stream_abort := None\<rparr>)\<rparr>)))"

lemma buffer_poke_end:
  assumes b: "buffer_holds b inp" and room: "length inp + length bs \<le> unat (buf_capacity b)"
  shows "\<exists>b'. buffer_poke b (buffer_size b) (map Some bs) = Some b' \<and> buffer_size b' = buffer_size b \<and>
    buffer_holds (buffer_resize b' (buffer_size b + of_nat (length bs))) (inp @ bs) \<and>
    buf_capacity (buffer_resize b' (buffer_size b + of_nat (length bs))) = buf_capacity b"
proof -
  let ?s = "buffer_size b" and ?n = "length bs"
  have ok: "buffer_ok b" "buffer_cells b = map Some inp" "unat ?s = length inp" using buffer_holds_cells [OF b] by auto
  have lt: "length inp + ?n < 2 ^ 64" using le_less_trans [OF room unat_lt64] by simp
  then have "unat (of_nat ?n :: u64) = ?n" by (subst unat_of_nat64) simp_all
  then have u: "unat (?s + of_nat ?n) = length inp + ?n" using lt ok(3) by (simp add: unat_add64)
  then have cap: "?s + of_nat ?n \<le> buf_capacity b" using room by (simp add: word_le_nat_alt)
  show ?thesis
  proof (cases "buffer_base b")
    case None
    then have "unat (buf_capacity b) = 0" using ok(1) by (auto simp: buffer_ok_def)
    then have z: "inp = []" "bs = []" "buffer_size b = 0" "buf_capacity b = 0"
      using room ok(3) by (simp_all add: unat_eq_zero)
    then have "buffer_resize b 0 = b\<lparr>buf_data := data_of None 0\<rparr>" using None by (simp add: buffer_resize_within)
    then show ?thesis using None z by (simp add: buffer_poke_def buffer_holds_def buffer_ok_def buffer_cells_def)
  next
    case (Some blk)
    then have len: "length blk = unat (buf_capacity b)" using ok(1) by (simp add: buffer_ok_def)
    have cells: "take (unat ?s) blk = map Some inp" using ok(2) Some by (simp add: buffer_cells_def)
    let ?A = "take (unat ?s) blk" and ?X = "take ?n (drop (unat ?s) blk)" and ?C = "drop ?n (drop (unat ?s) blk)"
    have "blk = ?A @ ?X @ ?C" by (simp only: append_take_drop_id)
    then have "buffer_base b = Some (?A @ ?X @ ?C)" using Some by simp
    then have "buffer_poke b ?s (map Some bs) = Some (b\<lparr>buf_data := data_of (Some (?A @ map Some bs @ ?C)) ?s\<rparr>)"
      using len room ok(3) by (intro buffer_poke_simp) auto
    then show ?thesis
      using len room u cells cap ok(3)
      by (simp add: buffer_resize_within buffer_holds_def buffer_ok_def buffer_cells_def [of "_\<lparr>buf_data := _\<rparr>"])
  qed
qed

lemma stream_recv_completes:
  assumes ok: "stream_ok s inp flight waiting" and reading: "stream_reading s \<noteq> 0"
    and bs: "bs \<noteq> []" "length bs \<le> unat STREAM_BLOCK_SIZE"
    and lim: "length inp + length bs + unat STREAM_BLOCK_SIZE \<le> buffer_limit"
  shows "\<exists>s0 s1. stream_fill s bs = Some s0 \<and> stream_recv invoke e (completion self (length bs)) (w\<lparr>world_stream := Some s0\<rparr>) =
      Option.bind (reactor_call invoke (stream_user s) STREAM_READ 0
        (w\<lparr>world_stream := Some s1, world_abort := world_abort w @ [False]\<rparr>)) (stream_recv_return e self) \<and>
    stream_ok s1 (inp @ bs) flight waiting \<and> stream_idle s1 = Suc (stream_idle s) \<and>
    stream_input_consumed s1 = stream_input_consumed s \<and> stream_abort s1 = Some (length (world_abort w)) \<and>
    stream_writing s1 = stream_writing s \<and> stream_output_partial s1 = stream_output_partial s \<and>
    stream_output_flushed s1 = stream_output_flushed s \<and>
    stream_fd_of s1 = stream_fd_of s \<and> stream_flags s1 = stream_flags s \<and> stream_user s1 = stream_user s \<and>
    stream_reading s1 = 0 \<and> stream_output_writing s1 = stream_output_writing s"
proof -
  let ?n = "length bs" and ?b = "stream_input_buffer s"
  let ?r = "scast (ucast (event_data (completion self ?n)) :: int32) :: u64"
  have n: "0 < ?n" "?n < 2 ^ 31" using bs by (simp_all add: STREAM_BLOCK_SIZE_def)
  note res = completion_result [OF n(2), of self]
  have r: "?r = of_nat ?n" using res(2) by (metis of_nat_unat ucast_id)
  have h: "buffer_holds ?b inp" "length inp + ?n \<le> unat (buf_capacity ?b)"
    using ok reading bs by (auto simp: stream_ok_def stream_input_ok_def)
  obtain b where b: "buffer_poke ?b (buffer_size ?b) (map Some bs) = Some b" "buffer_size b = buffer_size ?b"
    "buffer_holds (buffer_resize b (buffer_size ?b + of_nat ?n)) (inp @ bs)"
    using buffer_poke_end [OF h] by blast
  define s1 where "s1 = s\<lparr>stream_reading := 0, stream_input_offset := stream_input_offset s + ?r,
    stream_input_buffer := buffer_resize b (buffer_size ?b + ?r), stream_abort := Some (length (world_abort w))\<rparr>"
  have fill: "stream_fill s bs = Some (s\<lparr>stream_input_buffer := b\<rparr>)" using b(1) by (simp add: stream_fill_def)
  have "stream_recv invoke e (completion self ?n) (w\<lparr>world_stream := Some (s\<lparr>stream_input_buffer := b\<rparr>)\<rparr>) =
      Option.bind (reactor_call invoke (stream_user s) STREAM_READ 0
        (w\<lparr>world_stream := Some s1, world_abort := world_abort w @ [False]\<rparr>)) (stream_recv_return e self)"
    using n res b(2) by (simp add: stream_recv_def Let_def s1_def stream_recv_return_def [abs_def] cong: if_cong)
  moreover have "stream_ok s1 (inp @ bs) flight waiting"
    using ok b(3) lim unfolding r [symmetric]
    by (auto simp: stream_ok_def stream_input_ok_def stream_flight_ok_def stream_busy_def stream_waiting_ok_def s1_def)
  moreover have "stream_idle s1 = Suc (stream_idle s)" using reading by (simp add: s1_def stream_idle_def)
  ultimately show ?thesis
    by (intro exI [of _ "s\<lparr>stream_input_buffer := b\<rparr>"] exI [of _ s1]) (simp add: fill, simp add: s1_def)
qed

section \<open>Runs\<close>

text \<open>
  Calls of the user, with the history of the bytes written and of those taken from the input. It
  writes no more than fits a buffer, and consumes only what there is.
\<close>

type_synonym history = "byte list \<times> byte list"

inductive stream_uses ::
    "'k reactor_env \<Rightarrow> operand \<Rightarrow> ('a, 'k) stream_state \<Rightarrow> history \<Rightarrow> ('a, 'k) stream_state \<Rightarrow> history \<Rightarrow> bool"
  for e self where
  stop: "stream_uses e self rs h rs h"
| wrote: "stream_write s d = Some s1 \<Longrightarrow> data_bytes d = Some bs \<Longrightarrow> length written + length bs \<le> buffer_limit \<Longrightarrow>
    stream_uses e self (r, s1) (written @ bs, taken) rs h \<Longrightarrow> stream_uses e self (r, s) (written, taken) rs h"
| flushed: "stream_flush e self (r, s) = Some rs1 \<Longrightarrow> stream_uses e self rs1 h1 rs h \<Longrightarrow> stream_uses e self (r, s) h1 rs h"
| consumed: "data_bytes (stream_read s) = Some bs \<Longrightarrow> unat n \<le> length bs \<Longrightarrow>
    stream_uses e self (r, stream_consume s n) (written, taken @ take (unat n) bs) rs h \<Longrightarrow>
    stream_uses e self (r, s) (written, taken) rs h"

text \<open>A user whose callback uses the stream through these calls; \<open>hist\<close> reads the history.\<close>

definition stream_client ::
    "'k reactor_env \<Rightarrow> operand \<Rightarrow> ('w \<Rightarrow> history) \<Rightarrow>
      ('a reactor_handler \<Rightarrow> reactor_event \<Rightarrow> ('a, 'k, 'w) stream_world \<Rightarrow> ('a, 'k, 'w) stream_world option) \<Rightarrow> bool" where
  "stream_client e self hist invoke \<longleftrightarrow>
     (\<forall>c event w w' s. invoke c event w = Some w' \<longrightarrow> world_stream w = Some s \<longrightarrow>
        (\<exists>s'. world_stream w' = Some s' \<and> world_abort w' = world_abort w \<and>
          stream_uses e self (world_reactor w, s) (hist (world_rest w)) (world_reactor w', s') (hist (world_rest w'))))"

text \<open>
  A run from the world \<open>w0\<close>: \<open>k\<close> completions, the bytes \<open>sent\<close> the kernel has taken from the
  requests and the bytes \<open>received\<close> it has stored.
\<close>

inductive stream_run ::
    "('a reactor_handler \<Rightarrow> reactor_event \<Rightarrow> ('a, 'k, 'w) stream_world \<Rightarrow> ('a, 'k, 'w) stream_world option) \<Rightarrow>
      'k reactor_env \<Rightarrow> operand \<Rightarrow> ('w \<Rightarrow> history) \<Rightarrow> ('a, 'k, 'w) stream_world \<Rightarrow>
      nat \<Rightarrow> ('a, 'k, 'w) stream_world \<Rightarrow> byte list \<Rightarrow> byte list \<Rightarrow> bool"
  for invoke e self hist w0 where
  start: "stream_run invoke e self hist w0 0 w0 [] []"
| uses: "stream_run invoke e self hist w0 k w sent received \<Longrightarrow> world_stream w = Some s \<Longrightarrow>
    stream_uses e self (world_reactor w, s) (hist (world_rest w)) (r, s') (hist rest) \<Longrightarrow>
    stream_run invoke e self hist w0 k (w\<lparr>world_reactor := r, world_stream := Some s', world_rest := rest\<rparr>) sent received"
| sent: "stream_run invoke e self hist w0 k w sent received \<Longrightarrow> world_stream w = Some s \<Longrightarrow> stream_writing s \<noteq> 0 \<Longrightarrow>
    data_bytes (data_offset (buffer_data (stream_output_writing s)) (stream_output_partial s)) = Some flight \<Longrightarrow>
    0 < n \<Longrightarrow> n \<le> length flight \<Longrightarrow> n < 2 ^ 31 \<Longrightarrow>
    stream_send invoke e (completion self n) w = Some w' \<Longrightarrow>
    stream_run invoke e self hist w0 (Suc k) w' (sent @ take n flight) received"
| received: "stream_run invoke e self hist w0 k w sent received \<Longrightarrow> world_stream w = Some s \<Longrightarrow> stream_reading s \<noteq> 0 \<Longrightarrow>
    bs \<noteq> [] \<Longrightarrow> length bs \<le> unat STREAM_BLOCK_SIZE \<Longrightarrow>
    length received + length bs + unat STREAM_BLOCK_SIZE \<le> buffer_limit \<Longrightarrow> stream_fill s bs = Some s0 \<Longrightarrow>
    stream_recv invoke e (completion self (length bs)) (w\<lparr>world_stream := Some s0\<rparr>) = Some w' \<Longrightarrow>
    stream_run invoke e self hist w0 (Suc k) w' sent (received @ bs)"

definition stream_history_ok :: "'a stream \<Rightarrow> history \<Rightarrow> byte list \<Rightarrow> byte list \<Rightarrow> bool" where
  "stream_history_ok s h sent received \<longleftrightarrow>
     (\<exists>inp flight waiting old. stream_ok s inp flight waiting \<and> fst h = sent @ flight @ waiting \<and>
        received = old @ inp \<and> snd h = old @ take (unat (stream_input_consumed s)) inp)"

lemma stream_updated_history:
  assumes up: "stream_updated self (r, s) inp flight waiting (r', s') inp' flight' waiting'"
    and h: "fst h = sent @ flight @ waiting" "received = old @ inp" "snd h = old @ take (unat (stream_input_consumed s)) inp"
  shows "stream_history_ok s' h sent received"
proof -
  have ok: "stream_ok s' inp' flight' waiting'" and c: "stream_carries s inp flight waiting s' inp' flight' waiting'"
    using up by (simp_all add: stream_updated_def)
  have out: "flight' @ waiting' = flight @ waiting" using c by (auto simp: stream_carries_def split: if_splits)
  have "\<exists>old'. received = old' @ inp' \<and> snd h = old' @ take (unat (stream_input_consumed s')) inp'"
    using c h(2,3) by (auto simp: stream_carries_def)
  then show ?thesis unfolding stream_history_ok_def h(1) out [symmetric] using ok by blast
qed

lemma stream_uses_history:
  assumes "stream_uses e self rs h rs' h'" "stream_history_ok (snd rs) h sent received" "reactor_ready (fst rs) (m + stream_idle (snd rs))"
  shows "stream_history_ok (snd rs') h' sent received \<and> reactor_ready (fst rs') (m + stream_idle (snd rs')) \<and>
    stream_abort (snd rs') = stream_abort (snd rs) \<and> (stream_settled (snd rs) \<longrightarrow> stream_settled (snd rs'))"
  using assms
proof induction
  case (wrote s d s1 bs written r taken rs h)
  obtain inp flight waiting old where ok: "stream_ok s inp flight waiting" "written = sent @ flight @ waiting"
      "received = old @ inp" "taken = old @ take (unat (stream_input_consumed s)) inp"
    using wrote.prems(1) by (auto simp: stream_history_ok_def)
  have "length waiting + length bs \<le> buffer_limit" using wrote.hyps(3) ok(2) by simp
  from stream_write_spec [OF ok(1) wrote.hyps(2) this]
  obtain b where b: "s1 = s\<lparr>stream_output_waiting := b\<rparr>" "stream_ok s1 inp flight (waiting @ bs)"
    using wrote.hyps(1) by auto
  have "stream_history_ok s1 (written @ bs, taken) sent received"
    unfolding stream_history_ok_def using b ok
    by (intro exI [of _ inp] exI [of _ flight] exI [of _ "waiting @ bs"] exI [of _ old]) simp
  moreover have "stream_idle s1 = stream_idle s" "stream_settled s1 = stream_settled s" "stream_abort s1 = stream_abort s"
    by (simp_all add: b(1) stream_idle_def stream_settled_def stream_is_open_def)
  ultimately show ?case using wrote.IH wrote.prems(2) by simp
next
  case (flushed r s rs1 h1 rs h)
  obtain inp flight waiting old where ok: "stream_ok s inp flight waiting" "fst h1 = sent @ flight @ waiting"
      "received = old @ inp" "snd h1 = old @ take (unat (stream_input_consumed s)) inp"
    using flushed.prems(1) by (auto simp: stream_history_ok_def)
  let ?s = "s\<lparr>stream_output_flushed := buffer_size (stream_output_waiting s)\<rparr>"
  obtain r1 s1 inp' flight' waiting' where u: "rs1 = (r1, s1)" "reactor_ready r1 (m + stream_idle s1)"
    "stream_updated self (r, ?s) inp flight waiting (r1, s1) inp' flight' waiting'"
    using stream_flush_spec [OF ok(1), of r m e self] flushed.prems(2) flushed.hyps(1) by auto
  have "stream_history_ok s1 h1 sent received"
    using stream_updated_history [OF u(3) ok(2,3)] ok(4) by simp
  moreover have "stream_abort s1 = stream_abort s" "stream_settled s1"
    using u(3) by (simp_all add: stream_updated_def stream_frame_def)
  ultimately show ?case using flushed.IH u(1,2) by simp
next
  case (consumed s bs n r written taken rs h)
  obtain inp flight waiting old where ok: "stream_ok s inp flight waiting" "written = sent @ flight @ waiting"
      "received = old @ inp" "taken = old @ take (unat (stream_input_consumed s)) inp"
    using consumed.prems(1) by (auto simp: stream_history_ok_def)
  let ?c = "unat (stream_input_consumed s)"
  have bs: "bs = drop ?c inp" "?c \<le> length inp"
    using stream_read_bytes [OF ok(1)] consumed.hyps(1) ok(1) by (auto simp: stream_ok_def stream_input_ok_def)
  then have "?c + unat n \<le> length inp" using consumed.hyps(2) by simp
  note c = stream_consume_spec [OF ok(1) this]
  have "stream_history_ok (stream_consume s n) (written, taken @ take (unat n) bs) sent received"
    unfolding stream_history_ok_def using c ok(2-4) bs(1)
    by (intro exI [of _ inp] exI [of _ flight] exI [of _ waiting] exI [of _ old]) (simp add: take_add)
  moreover have "stream_idle (stream_consume s n) = stream_idle s" "stream_settled (stream_consume s n) = stream_settled s"
    "stream_abort (stream_consume s n) = stream_abort s"
    by (simp_all add: stream_consume_def stream_idle_def stream_settled_def stream_is_open_def)
  ultimately show ?case using consumed.IH consumed.prems(2) by simp
qed simp

definition stream_world_ok :: "('w \<Rightarrow> history) \<Rightarrow> nat \<Rightarrow> ('a, 'k, 'w) stream_world \<Rightarrow> byte list \<Rightarrow> byte list \<Rightarrow> bool" where
  "stream_world_ok hist m w sent received \<longleftrightarrow>
     (\<exists>s. world_stream w = Some s \<and> stream_history_ok s (hist (world_rest w)) sent received \<and>
        reactor_ready (world_reactor w) (m + stream_idle s) \<and> stream_settled s)"

text \<open>An update of a stream that is not settled settles it.\<close>

lemma stream_update_world:
  assumes h: "stream_history_ok s (hist (world_rest w)) sent received" and r: "reactor_ready (world_reactor w) (m + stream_idle s)"
  shows "\<exists>w'. stream_at (stream_update e self) (w\<lparr>world_stream := Some s\<rparr>) = Some w' \<and>
    stream_world_ok hist m w' sent received \<and> world_abort w' = world_abort w"
proof -
  obtain inp flight waiting old where ok: "stream_ok s inp flight waiting" "fst (hist (world_rest w)) = sent @ flight @ waiting"
      "received = old @ inp" "snd (hist (world_rest w)) = old @ take (unat (stream_input_consumed s)) inp"
    using h by (auto simp: stream_history_ok_def)
  obtain r' s' inp' flight' waiting' where u: "stream_update e self (world_reactor w, s) = Some (r', s')"
    "reactor_ready r' (m + stream_idle s')"
    "stream_updated self (world_reactor w, s) inp flight waiting (r', s') inp' flight' waiting'"
    using stream_update_spec [OF ok(1) r, of e self] by blast
  have "stream_settled s'" using u(3) by (simp add: stream_updated_def)
  then show ?thesis
    using u(1,2) stream_updated_history [OF u(3) ok(2-4)] by (simp add: stream_at_def stream_world_ok_def)
qed

lemma stream_call_client:
  assumes client: "stream_client e self hist invoke" and call: "reactor_call invoke u t v w = Some w'" and s: "world_stream w = Some s"
  shows "\<exists>s'. world_stream w' = Some s' \<and> world_abort w' = world_abort w \<and>
    stream_uses e self (world_reactor w, s) (hist (world_rest w)) (world_reactor w', s') (hist (world_rest w'))"
proof (cases "user_callback u")
  case (Callback c)
  then have "invoke c (reactor_event_define (user_state u) t v) w = Some w'" using call by (simp add: reactor_call_def)
  then show ?thesis using client s unfolding stream_client_def by blast
next
  case Reactor_user_callback
  then show ?thesis using call s by (auto simp: reactor_call_def stream_uses.stop)
qed

lemma stream_recv_world:
  assumes client: "stream_client e self hist invoke" and h: "stream_history_ok s (hist (world_rest w)) sent received"
    and r: "reactor_ready (world_reactor w) (Suc m + stream_idle s)" and reading: "stream_reading s \<noteq> 0"
    and bs: "bs \<noteq> []" "length bs \<le> unat STREAM_BLOCK_SIZE"
    and lim: "length received + length bs + unat STREAM_BLOCK_SIZE \<le> buffer_limit"
    and fill: "stream_fill s bs = Some s0"
    and recv: "stream_recv invoke e (completion self (length bs)) (w\<lparr>world_stream := Some s0\<rparr>) = Some w'"
  shows "stream_world_ok hist m w' sent (received @ bs)"
proof -
  obtain inp flight waiting old where ok: "stream_ok s inp flight waiting" "fst (hist (world_rest w)) = sent @ flight @ waiting"
      "received = old @ inp" "snd (hist (world_rest w)) = old @ take (unat (stream_input_consumed s)) inp"
    using h by (auto simp: stream_history_ok_def)
  have "length inp + length bs + unat STREAM_BLOCK_SIZE \<le> buffer_limit" using lim ok(3) by simp
  from stream_recv_completes [OF ok(1) reading bs this, of invoke e self w]
  obtain s1 where s1: "stream_recv invoke e (completion self (length bs)) (w\<lparr>world_stream := Some s0\<rparr>) =
      Option.bind (reactor_call invoke (stream_user s) STREAM_READ 0
        (w\<lparr>world_stream := Some s1, world_abort := world_abort w @ [False]\<rparr>)) (stream_recv_return e self)"
    "stream_ok s1 (inp @ bs) flight waiting" "stream_idle s1 = Suc (stream_idle s)"
    "stream_input_consumed s1 = stream_input_consumed s"
    using fill by auto
  obtain w1 where w1: "reactor_call invoke (stream_user s) STREAM_READ 0
      (w\<lparr>world_stream := Some s1, world_abort := world_abort w @ [False]\<rparr>) = Some w1" "stream_recv_return e self w1 = Some w'"
    using recv unfolding s1(1) by (auto simp: bind_eq_Some_conv)
  obtain s2 where s2: "world_stream w1 = Some s2" "world_abort w1 = world_abort w @ [False]"
    "stream_uses e self (world_reactor w, s1) (hist (world_rest w)) (world_reactor w1, s2) (hist (world_rest w1))"
    using stream_call_client [OF client w1(1)] by auto
  have "unat (stream_input_consumed s) \<le> length inp" using ok(1) by (simp add: stream_ok_def stream_input_ok_def)
  then have "stream_history_ok s1 (hist (world_rest w)) sent (received @ bs)"
    unfolding stream_history_ok_def using s1(2,4) ok(2-4)
    by (intro exI [of _ "inp @ bs"] exI [of _ flight] exI [of _ waiting] exI [of _ old]) simp
  from stream_uses_history [OF s2(3), of sent "received @ bs" m] this
  have u: "stream_history_ok s2 (hist (world_rest w1)) sent (received @ bs)" "reactor_ready (world_reactor w1) (m + stream_idle s2)"
    using r s1(3) by simp_all
  let ?s = "s2\<lparr>stream_abort := None\<rparr>" and ?w = "w1\<lparr>world_abort := world_abort w\<rparr>"
  have "stream_history_ok ?s (hist (world_rest ?w)) sent (received @ bs)" "reactor_ready (world_reactor ?w) (m + stream_idle ?s)"
    using u by (simp_all add: stream_history_ok_def stream_ok_def stream_input_ok_def stream_flight_ok_def
      stream_busy_def stream_waiting_ok_def stream_idle_def)
  from stream_update_world [of ?s hist ?w, OF this]
  obtain w2 where "stream_at (stream_update e self) (?w\<lparr>world_stream := Some ?s\<rparr>) = Some w2"
    "stream_world_ok hist m w2 sent (received @ bs)" by blast
  then show ?thesis using w1(2) s2(1,2) by (simp add: stream_recv_return_def)
qed

lemma stream_send_world:
  assumes h: "stream_history_ok s (hist (world_rest w)) sent received" and w: "world_stream w = Some s"
    and r: "reactor_ready (world_reactor w) (Suc m + stream_idle s)" and writing: "stream_writing s \<noteq> 0"
    and flight: "data_bytes (data_offset (buffer_data (stream_output_writing s)) (stream_output_partial s)) = Some flight"
    and n: "0 < n" "n \<le> length flight" "n < 2 ^ 31"
  shows "\<exists>w'. stream_send invoke e (completion self n) w = Some w' \<and>
    stream_world_ok hist m w' (sent @ take n flight) received"
proof -
  obtain inp fl waiting old where ok: "stream_ok s inp fl waiting" "fst (hist (world_rest w)) = sent @ fl @ waiting"
      "received = old @ inp" "snd (hist (world_rest w)) = old @ take (unat (stream_input_consumed s)) inp"
    using h by (auto simp: stream_history_ok_def)
  have fl: "stream_flight_ok s fl" "fl \<noteq> []" using ok(1) writing by (auto simp: stream_ok_def stream_flight_ok_def stream_busy_def)
  then have "flight = fl" using stream_flight_bytes [OF fl] flight by simp
  then have n': "n \<le> length fl" using n(2) by simp
  obtain s1 where s1: "stream_send invoke e (completion self n) w = stream_at (stream_update e self) (w\<lparr>world_stream := Some s1\<rparr>)"
    "stream_ok s1 inp (drop n fl) waiting" "stream_idle s1 = Suc (stream_idle s)"
    "stream_input_consumed s1 = stream_input_consumed s"
    using stream_send_completes [OF ok(1) writing n(1) n' n(3) w, of invoke e self] by blast
  have "stream_history_ok s1 (hist (world_rest w)) (sent @ take n fl) received"
    unfolding stream_history_ok_def using s1(2,4) ok(2-4)
    by (intro exI [of _ inp] exI [of _ "drop n fl"] exI [of _ waiting] exI [of _ old]) simp
  moreover have "reactor_ready (world_reactor w) (m + stream_idle s1)" using r s1(3) by simp
  ultimately show ?thesis using stream_update_world s1(1) unfolding \<open>flight = fl\<close> by metis
qed

lemma stream_run_ok:
  assumes "stream_run invoke e self hist w0 k w sent received" and client: "stream_client e self hist invoke"
    and "stream_world_ok hist (m + k) w0 [] []"
  shows "stream_world_ok hist m w sent received"
  using assms(1,3)
proof (induction arbitrary: m)
  case (uses k w sent received s r s' rest)
  then have "stream_world_ok hist m w sent received" by blast
  then have h: "stream_history_ok s (hist (world_rest w)) sent received" "reactor_ready (world_reactor w) (m + stream_idle s)"
    "stream_settled s"
    using uses.hyps(2) by (auto simp: stream_world_ok_def)
  then show ?case using stream_uses_history [OF uses.hyps(3)] by (simp add: stream_world_ok_def)
next
  case (sent k w sent received s flight n w')
  then have "stream_world_ok hist (Suc m) w sent received" by simp
  then have h: "stream_history_ok s (hist (world_rest w)) sent received" "reactor_ready (world_reactor w) (Suc m + stream_idle s)"
    using sent.hyps(2) by (auto simp: stream_world_ok_def)
  then show ?case using stream_send_world [where hist = hist and m = m, OF h(1) sent.hyps(2) h(2) sent.hyps(3-7), of invoke e self] sent.hyps(8) by simp
next
  case (received k w sent received s bs s0 w')
  then have "stream_world_ok hist (Suc m) w sent received" by simp
  then have h: "stream_history_ok s (hist (world_rest w)) sent received" "reactor_ready (world_reactor w) (Suc m + stream_idle s)"
    using received.hyps(2) by (auto simp: stream_world_ok_def)
  then show ?case by (rule stream_recv_world [OF client _ _ received.hyps(3-8)])
qed simp

section \<open>Opening and closing\<close>

lemma stream_construct_ok: "stream_ok (stream_construct callback state) [] [] []"
  using exI [of "buffer_holds buffer_construct", OF buffer_construct_holds]
  by (simp add: stream_ok_def stream_input_ok_def stream_flight_ok_def stream_busy_def stream_waiting_ok_def
    stream_construct_def buffer_limit_def STREAM_BLOCK_SIZE_def)

lemma stream_open_spec:
  assumes mode: "fstat fd = Some mode" and r: "reactor_ready r (n + 2)"
  shows "\<exists>r' s. stream_open e fstat self fd flags (r, stream_construct callback state) = Some (r', s) \<and>
    reactor_ready r' (n + stream_idle s) \<and> stream_ok s [] [] [] \<and> stream_settled s \<and> stream_fd_of s = fd \<and> stream_flags s = flags \<and>
    stream_user s = reactor_user_define callback state \<and>
    stream_type_of s = (if S_ISSOCK mode then STREAM_TYPE_SOCKET else STREAM_TYPE_FILE)"
proof -
  define s0 where "s0 = (stream_construct callback state)\<lparr>stream_fd_of := fd, stream_flags := flags,
    stream_type_of := (if S_ISSOCK mode then STREAM_TYPE_SOCKET else STREAM_TYPE_FILE)\<rparr>"
  have ok: "stream_ok s0 [] [] []"
    using stream_construct_ok [of callback state] by (simp add: s0_def stream_ok_def stream_input_ok_def
      stream_flight_ok_def stream_busy_def stream_waiting_ok_def)
  have "stream_idle s0 = 2" by (simp add: s0_def stream_idle_def stream_construct_def)
  then obtain r' s inp' flight' waiting' where u: "stream_update e self (r, s0) = Some (r', s)" "reactor_ready r' (n + stream_idle s)"
    "stream_updated self (r, s0) [] [] [] (r', s) inp' flight' waiting'"
    using stream_update_spec [OF ok, of r n e self] r by auto
  have open_eq: "stream_open e fstat self fd flags (r, stream_construct callback state) = Some (r', s)"
    using u(1) mode by (simp add: stream_open_def s0_def)
  have "inp' = [] \<and> flight' = [] \<and> waiting' = []"
    using u(3) by (auto simp: stream_updated_def stream_carries_def split: if_splits)
  moreover have "stream_fd_of s = fd" "stream_flags s = flags" "stream_user s = reactor_user_define callback state"
    "stream_type_of s = (if S_ISSOCK mode then STREAM_TYPE_SOCKET else STREAM_TYPE_FILE)"
    using u(3) by (simp_all add: stream_updated_def stream_frame_def s0_def stream_construct_def)
  ultimately show ?thesis using u(2,3) open_eq by (auto simp: stream_updated_def)
qed

definition cancel_sqe :: "reactor_t \<Rightarrow> reactor_t \<Rightarrow> io_uring_sqe" where
  "cancel_sqe u ident = sqe_zero\<lparr>sqe_opcode := IORING_OP_ASYNC_CANCEL, sqe_addr := Number u, sqe_user_data := ident\<rparr>"

definition close_sqe :: "int32 \<Rightarrow> reactor_t \<Rightarrow> io_uring_sqe" where
  "close_sqe fd ident = sqe_zero\<lparr>sqe_fd := fd, sqe_opcode := IORING_OP_CLOSE, sqe_user_data := ident\<rparr>"

definition release_user :: "buffer \<Rightarrow> 'a reactor_handler reactor_user" where
  "release_user b = reactor_user_define (Some Stream_release_buffer) (Pointer (buffer_base b))"

definition stream_closed :: "'a stream \<Rightarrow> 'a stream" where
  "stream_closed s = s\<lparr>stream_input_buffer := (if stream_reading s \<noteq> 0 then buffer_construct else stream_input_buffer s),
     stream_reading := 0,
     stream_output_writing := (if stream_writing s \<noteq> 0 then buffer_construct else stream_output_writing s),
     stream_writing := 0,
     stream_fd_of := (if stream_is_open s then - 1 else stream_fd_of s)\<rparr>"

text \<open>Closing in three steps, each of which is skipped when there is nothing to do.\<close>

definition cancel_request ::
    "'k reactor_env \<Rightarrow> reactor_t \<Rightarrow> buffer \<Rightarrow> ('a reactor_handler, 'k) reactor \<Rightarrow> ('a reactor_handler, 'k) reactor option" where
  "cancel_request e u b r =
     (if u \<noteq> 0 then reactor_cancel e u (Some Stream_release_buffer) (Pointer (buffer_base b)) r else Some r)"

lemma stream_close_steps:
  "stream_close e (r, s) = Option.bind (cancel_request e (stream_reading s) (stream_input_buffer s) r) (\<lambda>r.
     Option.bind (cancel_request e (stream_writing s) (stream_output_writing s) r) (\<lambda>r.
     Option.bind (if stream_is_open s then map_option fst (reactor_close e None (Number 0) (stream_fd_of s) r) else Some r)
       (\<lambda>r. Some (r, stream_closed s))))"
  by (auto simp: stream_close_def cancel_request_def stream_closed_def stream_is_open_def buffer_deconstruct_def
    Option.bind_eq_Some_conv option.map_comp split: bind_splits option.splits)

lemma cancel_request_ready:
  assumes r: "reactor_ready r (Suc n)" and u: "u \<noteq> 0 \<longrightarrow> u \<in> dom (reactor_memory r)"
  shows "\<exists>r' ident. cancel_request e u b r = Some r' \<and> reactor_ready r' n \<and>
    dom (reactor_memory r) \<subseteq> dom (reactor_memory r') \<and>
    (\<forall>a\<in>dom (reactor_memory r). reactor_memory r' a = (if u \<noteq> 0 \<and> a = u then Some (release_user b) else reactor_memory r a)) \<and>
    ring_pending (reactor_ring_of r') = ring_pending (reactor_ring_of r) @ (if u \<noteq> 0 then [cancel_sqe u ident] else [])"
proof (cases "u = 0")
  case True
  then show ?thesis using reactor_ready_less [OF r, of n] by (auto simp: cancel_request_def)
next
  case False
  then have "u \<in> dom (reactor_memory r)" using u by simp
  from reactor_cancel_ready [OF r this, of e "Some Stream_release_buffer" "Pointer (buffer_base b)"] False
  show ?thesis by (elim exE conjE) (rule exI, rule exI, auto simp: cancel_request_def release_user_def cancel_sqe_def)
qed

lemma stream_close_spec:
  assumes r: "reactor_ready r (n + 3)"
    and u: "stream_reading s \<noteq> 0 \<longrightarrow> stream_reading s \<in> dom (reactor_memory r)"
      "stream_writing s \<noteq> 0 \<longrightarrow> stream_writing s \<in> dom (reactor_memory r) \<and> stream_writing s \<noteq> stream_reading s"
  shows "\<exists>r' i j k. stream_close e (r, s) = Some (r', stream_closed s) \<and> reactor_ready r' n \<and>
    (stream_reading s \<noteq> 0 \<longrightarrow> reactor_memory r' (stream_reading s) = Some (release_user (stream_input_buffer s))) \<and>
    (stream_writing s \<noteq> 0 \<longrightarrow> reactor_memory r' (stream_writing s) = Some (release_user (stream_output_writing s))) \<and>
    ring_pending (reactor_ring_of r') = ring_pending (reactor_ring_of r) @
      (if stream_reading s \<noteq> 0 then [cancel_sqe (stream_reading s) i] else []) @
      (if stream_writing s \<noteq> 0 then [cancel_sqe (stream_writing s) j] else []) @
      (if stream_is_open s then [close_sqe (stream_fd_of s) k] else [])"
proof -
  have "reactor_ready r (Suc (n + 2))" using r by (simp add: numeral_3_eq_3)
  from cancel_request_ready [OF this u(1), of e "stream_input_buffer s"]
  obtain r1 i where r1: "cancel_request e (stream_reading s) (stream_input_buffer s) r = Some r1" "reactor_ready r1 (n + 2)"
    "dom (reactor_memory r) \<subseteq> dom (reactor_memory r1)"
    "\<forall>a\<in>dom (reactor_memory r). reactor_memory r1 a =
      (if stream_reading s \<noteq> 0 \<and> a = stream_reading s then Some (release_user (stream_input_buffer s)) else reactor_memory r a)"
    "ring_pending (reactor_ring_of r1) = ring_pending (reactor_ring_of r) @
      (if stream_reading s \<noteq> 0 then [cancel_sqe (stream_reading s) i] else [])"
    by (elim exE conjE) (rule that)
  have ready1: "reactor_ready r1 (Suc (n + 1))" using r1(2) by simp
  have "stream_writing s \<noteq> 0 \<longrightarrow> stream_writing s \<in> dom (reactor_memory r1)" using u(2) r1(3) by blast
  from cancel_request_ready [OF ready1 this, of e "stream_output_writing s"]
  obtain r2 j where r2: "cancel_request e (stream_writing s) (stream_output_writing s) r1 = Some r2" "reactor_ready r2 (n + 1)"
    "dom (reactor_memory r1) \<subseteq> dom (reactor_memory r2)"
    "\<forall>a\<in>dom (reactor_memory r1). reactor_memory r2 a =
      (if stream_writing s \<noteq> 0 \<and> a = stream_writing s then Some (release_user (stream_output_writing s)) else reactor_memory r1 a)"
    "ring_pending (reactor_ring_of r2) = ring_pending (reactor_ring_of r1) @
      (if stream_writing s \<noteq> 0 then [cancel_sqe (stream_writing s) j] else [])"
    by (elim exE conjE) (rule that)
  have "\<exists>r' k. (if stream_is_open s then map_option fst (reactor_close e None (Number 0) (stream_fd_of s) r2) else Some r2) = Some r' \<and>
    reactor_ready r' n \<and> (\<forall>a\<in>dom (reactor_memory r2). reactor_memory r' a = reactor_memory r2 a) \<and>
    ring_pending (reactor_ring_of r') = ring_pending (reactor_ring_of r2) @ (if stream_is_open s then [close_sqe (stream_fd_of s) k] else [])"
  proof (cases "stream_is_open s")
    case True
    have "reactor_ready r2 (Suc n)" using r2(2) by simp
    then obtain r' k where "reactor_submit e None (Number 0) (sqe_zero\<lparr>sqe_fd := stream_fd_of s, sqe_opcode := IORING_OP_CLOSE\<rparr>) r2 = Some (r', k)"
      "reactor_ready r' n" "submitted e None (Number 0) (sqe_zero\<lparr>sqe_fd := stream_fd_of s, sqe_opcode := IORING_OP_CLOSE\<rparr>) r2 k r'"
      "ring_pending (reactor_ring_of r') = ring_pending (reactor_ring_of r2) @
        [sqe_zero\<lparr>sqe_fd := stream_fd_of s, sqe_opcode := IORING_OP_CLOSE, sqe_user_data := k\<rparr>]"
      by (rule reactor_submit_ready) blast
    then show ?thesis using True
      by (intro exI [of _ r'] exI [of _ k]) (auto simp: reactor_close_def submitted_def new_user_def close_sqe_def)
  next
    case False
    then show ?thesis using reactor_ready_less [OF r2(2), of n] by auto
  qed
  then obtain r' k where r': "(if stream_is_open s then map_option fst (reactor_close e None (Number 0) (stream_fd_of s) r2) else Some r2) = Some r'"
    "reactor_ready r' n" "\<forall>a\<in>dom (reactor_memory r2). reactor_memory r' a = reactor_memory r2 a"
    "ring_pending (reactor_ring_of r') = ring_pending (reactor_ring_of r2) @ (if stream_is_open s then [close_sqe (stream_fd_of s) k] else [])"
    by blast
  have "stream_close e (r, s) = Some (r', stream_closed s)" unfolding stream_close_steps r1(1) by (simp add: r2(1) r'(1))
  moreover have "reactor_memory r' (stream_reading s) = Some (release_user (stream_input_buffer s))" if "stream_reading s \<noteq> 0"
    using that u r1(3,4) r2(3,4) r'(3) by (metis subsetD)
  moreover have "reactor_memory r' (stream_writing s) = Some (release_user (stream_output_writing s))" if "stream_writing s \<noteq> 0"
    using that u r1(3,4) r2(3,4) r'(3) by (metis subsetD)
  ultimately show ?thesis using r'(2,4) r2(5) r1(5) by (intro exI [of _ r'] exI [of _ i] exI [of _ j] exI [of _ k]) simp
qed

end
