(* ===== verification/Stream_Correct.thy ===== *)
theory Stream_Correct
  imports Stream_Run
begin

text \<open>
  The properties of \<^verbatim>\<open>src/reactor/stream.c\<close>.
\<close>

section \<open>Destruction by the callback\<close>

lemma stream_closed_fields [simp]:
  "stream_abort (stream_closed s) = stream_abort s" "stream_reading (stream_closed s) = 0" "stream_writing (stream_closed s) = 0"
  by (simp_all add: stream_closed_def)

lemma stream_destruct_spec:
  assumes w: "world_stream w = Some s" "stream_abort s = Some i" "i < length (world_abort w)"
    and close: "stream_close e (world_reactor w, s) = Some (r, stream_closed s)"
  shows "\<exists>s'. stream_destruct e w = Some (w\<lparr>world_reactor := r, world_abort := (world_abort w)[i := True], world_stream := Some s'\<rparr>)"
  using w close by (auto simp: stream_destruct_def stream_at_def)

text \<open>
  C5: When the user's callback destroys the stream and frees it while \<open>stream_recv\<close> is calling it,
  \<open>stream_recv\<close> returns without touching the stream's memory any more; the requests of the stream
  have been cancelled, and a send under way keeps its buffer until it is confirmed.
\<close>

theorem stream_recv_destroyed:
  fixes s :: "'a stream"
  assumes ok: "stream_ok s inp flight waiting" and reading: "stream_reading s \<noteq> 0"
    and bs: "bs \<noteq> []" "length bs \<le> unat STREAM_BLOCK_SIZE"
    and lim: "length inp + length bs + unat STREAM_BLOCK_SIZE \<le> buffer_limit"
    and r: "reactor_ready (world_reactor w) (n + 3)"
    and writing: "stream_writing s \<noteq> 0 \<longrightarrow> stream_writing s \<in> dom (reactor_memory (world_reactor w))"
    and callback: "user_callback (stream_user s) = Callback c"
    and destroys: "\<And>w. invoke c (reactor_event_define (user_state (stream_user s)) STREAM_READ 0) w =
      map_option (\<lambda>w. w\<lparr>world_stream := None\<rparr>) (stream_destruct e w)"
  shows "\<exists>s0 w'. stream_fill s bs = Some s0 \<and>
    stream_recv invoke e (completion self (length bs)) (w\<lparr>world_stream := Some s0\<rparr>) = Some w' \<and>
    world_stream w' = None \<and> world_abort w' = world_abort w \<and>
    (stream_writing s \<noteq> 0 \<longrightarrow> reactor_memory (world_reactor w') (stream_writing s) = Some (release_user (stream_output_writing s)))"
proof -
  obtain s0 s1 where s1: "stream_fill s bs = Some s0" "stream_recv invoke e (completion self (length bs)) (w\<lparr>world_stream := Some s0\<rparr>) =
      Option.bind (reactor_call invoke (stream_user s) STREAM_READ 0
        (w\<lparr>world_stream := Some s1, world_abort := world_abort w @ [False]\<rparr>)) (stream_recv_return e self)"
    "stream_abort s1 = Some (length (world_abort w))" "stream_writing s1 = stream_writing s" "stream_reading s1 = 0"
    "stream_output_writing s1 = stream_output_writing s"
    using stream_recv_completes [OF ok reading bs lim, of invoke e self w] by blast
  let ?w = "w\<lparr>world_stream := Some s1, world_abort := world_abort w @ [False]\<rparr>"
  have "stream_reading s1 \<noteq> 0 \<longrightarrow> stream_reading s1 \<in> dom (reactor_memory (world_reactor w))"
    "stream_writing s1 \<noteq> 0 \<longrightarrow> stream_writing s1 \<in> dom (reactor_memory (world_reactor w)) \<and> stream_writing s1 \<noteq> stream_reading s1"
    using writing s1(4,5) by auto
  from stream_close_spec [OF r this, of e]
  obtain r' where r': "stream_close e (world_reactor w, s1) = Some (r', stream_closed s1)"
    "stream_writing s1 \<noteq> 0 \<longrightarrow> reactor_memory r' (stream_writing s1) = Some (release_user (stream_output_writing s1))"
    by blast
  obtain s' where s': "stream_destruct e ?w = Some (?w\<lparr>world_reactor := r', world_abort := world_abort w @ [True], world_stream := Some s'\<rparr>)"
    using stream_destruct_spec [of ?w s1 "length (world_abort w)" e r'] s1(3) r'(1) by auto
  have "stream_recv invoke e (completion self (length bs)) (w\<lparr>world_stream := Some s0\<rparr>) =
      Some (w\<lparr>world_reactor := r', world_stream := None\<rparr>)"
    using s' by (simp add: s1(2) reactor_call_def callback destroys stream_recv_return_def)
  then show ?thesis using s1(1,4,6) r'(2) by (intro exI [of _ s0]) simp
qed

text \<open>A reactor and an open stream for the witnesses.\<close>

lemma stream_example:
  "\<exists>(r :: ('a reactor_handler, unit) reactor) s r0 mode. stream_open quiet_env (\<lambda>_. Some mode) (Number 64) 3 0 (r0, stream_construct callback state) = Some (r, s) \<and>
     reactor_ready r0 100 \<and> reactor_ready r 50 \<and> stream_ok s [] [] [] \<and> stream_settled s \<and> stream_reading s \<noteq> 0 \<and>
     stream_is_open s \<and> stream_user s = reactor_user_define callback state \<and> stream_type_of s = STREAM_TYPE_SOCKET"
proof -
  obtain r0 :: "('a reactor_handler, unit) reactor" where "reactor_inv r0 [] [] []" "reactor_spare r0 100"
    using reactor_example by blast
  then have r0: "reactor_ready r0 100" "reactor_ready r0 (98 + 2)" by (auto simp: reactor_ready_def)
  obtain r s where s: "stream_open quiet_env (\<lambda>_. Some 0xC000) (Number 64) 3 0 (r0, stream_construct callback state) = Some (r, s)"
    "reactor_ready r (98 + stream_idle s)" "stream_ok s [] [] []" "stream_settled s" "stream_fd_of s = 3" "stream_flags s = 0"
    "stream_user s = reactor_user_define callback state" "stream_type_of s = STREAM_TYPE_SOCKET"
    using stream_open_spec [of "\<lambda>_. Some 0xC000" 3 "0xC000" r0 98 quiet_env "Number 64" 0 callback state] r0(2) by (auto simp: S_ISSOCK_def)
  have "stream_is_open s" using s(5) by (simp add: stream_is_open_def)
  moreover have "stream_reading s \<noteq> 0"
    using s(3,4,6) calculation by (auto simp: stream_settled_def stream_ok_def stream_flight_ok_def stream_busy_def)
  ultimately show ?thesis using s(1,3,4,7,8) r0(1) reactor_ready_less [OF s(2), of 50] by (intro exI) auto
qed

lemma stream_recv_destroyed_witness:
  "\<exists>invoke (w :: (nat, unit, unit) stream_world) w'. world_stream w \<noteq> None \<and>
     stream_recv invoke quiet_env (completion (Number 64) 1) w = Some w' \<and> world_stream w' = None"
proof -
  obtain r s where s: "reactor_ready (r :: (nat reactor_handler, unit) reactor) 50" "stream_ok s [] [] []" "stream_reading s \<noteq> 0"
    "stream_user s = reactor_user_define (Some (User (1 :: nat))) (Number 0)"
    using stream_example [of "Some (User (1 :: nat))" "Number 0"] by blast
  define w where "w = \<lparr>world_reactor = r, world_stream = Some s, world_abort = [], world_rest = ()\<rparr>"
  define invoke :: "nat reactor_handler \<Rightarrow> reactor_event \<Rightarrow> (nat, unit, unit) stream_world \<Rightarrow> (nat, unit, unit) stream_world option"
    where "invoke = (\<lambda>c event w. map_option (\<lambda>w. w\<lparr>world_stream := None\<rparr>) (stream_destruct quiet_env w))"
  have idle: "stream_writing s = 0" using s(2) by (auto simp: stream_ok_def stream_flight_ok_def stream_busy_def)
  have "reactor_ready (world_reactor w) (47 + 3)" using s(1) by (simp add: w_def)
  from stream_recv_destroyed [OF s(2,3) _ _ _ this, of "[9]" "User 1" invoke quiet_env "Number 64"]
  obtain s0 w' where "stream_recv invoke quiet_env (completion (Number 64) 1) (w\<lparr>world_stream := Some s0\<rparr>) = Some w'"
    "world_stream w' = None"
    using idle s(4) by (auto simp: STREAM_BLOCK_SIZE_def buffer_limit_def reactor_user_define_def invoke_def)
  then show ?thesis by (intro exI [of _ invoke] exI [of _ "w\<lparr>world_stream := Some s0\<rparr>"] exI [of _ w']) simp
qed

section \<open>Integrity\<close>





text \<open>
  C7: Closing a stream cancels its requests and closes its descriptor, in this order. The user of a
  cancelled request keeps the buffer the kernel may still be using, to release it when the request
  has ended; the stream keeps no reference to it.
\<close>

theorem stream_close_releases:
  assumes "reactor_ready r (n + 3)"
    and "stream_reading s \<noteq> 0" "stream_reading s \<in> dom (reactor_memory r)"
    and "stream_writing s \<noteq> 0" "stream_writing s \<in> dom (reactor_memory r)" "stream_writing s \<noteq> stream_reading s"
    and "stream_is_open s"
  shows "\<exists>r' s' i j k. stream_close e (r, s) = Some (r', s') \<and> \<not> stream_is_open s' \<and>
    stream_reading s' = 0 \<and> stream_writing s' = 0 \<and>
    stream_input_buffer s' = buffer_construct \<and> stream_output_writing s' = buffer_construct \<and>
    reactor_memory r' (stream_reading s) =
      Some (reactor_user_define (Some Stream_release_buffer) (Pointer (buffer_base (stream_input_buffer s)))) \<and>
    reactor_memory r' (stream_writing s) =
      Some (reactor_user_define (Some Stream_release_buffer) (Pointer (buffer_base (stream_output_writing s)))) \<and>
    ring_pending (reactor_ring_of r') = ring_pending (reactor_ring_of r) @
      [cancel_sqe (stream_reading s) i, cancel_sqe (stream_writing s) j, close_sqe (stream_fd_of s) k]"
  using stream_close_spec [of r n s e] assms
  by (fastforce simp: release_user_def stream_closed_def stream_is_open_def)

lemma stream_close_releases_witness:
  "\<exists>(r :: (nat reactor_handler, unit) reactor) s r' s'. stream_reading s \<noteq> 0 \<and> stream_writing s \<noteq> 0 \<and>
     stream_close quiet_env (r, s) = Some (r', s') \<and> \<not> stream_is_open s'"
proof -
  obtain r0 :: "(nat reactor_handler, unit) reactor" where "reactor_inv r0 [] [] []" "reactor_spare r0 100"
    using reactor_example by blast
  then have r0: "reactor_ready r0 (Suc 99)" by (auto simp: reactor_ready_def)
  obtain r1 i where r1: "reactor_ready r1 (Suc 98)" "submitted quiet_env None (Number 0) sqe_zero r0 i r1" "i \<noteq> 0"
    by (rule reactor_submit_ready [OF r0, of quiet_env None "Number 0" sqe_zero]) (rule that, simp_all)
  obtain r2 j where r2: "reactor_ready r2 (95 + 3)" "submitted quiet_env None (Number 0) sqe_zero r1 j r2" "j \<noteq> 0"
    by (rule reactor_submit_ready [OF r1(1), of quiet_env None "Number 0" sqe_zero]) (rule that, simp_all)
  define s :: "nat stream" where "s = (stream_construct None (Number 0))\<lparr>stream_fd_of := 3, stream_reading := i, stream_writing := j\<rparr>"
  have "i \<in> dom (reactor_memory r2)" "j \<in> dom (reactor_memory r2)" "j \<noteq> i"
    using r1(2) r2(2) by (auto simp: submitted_def new_user_def)
  then have pre: "stream_reading s \<noteq> 0" "stream_reading s \<in> dom (reactor_memory r2)" "stream_writing s \<noteq> 0"
    "stream_writing s \<in> dom (reactor_memory r2)" "stream_writing s \<noteq> stream_reading s" "stream_is_open s"
    using r1(3) r2(3) by (simp_all add: s_def stream_is_open_def)
  from stream_close_releases [OF r2(1) pre, of quiet_env] pre(1,3)
  show ?thesis by (elim exE conjE) (intro exI conjI, assumption+)
qed

end
