(* ===== verification/Phr.thy ===== *)
theory Phr
  imports Utf8
begin

text \<open>
  The parser of HTTP request heads (\<^verbatim>\<open>src/picohttpparser/picohttpparser.c\<close>) that
  \<^verbatim>\<open>src/reactor/http.c\<close> calls, with both of its builds: \<open>sse\<close> says whether the vector
  instructions of SSE 4.2 are used to skip ordinary characters.

  A character pointer is an index into the readable bytes \<open>s\<close>, which may go on behind the end
  \<open>buf_end\<close> of the input; reading outside of \<open>s\<close> is \<open>None\<close>. A failing function leaves the error in
  \<open>ret\<close>, here the value \<open>Inl\<close>.
\<close>

type_synonym ('e, 'a) parsed = "('e + 'a) option"

definition parse_then :: "('e, 'a) parsed \<Rightarrow> ('a \<Rightarrow> ('e, 'b) parsed) \<Rightarrow> ('e, 'b) parsed" where
  "parse_then m f = (case m of None \<Rightarrow> None | Some (Inl e) \<Rightarrow> Some (Inl e) | Some (Inr x) \<Rightarrow> f x)"

text \<open>A failure, together with what has been stored so far.\<close>

definition failing :: "'o \<Rightarrow> ('e, 'a) parsed \<Rightarrow> ('e \<times> 'o, 'a) parsed" where
  "failing out m = map_option (map_sum (\<lambda>e. (e, out)) id) m"

text \<open>\<open>while (test(*p)) p++\<close>.\<close>

function char_scan :: "(byte \<Rightarrow> bool) \<Rightarrow> byte list \<Rightarrow> nat \<Rightarrow> nat option" where
  "char_scan test s p =
     (if p < length s then if test (s ! p) then char_scan test s (p + 1) else Some p else None)"
  by pat_completeness auto
termination by (relation "measure (\<lambda>(test, s, p). length s - p)") auto

declare char_scan.simps [simp del]

section \<open>Macros\<close>

definition IS_PRINTABLE_ASCII :: "byte \<Rightarrow> bool" where
  "IS_PRINTABLE_ASCII c \<longleftrightarrow> (ucast c :: u32) - 32 < 95"

definition CHECK_EOF :: "nat \<Rightarrow> nat \<Rightarrow> (int32, 'a) parsed \<Rightarrow> (int32, 'a) parsed" where
  "CHECK_EOF buf buf_end continue = (if buf = buf_end then Some (Inl (- 2)) else continue)"

definition EXPECT_CHAR_NO_CHECK ::
    "byte list \<Rightarrow> nat \<Rightarrow> byte \<Rightarrow> (nat \<Rightarrow> (int32, 'a) parsed) \<Rightarrow> (int32, 'a) parsed" where
  "EXPECT_CHAR_NO_CHECK s buf ch continue = do {
     c \<leftarrow> char_at s buf;
     (if c \<noteq> ch then Some (Inl (- 1)) else continue (buf + 1)) }"

definition EXPECT_CHAR ::
    "byte list \<Rightarrow> nat \<Rightarrow> nat \<Rightarrow> byte \<Rightarrow> (nat \<Rightarrow> (int32, 'a) parsed) \<Rightarrow> (int32, 'a) parsed" where
  "EXPECT_CHAR s buf buf_end ch continue = CHECK_EOF buf buf_end (EXPECT_CHAR_NO_CHECK s buf ch continue)"

definition token_char_map :: "byte list" where
  "token_char_map = [
     0, 0, 0, 0, 0, 0, 0, 0, 0, 0, 0, 0, 0, 0, 0, 0, 0, 0, 0, 0, 0, 0, 0, 0, 0, 0, 0, 0, 0, 0, 0, 0,
     0, 1, 0, 1, 1, 1, 1, 1, 0, 0, 1, 1, 0, 1, 1, 0, 1, 1, 1, 1, 1, 1, 1, 1, 1, 1, 0, 0, 0, 0, 0, 0,
     0, 1, 1, 1, 1, 1, 1, 1, 1, 1, 1, 1, 1, 1, 1, 1, 1, 1, 1, 1, 1, 1, 1, 1, 1, 1, 1, 0, 0, 0, 1, 1,
     1, 1, 1, 1, 1, 1, 1, 1, 1, 1, 1, 1, 1, 1, 1, 1, 1, 1, 1, 1, 1, 1, 1, 1, 1, 1, 1, 0, 1, 0, 1, 0]
   @ replicate 128 0"

text \<open>
  One step of the vectorised search compares 16 characters with the given pairs of bounds and
  answers with the index of the first one inside a pair, or 16.
\<close>

fun in_ranges :: "byte list \<Rightarrow> byte \<Rightarrow> bool" where
  "in_ranges (low # high # ranges) c = (low \<le> c \<and> c \<le> high \<or> in_ranges ranges c)"
| "in_ranges _ c = False"

fun findchar_blocks :: "byte list \<Rightarrow> nat \<Rightarrow> byte list \<Rightarrow> nat \<Rightarrow> (nat \<times> bool) option" where
  "findchar_blocks s buf ranges 0 = Some (buf, False)"
| "findchar_blocks s buf ranges (Suc left) =
     (if buf + 16 \<le> length s
      then let r = length (takeWhile (\<lambda>c. \<not> in_ranges ranges c) (range_of s buf (buf + 16)))
           in if r \<noteq> 16 then Some (buf + r, True) else findchar_blocks s (buf + 16) ranges left
      else None)"

text \<open>The position, and whether a character was found.\<close>

definition findchar_fast :: "bool \<Rightarrow> byte list \<Rightarrow> nat \<Rightarrow> nat \<Rightarrow> byte list \<Rightarrow> (nat \<times> bool) option" where
  "findchar_fast sse s buf buf_end ranges =
     (if sse \<and> buf + 16 \<le> buf_end then findchar_blocks s buf ranges ((buf_end - buf) div 16) else Some (buf, False))"

text \<open>The loop of \<open>ADVANCE_TOKEN\<close>.\<close>

function token_scan :: "byte list \<Rightarrow> nat \<Rightarrow> nat \<Rightarrow> (int32, nat) parsed" where
  "token_scan s buf buf_end =
     (if buf < length s
      then let c = s ! buf
           in if c = 32 then Some (Inr buf)
              else if \<not> IS_PRINTABLE_ASCII c \<and> (c < 32 \<or> c = 127) then Some (Inl (- 1))
              else CHECK_EOF (buf + 1) buf_end (token_scan s (buf + 1) buf_end)
      else None)"
  by pat_completeness auto
termination by (relation "measure (\<lambda>(s, buf, buf_end). length s - buf)") auto

declare token_scan.simps [simp del]

text \<open>A token is its position and its length.\<close>

type_synonym token = "nat \<times> nat"

definition ADVANCE_TOKEN :: "bool \<Rightarrow> byte list \<Rightarrow> nat \<Rightarrow> nat \<Rightarrow> (int32, token \<times> nat) parsed" where
  "ADVANCE_TOKEN sse s tok_start buf_end = do {
     (buf, found2) \<leftarrow> findchar_fast sse s tok_start buf_end [0, 32, 127, 127];
     (if \<not> found2 \<and> buf = buf_end then Some (Inl (- 2))
      else parse_then (token_scan s buf buf_end) (\<lambda>buf. Some (Inr ((tok_start, buf - tok_start), buf)))) }"

section \<open>A line\<close>

definition control_char :: "byte \<Rightarrow> bool" where
  "control_char c \<longleftrightarrow> c < 32 \<and> c \<noteq> 9 \<or> c = 127"

text \<open>Up to \<open>n\<close> steps of \<open>DOIT\<close>; the flag says that all of them were made.\<close>

fun printable_scan :: "byte list \<Rightarrow> nat \<Rightarrow> nat \<Rightarrow> (nat \<times> bool) option" where
  "printable_scan s buf 0 = Some (buf, True)"
| "printable_scan s buf (Suc n) = do {
     c \<leftarrow> char_at s buf;
     (if IS_PRINTABLE_ASCII c then printable_scan s (buf + 1) n else Some (buf, False)) }"

lemma printable_scan_le: "printable_scan s buf n = Some (p, full) \<Longrightarrow> buf \<le> p \<and> (full \<longrightarrow> p = buf + n)"
  by (induction s buf n rule: printable_scan.induct) (fastforce split: bind_splits if_splits)+

text \<open>The unrolled loop; the flag says that it ended with \<open>goto FOUND_CTL\<close>.\<close>

function eol_fast :: "byte list \<Rightarrow> nat \<Rightarrow> nat \<Rightarrow> (nat \<times> bool) option" where
  "eol_fast s buf buf_end =
     (if buf + 8 \<le> buf_end
      then Option.bind (printable_scan s buf 8) (\<lambda>(p, full).
        if full then eol_fast s p buf_end
        else Option.bind (char_at s p) (\<lambda>c. if control_char c then Some (p, True) else eol_fast s (p + 1) buf_end))
      else Some (buf, False))"
  by pat_completeness auto
termination
  by (relation "measure (\<lambda>(s, buf, buf_end). buf_end - buf)") (auto dest: printable_scan_le)

declare eol_fast.simps [simp del]

function eol_slow :: "byte list \<Rightarrow> nat \<Rightarrow> nat \<Rightarrow> (int32, nat) parsed" where
  "eol_slow s buf buf_end =
     CHECK_EOF buf buf_end
      (if buf < length s
       then let c = s ! buf
            in if \<not> IS_PRINTABLE_ASCII c \<and> control_char c then Some (Inr buf) else eol_slow s (buf + 1) buf_end
       else None)"
  by pat_completeness auto
termination by (relation "measure (\<lambda>(s, buf, buf_end). length s - buf)") auto

declare eol_slow.simps [simp del]

definition get_token_to_eol :: "bool \<Rightarrow> byte list \<Rightarrow> nat \<Rightarrow> nat \<Rightarrow> (int32, token \<times> nat) parsed" where
  "get_token_to_eol sse s token_start buf_end = do {
     (buf, found) \<leftarrow> (if sse then findchar_fast sse s token_start buf_end [0, 8, 10, 31, 127, 127]
                       else eol_fast s token_start buf_end);
     parse_then (if found then Some (Inr buf) else eol_slow s buf buf_end) (\<lambda>buf. do {
       c \<leftarrow> char_at s buf;
       (if c = 13
        then EXPECT_CHAR s (buf + 1) buf_end 10 (\<lambda>buf. Some (Inr ((token_start, buf - 2 - token_start), buf)))
        else if c = 10 then Some (Inr ((token_start, buf - token_start), buf + 1))
        else Some (Inl (- 1))) }) }"

section \<open>The request\<close>

text \<open>The loop of \<open>is_complete\<close>, with the count of line ends.\<close>

function is_complete_from :: "byte list \<Rightarrow> nat \<Rightarrow> nat \<Rightarrow> nat \<Rightarrow> (int32, nat) parsed" where
  "is_complete_from s buf buf_end ret_cnt =
     CHECK_EOF buf buf_end
      (if buf < length s
       then if s ! buf = 13
            then CHECK_EOF (buf + 1) buf_end
             (if buf + 1 < length s
              then if s ! (buf + 1) \<noteq> 10 then Some (Inl (- 1))
                   else if ret_cnt + 1 = 2 then Some (Inr (buf + 2)) else is_complete_from s (buf + 2) buf_end (ret_cnt + 1)
              else None)
            else if s ! buf = 10
            then if ret_cnt + 1 = 2 then Some (Inr (buf + 1)) else is_complete_from s (buf + 1) buf_end (ret_cnt + 1)
            else is_complete_from s (buf + 1) buf_end 0
       else None)"
  by pat_completeness auto
termination by (relation "measure (\<lambda>(s, buf, buf_end, ret_cnt). length s - buf)") auto

declare is_complete_from.simps [simp del]

definition is_complete :: "byte list \<Rightarrow> nat \<Rightarrow> nat \<Rightarrow> (int32, nat) parsed" where
  "is_complete s buf_end last_len = is_complete_from s (if last_len < 3 then 0 else last_len - 3) buf_end 0"

definition PARSE_INT :: "byte list \<Rightarrow> nat \<Rightarrow> int \<Rightarrow> (int32, int \<times> nat) parsed" where
  "PARSE_INT s buf mul = do {
     c \<leftarrow> char_at s buf;
     (if c < 48 \<or> 57 < c then Some (Inl (- 1)) else Some (Inr (mul * (uint c - 48), buf + 1))) }"

definition parse_http_version :: "byte list \<Rightarrow> nat \<Rightarrow> nat \<Rightarrow> (int32, int \<times> nat) parsed" where
  "parse_http_version s buf buf_end =
     (if int buf_end - int buf < 9 then Some (Inl (- 2))
      else EXPECT_CHAR_NO_CHECK s buf 72 (\<lambda>buf. EXPECT_CHAR_NO_CHECK s buf 84 (\<lambda>buf.
        EXPECT_CHAR_NO_CHECK s buf 84 (\<lambda>buf. EXPECT_CHAR_NO_CHECK s buf 80 (\<lambda>buf.
        EXPECT_CHAR_NO_CHECK s buf 47 (\<lambda>buf. EXPECT_CHAR_NO_CHECK s buf 49 (\<lambda>buf.
        EXPECT_CHAR_NO_CHECK s buf 46 (\<lambda>buf. PARSE_INT s buf 1))))))))"

text \<open>The loops over a field name, over the blanks behind the colon, and over those behind the value.\<close>

function name_scan :: "byte list \<Rightarrow> nat \<Rightarrow> nat \<Rightarrow> (int32, nat) parsed" where
  "name_scan s buf buf_end =
     (if buf < length s
      then if s ! buf = 58 then Some (Inr buf)
           else if token_char_map ! unat (s ! buf) = 0 then Some (Inl (- 1))
           else CHECK_EOF (buf + 1) buf_end (name_scan s (buf + 1) buf_end)
      else None)"
  by pat_completeness auto
termination by (relation "measure (\<lambda>(s, buf, buf_end). length s - buf)") auto

declare name_scan.simps [simp del]

function blank_scan :: "byte list \<Rightarrow> nat \<Rightarrow> nat \<Rightarrow> (int32, nat) parsed" where
  "blank_scan s buf buf_end =
     CHECK_EOF buf buf_end
      (if buf < length s
       then if s ! buf = 32 \<or> s ! buf = 9 then blank_scan s (buf + 1) buf_end else Some (Inr buf)
       else None)"
  by pat_completeness auto
termination by (relation "measure (\<lambda>(s, buf, buf_end). length s - buf)") auto

declare blank_scan.simps [simp del]

fun value_trim :: "byte list \<Rightarrow> nat \<Rightarrow> nat \<Rightarrow> nat option" where
  "value_trim s v 0 = Some 0"
| "value_trim s v (Suc n) = do {
     c \<leftarrow> char_at s (v + n);
     (if c = 32 \<or> c = 9 then value_trim s v n else Some (Suc n)) }"

text \<open>The name is \<open>None\<close> (\<open>NULL\<close>) for a line that continues the value before it.\<close>

type_synonym phr_header = "token option \<times> token"

definition parse_name :: "bool \<Rightarrow> byte list \<Rightarrow> nat \<Rightarrow> nat \<Rightarrow> (int32, token \<times> nat) parsed" where
  "parse_name sse s name buf_end = do {
     (buf, found) \<leftarrow> findchar_fast sse s name buf_end [0, 32, 34, 34, 40, 41, 44, 44, 47, 47, 58, 64, 91, 93, 123, 255];
     (if \<not> found \<and> buf = buf_end then Some (Inl (- 2))
      else parse_then (name_scan s buf buf_end) (\<lambda>buf.
        let name_len = buf - name
        in if name_len = 0 then Some (Inl (- 1))
           else parse_then (blank_scan s (buf + 1) buf_end) (\<lambda>buf. Some (Inr ((name, name_len), buf))))) }"

definition parse_header :: "bool \<Rightarrow> byte list \<Rightarrow> nat \<Rightarrow> nat \<Rightarrow> nat \<Rightarrow> (int32, phr_header \<times> nat) parsed" where
  "parse_header sse s buf buf_end num_headers =
     parse_then
      (if \<not> (num_headers \<noteq> 0 \<and> (s ! buf = 32 \<or> s ! buf = 9))
       then parse_then (parse_name sse s buf buf_end) (\<lambda>(name, buf). Some (Inr (Some name, buf)))
       else Some (Inr (None, buf))) (\<lambda>(name, buf).
     parse_then (get_token_to_eol sse s buf buf_end) (\<lambda>((v, value_len), buf). do {
       value_len \<leftarrow> value_trim s v value_len;
       Some (Inr ((name, (v, value_len)), buf)) }))"

text \<open>A line takes at least one character.\<close>

lemma findchar_blocks_le: "findchar_blocks s buf ranges left = Some (p, found) \<Longrightarrow> buf \<le> p"
  by (induction s buf ranges left rule: findchar_blocks.induct) (fastforce simp: Let_def split: if_splits)+

lemma findchar_fast_le: "findchar_fast sse s buf buf_end ranges = Some (p, found) \<Longrightarrow> buf \<le> p"
  by (auto simp: findchar_fast_def dest: findchar_blocks_le split: if_splits)

lemma eol_fast_le: "eol_fast s buf buf_end = Some (p, found) \<Longrightarrow> buf \<le> p"
proof (induction s buf buf_end rule: eol_fast.induct)
  case (1 s buf buf_end)
  show ?case
  proof (cases "buf + 8 \<le> buf_end")
    case True
    with 1(3) obtain q full where q: "printable_scan s buf 8 = Some (q, full)"
      by (subst (asm) eol_fast.simps) (auto simp: bind_eq_Some_conv)
    note le = conjunct1 [OF printable_scan_le [OF q]]
    show ?thesis
    proof (cases full)
      assume full: full
      then have "eol_fast s q buf_end = Some (p, found)" using 1(3) True q by (subst (asm) eol_fast.simps) simp
      then show ?thesis using 1(1) [OF True q refl full] le by simp
    next
      assume nf: "\<not> full"
      then obtain c where c: "char_at s q = Some c" "(if control_char c then Some (q, True) else eol_fast s (q + 1) buf_end) = Some (p, found)"
        using 1(3) True q by (subst (asm) eol_fast.simps) (auto simp: bind_eq_Some_conv)
      then show ?thesis using 1(2) [OF True q refl nf c(1)] le by (auto split: if_splits)
    qed
  next
    case False
    then show ?thesis using 1(3) by (subst (asm) eol_fast.simps) simp
  qed
qed

lemma eol_slow_le: "eol_slow s buf buf_end = Some (Inr p) \<Longrightarrow> buf \<le> p"
proof (induction s buf buf_end rule: eol_slow.induct)
  case (1 s buf buf_end)
  from 1(2) show ?case
    by (subst (asm) eol_slow.simps) (auto simp: CHECK_EOF_def Let_def split: if_splits dest: 1(1))
qed

lemma name_scan_le: "name_scan s buf buf_end = Some (Inr p) \<Longrightarrow> buf \<le> p"
proof (induction s buf buf_end rule: name_scan.induct)
  case (1 s buf buf_end)
  from 1(2) show ?case
    by (subst (asm) name_scan.simps) (auto simp: CHECK_EOF_def split: if_splits dest: 1(1))
qed

lemma blank_scan_le: "blank_scan s buf buf_end = Some (Inr p) \<Longrightarrow> buf \<le> p"
proof (induction s buf buf_end rule: blank_scan.induct)
  case (1 s buf buf_end)
  from 1(2) show ?case
    by (subst (asm) blank_scan.simps) (auto simp: CHECK_EOF_def split: if_splits dest: 1(1))
qed

lemma parse_then_Inr: "parse_then m f = Some (Inr y) \<longleftrightarrow> (\<exists>x. m = Some (Inr x) \<and> f x = Some (Inr y))"
  by (auto simp: parse_then_def split: option.splits sum.splits)

lemma get_token_to_eol_less:
  assumes "get_token_to_eol sse s buf buf_end = Some (Inr (v, p))"
  shows "buf < p"
proof -
  obtain q found where q: "(if sse then findchar_fast sse s buf buf_end [0, 8, 10, 31, 127, 127] else eol_fast s buf buf_end) = Some (q, found)"
    and m: "parse_then (if found then Some (Inr q) else eol_slow s q buf_end) (\<lambda>buf'. do {
       c \<leftarrow> char_at s buf';
       (if c = 13 then EXPECT_CHAR s (buf' + 1) buf_end 10 (\<lambda>p. Some (Inr ((buf, p - 2 - buf), p)))
        else if c = 10 then Some (Inr ((buf, buf' - buf), buf' + 1)) else Some (Inl (- 1))) }) = Some (Inr (v, p))"
    using assms by (auto simp: get_token_to_eol_def bind_eq_Some_conv)
  have "buf \<le> q" using q findchar_fast_le eol_fast_le by (cases sse) auto
  moreover obtain r where r: "(if found then Some (Inr q) else eol_slow s q buf_end) = Some (Inr r)" "r < p"
    using m unfolding parse_then_Inr
    by (auto simp: bind_eq_Some_conv EXPECT_CHAR_def EXPECT_CHAR_NO_CHECK_def CHECK_EOF_def simp del: if_split_asm split: if_splits)
  moreover have "q \<le> r" using r(1) eol_slow_le by (cases found) auto
  ultimately show ?thesis by simp
qed

lemma parse_name_less: "parse_name sse s buf buf_end = Some (Inr (name, p)) \<Longrightarrow> buf < p"
  by (auto simp: parse_name_def bind_eq_Some_conv parse_then_Inr Let_def dest!: findchar_fast_le name_scan_le blank_scan_le split: if_splits)

lemma parse_header_less: "parse_header sse s buf buf_end n = Some (Inr (h, p)) \<Longrightarrow> buf < p"
  by (auto simp: parse_header_def bind_eq_Some_conv parse_then_Inr dest!: get_token_to_eol_less parse_name_less split: if_splits)

function parse_headers ::
    "bool \<Rightarrow> byte list \<Rightarrow> nat \<Rightarrow> nat \<Rightarrow> phr_header list \<Rightarrow> nat \<Rightarrow> (int32 \<times> phr_header list, phr_header list \<times> nat) parsed" where
  "parse_headers sse s buf buf_end headers max_headers =
     (if buf = buf_end then Some (Inl (- 2, headers))
      else if buf < length s
      then if s ! buf = 13 then failing headers (EXPECT_CHAR s (buf + 1) buf_end 10 (\<lambda>buf. Some (Inr (headers, buf))))
           else if s ! buf = 10 then Some (Inr (headers, buf + 1))
           else if length headers = max_headers then Some (Inl (- 1, headers))
           else (case parse_header sse s buf buf_end (length headers) of
               None \<Rightarrow> None
             | Some (Inl e) \<Rightarrow> Some (Inl (e, headers))
             | Some (Inr (h, buf)) \<Rightarrow> parse_headers sse s buf buf_end (headers @ [h]) max_headers)
      else None)"
  by pat_completeness auto
termination
  by (relation "measure (\<lambda>(sse, s, buf, buf_end, headers, max_headers). length s - buf)")
    (auto dest!: parse_header_less)

declare parse_headers.simps [simp del]

record phr_request =
  phr_result :: int32
  phr_method :: "token option"
  phr_path :: "token option"
  phr_minor_version :: int
  phr_headers :: "phr_header list"

definition parse_request ::
    "bool \<Rightarrow> byte list \<Rightarrow> nat \<Rightarrow> nat \<Rightarrow> phr_request \<Rightarrow> (int32 \<times> phr_request, phr_request \<times> nat) parsed" where
  "parse_request sse s buf_end max_headers out =
     parse_then (failing out (CHECK_EOF 0 buf_end (do {
       c \<leftarrow> char_at s 0;
       (if c = 13 then EXPECT_CHAR s 1 buf_end 10 (\<lambda>buf. Some (Inr buf))
        else Some (Inr (if c = 10 then 1 else 0))) }))) (\<lambda>buf.
     parse_then (failing out (ADVANCE_TOKEN sse s buf buf_end)) (\<lambda>(method, buf). let out = out\<lparr>phr_method := Some method\<rparr> in
     Option.bind (char_scan ((=) 32) s (buf + 1)) (\<lambda>buf.
     parse_then (failing out (ADVANCE_TOKEN sse s buf buf_end)) (\<lambda>(path, buf). let out = out\<lparr>phr_path := Some path\<rparr> in
     Option.bind (char_scan ((=) 32) s (buf + 1)) (\<lambda>buf.
     if snd method = 0 \<or> snd path = 0 then Some (Inl (- 1, out))
     else parse_then (failing out (parse_http_version s buf buf_end)) (\<lambda>(minor_version, buf).
     let out = out\<lparr>phr_minor_version := minor_version\<rparr> in
     parse_then (failing out (do {
       c \<leftarrow> char_at s buf;
       (if c = 13 then EXPECT_CHAR s (buf + 1) buf_end 10 (\<lambda>buf. Some (Inr buf))
        else if c = 10 then Some (Inr (buf + 1))
        else Some (Inl (- 1))) })) (\<lambda>buf. do {
     r \<leftarrow> parse_headers sse s buf buf_end [] max_headers;
     Some (case r of
         Inl (e, headers) \<Rightarrow> Inl (e, out\<lparr>phr_headers := headers\<rparr>)
       | Inr (headers, buf) \<Rightarrow> Inr (out\<lparr>phr_headers := headers\<rparr>, buf)) })))))))"

definition phr_parse_request :: "bool \<Rightarrow> byte list \<Rightarrow> nat \<Rightarrow> nat \<Rightarrow> nat \<Rightarrow> phr_request option" where
  "phr_parse_request sse s len max_headers last_len = do {
     let out = \<lparr>phr_result = 0, phr_method = None, phr_path = None, phr_minor_version = - 1, phr_headers = []\<rparr>;
     complete \<leftarrow> (if last_len \<noteq> 0 then is_complete s len last_len else Some (Inr 0));
     (case complete of
        Inl r \<Rightarrow> Some (out\<lparr>phr_result := r\<rparr>)
      | Inr _ \<Rightarrow> do {
          r \<leftarrow> parse_request sse s len max_headers out;
          Some (case r of
              Inl (r, out) \<Rightarrow> out\<lparr>phr_result := r\<rparr>
            | Inr (out, buf) \<Rightarrow> out\<lparr>phr_result := of_nat buf\<rparr>) }) }"

end
