(* ===== verification/Http.thy ===== *)
theory Http
  imports Stream_Correct Phr
begin

text \<open>
  HTTP messages on a stream (\<^verbatim>\<open>src/reactor/http.c\<close>): reading a request with its body, in any of
  the two framings, and writing a response.

  A character pointer is a byte sequence with an index, and reading outside of it is \<open>None\<close>. A
  \<open>ssize_t\<close> is a 64-bit word read as signed.
\<close>

section \<open>Numbers in decimal\<close>

definition builtin_clz :: "u32 \<Rightarrow> u32" where
  "builtin_clz w = of_nat (length (takeWhile Not (map (bit w) (rev [0..<32]))))"

definition pow_10 :: "u32 list" where
  "pow_10 = [0, 10, 100, 1000, 10000, 100000, 1000000, 10000000, 100000000, 1000000000]"

definition http_u32_len :: "u32 \<Rightarrow> size_t option" where
  "http_u32_len n =
     (let t = drop_bit 12 ((32 - builtin_clz (n OR 1)) * 1233)
      in if unat t < length pow_10 then Some (ucast (t - (if n < pow_10 ! unat t then 1 else 0) + 1)) else None)"

definition digits :: "byte list" where
  "digits = concat (map (\<lambda>i. [of_nat (48 + i div 10), of_nat (48 + i mod 10)]) [0..<100])"

text \<open>\<open>*--string = c\<close>, on a block of memory and the position of \<open>string\<close> in it.\<close>

definition put_before :: "block \<times> nat \<Rightarrow> byte \<Rightarrow> (block \<times> nat) option" where
  "put_before s c = (case s of (blk, p) \<Rightarrow>
     if p = 0 then None else map_option (\<lambda>blk. (blk, p - 1)) (block_write blk (p - 1) [Some c]))"

function http_u32_sprint :: "u32 \<Rightarrow> block \<times> nat \<Rightarrow> (block \<times> nat) option" where
  "http_u32_sprint n string =
     (if n \<ge> 100
      then let i = unat (push_bit 1 (n mod 100)) in do {
        string \<leftarrow> put_before string (digits ! (i + 1));
        string \<leftarrow> put_before string (digits ! i);
        http_u32_sprint (n div 100) string }
      else if n < 10 then put_before string (ucast n + 48)
      else let i = unat (push_bit 1 n) in do {
        string \<leftarrow> put_before string (digits ! (i + 1));
        put_before string (digits ! i) })"
  by pat_completeness auto
termination
proof (relation "measure (\<lambda>(n, string). unat n)")
  fix n :: u32 and string s1 s2 :: "block \<times> nat"
  assume "100 \<le> n"
  then have "100 \<le> unat n" by (simp add: word_le_nat_alt)
  then show "((n div 100, s2), n, string) \<in> measure (\<lambda>(n, string). unat n)" by (simp add: unat_div)
qed simp

declare http_u32_sprint.simps [simp del]

section \<open>Output\<close>

record http_field =
  field_name :: string_t
  field_value :: string_t

definition http_field_define :: "string_t \<Rightarrow> string_t \<Rightarrow> http_field" where
  "http_field_define name value = \<lparr>field_name = name, field_value = value\<rparr>"

text \<open>The output pointer is a position in the waiting buffer of the stream.\<close>

definition http_move :: "'a stream \<times> size_t \<Rightarrow> size_t \<Rightarrow> 'a stream \<times> size_t" where
  "http_move p n = (case p of (s, pos) \<Rightarrow> (s, pos + n))"

definition http_store :: "'a stream \<times> size_t \<Rightarrow> block \<Rightarrow> ('a stream \<times> size_t) option" where
  "http_store p src = (case p of (s, pos) \<Rightarrow>
     map_option (\<lambda>b. (s\<lparr>stream_output_waiting := b\<rparr>, pos)) (buffer_poke (stream_output_waiting s) pos src))"

definition http_push_data :: "'a stream \<times> size_t \<Rightarrow> data \<Rightarrow> ('a stream \<times> size_t) option" where
  "http_push_data p d = do {
     src \<leftarrow> ptr_read (data_base d) (unat (data_size d));
     p \<leftarrow> http_store p src;
     Some (http_move p (data_size d)) }"

definition http_push_byte :: "'a stream \<times> size_t \<Rightarrow> byte \<Rightarrow> ('a stream \<times> size_t) option" where
  "http_push_byte p c = do {
     p \<leftarrow> http_store p [Some c];
     Some (http_move p 1) }"

definition http_push_field :: "'a stream \<times> size_t \<Rightarrow> http_field \<Rightarrow> ('a stream \<times> size_t) option" where
  "http_push_field p field = do {
     p \<leftarrow> http_push_data p (field_name field);
     p \<leftarrow> http_push_byte p 58;
     p \<leftarrow> http_push_byte p 32;
     p \<leftarrow> http_push_data p (field_value field);
     p \<leftarrow> http_push_byte p 13;
     http_push_byte p 10 }"

section \<open>Chunks\<close>

type_synonym ssize_t = "64 word"

definition isblank :: "byte \<Rightarrow> bool" where
  "isblank c \<longleftrightarrow> c = 32 \<or> c = 9"

definition isspace :: "byte \<Rightarrow> bool" where
  "isspace c \<longleftrightarrow> c = 32 \<or> 9 \<le> c \<and> c \<le> 13"

text \<open>\<open>strtoul\<close> of the C library for the bases 10 and 16.\<close>

definition digits_value :: "nat \<Rightarrow> byte list \<Rightarrow> nat" where
  "digits_value base ds = foldl (\<lambda>n d. n * base + unat (xdigit d)) 0 ds"

definition ULONG_MAX :: u64 where
  "ULONG_MAX = - 1"

definition strtoul_digits :: "nat \<Rightarrow> byte list \<Rightarrow> nat \<Rightarrow> bool \<Rightarrow> u64 option" where
  "strtoul_digits base s p negative = do {
     q \<leftarrow> char_scan (if base = 16 then isxdigit else isdigit) s p;
     let v = digits_value base (range_of s p q);
     Some (if v < 2 ^ 64 then if negative then - of_nat v else of_nat v else ULONG_MAX) }"

definition strtoul :: "nat \<Rightarrow> byte list \<Rightarrow> nat \<Rightarrow> u64 option" where
  "strtoul base s p = do {
     p \<leftarrow> char_scan isspace s p;
     c \<leftarrow> char_at s p;
     let p = (if c = 43 \<or> c = 45 then p + 1 else p);
     prefix \<leftarrow> (if base = 16 then chars_test s p [(=) 48, (\<lambda>x. x = 120 \<or> x = 88), isxdigit] else Some False);
     strtoul_digits base s (if prefix then p + 2 else p) (c = 45) }"

text \<open>The result, and the size when it is positive.\<close>

definition http_chunk_size :: "byte list \<Rightarrow> (ssize_t \<times> size_t) option" where
  "http_chunk_size input =
     (if 10 \<notin> set input then Some (0, 0)
      else do {
        digits \<leftarrow> char_scan isblank input 0;
        p \<leftarrow> char_scan isxdigit input digits;
        (if digits = p then Some (- 1, 0)
         else do {
           p \<leftarrow> char_scan isblank input p;
           c \<leftarrow> char_at input p;
           line \<leftarrow> (if c = 59
              then do {
                p \<leftarrow> char_scan (\<lambda>c. c \<noteq> 10) input p;
                previous \<leftarrow> char_at input (p - 1);
                Some (if previous = 13 then Some p else None) }
              else Some (if c = 13 then Some (p + 1) else None));
           (case line of
              None \<Rightarrow> Some (- 1, 0)
            | Some p \<Rightarrow> do {
                c \<leftarrow> char_at input p;
                (if c \<noteq> 10 then Some (- 1, 0)
                 else do {
                   sz \<leftarrow> strtoul 16 input digits;
                   Some (if sz = ULONG_MAX then (- 1, 0) else (of_nat (p + 1), sz)) }) }) }) })"

text \<open>The result, and the chunk as a position and a size.\<close>

definition http_chunk :: "byte list \<Rightarrow> (ssize_t \<times> nat \<times> size_t) option" where
  "http_chunk input = do {
     (n, chunk_size) \<leftarrow> http_chunk_size input;
     let sz = of_nat (length input);
     Some (if sint n \<le> 0 then (n, 0, 0)
           else if n + 2 > sz then (0, 0, 0)
           else if chunk_size > sz - n - 2 then (0, 0, 0)
           else (chunk_size + n + 2, unat n, chunk_size)) }"

text \<open>The first loop: the offset behind the last chunk, or the result it returns early.\<close>

partial_function (option) http_dechunk_check :: "byte list \<Rightarrow> size_t \<Rightarrow> (ssize_t + size_t) option" where
  "http_dechunk_check input offset =
     Option.bind (http_chunk (drop (unat offset) input)) (\<lambda>(n, p, sz).
       if sint n \<le> 0 then Some (Inl n)
       else if sz \<noteq> 0 then http_dechunk_check input (offset + n) else Some (Inr (offset + n)))"

declare http_dechunk_check.simps [code]

text \<open>The second loop moves the chunks together; \<open>done_size\<close> is the size of \<open>dechunked\<close>.\<close>

definition bytes_move :: "byte list \<Rightarrow> nat \<Rightarrow> nat \<Rightarrow> nat \<Rightarrow> byte list option" where
  "bytes_move s dst src n =
     (if src + n \<le> length s \<and> dst + n \<le> length s
      then Some (take dst s @ take n (drop src s) @ drop (dst + n) s) else None)"

partial_function (option) http_dechunk_move :: "byte list \<Rightarrow> size_t \<Rightarrow> size_t \<Rightarrow> (byte list \<times> size_t \<times> size_t) option" where
  "http_dechunk_move input offset done_size =
     Option.bind (http_chunk (drop (unat offset) input)) (\<lambda>(n, p, sz).
     Option.bind (bytes_move input (unat done_size) (unat offset + p) (unat sz)) (\<lambda>input.
       if sz \<noteq> 0 then http_dechunk_move input (offset + n) (done_size + sz) else Some (input, offset + n, done_size + sz)))"

declare http_dechunk_move.simps [code]

text \<open>The result, the memory of the input afterwards and the size of the body at its start.\<close>

definition http_dechunk :: "byte list \<Rightarrow> (ssize_t \<times> byte list \<times> size_t) option" where
  "http_dechunk input = do {
     r \<leftarrow> http_dechunk_check input 0;
     (case r of
        Inl n \<Rightarrow> Some (n, input, 0)
      | Inr _ \<Rightarrow> do {
          (input, offset, sz) \<leftarrow> http_dechunk_move input 0 0;
          Some (offset, input, sz) }) }"

section \<open>Requests\<close>

text \<open>The loop over the fields from index \<open>i\<close> on.\<close>

fun http_field_lookup_from :: "http_field list \<Rightarrow> string_t \<Rightarrow> string_t option" where
  "http_field_lookup_from [] name = Some string_null"
| "http_field_lookup_from (f # fs) name = do {
     equal \<leftarrow> string_equal_case (field_name f) name;
     if equal then Some (field_value f) else http_field_lookup_from fs name }"

definition http_field_lookup :: "http_field list \<Rightarrow> nat \<Rightarrow> string_t \<Rightarrow> string_t option" where
  "http_field_lookup fs fields_count name =
     (if fields_count \<le> length fs then http_field_lookup_from (take fields_count fs) name else None)"

text \<open>A token of the input as a data vector.\<close>

definition token_data :: "data \<Rightarrow> token option \<Rightarrow> data" where
  "token_data input r =
     (case r of None \<Rightarrow> data_of None 0 | Some (p, n) \<Rightarrow> data_of (ptr_add (data_base input) p) (of_nat n))"

record http_request =
  request_method :: string_t
  request_target :: string_t
  request_body :: data
  request_fields :: "http_field list"
  request_fields_count :: size_t

text \<open>The initialised bytes at a pointer, and \<open>strtoull(p, NULL, 10)\<close>.\<close>

definition readable :: "ptr \<Rightarrow> byte list" where
  "readable p = (case p of None \<Rightarrow> [] | Some blk \<Rightarrow> map the (takeWhile (\<lambda>c. c \<noteq> None) blk))"

definition strtoull :: "ptr \<Rightarrow> u64 option" where
  "strtoull p = strtoul 10 (readable p) 0"

text \<open>
  The two framings of a body. \<open>http_dechunk\<close> works on the memory of the input buffer, which is
  stored back; when it fails nothing has changed.
\<close>

definition http_request_body ::
    "'a stream \<Rightarrow> data \<Rightarrow> int32 \<Rightarrow> http_request \<Rightarrow> (int \<times> 'a stream \<times> http_request) option" where
  "http_request_body s input n request = do {
     encoding \<leftarrow> http_field_lookup (request_fields request) (unat (request_fields_count request)) (literal ''Transfer-Encoding'');
     len \<leftarrow> http_field_lookup (request_fields request) (unat (request_fields_count request)) (literal ''Content-Length'');
     (if \<not> data_empty len
      then if \<not> data_empty encoding then Some (- 1, s, request)
           else do {
             sz \<leftarrow> strtoull (data_base len);
             (if data_size input < scast n + sz then Some (0, s, request)
              else Some (1, stream_consume s (scast n + sz),
                     request\<lparr>request_body := data_of (ptr_add (data_base input) (unat n)) sz\<rparr>)) }
      else if \<not> data_empty encoding
      then do {
        chunked \<leftarrow> data_equal_case encoding (literal ''Chunked'');
        (if \<not> chunked then Some (- 1, s, request)
         else do {
           chunks \<leftarrow> data_bytes (data_offset input (scast n));
           (sz, chunks, body_size) \<leftarrow> http_dechunk chunks;
           b \<leftarrow> buffer_poke (stream_input_buffer s) (stream_input_consumed s + scast n) (map Some chunks);
           let s = s\<lparr>stream_input_buffer := b\<rparr>;
           (if sint sz \<le> 0 then Some (sint sz, s, request)
            else Some (1, stream_consume s (scast n + sz),
                   request\<lparr>request_body := data_of (ptr_add (data_base (stream_read s)) (unat n)) body_size\<rparr>)) }) }
      else Some (1, stream_consume s (scast n), request)) }"

definition http_read_request :: "bool \<Rightarrow> 'a stream \<Rightarrow> http_request \<Rightarrow> (int \<times> 'a stream \<times> http_request) option" where
  "http_read_request sse s request =
     (let input = stream_read s
      in if data_empty input then Some (0, s, request)
         else do {
           phr \<leftarrow> phr_parse_request sse (readable (data_base input)) (unat (data_size input)) (unat (request_fields_count request)) 0;
           let n = phr_result phr;
           let fs = map (\<lambda>(name, value). http_field_define (token_data input name) (token_data input (Some value))) (phr_headers phr);
           let request = request\<lparr>request_method := token_data input (phr_method phr), request_target := token_data input (phr_path phr),
                 request_fields := fs, request_fields_count := of_nat (length fs)\<rparr>;
           (if sint n \<le> 0 then Some (if n = - 1 then - 1 else 0, s, request)
            else do {
              let request = request\<lparr>request_body := data_null\<rparr>;
              get \<leftarrow> string_equal (request_method request) (literal ''GET'');
              (if get then Some (1, stream_consume s (scast n), request)
               else http_request_body s input n request) }) })"

section \<open>Responses\<close>

text \<open>The decimal digits of the body's size, in a variable of 16 bytes.\<close>

definition http_length :: "data \<Rightarrow> string_t option" where
  "http_length body = do {
     length_size \<leftarrow> http_u32_len (ucast (data_size body));
     (storage, _) \<leftarrow> http_u32_sprint (ucast (data_size body)) (replicate 16 None, unat length_size);
     Some (data_of (Some storage) length_size) }"

definition http_write_head ::
    "'a stream \<times> size_t \<Rightarrow> string_t \<Rightarrow> string_t \<Rightarrow> string_t \<Rightarrow> string_t \<Rightarrow> ('a stream \<times> size_t) option" where
  "http_write_head p status date type len = do {
     p \<leftarrow> http_push_data p (literal ''HTTP/1.1 '');
     p \<leftarrow> http_push_data p status;
     p \<leftarrow> http_push_data p (data_literal [13, 10]);
     p \<leftarrow> http_push_field p (http_field_define (literal ''Server'') (literal ''*''));
     p \<leftarrow> http_push_field p (http_field_define (literal ''Date'') date);
     p \<leftarrow> http_push_field p (http_field_define (literal ''Content-Type'') type);
     http_push_field p (http_field_define (literal ''Content-Length'') len) }"

definition http_write_response_basic ::
    "'a stream \<Rightarrow> string_t \<Rightarrow> string_t \<Rightarrow> string_t \<Rightarrow> data \<Rightarrow> 'a stream option" where
  "http_write_response_basic s status date type body = do {
     len \<leftarrow> http_length body;
     let sz = 9 + string_size status + 2 + 11 + 37 + 16 + string_size type + 18 + string_size len + 2 + data_size body;
     p \<leftarrow> http_write_head (stream_allocate s sz) status date type len;
     p \<leftarrow> http_push_data p (data_literal [13, 10]);
     p \<leftarrow> http_push_data p body;
     Some (fst p) }"

fun http_fields_size :: "http_field list \<Rightarrow> size_t \<Rightarrow> size_t" where
  "http_fields_size [] sz = sz"
| "http_fields_size (f # fs) sz =
     http_fields_size fs (sz + (string_size (field_name f) + 2 + string_size (field_value f) + 2))"

fun http_push_fields :: "'a stream \<times> size_t \<Rightarrow> http_field list \<Rightarrow> ('a stream \<times> size_t) option" where
  "http_push_fields p [] = Some p"
| "http_push_fields p (f # fs) = do {
     p \<leftarrow> http_push_field p f;
     http_push_fields p fs }"

definition http_write_response_extended ::
    "'a stream \<Rightarrow> string_t \<Rightarrow> string_t \<Rightarrow> string_t \<Rightarrow> data \<Rightarrow> http_field list \<Rightarrow> size_t \<Rightarrow> 'a stream option" where
  "http_write_response_extended s status date type body fs fields_count = do {
     len \<leftarrow> http_length body;
     let sz = 9 + string_size status + 2 + 11 + 37 + 16 + string_size type + 18 + string_size len + 2 + data_size body;
     fs \<leftarrow> (if unat fields_count \<le> length fs then Some (take (unat fields_count) fs) else None);
     let sz = http_fields_size fs sz;
     p \<leftarrow> http_write_head (stream_allocate s sz) status date type len;
     p \<leftarrow> http_push_fields p fs;
     p \<leftarrow> http_push_data p (data_literal [13, 10]);
     p \<leftarrow> http_push_data p body;
     Some (fst p) }"

definition http_write_response ::
    "'a stream \<Rightarrow> string_t \<Rightarrow> string_t \<Rightarrow> string_t \<Rightarrow> data \<Rightarrow> http_field list \<Rightarrow> size_t \<Rightarrow> 'a stream option" where
  "http_write_response s status date type body fs fields_count =
     (if fields_count = 0 then http_write_response_basic s status date type body
      else http_write_response_extended s status date type body fs fields_count)"

end
