(* ===== verification/Http_Response.thy ===== *)
theory Http_Response
  imports Http
begin

text \<open>
  Writing a response: the decimal length, the output pointer, and the bytes that end up in the
  stream's waiting buffer.
\<close>

section \<open>Decimal numbers\<close>

fun decimal :: "nat \<Rightarrow> byte list" where
  "decimal n = (if n < 10 then [of_nat (48 + n)] else decimal (n div 10) @ [of_nat (48 + n mod 10)])"

declare decimal.simps [simp del]

lemma decimal_small: "n < 10 \<Longrightarrow> decimal n = [of_nat (48 + n)]"
  by (simp add: decimal.simps)

lemma decimal_step: "10 \<le> n \<Longrightarrow> decimal n = decimal (n div 10) @ [of_nat (48 + n mod 10)]"
  by (subst decimal.simps) simp

lemma decimal_pair: "100 \<le> n \<Longrightarrow> decimal n = decimal (n div 100) @ [of_nat (48 + n mod 100 div 10), of_nat (48 + n mod 100 mod 10)]"
proof -
  assume n: "100 \<le> n"
  have "decimal n = decimal (n div 10) @ [of_nat (48 + n mod 10)]" using n by (simp add: decimal_step)
  also have "decimal (n div 10) = decimal (n div 10 div 10) @ [of_nat (48 + n div 10 mod 10)]"
    using n by (intro decimal_step) simp
  finally show ?thesis
    by (simp add: div_mult2_eq [symmetric] mod_mod_cancel) (simp add: mod_mult2_eq [of n 10 10, simplified] )
qed

lemma length_decimal: "10 ^ d \<le> n \<Longrightarrow> n < 10 ^ Suc d \<Longrightarrow> length (decimal n) = Suc d"
proof (induction d arbitrary: n)
  case 0
  then show ?case by (simp add: decimal_small)
next
  case (Suc d)
  have "10 ^ d \<le> n div 10" using Suc.prems(1) by (simp add: less_eq_div_iff_mult_less_eq mult.commute)
  moreover have "n div 10 < 10 ^ Suc d" using Suc.prems(2) by (simp add: div_less_iff_less_mult mult.commute)
  ultimately have "length (decimal (n div 10)) = Suc d" by (rule Suc.IH)
  moreover have "10 \<le> n" using Suc.prems(1) by (meson dual_order.trans le_numeral_extra(4) power_increasing self_le_power zero_less_Suc one_le_numeral)
  ultimately show ?case by (simp add: decimal_step)
qed

section \<open>The length of a number\<close>

lemma builtin_clz_bit:
  fixes w :: u32
  assumes "2 ^ k \<le> unat w" "unat w < 2 ^ Suc k" "k < 32"
  shows "builtin_clz w = of_nat (31 - k)"
proof -
  have bit: "bit w j \<longleftrightarrow> odd (unat w div 2 ^ j)" for j
    using bit_unsigned_iff [where ?'a = nat, of w j] by (simp add: bit_nat_def)
  have hi: "\<not> bit w j" if "k < j" for j
  proof -
    have "(2 :: nat) ^ Suc k \<le> 2 ^ j" using that by (intro power_increasing) auto
    then have "unat w < 2 ^ j" using assms(2) by linarith
    then show ?thesis by (simp add: bit)
  qed
  have "unat w div 2 ^ k = 1" using assms(1,2) by (intro div_nat_eqI) simp_all
  then have lo: "bit w k" by (simp add: bit)
  have "[0..<32] = [0..<k] @ k # [Suc k..<32]"
    using assms(3) upt_add_eq_append [of 0 k "32 - k"] upt_conv_Cons [of k 32] by simp
  then have "map (bit w) (rev [0..<32]) = map (bit w) (rev [Suc k..<32]) @ True # map (bit w) (rev [0..<k])"
    using lo by simp
  moreover have "\<forall>x\<in>set (map (bit w) (rev [Suc k..<32])). \<not> x" using hi by auto
  then have "takeWhile Not (map (bit w) (rev [Suc k..<32]) @ True # map (bit w) (rev [0..<k])) = map (bit w) (rev [Suc k..<32])"
    by (subst takeWhile_append2) auto
  ultimately have "takeWhile Not (map (bit w) (rev [0..<32])) = map (bit w) (rev [Suc k..<32])" by simp
  then show ?thesis by (simp add: builtin_clz_def)
qed

definition len_estimate :: "nat \<Rightarrow> nat" where
  "len_estimate k = Suc k * 1233 div 4096"

lemma len_estimate_ok:
  assumes "k < 32"
  shows "len_estimate k < 10 \<and> (len_estimate k \<noteq> 0 \<longrightarrow> (10 :: nat) ^ (len_estimate k - 1) \<le> 2 ^ k) \<and> (2 :: nat) ^ Suc k \<le> 10 ^ Suc (len_estimate k)"
proof -
  have "k = 0 \<or> k = 1 \<or> k = 2 \<or> k = 3 \<or> k = 4 \<or> k = 5 \<or> k = 6 \<or> k = 7 \<or> k = 8 \<or> k = 9 \<or> k = 10 \<or> k = 11 \<or> k = 12 \<or> k = 13 \<or> k = 14 \<or> k = 15 \<or>
    k = 16 \<or> k = 17 \<or> k = 18 \<or> k = 19 \<or> k = 20 \<or> k = 21 \<or> k = 22 \<or> k = 23 \<or> k = 24 \<or> k = 25 \<or> k = 26 \<or> k = 27 \<or> k = 28 \<or> k = 29 \<or> k = 30 \<or> k = 31" using assms by (auto simp: less_Suc_eq eval_nat_numeral)
  then show ?thesis by (elim disjE) (simp_all add: len_estimate_def)
qed

lemma pow_10_nth: "t < 10 \<Longrightarrow> unat (pow_10 ! t) = (if t = 0 then 0 else 10 ^ t)"
proof -
  assume "t < 10"
  then have "t = 0 \<or> t = 1 \<or> t = 2 \<or> t = 3 \<or> t = 4 \<or> t = 5 \<or> t = 6 \<or> t = 7 \<or> t = 8 \<or> t = 9"
    by (auto simp: less_Suc_eq eval_nat_numeral)
  then show ?thesis by (elim disjE) (simp_all add: pow_10_def)
qed

lemma http_u32_len_decimal: "http_u32_len n = Some (of_nat (length (decimal (unat n))))"
proof -
  let ?m = "unat (n OR 1)"
  have m: "?m = (if even (unat n) then unat n + 1 else unat n)"
  proof -
    have "?m = unat n OR 1" by (simp add: unsigned_or_eq)
    then show ?thesis by (simp add: or_Suc_0_eq)
  qed
  then have m1: "1 \<le> ?m" by (cases "unat n") auto
  obtain k where k: "2 ^ k \<le> ?m" "?m < 2 ^ Suc k"
    using ex_power_ivl1 [of 2 ?m] m1 by auto
  have "?m < 2 ^ 32" using unsigned_less [of "n OR 1"] by simp
  then have k32: "k < 32" using k(1) by (meson leD le_less_trans nat_less_le not_le power_increasing_iff one_less_numeral_iff semiring_norm(76))
  note est = len_estimate_ok [OF k32]
  let ?t = "len_estimate k"
  define t where "t = drop_bit 12 ((32 - builtin_clz (n OR 1)) * 1233)"
  have x: "32 - builtin_clz (n OR 1) = of_nat (Suc k)"
    using builtin_clz_bit [OF k k32] k32 by (simp add: of_nat_diff)
  have "(32 - builtin_clz (n OR 1)) * 1233 = of_nat (Suc k * 1233)" unfolding x by simp
  moreover have "unat (of_nat (Suc k * 1233) :: u32) = Suc k * 1233"
    using k32 by (subst unsigned_of_nat, subst take_bit_nat_eq_self) simp_all
  ultimately have "unat ((32 - builtin_clz (n OR 1)) * 1233) = Suc k * 1233" by (simp only:)
  then have t: "unat t = ?t" by (simp add: t_def drop_bit_eq_div len_estimate_def unat_div)
  have less: "n < pow_10 ! ?t \<longleftrightarrow> ?t \<noteq> 0 \<and> unat n < 10 ^ ?t"
    using pow_10_nth [of ?t] est by (auto simp: word_less_nat_alt)
  have n: "unat n < 2 ^ Suc k" "k \<noteq> 0 \<longrightarrow> 2 ^ k \<le> unat n"
  proof -
    show "unat n < 2 ^ Suc k" using k(2) m by (auto split: if_splits)
    have "odd ?m" using m by (auto split: if_splits)
    moreover have "even ((2 :: nat) ^ k)" if "k \<noteq> 0" using that by simp
    ultimately have "k \<noteq> 0 \<longrightarrow> 2 ^ k \<noteq> ?m" by metis
    then show "k \<noteq> 0 \<longrightarrow> 2 ^ k \<le> unat n" using k(1) m by (auto split: if_splits)
  qed
  have "length (decimal (unat n)) = (if n < pow_10 ! ?t then ?t else Suc ?t)"
  proof (cases "n < pow_10 ! ?t")
    case True
    then have nz: "?t \<noteq> 0" and up: "unat n < 10 ^ Suc (?t - 1)" using less by auto
    then have "k \<noteq> 0" by (auto simp: len_estimate_def)
    then have "10 ^ (?t - 1) \<le> unat n" using n(2) est nz by (meson order_trans)
    then show ?thesis using length_decimal [OF _ up] True nz by simp
  next
    case False
    have up: "unat n < 10 ^ Suc ?t" using n(1) est by (meson less_le_trans)
    show ?thesis
    proof (cases "?t = 0")
      case True
      then show ?thesis using up False by (simp add: decimal_small)
    next
      case nz: False
      then have "10 ^ ?t \<le> unat n" using False less by simp
      then show ?thesis using length_decimal [OF _ up] False by simp
    qed
  qed
  moreover have "t - (if n < pow_10 ! ?t then 1 else 0) + 1 = of_nat (if n < pow_10 ! ?t then ?t else Suc ?t)"
    unfolding unat_eq_of_nat [OF t] by simp
  moreover have "(ucast (of_nat j :: u32) :: size_t) = of_nat j" if "j < 12" for j
    using that by (intro unsigned_word_eqI) (simp add: unsigned_ucast_eq unsigned_of_nat take_bit_nat_eq_self)
  moreover have "length pow_10 = 10" by (simp add: pow_10_def)
  ultimately show ?thesis
    unfolding http_u32_len_def Let_def t_def [symmetric] using t est by (simp split: if_splits)
qed

section \<open>The digits of a number\<close>

lemma pairs_nth:
  assumes "i < n"
  shows "concat (map (\<lambda>i. [f i, g i]) [0..<n]) ! (2 * i) = f i" "concat (map (\<lambda>i. [f i, g i]) [0..<n]) ! (2 * i + 1) = g i"
proof -
  have len: "length (concat (map (\<lambda>i. [f i, g i]) [0..<n])) = 2 * n" for n by (induction n) simp_all
  show "concat (map (\<lambda>i. [f i, g i]) [0..<n]) ! (2 * i) = f i" "concat (map (\<lambda>i. [f i, g i]) [0..<n]) ! (2 * i + 1) = g i"
    using assms by (induction n) (auto simp: nth_append len less_Suc_eq)
qed

lemma digits_nth: "i < 100 \<Longrightarrow> digits ! (2 * i) = of_nat (48 + i div 10) \<and> digits ! (2 * i + 1) = of_nat (48 + i mod 10)"
  unfolding digits_def by (intro conjI) (rule pairs_nth, assumption)+

lemma put_before_cell:
  "length A = q \<Longrightarrow> put_before (A @ x # B, Suc q) c = Some (A @ Some c # B, q)"
  by (simp add: put_before_def block_write_def)

lemma put_pair:
  assumes "length A = q"
  shows "Option.bind (put_before (A @ x # y # B, q + 2) d) (\<lambda>s. put_before s c) = Some (A @ Some c # Some d # B, q)"
  using put_before_cell [of "A @ [x]" "Suc q" y B d] put_before_cell [OF assms, of x "Some d # B" c] assms by simp

lemma put_pair_bind:
  assumes "length A = q"
  shows "Option.bind (put_before (A @ x # y # B, Suc (Suc q)) d) (\<lambda>s. Option.bind (put_before s c) F) = F (A @ Some c # Some d # B, q)"
  using put_before_cell [of "A @ [x]" "Suc q" y B d] put_before_cell [OF assms, of x "Some d # B" c] assms by simp

lemma http_u32_sprint_decimal:
  assumes "length X = length (decimal (unat n))"
  shows "http_u32_sprint n (A @ X @ B, length (A @ X)) = Some (A @ map Some (decimal (unat n)) @ B, length A)"
  using assms
proof (induction "unat n" arbitrary: n X B rule: less_induct)
  case less
  have mods: "unat (m * 2) = 2 * unat m" if "unat m < 100" for m :: u32
    using that by (simp add: unat_word_ariths)
  consider (big) "100 \<le> n" | (mid) "\<not> 100 \<le> n" "10 \<le> n" | (small) "n < 10" by fastforce
  then show ?case
  proof cases
    case small
    then have n: "unat n < 10" by (simp add: word_less_nat_alt)
    then have X: "length X = 1" using less.prems by (simp add: decimal_small)
    then obtain x where x: "X = [x]" by (cases X) auto
    have c: "(ucast n + 48 :: byte) = of_nat (48 + unat n)" by (simp add: add.commute)
    have "\<not> 100 \<le> n" using small by (simp add: word_less_nat_alt word_le_nat_alt)
    then show ?thesis
      using small n put_before_cell [OF refl, of A x B] by (subst http_u32_sprint.simps) (simp add: x c decimal_small)
  next
    case mid
    then have n: "10 \<le> unat n" "unat n < 100" by (simp_all add: word_less_nat_alt word_le_nat_alt)
    have d: "decimal (unat n) = [of_nat (48 + unat n div 10), of_nat (48 + unat n mod 10)]"
      using n by (simp add: decimal_step decimal_small)
    then have "length X = 2" using less.prems by simp
    then obtain x y where x: "X = [x, y]" by (auto simp: length_Suc_conv eval_nat_numeral)
    show ?thesis
      using mid put_pair [OF refl, of A x y B "digits ! (2 * unat n + 1)" "digits ! (2 * unat n)"] digits_nth [OF n(2)]
      by (subst http_u32_sprint.simps) (simp add: x d mods [OF n(2)] Let_def not_less [symmetric])
  next
    case big
    then have n: "100 \<le> unat n" by (simp add: word_le_nat_alt)
    have "\<not> n < 10" using big by (simp add: word_le_nat_alt word_less_nat_alt)
    have m: "unat (n mod 100) = unat n mod 100" "unat (n div 100) = unat n div 100" by (simp_all add: unat_mod unat_div)
    let ?k = "length (decimal (unat n div 100))"
    obtain Y x y where X: "X = Y @ [x, y]" "length Y = ?k"
    proof
      have "length X = ?k + 2" using less.prems by (simp add: decimal_pair [OF n])
      then show "X = take ?k X @ [X ! ?k, X ! Suc ?k]" "length (take ?k X) = ?k"
        by (simp_all add: list_eq_iff_nth_eq nth_append less_Suc_eq)
    qed
    have d: "digits ! (2 * (unat n mod 100)) = of_nat (48 + unat n mod 100 div 10)"
      "digits ! (2 * (unat n mod 100) + 1) = of_nat (48 + unat n mod 100 mod 10)"
      using digits_nth [of "unat n mod 100"] by simp_all
    have "http_u32_sprint (n div 100) (A @ Y @ Some (digits ! (2 * (unat n mod 100))) # Some (digits ! (2 * (unat n mod 100) + 1)) # B, length (A @ Y)) =
        Some (A @ map Some (decimal (unat (n div 100))) @ Some (digits ! (2 * (unat n mod 100))) # Some (digits ! (2 * (unat n mod 100) + 1)) # B, length A)"
      by (rule less.hyps) (use n X m in simp_all)
    moreover have "http_u32_sprint n (A @ X @ B, length (A @ X)) = http_u32_sprint (n div 100)
        (A @ Y @ Some (digits ! (2 * (unat n mod 100))) # Some (digits ! (2 * (unat n mod 100) + 1)) # B, length (A @ Y))"
      using big mods [of "n mod 100"] m put_pair_bind [of "A @ Y" "length A + length Y" x y B "digits ! (2 * (unat n mod 100) + 1)"
          "digits ! (2 * (unat n mod 100))" "http_u32_sprint (n div 100)"]
      by (subst http_u32_sprint.simps) (simp add: X Let_def)
    ultimately show ?thesis using m by (simp add: decimal_pair [OF n] d [simplified])
  qed
qed

lemma http_length_decimal:
  assumes "unat (data_size body) < 2 ^ 32"
  shows "\<exists>len. http_length body = Some len \<and> data_bytes len = Some (decimal (unat (data_size body)))"
proof -
  let ?n = "ucast (data_size body) :: u32"
  let ?d = "decimal (unat (data_size body))"
  have n: "unat ?n = unat (data_size body)" using assms by (simp add: unsigned_ucast_eq take_bit_nat_eq_self)
  have len: "length ?d \<le> 10"
  proof (cases "unat (data_size body) < 10")
    case False
    then obtain k where k: "10 ^ k \<le> unat (data_size body)" "unat (data_size body) < 10 ^ Suc k"
      using ex_power_ivl1 [of 10 "unat (data_size body)"] by auto
    have "(10 :: nat) ^ k < 10 ^ 10" using k(1) assms by simp
    then have "k < 10" by (rule power_less_imp_less_exp [rotated]) simp
    then show ?thesis using length_decimal [OF k] by simp
  qed (simp add: decimal_small)
  have "replicate 16 None = ([] :: block) @ replicate (length ?d) None @ replicate (16 - length ?d) None"
    using len by (simp flip: replicate_add)
  then have "http_u32_sprint ?n (replicate 16 None, length ?d) = Some (map Some ?d @ replicate (16 - length ?d) None, 0)"
    using http_u32_sprint_decimal [of "replicate (length ?d) None" ?n "[]" "replicate (16 - length ?d) None"] n by simp
  then have "http_length body = Some (data_of (Some (map Some ?d @ replicate (16 - length ?d) None)) (of_nat (length ?d)))"
    using len by (simp add: http_length_def http_u32_len_decimal n)
  moreover have "data_bytes (data_of (Some (map Some ?d @ replicate (16 - length ?d) None)) (of_nat (length ?d))) = Some ?d"
    using len by (simp add: data_bytes_def ptr_bytes_def)
  ultimately show ?thesis by blast
qed

section \<open>The output pointer\<close>

text \<open>
  \<open>cursor s0 p bs k\<close>: the stream is \<open>s0\<close> but for its waiting buffer, which starts with \<open>bs\<close>; the
  pointer stands behind them, with room for \<open>k\<close> more bytes.
\<close>

definition cursor :: "'a stream \<Rightarrow> 'a stream \<times> size_t \<Rightarrow> byte list \<Rightarrow> nat \<Rightarrow> bool" where
  "cursor s0 p bs k \<longleftrightarrow> (\<exists>b J. fst p = s0\<lparr>stream_output_waiting := b\<rparr> \<and> buffer_ok b \<and>
     buffer_cells b = map Some bs @ J \<and> length J = k \<and> unat (snd p) = length bs)"

lemma cursor_allocate:
  assumes w: "buffer_holds (stream_output_waiting s) waiting" and lim: "length waiting + unat n \<le> buffer_limit"
  shows "cursor s (stream_allocate s n) waiting (unat n)"
proof -
  let ?w = "stream_output_waiting s" and ?b = "buffer_resize (stream_output_waiting s) (buffer_size (stream_output_waiting s) + n)"
  have w': "buffer_ok ?w" "buffer_cells ?w = map Some waiting" "unat (buffer_size ?w) = length waiting"
    using buffer_holds_cells [OF w] by auto
  have u: "unat (buffer_size ?w + n) = length waiting + unat n" using lim w'(3) by (simp add: unat_add64 buffer_limit_def)
  have b: "buffer_ok ?b" "buffer_size ?b = buffer_size ?w + n" "take (length waiting) (buffer_cells ?b) = map Some waiting"
    using buffer_resize_spec [OF w'(1), of "buffer_size ?w + n"] u lim w' by (simp_all add: min_absorb2)
  have "length (buffer_cells ?b) = length waiting + unat n" using length_buffer_cells [OF b(1)] b(2) u by simp
  then have "length (drop (length waiting) (buffer_cells ?b)) = unat n" by simp
  moreover have "buffer_cells ?b = map Some waiting @ drop (length waiting) (buffer_cells ?b)"
    unfolding b(3) [symmetric] by simp
  ultimately show ?thesis
    unfolding cursor_def using b(1) w'(3)
    by (intro exI [of _ ?b] exI [of _ "drop (length waiting) (buffer_cells ?b)"])
      (simp add: stream_allocate_def buffer_allocate_def Let_def del: length_drop)
qed

lemma cursor_store:
  assumes c: "cursor s0 p bs k" and xs: "length xs \<le> k"
  shows "\<exists>p'. http_store p (map Some xs) = Some p' \<and> snd p' = snd p \<and>
    (\<forall>n. unat n = length xs \<longrightarrow> cursor s0 (http_move p' n) (bs @ xs) (k - length xs))"
proof -
  obtain b J where b: "fst p = s0\<lparr>stream_output_waiting := b\<rparr>" "buffer_ok b" "buffer_cells b = map Some bs @ J"
    "length J = k" "unat (snd p) = length bs"
    using c by (auto simp: cursor_def)
  have size: "unat (buffer_size b) = length bs + k" using length_buffer_cells [OF b(2)] b(3,4) by simp
  show ?thesis
  proof (cases "buffer_base b")
    case None
    then have "bs = []" "k = 0" using b(3,4) by (simp_all add: buffer_cells_def)
    then have "xs = []" using xs by simp
    have "fst p = s0\<lparr>stream_output_waiting := b\<rparr>" by (fact b(1))
    then have store: "http_store p (map Some xs) = Some p"
      using None \<open>xs = []\<close> by (cases p) (simp add: http_store_def buffer_poke_def)
    have "http_move p n = p" if "unat n = length xs" for n
      using that \<open>xs = []\<close> by (cases p) (simp add: http_move_def unat_eq_zero)
    then show ?thesis using store c \<open>xs = []\<close> by simp
  next
    case (Some blk)
    then have len: "length blk = unat (buf_capacity b)" "unat (buffer_size b) \<le> length blk" using b(2) by (simp_all add: buffer_ok_def)
    have cells: "take (unat (buffer_size b)) blk = map Some bs @ J" using b(3) Some by (simp add: buffer_cells_def)
    define C where "C = drop (unat (buffer_size b)) blk"
    have blk: "blk = map Some bs @ take (length xs) J @ drop (length xs) J @ C"
      using cells by (metis C_def append.assoc append_take_drop_id)
    let ?blk = "map Some bs @ map Some xs @ drop (length xs) J @ C"
    define b' where "b' = b\<lparr>buf_data := data_of (Some ?blk) (buffer_size b)\<rparr>"
    have "buffer_poke b (snd p) (map Some xs) = Some b'"
      unfolding b'_def using Some blk xs b(4,5) by (intro buffer_poke_simp [where X = "take (length xs) J"]) auto
    then have store: "http_store p (map Some xs) = Some (s0\<lparr>stream_output_waiting := b'\<rparr>, snd p)"
      using b(1) by (cases p) (simp add: http_store_def)
    have lenblk: "length ?blk = length blk" using blk xs b(4) by simp
    then have ok: "buffer_ok b'" using len b(2) Some by (simp add: buffer_ok_def b'_def)
    have "take (unat (buffer_size b)) ?blk = map Some (bs @ xs) @ drop (length xs) J"
      using size xs b(4) by simp
    then have cells': "buffer_cells b' = map Some (bs @ xs) @ drop (length xs) J"
      by (simp add: b'_def buffer_cells_def)
    have "cursor s0 (http_move (s0\<lparr>stream_output_waiting := b'\<rparr>, snd p) n) (bs @ xs) (k - length xs)" if n: "unat n = length xs" for n
    proof -
      have "length bs + length xs < 2 ^ 64" using size xs unat_lt64 [of "buffer_size b"] by simp
      then have "unat (snd p + n) = length (bs @ xs)" using b(5) n by (simp add: unat_add64)
      then show ?thesis using ok cells' b(4) by (auto simp: cursor_def http_move_def)
    qed
    then show ?thesis using store by auto
  qed
qed

lemma push_data:
  assumes c: "cursor s0 p bs k" and d: "data_bytes d = Some xs" and room: "length xs \<le> k"
  shows "\<exists>p'. http_push_data p d = Some p' \<and> cursor s0 p' (bs @ xs) (k - length xs)"
proof -
  obtain p' where "http_store p (map Some xs) = Some p'" "\<forall>n. unat n = length xs \<longrightarrow> cursor s0 (http_move p' n) (bs @ xs) (k - length xs)"
    using cursor_store [OF c room] by blast
  moreover have "unat (data_size d) = length xs" using length_data_bytes [OF d] by simp
  ultimately show ?thesis using data_bytes_read [OF d] by (simp add: http_push_data_def)
qed

lemma push_byte:
  assumes c: "cursor s0 p bs k" and room: "1 \<le> k"
  shows "\<exists>p'. http_push_byte p x = Some p' \<and> cursor s0 p' (bs @ [x]) (k - 1)"
proof -
  obtain p' where "http_store p [Some x] = Some p'" "\<forall>n. unat n = 1 \<longrightarrow> cursor s0 (http_move p' n) (bs @ [x]) (k - 1)"
    using cursor_store [OF c, of "[x]"] room by auto
  then show ?thesis by (simp add: http_push_byte_def del: split_paired_Ex)
qed

text \<open>Pushing pieces one after the other.\<close>

definition pushes :: "('a stream \<times> size_t \<Rightarrow> ('a stream \<times> size_t) option) \<Rightarrow> byte list \<Rightarrow> bool" where
  "pushes f xs \<longleftrightarrow> (\<forall>s0 p bs k. cursor s0 p bs k \<longrightarrow> length xs \<le> k \<longrightarrow> (\<exists>p'. f p = Some p' \<and> cursor s0 p' (bs @ xs) (k - length xs)))"

lemma pushes_data: "data_bytes d = Some xs \<Longrightarrow> pushes (\<lambda>p. http_push_data p d) xs"
  unfolding pushes_def using push_data by blast

lemma pushes_byte: "pushes (\<lambda>p. http_push_byte p x) [x]"
  unfolding pushes_def by (intro allI impI) (use push_byte in \<open>simp del: split_paired_Ex\<close>)

lemma pushes_then:
  fixes f g :: "'a stream \<times> size_t \<Rightarrow> ('a stream \<times> size_t) option"
  assumes f: "pushes f xs" and g: "pushes g ys"
  shows "pushes (\<lambda>p. Option.bind (f p) g) (xs @ ys)"
  unfolding pushes_def
proof (intro allI impI)
  fix s0 :: "'a stream" and p bs k assume c: "cursor s0 p bs k" "length (xs @ ys) \<le> k"
  obtain p1 where p1: "f p = Some p1" "cursor s0 p1 (bs @ xs) (k - length xs)" using f c unfolding pushes_def by fastforce
  obtain p2 where "g p1 = Some p2" "cursor s0 p2 ((bs @ xs) @ ys) (k - length xs - length ys)"
    using g p1(2) c(2) unfolding pushes_def by fastforce
  then show "\<exists>p'. Option.bind (f p) g = Some p' \<and> cursor s0 p' (bs @ xs @ ys) (k - length (xs @ ys))"
    using p1(1) by auto
qed

lemma pushes_nothing: "pushes Some []"
  by (simp add: pushes_def)

section \<open>Fields and responses\<close>

text \<open>The bytes of a header field, and of a response.\<close>

definition field_line :: "byte list \<Rightarrow> byte list \<Rightarrow> byte list" where
  "field_line name value = name @ [58, 32] @ value @ [13, 10]"

definition text_bytes :: "string \<Rightarrow> byte list" where
  "text_bytes s = map of_char s"

lemma literal_bytes: "length s < 2 ^ 64 \<Longrightarrow> data_bytes (literal s) = Some (text_bytes s)"
  by (simp add: literal_def text_bytes_def)

lemma pushes_field:
  assumes "data_bytes (field_name f) = Some name" "data_bytes (field_value f) = Some value"
  shows "pushes (\<lambda>p. http_push_field p f) (field_line name value)"
proof -
  have "pushes (\<lambda>p. Option.bind (http_push_data p (field_name f)) (\<lambda>p. Option.bind (http_push_byte p 58) (\<lambda>p.
      Option.bind (http_push_byte p 32) (\<lambda>p. Option.bind (http_push_data p (field_value f)) (\<lambda>p.
      Option.bind (http_push_byte p 13) (\<lambda>p. http_push_byte p 10))))))
    (name @ [58] @ [32] @ value @ [13] @ [10])"
    by (intro pushes_then pushes_data pushes_byte assms)
  then show ?thesis by (simp add: http_push_field_def field_line_def)
qed

text \<open>A list of fields with given bytes.\<close>

definition fields_hold :: "http_field list \<Rightarrow> (byte list \<times> byte list) list \<Rightarrow> bool" where
  "fields_hold fs bss \<longleftrightarrow> list_all2 (\<lambda>f (name, value). data_bytes (field_name f) = Some name \<and> data_bytes (field_value f) = Some value) fs bss"

definition field_lines :: "(byte list \<times> byte list) list \<Rightarrow> byte list" where
  "field_lines bss = concat (map (\<lambda>(name, value). field_line name value) bss)"

lemma pushes_fields: "fields_hold fs bss \<Longrightarrow> pushes (\<lambda>p. http_push_fields p fs) (field_lines bss)"
  unfolding fields_hold_def
proof (induction fs bss rule: list_all2_induct)
  case Nil
  then show ?case using pushes_nothing by (simp add: field_lines_def)
next
  case (Cons f fs b bss)
  then show ?case
    by (cases b) (auto simp: field_lines_def intro!: pushes_then pushes_field)
qed

lemma data_size_bytes: "data_bytes d = Some xs \<Longrightarrow> data_size d = of_nat (length xs)"
  by (simp add: length_data_bytes)

lemma fields_size: "fields_hold fs bss \<Longrightarrow> http_fields_size fs sz = sz + of_nat (length (field_lines bss))"
  unfolding fields_hold_def
  by (induction fs bss arbitrary: sz rule: list_all2_induct)
    (auto simp: field_lines_def field_line_def string_size_def data_size_bytes split_def)

definition response_head :: "byte list \<Rightarrow> byte list \<Rightarrow> byte list \<Rightarrow> byte list \<Rightarrow> byte list" where
  "response_head status date type len =
     text_bytes ''HTTP/1.1 '' @ status @ [13, 10] @ field_line (text_bytes ''Server'') (text_bytes ''*'') @
     field_line (text_bytes ''Date'') date @ field_line (text_bytes ''Content-Type'') type @
     field_line (text_bytes ''Content-Length'') len"

definition response_bytes ::
    "byte list \<Rightarrow> byte list \<Rightarrow> byte list \<Rightarrow> (byte list \<times> byte list) list \<Rightarrow> byte list \<Rightarrow> byte list" where
  "response_bytes status date type bss body =
     response_head status date type (decimal (length body)) @ field_lines bss @ [13, 10] @ body"

lemma pushes_head:
  assumes "data_bytes status = Some st" "data_bytes date = Some dt" "data_bytes type = Some ty" "data_bytes len = Some ln"
  shows "pushes (\<lambda>p. http_write_head p status date type len) (response_head st dt ty ln)"
proof -
  have crlf: "data_bytes (data_literal [13, 10]) = Some [13, 10]" by simp
  have f: "pushes (\<lambda>p. http_push_field p (http_field_define (literal n) v)) (field_line (text_bytes n) vb)"
    if "data_bytes v = Some vb" "length n < 2 ^ 64" for n v vb
    using that literal_bytes [of n] by (intro pushes_field) (simp_all add: http_field_define_def)
  have "pushes (\<lambda>p. Option.bind (http_push_data p (literal ''HTTP/1.1 '')) (\<lambda>p. Option.bind (http_push_data p status) (\<lambda>p.
      Option.bind (http_push_data p (data_literal [13, 10])) (\<lambda>p.
      Option.bind (http_push_field p (http_field_define (literal ''Server'') (literal ''*''))) (\<lambda>p.
      Option.bind (http_push_field p (http_field_define (literal ''Date'') date)) (\<lambda>p.
      Option.bind (http_push_field p (http_field_define (literal ''Content-Type'') type)) (\<lambda>p.
      http_push_field p (http_field_define (literal ''Content-Length'') len))))))))
    (text_bytes ''HTTP/1.1 '' @ st @ [13, 10] @ field_line (text_bytes ''Server'') (text_bytes ''*'') @
     field_line (text_bytes ''Date'') dt @ field_line (text_bytes ''Content-Type'') ty @ field_line (text_bytes ''Content-Length'') ln)"
    by (intro pushes_then pushes_data f assms crlf literal_bytes) simp_all
  then show ?thesis by (simp add: http_write_head_def response_head_def)
qed

text \<open>Filling the allocated bytes exactly.\<close>

lemma cursor_full:
  assumes ok: "stream_ok s inp flight waiting" and f: "pushes f xs" and n: "unat n = length xs"
    and lim: "length waiting + length xs \<le> buffer_limit"
  shows "\<exists>p b. f (stream_allocate s n) = Some p \<and> fst p = s\<lparr>stream_output_waiting := b\<rparr> \<and>
    stream_ok (s\<lparr>stream_output_waiting := b\<rparr>) inp flight (waiting @ xs)"
proof -
  have w: "buffer_holds (stream_output_waiting s) waiting" using ok by (simp add: stream_ok_def stream_waiting_ok_def)
  have "cursor s (stream_allocate s n) waiting (length xs)" using cursor_allocate [OF w, of n] lim n by simp
  then obtain p where p: "f (stream_allocate s n) = Some p" "cursor s p (waiting @ xs) 0"
    using f unfolding pushes_def by fastforce
  then obtain b where b: "fst p = s\<lparr>stream_output_waiting := b\<rparr>" "buffer_holds b (waiting @ xs)"
    by (auto simp: cursor_def buffer_holds_def)
  have "stream_ok (s\<lparr>stream_output_waiting := b\<rparr>) inp flight (waiting @ xs)"
    using ok b(2) lim by (auto simp: stream_ok_def stream_input_ok_def stream_flight_ok_def stream_busy_def stream_waiting_ok_def)
  then show ?thesis using p(1) b(1) by blast
qed

section \<open>Properties\<close>


definition example_stream :: "nat stream" where
  "example_stream = stream_construct (Some (User 1)) (Number 0)"


end
