(* ===== verification/Phr_Correct.thy ===== *)
theory Phr_Correct
  imports Phr
begin

text \<open>
  The parser of request heads: both builds compute the same, and a request head in the form
  clients send is taken apart.
\<close>

section \<open>Bytes and their classes\<close>

lemmas byte_order = word_le_nat_alt word_less_nat_alt word_unat_eq_iff

lemma printable_unfold: "IS_PRINTABLE_ASCII c \<longleftrightarrow> 32 \<le> c \<and> c < 127"
proof -
  have "unat c < 256" using unsigned_less [of c] by simp
  then show ?thesis by (auto simp: IS_PRINTABLE_ASCII_def byte_order unat_sub_if_size word_size unsigned_ucast_eq take_bit_nat_eq_self)
qed

text \<open>What ends a token, and what a field name consists of.\<close>

definition token_end :: "byte \<Rightarrow> bool" where
  "token_end c \<longleftrightarrow> c \<le> 32 \<or> c = 127"

definition name_char :: "byte \<Rightarrow> bool" where
  "name_char c \<longleftrightarrow> c \<noteq> 58 \<and> token_char_map ! unat c \<noteq> 0"

lemma in_ranges_token: "in_ranges [0, 32, 127, 127] c \<longleftrightarrow> token_end c"
  by (auto simp: token_end_def)

lemma in_ranges_control: "in_ranges [0, 8, 10, 31, 127, 127] c \<longleftrightarrow> control_char c"
  unfolding control_char_def by (auto simp: byte_order)

lemma control_not_printable: "control_char c \<Longrightarrow> \<not> IS_PRINTABLE_ASCII c"
  unfolding printable_unfold control_char_def by (auto simp: byte_order)

lemma name_char_ranges:
  "in_ranges [0, 32, 34, 34, 40, 41, 44, 44, 47, 47, 58, 64, 91, 93, 123, 255] c \<or> name_char c"
proof -
  let ?Q = "\<lambda>n m. 0 \<le> n \<and> n \<le> 32 \<or> 34 \<le> n \<and> n \<le> 34 \<or> 40 \<le> n \<and> n \<le> 41 \<or> 44 \<le> n \<and> n \<le> 44 \<or> 47 \<le> n \<and> n \<le> 47 \<or>
    58 \<le> n \<and> n \<le> 64 \<or> 91 \<le> n \<and> n \<le> 93 \<or> 123 \<le> n \<and> n \<le> 255 \<or> n \<noteq> 58 \<and> m \<noteq> 0"
  have "list_all2 ?Q [0..<256] token_char_map" unfolding token_char_map_def by code_simp
  moreover have u: "unat c < 256" using unsigned_less [of c] by simp
  then have "unat c < length [0..<256]" unfolding length_upt by simp
  ultimately have "?Q ([0..<256] ! unat c) (token_char_map ! unat c)" by (rule list_all2_nthD)
  moreover have "[0..<256] ! unat c = unat c" using nth_upt [of 0 "unat c" 256] u by (simp only: add_0)
  ultimately have "?Q (unat c) (token_char_map ! unat c)" by (simp only:)
  moreover have "name_char c \<longleftrightarrow> unat c \<noteq> 58 \<and> token_char_map ! unat c \<noteq> 0"
    by (simp add: name_char_def word_unat_eq_iff [of c])
  moreover have n: "unat (32 :: byte) = 32" "unat (34 :: byte) = 34" "unat (40 :: byte) = 40" "unat (41 :: byte) = 41"
    "unat (44 :: byte) = 44" "unat (47 :: byte) = 47" "unat (58 :: byte) = 58" "unat (64 :: byte) = 64" "unat (91 :: byte) = 91"
    "unat (93 :: byte) = 93" "unat (123 :: byte) = 123" "unat (255 :: byte) = 255" by simp_all
  ultimately show ?thesis
    by (simp only: in_ranges.simps word_le_nat_alt simp_thms n unat_0 disj_assoc)
qed

section \<open>Both builds agree\<close>

text \<open>The search stops at the first character in a range, if it stops before the end.\<close>

definition skipped :: "(byte \<Rightarrow> bool) \<Rightarrow> byte list \<Rightarrow> nat \<Rightarrow> nat \<Rightarrow> bool" where
  "skipped P s p q \<longleftrightarrow> p \<le> q \<and> (\<forall>i. p \<le> i \<and> i < q \<longrightarrow> P (s ! i))"

lemma skipped_step: "p < q \<Longrightarrow> skipped P s p q \<longleftrightarrow> P (s ! p) \<and> skipped P s (p + 1) q"
  unfolding skipped_def by (auto simp: le_eq_less_or_eq [of p] Suc_le_eq)

lemma skipped_trans: "skipped P s p q \<Longrightarrow> skipped P s q r \<Longrightarrow> skipped P s p r"
  unfolding skipped_def by (meson le_trans not_le)

lemma skipped_refl [simp]: "skipped P s p p"
  by (auto simp: skipped_def)

lemma skipped_mono: "skipped P s p q \<Longrightarrow> (\<And>c. P c \<Longrightarrow> Q c) \<Longrightarrow> skipped Q s p q"
  by (simp add: skipped_def)

lemma skipped_takeWhile: "skipped P s p (p + length (takeWhile P (range_of s p q)))"
  unfolding skipped_def
proof (intro conjI allI impI)
  let ?t = "takeWhile P (range_of s p q)"
  fix i assume i: "p \<le> i \<and> i < p + length ?t"
  then have j: "i - p < length ?t" by auto
  then have "?t ! (i - p) = range_of s p q ! (i - p)" by (rule takeWhile_nth)
  moreover have "i - p < length (range_of s p q)" using j length_takeWhile_le [of P "range_of s p q"] by (rule less_le_trans)
  then have "range_of s p q ! (i - p) = s ! i" using i by (auto simp: range_of_def nth_drop)
  ultimately show "P (s ! i)" using nth_mem [OF j] set_takeWhileD by metis
qed simp

lemma findchar_blocks_spec:
  assumes "buf + 16 * left \<le> length s"
  shows "\<exists>p found. findchar_blocks s buf ranges left = Some (p, found) \<and>
    skipped (\<lambda>c. \<not> in_ranges ranges c) s buf p \<and> p \<le> buf + 16 * left \<and>
    (found \<longrightarrow> p < buf + 16 * left \<and> in_ranges ranges (s ! p))"
  using assms
proof (induction s buf ranges left rule: findchar_blocks.induct)
  case (2 s buf ranges left)
  let ?w = "takeWhile (\<lambda>c. \<not> in_ranges ranges c) (range_of s buf (buf + 16))"
  have len: "length (range_of s buf (buf + 16)) = 16" using 2(2) by (simp add: range_of_def)
  have sk: "skipped (\<lambda>c. \<not> in_ranges ranges c) s buf (buf + length ?w)" by (rule skipped_takeWhile)
  show ?case
  proof (cases "length ?w = 16")
    case True
    with 2 obtain p found where "findchar_blocks s (buf + 16) ranges left = Some (p, found)"
      "skipped (\<lambda>c. \<not> in_ranges ranges c) s (buf + 16) p" "p \<le> buf + 16 + 16 * left"
      "found \<longrightarrow> p < buf + 16 + 16 * left \<and> in_ranges ranges (s ! p)" by fastforce
    then show ?thesis using True sk 2(2) skipped_trans by auto
  next
    case False
    then have lt: "length ?w < 16" using length_takeWhile_le [of "\<lambda>c. \<not> in_ranges ranges c" "range_of s buf (buf + 16)"] len by simp
    then have "in_ranges ranges (range_of s buf (buf + 16) ! length ?w)" using nth_length_takeWhile [of "\<lambda>c. \<not> in_ranges ranges c" "range_of s buf (buf + 16)"] len by simp
    then have "in_ranges ranges (s ! (buf + length ?w))" using lt len 2(2) by (simp add: range_of_def)
    then show ?thesis using False sk lt 2(2) by (simp add: Let_def ex_bool_eq)
  qed
qed (simp add: ex_bool_eq)

lemma findchar_fast_spec:
  assumes "buf_end \<le> length s"
  obtains p found where "findchar_fast sse s buf buf_end ranges = Some (p, found)"
    "skipped (\<lambda>c. \<not> in_ranges ranges c) s buf p" "p = buf \<or> p \<le> buf_end"
    "found \<Longrightarrow> p < buf_end \<and> in_ranges ranges (s ! p)"
proof (cases "sse \<and> buf + 16 \<le> buf_end")
  case True
  have "16 * ((buf_end - buf) div 16) \<le> buf_end - buf" by simp
  then have lim: "buf + 16 * ((buf_end - buf) div 16) \<le> buf_end" using True by linarith
  with assms have "buf + 16 * ((buf_end - buf) div 16) \<le> length s" by simp
  from findchar_blocks_spec [OF this, of ranges] show ?thesis
    using True lim by (auto simp: findchar_fast_def intro: that)
next
  case False
  then show ?thesis by (intro that [of buf False]) (auto simp: findchar_fast_def)
qed

text \<open>Scanning from where the search stopped is scanning from the start.\<close>

lemma token_scan_skipped:
  "skipped (\<lambda>c. \<not> token_end c) s p q \<Longrightarrow> p < q \<Longrightarrow> q \<le> buf_end \<Longrightarrow> buf_end \<le> length s \<Longrightarrow>
     token_scan s p buf_end = CHECK_EOF q buf_end (token_scan s q buf_end)"
proof (induction "q - p" arbitrary: p)
  case (Suc n)
  have c: "\<not> token_end (s ! p)" "skipped (\<lambda>c. \<not> token_end c) s (p + 1) q" using Suc.prems skipped_step by auto
  then have "s ! p \<noteq> 32" "\<not> s ! p < 32" "s ! p \<noteq> 127" by (auto simp: token_end_def)
  then have e: "token_scan s p buf_end = CHECK_EOF (p + 1) buf_end (token_scan s (p + 1) buf_end)"
    using Suc.prems by (subst token_scan.simps) (simp add: Let_def)
  show ?case
  proof (cases "p + 1 = q")
    case True
    then show ?thesis using e by simp
  next
    case False
    then have "token_scan s (p + 1) buf_end = CHECK_EOF q buf_end (token_scan s q buf_end)"
      using Suc c by auto
    then show ?thesis using e False Suc.prems by (simp add: CHECK_EOF_def)
  qed
qed simp

lemma name_scan_skipped:
  "skipped name_char s p q \<Longrightarrow> p < q \<Longrightarrow> q \<le> buf_end \<Longrightarrow> buf_end \<le> length s \<Longrightarrow>
     name_scan s p buf_end = CHECK_EOF q buf_end (name_scan s q buf_end)"
proof (induction "q - p" arbitrary: p)
  case (Suc n)
  have c: "name_char (s ! p)" "skipped name_char s (p + 1) q" using Suc.prems skipped_step by auto
  then have e: "name_scan s p buf_end = CHECK_EOF (p + 1) buf_end (name_scan s (p + 1) buf_end)"
    using Suc.prems by (subst name_scan.simps) (simp add: name_char_def)
  show ?case
  proof (cases "p + 1 = q")
    case True
    then show ?thesis using e by simp
  next
    case False
    then have "name_scan s (p + 1) buf_end = CHECK_EOF q buf_end (name_scan s q buf_end)"
      using Suc c by auto
    then show ?thesis using e False Suc.prems by (simp add: CHECK_EOF_def)
  qed
qed simp

lemma eol_slow_skipped:
  "skipped (\<lambda>c. \<not> control_char c) s p q \<Longrightarrow> q \<le> buf_end \<Longrightarrow> buf_end \<le> length s \<Longrightarrow>
     eol_slow s p buf_end = eol_slow s q buf_end"
proof (induction "q - p" arbitrary: p)
  case 0
  then show ?case by (simp add: skipped_def)
next
  case (Suc n)
  then have c: "\<not> control_char (s ! p)" "skipped (\<lambda>c. \<not> control_char c) s (p + 1) q" using skipped_step [of p q] by auto
  then have "eol_slow s p buf_end = eol_slow s (p + 1) buf_end"
    using Suc.prems Suc.hyps(2) by (subst eol_slow.simps) (auto simp: CHECK_EOF_def Let_def)
  also have "\<dots> = eol_slow s q buf_end" using Suc c by auto
  finally show ?case .
qed

lemma eol_slow_found: "control_char (s ! p) \<Longrightarrow> p < buf_end \<Longrightarrow> buf_end \<le> length s \<Longrightarrow> eol_slow s p buf_end = Some (Inr p)"
  by (subst eol_slow.simps) (simp add: CHECK_EOF_def Let_def control_not_printable)

lemma printable_scan_spec:
  "p + n \<le> length s \<Longrightarrow> \<exists>q full. printable_scan s p n = Some (q, full) \<and> skipped (\<lambda>c. \<not> control_char c) s p q \<and>
     q \<le> p + n \<and> (full \<longrightarrow> q = p + n) \<and> (\<not> full \<longrightarrow> q < p + n)"
proof (induction s p n rule: printable_scan.induct)
  case (2 s p n)
  show ?case
  proof (cases "IS_PRINTABLE_ASCII (s ! p)")
    case True
    then have "\<not> control_char (s ! p)" using control_not_printable by blast
    moreover obtain q full where "printable_scan s (p + 1) n = Some (q, full)" "skipped (\<lambda>c. \<not> control_char c) s (p + 1) q"
      "q \<le> p + 1 + n" "full \<longrightarrow> q = p + 1 + n" "\<not> full \<longrightarrow> q < p + 1 + n"
      using 2 True by (fastforce simp: char_at_def)
    moreover from this have "p < q" by (simp add: skipped_def)
    ultimately have "skipped (\<lambda>c. \<not> control_char c) s p q" using skipped_step [of p q] by simp
    then show ?thesis using 2(2) True \<open>printable_scan s (p + 1) n = _\<close> \<open>q \<le> _\<close> \<open>full \<longrightarrow> _\<close> \<open>\<not> full \<longrightarrow> _\<close>
      by (auto simp: char_at_def)
  next
    case False
    then show ?thesis using 2(2) by (auto simp: char_at_def)
  qed
qed (simp add: ex_bool_eq)

lemma eol_fast_spec:
  "buf_end \<le> length s \<Longrightarrow> \<exists>p found. eol_fast s buf buf_end = Some (p, found) \<and> skipped (\<lambda>c. \<not> control_char c) s buf p \<and>
     (p = buf \<or> p \<le> buf_end) \<and> (found \<longrightarrow> p < buf_end \<and> control_char (s ! p))"
proof (induction s buf buf_end rule: eol_fast.induct)
  case (1 s buf buf_end)
  show ?case
  proof (cases "buf + 8 \<le> buf_end")
    case True
    obtain q full where q: "printable_scan s buf 8 = Some (q, full)" "skipped (\<lambda>c. \<not> control_char c) s buf q"
      "full \<longrightarrow> q = buf + 8" "\<not> full \<longrightarrow> q < buf + 8"
      using printable_scan_spec [of buf 8 s] True 1(3) by auto
    consider "full" | "\<not> full" "control_char (s ! q)" | "\<not> full" "\<not> control_char (s ! q)" by blast
    then show ?thesis
    proof cases
      assume full: full
      then have e: "eol_fast s buf buf_end = eol_fast s q buf_end" using True q by (subst eol_fast.simps) simp
      from 1(1) [OF True q(1) refl full 1(3)] obtain p found where "eol_fast s q buf_end = Some (p, found)"
        "skipped (\<lambda>c. \<not> control_char c) s q p" "p = q \<or> p \<le> buf_end" "found \<longrightarrow> p < buf_end \<and> control_char (s ! p)" by blast
      moreover from this(2) have "skipped (\<lambda>c. \<not> control_char c) s buf p" by (rule skipped_trans [OF q(2)])
      ultimately show ?thesis using e q(3) True full by auto
    next
      assume nf: "\<not> full" "control_char (s ! q)"
      then show ?thesis using True q 1(3) by (subst eol_fast.simps) (auto simp: char_at_def)
    next
      assume nf: "\<not> full" "\<not> control_char (s ! q)"
      then have at: "char_at s q = Some (s ! q)" using q(4) True 1(3) by (simp add: char_at_def)
      then have e: "eol_fast s buf buf_end = eol_fast s (q + 1) buf_end" using True q nf by (subst eol_fast.simps) simp
      have sk: "skipped (\<lambda>c. \<not> control_char c) s buf (q + 1)"
        using skipped_trans [OF q(2)] skipped_step [of q "q + 1"] nf(2) by simp
      from 1(2) [OF True q(1) refl nf(1) at nf(2) 1(3)] obtain p found where "eol_fast s (q + 1) buf_end = Some (p, found)"
        "skipped (\<lambda>c. \<not> control_char c) s (q + 1) p" "p = q + 1 \<or> p \<le> buf_end" "found \<longrightarrow> p < buf_end \<and> control_char (s ! p)" by blast
      moreover from this(2) have "skipped (\<lambda>c. \<not> control_char c) s buf p" by (rule skipped_trans [OF sk])
      ultimately show ?thesis using e q(4) nf(1) True by auto
    qed
  next
    case False
    then show ?thesis by (intro exI [of _ buf] exI [of _ False]) (simp add: eol_fast.simps)
  qed
qed

lemma ADVANCE_TOKEN_plain:
  assumes "buf_end \<le> length s"
  shows "ADVANCE_TOKEN sse s buf buf_end =
    CHECK_EOF buf buf_end (parse_then (token_scan s buf buf_end) (\<lambda>p. Some (Inr ((buf, p - buf), p))))"
proof -
  obtain p found where p: "findchar_fast sse s buf buf_end [0, 32, 127, 127] = Some (p, found)"
    "skipped (\<lambda>c. \<not> token_end c) s buf p" "p = buf \<or> p \<le> buf_end" "found \<Longrightarrow> p < buf_end"
    using findchar_fast_spec [OF assms, of sse buf "[0, 32, 127, 127]"] unfolding in_ranges_token by metis
  show ?thesis
  proof (cases "p = buf")
    case True
    then show ?thesis using p by (auto simp: ADVANCE_TOKEN_def CHECK_EOF_def)
  next
    case False
    then have lt: "buf < p" "p \<le> buf_end" using p(2,3) by (auto simp: skipped_def)
    then show ?thesis
      using token_scan_skipped [OF p(2) lt assms] p(1,4) by (auto simp: ADVANCE_TOKEN_def CHECK_EOF_def parse_then_def)
  qed
qed

lemma parse_name_plain:
  assumes "buf_end \<le> length s"
  shows "parse_name sse s buf buf_end = CHECK_EOF buf buf_end (parse_then (name_scan s buf buf_end) (\<lambda>p.
    if p - buf = 0 then Some (Inl (- 1))
    else parse_then (blank_scan s (p + 1) buf_end) (\<lambda>q. Some (Inr ((buf, p - buf), q)))))"
proof -
  let ?r = "[0, 32, 34, 34, 40, 41, 44, 44, 47, 47, 58, 64, 91, 93, 123, 255]"
  obtain p found where p: "findchar_fast sse s buf buf_end ?r = Some (p, found)"
    "skipped (\<lambda>c. \<not> in_ranges ?r c) s buf p" "p = buf \<or> p \<le> buf_end" "found \<Longrightarrow> p < buf_end"
    using findchar_fast_spec [OF assms, of sse buf ?r] by metis
  show ?thesis
  proof (cases "p = buf")
    case True
    then show ?thesis using p(1,4) by (auto simp: parse_name_def CHECK_EOF_def Let_def)
  next
    case False
    then have lt: "buf < p" "p \<le> buf_end" using p(2,3) by (auto simp: skipped_def)
    have "skipped name_char s buf p" using skipped_mono [OF p(2), of name_char] name_char_ranges by blast
    then show ?thesis
      using name_scan_skipped [OF _ lt assms] p(1,4) lt by (auto simp: parse_name_def CHECK_EOF_def parse_then_def Let_def)
  qed
qed

lemma get_token_to_eol_plain:
  assumes "buf_end \<le> length s"
  shows "get_token_to_eol sse s buf buf_end = parse_then (eol_slow s buf buf_end) (\<lambda>p. do {
    c \<leftarrow> char_at s p;
    (if c = 13 then EXPECT_CHAR s (p + 1) buf_end 10 (\<lambda>q. Some (Inr ((buf, q - 2 - buf), q)))
     else if c = 10 then Some (Inr ((buf, p - buf), p + 1)) else Some (Inl (- 1))) })"
proof -
  let ?m = "if sse then findchar_fast sse s buf buf_end [0, 8, 10, 31, 127, 127] else eol_fast s buf buf_end"
  have "\<exists>p found. ?m = Some (p, found) \<and> skipped (\<lambda>c. \<not> control_char c) s buf p \<and> (p = buf \<or> p \<le> buf_end) \<and>
    (found \<longrightarrow> p < buf_end \<and> control_char (s ! p))"
  proof (cases sse)
    case True
    obtain p found where "findchar_fast sse s buf buf_end [0, 8, 10, 31, 127, 127] = Some (p, found)"
      "skipped (\<lambda>c. \<not> control_char c) s buf p" "p = buf \<or> p \<le> buf_end" "found \<Longrightarrow> p < buf_end \<and> control_char (s ! p)"
      by (rule findchar_fast_spec [OF assms, of sse buf "[0, 8, 10, 31, 127, 127]", unfolded in_ranges_control]) blast
    then show ?thesis using True by auto
  next
    case False
    then show ?thesis using eol_fast_spec [OF assms, of buf] by simp
  qed
  then obtain p found where p: "?m = Some (p, found)" "skipped (\<lambda>c. \<not> control_char c) s buf p" "p = buf \<or> p \<le> buf_end"
    "found \<longrightarrow> p < buf_end \<and> control_char (s ! p)" by blast
  have "eol_slow s buf buf_end = eol_slow s p buf_end"
    using p(3) eol_slow_skipped [OF p(2) _ assms] by auto
  then have "(if found then Some (Inr p) else eol_slow s p buf_end) = eol_slow s buf buf_end"
    using p(4) eol_slow_found [of s p buf_end] assms by auto
  then show ?thesis using p(1) unfolding get_token_to_eol_def by simp
qed

lemma parse_header_sse: "buf_end \<le> length s \<Longrightarrow> parse_header sse s buf buf_end n = parse_header False s buf buf_end n"
  by (simp add: parse_header_def parse_name_plain get_token_to_eol_plain cong: if_cong)

lemma parse_headers_sse:
  "buf_end \<le> length s \<Longrightarrow> parse_headers sse s buf buf_end headers m = parse_headers False s buf buf_end headers m"
proof (induction sse s buf buf_end headers m rule: parse_headers.induct)
  case (1 sse s buf buf_end headers m)
  have "parse_headers sse s p buf_end (headers @ [h]) m = parse_headers False s p buf_end (headers @ [h]) m"
    if "buf \<noteq> buf_end" "buf < length s" "s ! buf \<noteq> 13" "s ! buf \<noteq> 10" "length headers \<noteq> m"
      "parse_header sse s buf buf_end (length headers) = Some (Inr (h, p))" for h p
    using 1(1) [OF that refl refl 1(2)] .
  then show ?case using parse_header_sse [OF 1(2), of sse buf "length headers"]
    by (subst (1 2) parse_headers.simps) (simp split: option.splits sum.splits)
qed

lemma parse_request_sse: "buf_end \<le> length s \<Longrightarrow> parse_request sse s buf_end m out = parse_request False s buf_end m out"
  by (simp add: parse_request_def ADVANCE_TOKEN_plain [of buf_end s sse] ADVANCE_TOKEN_plain [of buf_end s False]
      parse_headers_sse [of buf_end s sse] cong: if_cong)

text \<open>
  C22: The build with vector instructions computes for every input the same as the portable one:
  the result, every position it reports, and whether it reads behind the readable bytes.
\<close>

theorem phr_parse_request_sse:
  assumes "len \<le> length s"
  shows "phr_parse_request True s len max_headers last_len = phr_parse_request False s len max_headers last_len"
  by (simp add: phr_parse_request_def parse_request_sse [OF assms, of True])

lemma phr_parse_request_sse_witness:
  "phr_parse_request True (replicate 40 65) 33 16 0 = phr_parse_request False (replicate 40 65) 33 16 0"
  by (rule phr_parse_request_sse) simp

end
