(* ===== verification/Phr_Request.thy ===== *)
theory Phr_Request
  imports Http_Response Phr_Correct
begin

text \<open>
  Request heads as clients send them, and that the parser takes them apart: a grammar of request
  heads, the scanning functions at a position whose characters are known, and the round trip.
\<close>

section \<open>Request heads\<close>

definition blank :: "byte \<Rightarrow> bool" where
  "blank c \<longleftrightarrow> c = 32 \<or> c = 9"

definition valid_token :: "byte list \<Rightarrow> bool" where
  "valid_token t \<longleftrightarrow> t \<noteq> [] \<and> list_all (\<lambda>c. \<not> token_end c) t"

text \<open>A field value has no blanks at its ends: they are not part of it.\<close>

definition valid_field :: "byte list \<times> byte list \<Rightarrow> bool" where
  "valid_field f = (case f of (name, val) \<Rightarrow>
     name \<noteq> [] \<and> list_all name_char name \<and> list_all (\<lambda>c. \<not> control_char c) val \<and>
     (val \<noteq> [] \<longrightarrow> \<not> blank (hd val) \<and> \<not> blank (last val)))"

definition request_head :: "byte list \<Rightarrow> byte list \<Rightarrow> (byte list \<times> byte list) list \<Rightarrow> byte list" where
  "request_head m t fs =
     m @ [32] @ t @ text_bytes '' HTTP/1.1'' @ [13, 10] @ field_lines fs @ [13, 10]"

definition valid_head :: "byte list \<Rightarrow> byte list \<Rightarrow> (byte list \<times> byte list) list \<Rightarrow> bool" where
  "valid_head m t fs \<longleftrightarrow> valid_token m \<and> valid_token t \<and> list_all valid_field fs"

section \<open>Scanning known characters\<close>

lemma at_Cons: "drop p s = x # xs \<Longrightarrow> p < length s \<and> s ! p = x \<and> char_at s p = Some x \<and> drop (Suc p) s = xs"
  by (metis Cons_nth_drop_Suc char_at_def drop_eq_Nil leI list.distinct(1) list.inject)

lemma at_append: "drop p s = xs @ ys \<Longrightarrow> drop (p + length xs) s = ys"
  by (metis add.commute append_eq_conv_conj drop_drop)

lemma token_scan_at:
  "drop p s = t @ 32 # r \<Longrightarrow> list_all (\<lambda>c. \<not> token_end c) t \<Longrightarrow> p + length t < e \<Longrightarrow>
     token_scan s p e = Some (Inr (p + length t))"
proof (induction t arbitrary: p)
  case Nil
  then show ?case using at_Cons [of p s 32 r] by (subst token_scan.simps) simp
next
  case (Cons c t)
  then have "c \<noteq> 32" "\<not> c < 32" "c \<noteq> 127" by (auto simp: token_end_def)
  then show ?case using Cons at_Cons [of p s c "t @ 32 # r"] by (subst token_scan.simps) (simp add: Let_def CHECK_EOF_def)
qed

lemma name_scan_at:
  "drop p s = n @ 58 # r \<Longrightarrow> list_all name_char n \<Longrightarrow> p + length n < e \<Longrightarrow>
     name_scan s p e = Some (Inr (p + length n))"
proof (induction n arbitrary: p)
  case Nil
  then show ?case using at_Cons [of p s 58 r] by (subst name_scan.simps) simp
next
  case (Cons c t)
  then show ?case using at_Cons [of p s c "t @ 58 # r"] by (subst name_scan.simps) (simp add: CHECK_EOF_def name_char_def)
qed

lemma eol_slow_at:
  "drop p s = v @ 13 # r \<Longrightarrow> list_all (\<lambda>c. \<not> control_char c) v \<Longrightarrow> p + length v < e \<Longrightarrow>
     eol_slow s p e = Some (Inr (p + length v))"
proof (induction v arbitrary: p)
  case Nil
  moreover have "control_char 13" by (simp add: control_char_def)
  ultimately show ?case using at_Cons [of p s 13 r] control_not_printable
    by (subst eol_slow.simps) (simp add: CHECK_EOF_def Let_def)
next
  case (Cons c t)
  then show ?case using at_Cons [of p s c "t @ 13 # r"] by (subst eol_slow.simps) (simp add: CHECK_EOF_def Let_def)
qed

lemma blank_scan_at:
  assumes "drop p s = 32 # c # r" "\<not> blank c" "p + 1 < e"
  shows "blank_scan s p e = Some (Inr (p + 1))"
proof -
  have "blank_scan s (p + 1) e = Some (Inr (p + 1))"
    using at_Cons [of "Suc p" s c r] at_Cons [OF assms(1)] assms(2,3)
    by (subst blank_scan.simps) (simp add: CHECK_EOF_def blank_def)
  then show ?thesis using at_Cons [OF assms(1)] assms(3) by (subst blank_scan.simps) (simp add: CHECK_EOF_def)
qed

lemma value_trim_at:
  assumes "drop p s = v @ r" "v \<noteq> [] \<longrightarrow> \<not> blank (last v)"
  shows "value_trim s p (length v) = Some (length v)"
proof (cases v rule: rev_cases)
  case (snoc u c)
  then have "drop (p + length u) s = c # r" using assms(1) at_append [of p s u "c # r"] by simp
  then show ?thesis using snoc assms(2) at_Cons [of "p + length u" s c r] by (simp add: blank_def)
qed simp

section \<open>Fields\<close>

text \<open>A parsed header stands at the position of a field, whose line ends behind the value.\<close>

definition token_at :: "byte list \<Rightarrow> token \<Rightarrow> byte list \<Rightarrow> bool" where
  "token_at s r xs \<longleftrightarrow> snd r = length xs \<and> take (length xs) (drop (fst r) s) = xs"

definition header_at :: "byte list \<Rightarrow> phr_header \<Rightarrow> byte list \<times> byte list \<Rightarrow> bool" where
  "header_at s h f \<longleftrightarrow> (\<exists>n. fst h = Some n \<and> token_at s n (fst f)) \<and> token_at s (snd h) (snd f) \<and>
     char_at s (fst (snd h) + snd (snd h)) = Some 13"

lemma token_at_drop: "drop p s = xs @ ys \<Longrightarrow> token_at s (p, length xs) xs"
  by (simp add: token_at_def)

lemma name_char_blank: "name_char c \<Longrightarrow> c \<noteq> 32 \<and> c \<noteq> 9 \<and> c \<noteq> 13 \<and> c \<noteq> 10"
  by (auto simp: name_char_def token_char_map_def)

lemma parse_header_at:
  assumes at: "drop p s = field_line name val @ r" and v: "valid_field (name, val)"
    and e: "p + length (field_line name val) \<le> e" "e \<le> length s"
  shows "\<exists>h. parse_header sse s p e n = Some (Inr (h, p + length (field_line name val))) \<and> header_at s h (name, val)"
proof -
  let ?q = "p + length name"
  have at: "drop p s = name @ 58 # 32 # val @ 13 # 10 # r" using at by (simp add: field_line_def)
  have v: "name \<noteq> []" "list_all name_char name" "list_all (\<lambda>c. \<not> control_char c) val"
    "val \<noteq> [] \<longrightarrow> \<not> blank (hd val)" "val \<noteq> [] \<longrightarrow> \<not> blank (last val)" using v by (auto simp: valid_field_def)
  have e1: "?q + 2 + length val + 2 \<le> e" using e(1) by (simp add: field_line_def)
  obtain c n' where n': "name = c # n'" using v(1) by (cases name) auto
  have c: "s ! p \<noteq> 32" "s ! p \<noteq> 9" using at_Cons [of p s c] at n' v(2) name_char_blank by auto
  have q: "drop ?q s = 58 # 32 # val @ 13 # 10 # r" using at_append [OF at] .
  have q1: "drop (?q + 1) s = 32 # val @ 13 # 10 # r" using at_Cons [OF q] by simp
  have q2: "drop (?q + 2) s = val @ 13 # 10 # r" using at_Cons [OF q1] by simp
  have q3: "drop (?q + 2 + length val) s = 13 # 10 # r" using at_append [OF q2] .
  have q4: "char_at s (Suc (?q + 2 + length val)) = Some 10" using at_Cons [OF q3] at_Cons [of "Suc (?q + 2 + length val)" s 10 r] by simp
  have bs: "blank_scan s (?q + 1) e = Some (Inr (?q + 2))"
  proof (cases val)
    case Nil
    then show ?thesis using blank_scan_at [of "?q + 1" s 13 "10 # r" e] q1 e1 by (simp add: blank_def)
  next
    case (Cons x xs)
    then show ?thesis using blank_scan_at [of "?q + 1" s x "xs @ 13 # 10 # r" e] q1 e1 v(4) by simp
  qed
  have "parse_name sse s p e = Some (Inr ((p, length name), ?q + 2))"
    using name_scan_at [OF at v(2), of e] bs e1 v(1) by (simp add: parse_name_plain [OF e(2)] CHECK_EOF_def parse_then_def)
  moreover have "get_token_to_eol sse s (?q + 2) e = Some (Inr ((?q + 2, length val), ?q + 2 + length val + 2))"
    using eol_slow_at [OF q2 v(3), of e] e1 at_Cons [OF q3] q4
    by (simp add: get_token_to_eol_plain [OF e(2)] parse_then_def EXPECT_CHAR_def EXPECT_CHAR_NO_CHECK_def CHECK_EOF_def)
  moreover have "value_trim s (?q + 2) (length val) = Some (length val)" by (rule value_trim_at [OF q2 v(5)])
  ultimately have "parse_header sse s p e n =
      Some (Inr ((Some (p, length name), (?q + 2, length val)), ?q + 2 + length val + 2))"
    using c by (simp add: parse_header_def parse_then_def)
  moreover have "header_at s (Some (p, length name), (?q + 2, length val)) (name, val)"
    using token_at_drop [OF at] token_at_drop [OF q2] at_Cons [OF q3] by (simp add: header_at_def)
  ultimately show ?thesis by (intro exI conjI) (auto simp: field_line_def)
qed

lemma parse_headers_at:
  "drop p s = field_lines fs @ 13 # 10 # r \<Longrightarrow> list_all valid_field fs \<Longrightarrow> length hs + length fs \<le> m \<Longrightarrow>
     p + length (field_lines fs) + 2 \<le> e \<Longrightarrow> e \<le> length s \<Longrightarrow>
     \<exists>hs'. parse_headers sse s p e hs m = Some (Inr (hs @ hs', p + length (field_lines fs) + 2)) \<and> list_all2 (header_at s) hs' fs"
proof (induction fs arbitrary: p hs)
  case Nil
  then have "drop p s = 13 # 10 # r" by (simp add: field_lines_def)
  from at_Cons [OF this] at_Cons [of "Suc p" s 10 r] show ?case
    using Nil by (subst parse_headers.simps)
      (simp add: field_lines_def failing_def EXPECT_CHAR_def EXPECT_CHAR_NO_CHECK_def CHECK_EOF_def)
next
  case (Cons f fs)
  obtain name val where f: "f = (name, val)" by (cases f)
  let ?l = "field_line name val"
  have lines: "field_lines (f # fs) = ?l @ field_lines fs" by (simp add: f field_lines_def)
  have at: "drop p s = ?l @ field_lines fs @ 13 # 10 # r" using Cons.prems(1) lines by simp
  obtain c n' where n': "name = c # n'" using Cons.prems(2) by (cases name) (auto simp: f valid_field_def)
  have c: "p < length s" "s ! p \<noteq> 13" "s ! p \<noteq> 10"
    using at_Cons [of p s c] at n' Cons.prems(2) name_char_blank [of c] by (auto simp: f field_line_def valid_field_def)
  obtain h where h: "parse_header sse s p e (length hs) = Some (Inr (h, p + length ?l))" "header_at s h (name, val)"
    using parse_header_at [OF at, of e sse "length hs"] Cons.prems lines f by auto
  obtain hs' where "parse_headers sse s (p + length ?l) e ((hs @ [h])) m =
      Some (Inr ((hs @ [h]) @ hs', p + length ?l + length (field_lines fs) + 2))" "list_all2 (header_at s) hs' fs"
    using Cons.IH [of "p + length ?l" "hs @ [h]"] at_append [OF at] Cons.prems lines by auto
  then have "parse_headers sse s p e hs m = Some (Inr (hs @ h # hs', p + length (field_lines (f # fs)) + 2)) \<and>
      list_all2 (header_at s) (h # hs') (f # fs)"
    using c h Cons.prems lines f by (subst parse_headers.simps) simp
  then show ?case by blast
qed

section \<open>The request\<close>

lemma parse_http_version_at:
  assumes "drop p s = text_bytes ''HTTP/1.1'' @ c # r" "p + 9 \<le> e"
  shows "parse_http_version s p e = Some (Inr (1, p + 8))"
proof -
  have *: "drop p s = [72, 84, 84, 80, 47, 49, 46, 49] @ c # r" using assms(1) by (simp add: text_bytes_def)
  have "char_at s (p + i) = Some ([72, 84, 84, 80, 47, 49, 46, 49] ! i)" if "i < 8" for i
  proof -
    have "p + i < length s" using arg_cong [OF *, of length] that by simp
    moreover have "s ! (p + i) = drop p s ! i" using calculation by simp
    ultimately show ?thesis using that unfolding * char_at_def by (simp only: nth_append) simp
  qed
  from this [of 0] this [of 1] this [of 2] this [of 3] this [of 4] this [of 5] this [of 6] this [of 7]
  have "char_at s p = Some 72" "char_at s (Suc p) = Some 84" "char_at s (Suc (Suc p)) = Some 84"
    "char_at s (Suc (Suc (Suc p))) = Some 80" "char_at s (Suc (Suc (Suc (Suc p)))) = Some 47"
    "char_at s (Suc (Suc (Suc (Suc (Suc p))))) = Some 49" "char_at s (Suc (Suc (Suc (Suc (Suc (Suc p)))))) = Some 46"
    "char_at s (Suc (Suc (Suc (Suc (Suc (Suc (Suc p))))))) = Some 49"
    by (simp_all add: eval_nat_numeral)
  then show ?thesis using assms(2) by (simp add: parse_http_version_def EXPECT_CHAR_NO_CHECK_def PARSE_INT_def)
qed

lemma advance_at:
  assumes "drop p s = t @ 32 # r" "valid_token t" "p + length t < e" "e \<le> length s"
  shows "ADVANCE_TOKEN sse s p e = Some (Inr ((p, length t), p + length t))"
  using assms token_scan_at [OF assms(1) _ assms(3)]
  by (auto simp: ADVANCE_TOKEN_plain CHECK_EOF_def parse_then_def valid_token_def)

lemma space_at:
  assumes "drop p s = 32 # c # r" "c \<noteq> 32"
  shows "char_scan ((=) 32) s (p + 1) = Some (p + 1)"
  using at_Cons [OF assms(1)] at_Cons [of "Suc p" s c r] assms(2) by (subst char_scan.simps) auto

lemma parse_request_at:
  assumes s: "s = request_head m t fs @ r" and v: "valid_head m t fs"
    and e: "length (request_head m t fs) \<le> e" "e \<le> length s" and max: "length fs \<le> max_headers"
  shows "\<exists>hs. parse_request sse s e max_headers out =
      Some (Inr (out\<lparr>phr_method := Some (0, length m), phr_path := Some (length m + 1, length t), phr_minor_version := 1,
        phr_headers := hs\<rparr>, length (request_head m t fs))) \<and>
    list_all2 (header_at s) hs fs \<and> token_at s (0, length m) m \<and> token_at s (length m + 1, length t) t"
proof -
  let ?p = "length m + 1" let ?q = "?p + length t + 1" let ?h = "?q + 10"
  let ?r = "field_lines fs @ 13 # 10 # r"
  have v: "valid_token m" "valid_token t" "list_all valid_field fs" using v by (auto simp: valid_head_def)
  obtain cm ct m' t' where mt: "m = cm # m'" "t = ct # t'" using v by (cases m; cases t) (auto simp: valid_token_def)
  have c: "cm \<noteq> 13" "cm \<noteq> 10" "ct \<noteq> 32" using v mt by (auto simp: valid_token_def token_end_def)
  have a0: "drop 0 s = m @ 32 # t @ 32 # text_bytes ''HTTP/1.1'' @ 13 # 10 # ?r"
    by (simp add: s request_head_def text_bytes_def)
  have a1: "drop (length m) s = 32 # t @ 32 # text_bytes ''HTTP/1.1'' @ 13 # 10 # ?r" using at_append [OF a0] by simp
  have a2: "drop ?p s = t @ 32 # text_bytes ''HTTP/1.1'' @ 13 # 10 # ?r" using at_Cons [OF a1] by simp
  have a3: "drop (?p + length t) s = 32 # text_bytes ''HTTP/1.1'' @ 13 # 10 # ?r" using at_append [OF a2] .
  have a4: "drop ?q s = text_bytes ''HTTP/1.1'' @ 13 # 10 # ?r" using at_Cons [OF a3] by simp
  have a5: "drop (?q + 8) s = 13 # 10 # ?r" using at_append [OF a4] by (simp add: text_bytes_def eval_nat_numeral)
  have a6: "drop ?h s = ?r" using at_Cons [OF a5] at_Cons [of "Suc (?q + 8)" s 10 ?r] by simp
  have a7: "char_at s (Suc (?q + 8)) = Some 10" using at_Cons [OF a5] at_Cons [of "Suc (?q + 8)" s 10 ?r] by simp
  have len: "length (request_head m t fs) = ?h + length (field_lines fs) + 2" by (simp add: request_head_def text_bytes_def)
  have first: "char_at s 0 = Some cm" using at_Cons [of 0 s cm] a0 mt by simp
  have adv1: "ADVANCE_TOKEN sse s 0 e = Some (Inr ((0, length m), length m))"
    using advance_at [OF a0 v(1) _ e(2)] e(1) len by simp
  have sp1: "char_scan ((=) 32) s (length m + 1) = Some ?p" using space_at [of "length m" s ct] a1 mt c by simp
  have adv2: "ADVANCE_TOKEN sse s ?p e = Some (Inr ((?p, length t), ?p + length t))"
    using advance_at [OF a2 v(2) _ e(2)] e(1) len by simp
  have sp2: "char_scan ((=) 32) s (?p + length t + 1) = Some ?q"
    using space_at [of "?p + length t" s 72] a3 by (simp add: text_bytes_def)
  have ver: "parse_http_version s ?q e = Some (Inr (1, ?q + 8))" using parse_http_version_at [OF a4] e(1) len by simp
  obtain hs where hs: "parse_headers sse s ?h e [] max_headers = Some (Inr (hs, ?h + length (field_lines fs) + 2))" "list_all2 (header_at s) hs fs"
    using parse_headers_at [OF a6 v(3), of "[]" max_headers e sse] e len max by auto
  have "parse_request sse s e max_headers out =
      Some (Inr (out\<lparr>phr_method := Some (0, length m), phr_path := Some (?p, length t), phr_minor_version := 1,
        phr_headers := hs\<rparr>, length (request_head m t fs)))"
    unfolding parse_request_def
    using first adv1 sp1 adv2 sp2 ver hs(1) at_Cons [OF a5] a7 e(1) len c mt
    by (simp add: parse_then_def failing_def CHECK_EOF_def EXPECT_CHAR_def EXPECT_CHAR_NO_CHECK_def Let_def)
  then show ?thesis using hs(2) token_at_drop [OF a0] token_at_drop [OF a2] by auto
qed

lemma phr_parse_request_at:
  assumes "s = request_head m t fs @ r" "valid_head m t fs" "length (request_head m t fs) \<le> len" "len \<le> length s"
    "length fs \<le> max_headers"
  shows "\<exists>hs. phr_parse_request sse s len max_headers 0 =
      Some \<lparr>phr_result = of_nat (length (request_head m t fs)), phr_method = Some (0, length m),
        phr_path = Some (length m + 1, length t), phr_minor_version = 1, phr_headers = hs\<rparr> \<and>
    list_all2 (header_at s) hs fs \<and> token_at s (0, length m) m \<and> token_at s (length m + 1, length t) t"
  using parse_request_at [OF assms, of sse "\<lparr>phr_result = 0, phr_method = None, phr_path = None, phr_minor_version = - 1, phr_headers = []\<rparr>"]
  by (auto simp: phr_parse_request_def)

section \<open>Properties\<close>

text \<open>
  C21: The parser takes a request head apart, in both builds and whatever comes after it: its result
  is the length of the head, and the tokens and headers it reports are the method, the path and
  the fields, in order.
\<close>

theorem phr_parse_request_roundtrip:
  assumes "valid_head m t fs" "length (request_head m t fs) \<le> len" "len \<le> length (request_head m t fs @ r)"
    "length fs \<le> max_headers"
  shows "\<exists>hs. phr_parse_request sse (request_head m t fs @ r) len max_headers 0 =
      Some \<lparr>phr_result = of_nat (length (request_head m t fs)), phr_method = Some (0, length m),
        phr_path = Some (length m + 1, length t), phr_minor_version = 1, phr_headers = hs\<rparr> \<and>
    list_all2 (header_at (request_head m t fs @ r)) hs fs \<and>
    token_at (request_head m t fs @ r) (0, length m) m \<and> token_at (request_head m t fs @ r) (length m + 1, length t) t"
  using phr_parse_request_at [OF refl assms] .

lemma phr_parse_request_roundtrip_witness:
  "let m = text_bytes ''POST''; t = text_bytes ''/a''; fs = [(text_bytes ''Host'', text_bytes ''b c''), (text_bytes ''X-1'', [])]
   in \<exists>hs. phr_parse_request True (request_head m t fs @ [1, 2, 3]) (length (request_head m t fs) + 2) 16 0 =
      Some \<lparr>phr_result = of_nat (length (request_head m t fs)), phr_method = Some (0, length m),
        phr_path = Some (length m + 1, length t), phr_minor_version = 1, phr_headers = hs\<rparr> \<and>
    list_all2 (header_at (request_head m t fs @ [1, 2, 3])) hs fs \<and>
    token_at (request_head m t fs @ [1, 2, 3]) (0, length m) m \<and> token_at (request_head m t fs @ [1, 2, 3]) (length m + 1, length t) t"
  unfolding Let_def
  by (rule phr_parse_request_roundtrip)
    (simp_all add: valid_head_def valid_token_def valid_field_def text_bytes_def token_end_def name_char_def token_char_map_def
      control_char_def blank_def)


end
