(* ===== verification/Http_Chunked.thy ===== *)
theory Http_Chunked
  imports Http
begin

text \<open>
  The chunked framing: a grammar of chunked bodies, and what \<open>http_dechunk\<close> makes of an input that
  starts with one, of one that does not, and of one that is incomplete.
\<close>

section \<open>The grammar\<close>

text \<open>
  The line before a chunk: the size in hexadecimal, with blanks around it and an extension after it
  that the code skips. The size \<open>ULONG_MAX\<close> is not accepted.
\<close>

definition chunk_header :: "byte list \<Rightarrow> nat \<Rightarrow> bool" where
  "chunk_header h n \<longleftrightarrow> (\<exists>B1 D B2 E.
     h = B1 @ D @ B2 @ E @ [13, 10] \<and> (\<forall>c\<in>set (B1 @ B2). isblank c) \<and> D \<noteq> [] \<and> (\<forall>c\<in>set D. isxdigit c) \<and>
     (E = [] \<or> hd E = 59) \<and> 10 \<notin> set E \<and> n = digits_value 16 D \<and> n < unat ULONG_MAX)"

text \<open>A body with its decoded bytes; a chunk ends with two bytes the code does not look at.\<close>

inductive chunked :: "byte list \<Rightarrow> byte list \<Rightarrow> bool" where
  last: "chunk_header h 0 \<Longrightarrow> length sep = 2 \<Longrightarrow> chunked (h @ sep) []"
| more: "chunk_header h (length d) \<Longrightarrow> d \<noteq> [] \<Longrightarrow> length sep = 2 \<Longrightarrow> chunked e b \<Longrightarrow> chunked (h @ d @ sep @ e) (d @ b)"

section \<open>Characters and numbers\<close>

lemma char_classes:
  "isblank c \<Longrightarrow> c \<noteq> 10 \<and> \<not> isxdigit c" "isxdigit c \<Longrightarrow> c \<noteq> 10 \<and> c \<noteq> 13 \<and> c \<noteq> 59 \<and> \<not> isblank c \<and> \<not> isspace c"
  "isxdigit c \<Longrightarrow> c \<noteq> 43 \<and> c \<noteq> 45 \<and> c \<noteq> 120 \<and> c \<noteq> 88"
  by (auto simp: isblank_def isxdigit_def isspace_def word_le_nat_alt)

lemma char_scan_split:
  assumes "\<forall>b\<in>set B. test b" "\<not> test c" "length A = p"
  shows "char_scan test (A @ B @ c # C) p = Some (p + length B)"
  using assms
proof (induction B arbitrary: A p)
  case Nil
  then show ?case by (subst char_scan.simps) (auto simp: nth_append)
next
  case (Cons b B)
  then have "char_scan test ((A @ [b]) @ B @ c # C) (p + 1) = Some (p + 1 + length B)" by (intro Cons.IH) auto
  then show ?case using Cons.prems by (subst char_scan.simps) (auto simp: nth_append)
qed

lemma first_other:
  assumes "c \<in> set s" "\<not> test c"
  obtains B d C where "s = B @ d # C" "\<forall>b\<in>set B. test b" "\<not> test d"
  using split_list_first_prop [of s "\<lambda>c. \<not> test c"] assms by auto

lemma strtoul_hex:
  assumes A: "length A = p" and D: "D \<noteq> []" "\<forall>c\<in>set D. isxdigit c" and c: "\<not> isxdigit c" "c \<noteq> 120" "c \<noteq> 88"
  shows "strtoul 16 (A @ D @ c # R) p = Some (if digits_value 16 D < 2 ^ 64 then of_nat (digits_value 16 D) else ULONG_MAX)"
proof -
  obtain d D' where d: "D = d # D'" using D(1) by (cases D) auto
  let ?s = "A @ D @ c # R"
  have sd: "isxdigit d" using D(2) d by simp
  have at: "char_at ?s p = Some d" using A d by (simp add: char_at_def nth_append)
  have spaces: "char_scan isspace ?s p = Some p"
    using char_scan_split [of "[]" isspace d A p "D' @ c # R"] char_classes(2) [OF sd] A d by simp
  have scan: "char_scan isxdigit ?s p = Some (p + length D)"
    by (rule char_scan_split [OF D(2) c(1) A])
  have "char_at ?s (Suc p) = Some (hd (D' @ [c]))"
    using A d by (cases D') (simp_all add: char_at_def nth_append nth_Cons')
  moreover have "hd (D' @ [c]) \<noteq> 120 \<and> hd (D' @ [c]) \<noteq> 88"
    using c char_classes(3) D(2) d by (cases D') auto
  ultimately have "chars_test ?s p [(=) 48, (\<lambda>x. x = 120 \<or> x = 88), isxdigit] = Some False"
    using at by (simp add: split: bind_splits)
  moreover have "range_of ?s p (p + length D) = D" using A by (simp add: range_of_def)
  moreover have "d \<noteq> 43" "d \<noteq> 45" using char_classes(3) [OF sd] by auto
  ultimately show ?thesis using spaces at scan by (simp add: strtoul_def strtoul_digits_def Let_def del: chars_test.simps)
qed

section \<open>One chunk\<close>

text \<open>A line: blanks, digits, blanks and the character \<open>c\<close> behind them.\<close>

definition line_parts :: "byte list \<Rightarrow> byte list \<Rightarrow> byte list \<Rightarrow> byte list \<Rightarrow> byte \<Rightarrow> byte list \<Rightarrow> bool" where
  "line_parts s B1 D B2 c R \<longleftrightarrow> s = B1 @ D @ B2 @ c # R \<and> (\<forall>c\<in>set B1. isblank c) \<and> (\<forall>c\<in>set D. isxdigit c) \<and>
     (\<forall>c\<in>set B2. isblank c) \<and> \<not> isblank c \<and> (B2 = [] \<longrightarrow> \<not> isxdigit c) \<and> (D = [] \<longrightarrow> B2 = [])"

lemma line_parts_exist:
  assumes "10 \<in> set s"
  obtains B1 D B2 c R where "line_parts s B1 D B2 c R"
proof -
  have lf: "\<not> isblank 10" "\<not> isxdigit 10" by (auto simp: isblank_def isxdigit_def word_le_nat_alt)
  obtain B1 d S1 where 1: "s = B1 @ d # S1" "\<forall>b\<in>set B1. isblank b" "\<not> isblank d"
    using first_other [where test = isblank, OF assms lf(1)] .
  have "10 \<in> set (d # S1)" using assms 1 char_classes(1) by auto
  then obtain D c1 S2 where 2: "d # S1 = D @ c1 # S2" "\<forall>b\<in>set D. isxdigit b" "\<not> isxdigit c1"
    using first_other [where test = isxdigit and c = 10, OF _ lf(2)] by metis
  show ?thesis
  proof (cases "D = []")
    case True
    then show ?thesis using that [of B1 "[]" "[]" c1 S2] 1 2 by (simp add: line_parts_def)
  next
    case False
    have "10 \<in> set (c1 # S2)" using \<open>10 \<in> set (d # S1)\<close> 2 char_classes(2) by (auto simp: Cons_eq_append_conv)
    then obtain B2 c R where 3: "c1 # S2 = B2 @ c # R" "\<forall>b\<in>set B2. isblank b" "\<not> isblank c"
      using first_other [where test = isblank and c = 10, OF _ lf(1)] by metis
    have "B2 = [] \<longrightarrow> \<not> isxdigit c" using 2(3) 3(1) by auto
    then show ?thesis using that [of B1 D B2 c R] 1 2 3 False by (simp add: line_parts_def)
  qed
qed

lemma line_scan:
  assumes l: "line_parts s B1 D B2 c R"
  shows "char_scan isblank s 0 = Some (length B1)" "char_scan isxdigit s (length B1) = Some (length B1 + length D)"
    "D \<noteq> [] \<Longrightarrow> char_scan isblank s (length B1 + length D) = Some (length B1 + length D + length B2)"
    "char_at s (length B1 + length D + length B2) = Some c"
proof -
  have s: "s = B1 @ D @ B2 @ c # R" and h: "\<forall>c\<in>set B1. isblank c" "\<forall>c\<in>set D. isxdigit c" "\<forall>c\<in>set B2. isblank c" "\<not> isblank c"
    "B2 = [] \<longrightarrow> \<not> isxdigit c" "D = [] \<longrightarrow> B2 = []"
    using l by (auto simp: line_parts_def)
  obtain x X where x: "D @ B2 @ c # R = x # X" "\<not> isblank x"
    using h char_classes(2) by (cases D; cases B2) auto
  show "char_scan isblank s 0 = Some (length B1)"
    using char_scan_split [OF h(1) x(2), of "[]" 0 X] s x(1) by simp
  obtain y Y where y: "B2 @ c # R = y # Y" "\<not> isxdigit y"
    using h char_classes(1) by (cases B2) auto
  show "char_scan isxdigit s (length B1) = Some (length B1 + length D)"
    using char_scan_split [OF h(2) y(2), of B1 "length B1" Y] s y(1) by simp
  show "char_scan isblank s (length B1 + length D) = Some (length B1 + length D + length B2)"
    using char_scan_split [OF h(3,4), of "B1 @ D" "length B1 + length D" R] s by simp
  show "char_at s (length B1 + length D + length B2) = Some c"
    using s by (simp add: char_at_def nth_append)
qed

definition line_value :: "byte list \<Rightarrow> nat \<Rightarrow> (ssize_t \<times> size_t)" where
  "line_value D n = (if digits_value 16 D < unat ULONG_MAX then (of_nat n, of_nat (digits_value 16 D)) else (- 1, 0))"

lemma line_strtoul:
  assumes l: "line_parts s B1 D B2 c R" and D: "D \<noteq> []" and c: "c = 59 \<or> c = 13"
  shows "Option.bind (strtoul 16 s (length B1)) (\<lambda>sz. Some (if sz = ULONG_MAX then (- 1, 0) else (of_nat n, sz))) = Some (line_value D n)"
proof -
  have s: "s = B1 @ D @ B2 @ c # R" and h: "\<forall>c\<in>set D. isxdigit c" "\<forall>c\<in>set B2. isblank c" "B2 = [] \<longrightarrow> \<not> isxdigit c"
    using l by (auto simp: line_parts_def)
  obtain y Y where y: "B2 @ c # R = y # Y" "\<not> isxdigit y" "y \<noteq> 120" "y \<noteq> 88"
  proof (cases B2)
    case Nil
    then show ?thesis using that [of c R] c h(3) by auto
  next
    case (Cons y ys)
    then have "isblank y" using h(2) by simp
    then show ?thesis using that [of y "ys @ c # R"] Cons char_classes(1) by (auto simp: isblank_def)
  qed
  have "strtoul 16 s (length B1) = Some (if digits_value 16 D < 2 ^ 64 then of_nat (digits_value 16 D) else ULONG_MAX)"
    using strtoul_hex [OF refl D h(1) y(2-4), of B1 Y] s y(1) by simp
  moreover have "of_nat v = ULONG_MAX \<longleftrightarrow> v = unat ULONG_MAX" if "v < 2 ^ 64" for v
    using that unat_of_nat64 [of v] by (metis unsigned_word_eqI)
  moreover have "unat ULONG_MAX = 2 ^ 64 - 1" by (simp add: ULONG_MAX_def unsigned_minus_1_eq_mask mask_eq_exp_minus_1)
  ultimately show ?thesis by (auto simp: line_value_def)
qed

text \<open>The end of the line, from the position of \<open>c\<close> on.\<close>

definition line_rest :: "byte list \<Rightarrow> nat \<Rightarrow> byte \<Rightarrow> nat option option" where
  "line_rest s p c =
     (if c = 59
      then do {
        p \<leftarrow> char_scan (\<lambda>c. c \<noteq> 10) s p;
        previous \<leftarrow> char_at s (p - 1);
        Some (if previous = 13 then Some p else None) }
      else Some (if c = 13 then Some (p + 1) else None))"

lemma chunk_size_line:
  assumes l: "line_parts s B1 D B2 c R" and lf: "10 \<in> set s"
  shows "D = [] \<Longrightarrow> http_chunk_size s = Some (- 1, 0)"
    "D \<noteq> [] \<Longrightarrow> line_rest s (length (B1 @ D @ B2)) c = Some None \<Longrightarrow> http_chunk_size s = Some (- 1, 0)"
    "D \<noteq> [] \<Longrightarrow> line_rest s (length (B1 @ D @ B2)) c = Some (Some p) \<Longrightarrow> char_at s p = Some x \<Longrightarrow> x \<noteq> 10 \<Longrightarrow>
       http_chunk_size s = Some (- 1, 0)"
    "D \<noteq> [] \<Longrightarrow> line_rest s (length (B1 @ D @ B2)) c = Some (Some p) \<Longrightarrow> char_at s p = Some 10 \<Longrightarrow> c = 59 \<or> c = 13 \<Longrightarrow>
       http_chunk_size s = Some (line_value D (p + 1))"
proof -
  note sc = line_scan [OF l]
  show "http_chunk_size s = Some (- 1, 0)" if "D = []"
    using sc(1,2) lf that by (simp add: http_chunk_size_def)
  assume D: "D \<noteq> []"
  have unfold: "http_chunk_size s = Option.bind (line_rest s (length (B1 @ D @ B2)) c) (\<lambda>line. case line of
              None \<Rightarrow> Some (- 1, 0)
            | Some p \<Rightarrow> Option.bind (char_at s p) (\<lambda>c. if c \<noteq> 10 then Some (- 1, 0)
                 else Option.bind (strtoul 16 s (length B1)) (\<lambda>sz. Some (if sz = ULONG_MAX then (- 1, 0) else (of_nat (p + 1), sz)))))"
    using sc(1,2,4) sc(3) [OF D] lf D by (simp add: http_chunk_size_def line_rest_def add.assoc)
  show "http_chunk_size s = Some (- 1, 0)" if "line_rest s (length (B1 @ D @ B2)) c = Some None"
    unfolding unfold that by simp
  show "http_chunk_size s = Some (- 1, 0)"
    if "line_rest s (length (B1 @ D @ B2)) c = Some (Some p)" "char_at s p = Some x" "x \<noteq> 10"
    using that(2,3) unfolding unfold that(1) by simp
  show "http_chunk_size s = Some (line_value D (p + 1))"
    if "line_rest s (length (B1 @ D @ B2)) c = Some (Some p)" "char_at s p = Some 10" "c = 59 \<or> c = 13"
    using line_strtoul [OF l D that(3), of "p + 1"] that(2) unfolding unfold that(1) by simp
qed

lemma line_rest_extension:
  assumes "s = A @ 59 # E @ 10 # R" "10 \<notin> set E"
  shows "line_rest s (length A) 59 = Some (if E \<noteq> [] \<and> List.last E = 13 then Some (length A + 1 + length E) else None)"
proof -
  have "char_scan (\<lambda>c. c \<noteq> 10) s (length A) = Some (length A + length (59 # E))"
    using char_scan_split [of "59 # E" "\<lambda>c. c \<noteq> 10" 10 A "length A" R] assms by auto
  moreover have "char_at s (length A + length E) = Some (List.last (59 # E))"
    using assms(1) by (cases E rule: rev_cases) (simp_all add: char_at_def nth_append)
  ultimately show ?thesis by (simp add: line_rest_def)
qed

lemma line_rest_simple: "c \<noteq> 59 \<Longrightarrow> line_rest s p c = Some (if c = 13 then Some (p + 1) else None)"
  by (simp add: line_rest_def)

lemma ULONG_MAX_nat: "unat ULONG_MAX = 2 ^ 64 - 1"
  by (simp add: ULONG_MAX_def unsigned_minus_1_eq_mask mask_eq_exp_minus_1)

lemma chunk_size_complete:
  assumes h: "chunk_header h n"
  shows "http_chunk_size (h @ R) = Some (of_nat (length h), of_nat n)"
proof -
  obtain B1 D B2 E where e: "h = B1 @ D @ B2 @ E @ [13, 10]" "\<forall>c\<in>set (B1 @ B2). isblank c" "D \<noteq> []" "\<forall>c\<in>set D. isxdigit c"
    "E = [] \<or> hd E = 59" "10 \<notin> set E" "n = digits_value 16 D" "n < unat ULONG_MAX"
    using h unfolding chunk_header_def by blast
  let ?s = "h @ R" and ?c = "hd (E @ [13])" and ?T = "tl (E @ [13, 10]) @ R"
  have "?s = B1 @ D @ B2 @ ?c # ?T" using e(1) by (cases E) simp_all
  moreover have "\<not> isblank ?c" "\<not> isxdigit ?c" "?c = 59 \<or> ?c = 13"
    using e(5) by (cases E; auto simp: isblank_def isxdigit_def word_le_nat_alt)+
  ultimately have l: "line_parts ?s B1 D B2 ?c ?T" using e(2-4) by (simp add: line_parts_def)
  have lf: "10 \<in> set ?s" using e(1) by simp
  have at: "char_at ?s (length (B1 @ D @ B2 @ E) + 1) = Some 10" using e(1) by (simp add: char_at_def nth_append)
  have "line_rest ?s (length (B1 @ D @ B2)) ?c = Some (Some (length (B1 @ D @ B2 @ E) + 1))"
  proof (cases E)
    case Nil
    then show ?thesis by (simp add: line_rest_simple)
  next
    case (Cons c E')
    then have "?s = (B1 @ D @ B2) @ 59 # (E' @ [13]) @ 10 # R" "10 \<notin> set (E' @ [13])" "?c = 59"
      using e(1,5,6) by simp_all
    from line_rest_extension [OF this(1,2)] this(3) Cons show ?thesis by simp
  qed
  from chunk_size_line(4) [OF l lf e(3) this at \<open>?c = 59 \<or> ?c = 13\<close>] show ?thesis
    using e(1,7,8) by (simp add: line_value_def)
qed

lemma chunk_size_cases:
  assumes "length s < 2 ^ 63"
  obtains (incomplete) "10 \<notin> set s" "http_chunk_size s = Some (0, 0)"
    | (bad) "10 \<in> set s" "http_chunk_size s = Some (- 1, 0)" "\<And>h n R. s = h @ R \<Longrightarrow> \<not> chunk_header h n"
    | (header) h n R where "s = h @ R" "chunk_header h n" "http_chunk_size s = Some (of_nat (length h), of_nat n)"
proof (cases "10 \<in> set s")
  case False
  then show ?thesis using incomplete by (simp add: http_chunk_size_def)
next
  case lf: True
  have no_header: "\<not> chunk_header h n" if "http_chunk_size s = Some (- 1, 0)" "s = h @ R" for h n R
  proof
    assume "chunk_header h n"
    then have "(of_nat (length h) :: ssize_t) = - 1" using chunk_size_complete [of h n R] that by simp
    then have "unat (of_nat (length h) :: ssize_t) = 2 ^ 64 - 1" using ULONG_MAX_nat by (simp add: ULONG_MAX_def)
    moreover have "length h < 2 ^ 63" using assms that(2) by simp
    ultimately show False by simp
  qed
  obtain B1 D B2 c R where l: "line_parts s B1 D B2 c R" using line_parts_exist [OF lf] .
  then have s: "s = (B1 @ D @ B2) @ c # R" and p: "\<forall>c\<in>set B1. isblank c" "\<forall>c\<in>set D. isxdigit c" "\<forall>c\<in>set B2. isblank c" "\<not> isblank c"
    by (auto simp: line_parts_def)
  note line = chunk_size_line [OF l lf]
  have "10 \<notin> set B1 \<union> set D \<union> set B2" using p char_classes(1,2) by blast
  then have cR: "10 \<in> set (c # R)" using lf s by simp
  have bad': thesis if "http_chunk_size s = Some (- 1, 0)" using bad [OF lf that] no_header [OF that] by blast
  have valued: thesis if val: "http_chunk_size s = Some (line_value D (length (B1 @ D @ B2 @ E) + 2))" and D: "D \<noteq> []"
    and E: "c # R = E @ [13, 10] @ R'" "E = [] \<or> hd E = 59" "10 \<notin> set E" for E R'
  proof (cases "digits_value 16 D < unat ULONG_MAX")
    case True
    then have "chunk_header (B1 @ D @ B2 @ E @ [13, 10]) (digits_value 16 D)"
      unfolding chunk_header_def using p D E by (intro exI conjI refl) auto
    then show thesis using header [of "B1 @ D @ B2 @ E @ [13, 10]" R'] val True s E(1) by (simp add: line_value_def)
  next
    case False
    then show thesis using val bad' by (simp add: line_value_def)
  qed
  show ?thesis
  proof (cases "D = []")
    case True
    then show ?thesis using line(1) bad' by simp
  next
    case D: False
    consider (ext) "c = 59" | (cr) "c = 13" | (other) "c \<noteq> 59" "c \<noteq> 13" by blast
    then show ?thesis
    proof cases
      case ext
      then have "10 \<in> set R" using cR by simp
      then obtain E R' where E: "R = E @ 10 # R'" "10 \<notin> set E" by (meson split_list_first)
      note rest = line_rest_extension [of s "B1 @ D @ B2" E R', OF _ E(2)]
      show ?thesis
      proof (cases "E \<noteq> [] \<and> List.last E = 13")
        case True
        then obtain F where F: "E = F @ [13]" by (metis append_butlast_last_id)
        have "char_at s (length (B1 @ D @ B2) + 1 + length E) = Some 10" using s E by (simp add: char_at_def nth_append)
        then have "http_chunk_size s = Some (line_value D (length (B1 @ D @ B2) + 1 + length E + 1))"
          using line(4) [OF D _ _ ] rest True s E(1) ext by simp
        then show ?thesis using valued [of "59 # F" R'] D F E ext by (simp add: add.assoc)
      next
        case False
        then show ?thesis using line(2) [OF D] rest bad' s E(1) ext by simp
      qed
    next
      case cr
      then obtain x R' where R: "R = x # R'" using cR by (cases R) auto
      have at: "char_at s (length (B1 @ D @ B2) + 1) = Some x" using s R by (simp add: char_at_def nth_append)
      have rest: "line_rest s (length (B1 @ D @ B2)) c = Some (Some (length (B1 @ D @ B2) + 1))"
        using cr by (simp add: line_rest_simple)
      show ?thesis
      proof (cases "x = 10")
        case True
        then show ?thesis using line(4) [OF D rest] at cr valued [of "[]" R'] D R by simp
      next
        case False
        then show ?thesis using line(3) [OF D rest at] bad' by simp
      qed
    next
      case other
      then show ?thesis using line(2) [OF D] bad' by (simp add: line_rest_simple)
    qed
  qed
qed

end
