(* ===== verification/Http_Dechunk.thy ===== *)
theory Http_Dechunk
  imports Http_Chunked
begin

text \<open>
  \<open>http_chunk\<close> and \<open>http_dechunk\<close>: they terminate, never read outside the input, decode exactly the
  chunked bodies, and ask for more when a body is incomplete.
\<close>

section \<open>Chunks\<close>

lemma sint_of_nat64: "n < 2 ^ 63 \<Longrightarrow> sint (of_nat n :: ssize_t) = int n"
  by (simp add: signed_of_nat signed_take_bit_int_eq_self)

lemma chunk_header_length: "chunk_header h n \<Longrightarrow> 3 \<le> length h \<and> n < 2 ^ 64"
  using ULONG_MAX_nat by (auto simp: chunk_header_def neq_Nil_conv)

definition chunk_at :: "byte list \<Rightarrow> byte list \<Rightarrow> byte list \<Rightarrow> byte list \<Rightarrow> byte list \<Rightarrow> bool" where
  "chunk_at s h d sep R \<longleftrightarrow> s = h @ d @ sep @ R \<and> chunk_header h (length d) \<and> length sep = 2"

lemma chunk_of_header:
  assumes h: "chunk_header h n" and len: "length (h @ R) < 2 ^ 63"
  shows "http_chunk (h @ R) = Some (if length R < n + 2 then (0, 0, 0) else (of_nat (length h + n + 2), length h, of_nat n))"
proof -
  have bounds: "0 < length h" "n < 2 ^ 64" "length h < 2 ^ 63" using chunk_header_length [OF h] len by auto
  define m z sz where "m = (of_nat (length h) :: u64)" and "z = (of_nat n :: u64)" and "sz = (of_nat (length (h @ R)) :: u64)"
  have u: "unat m = length h" "unat z = n" "unat sz = length h + length R"
    using bounds len unat_of_nat64 [of "length (h @ R)"] by (simp_all add: m_def z_def sz_def)
  have si: "sint m = int (length h)" unfolding m_def using bounds(3) by (rule sint_of_nat64)
  have n2: "unat (m + 2) = length h + 2" using bounds(3) u(1) by (simp add: unat_add64)
  have chunk: "http_chunk (h @ R) = Some (if m + 2 > sz \<or> z > sz - m - 2 then (0, 0, 0) else (z + m + 2, unat m, z))"
    unfolding http_chunk_def chunk_size_complete [OF h] m_def [symmetric] z_def [symmetric] sz_def [symmetric] Let_def
    using si bounds(1) by auto
  show ?thesis
  proof (cases "length R < 2")
    case True
    then have "m + 2 > sz" using u(3) n2 by (simp add: word_less_nat_alt)
    then show ?thesis using True by (simp add: chunk)
  next
    case False
    then have le: "m + 2 \<le> sz" using u(3) n2 by (simp add: word_le_nat_alt)
    have "unat (sz - (m + 2)) = length R - 2" using unat_sub64 [OF le] u(3) n2 by simp
    then have gt: "z > sz - m - 2 \<longleftrightarrow> length R < n + 2"
      using u(2) False by (auto simp: word_less_nat_alt diff_diff_eq)
    have sum: "z + m + 2 = of_nat (length h + n + 2)" by (simp add: m_def z_def)
    have nlt: "(m + 2 > sz) = False" using le by (simp add: not_less)
    show ?thesis unfolding z_def [symmetric] chunk by (simp only: nlt gt u(1) sum simp_thms)
  qed
qed

lemma chunk_cases:
  assumes len: "length s < 2 ^ 63"
  obtains (stop) r where "r = 0 \<or> r = - 1" "http_chunk s = Some (r, 0, 0)" "\<And>h d sep R. \<not> chunk_at s h d sep R"
      "r = - 1 \<Longrightarrow> 10 \<in> set s \<and> (\<forall>h n R. s = h @ R \<longrightarrow> \<not> chunk_header h n)"
    | (chunk) h d sep R where "chunk_at s h d sep R"
      "http_chunk s = Some (of_nat (length h + length d + 2), length h, of_nat (length d))"
  using len
proof (cases s rule: chunk_size_cases)
  case incomplete
  then have "http_chunk s = Some (0, 0, 0)" by (simp add: http_chunk_def)
  moreover have "\<not> chunk_at s h d sep R" for h d sep R
    using incomplete(1) by (auto simp: chunk_at_def chunk_header_def)
  ultimately show ?thesis using stop [of 0] by simp
next
  case bad
  then have "http_chunk s = Some (- 1, 0, 0)" by (simp add: http_chunk_def)
  moreover have "\<not> chunk_at s h d sep R" for h d sep R
    using bad(3) [of h "d @ sep @ R" "length d"] by (auto simp: chunk_at_def)
  ultimately show ?thesis using stop [of "- 1"] bad(1,3) by blast
next
  case (header h n R)
  have lenhR: "length (h @ R) < 2 ^ 63" using header(1) len by simp
  note c = chunk_of_header [OF header(2) lenhR]
  show ?thesis
  proof (cases "length R < n + 2")
    case True
    then have zero: "http_chunk s = Some (0, 0, 0)" using c header(1) by simp
    have "\<not> chunk_at s h' d sep R'" for h' d sep R'
    proof
      assume a: "chunk_at s h' d sep R'"
      then have h': "s = h' @ (d @ sep @ R')" "chunk_header h' (length d)" "length sep = 2" by (simp_all add: chunk_at_def)
      have "length (h' @ (d @ sep @ R')) < 2 ^ 63" using h'(1) len by simp
      from chunk_of_header [OF h'(2) this] h'(1,3) zero
      have "length h' = 0" by simp
      moreover have "3 \<le> length h'" using chunk_header_length [OF h'(2)] by blast
      ultimately show False by simp
    qed
    then show ?thesis using stop [of 0] zero by simp
  next
    case False
    have "chunk_at s h (take n R) (take 2 (drop n R)) (drop 2 (drop n R))"
      using False header(1,2) by (simp add: chunk_at_def del: drop_drop)
    then show ?thesis using chunk [of h "take n R"] c False header(1) by simp
  qed
qed

lemma chunk_result:
  assumes h: "chunk_header h (length d)" and sep: "length sep = 2" and len: "length (h @ d @ sep @ R) < 2 ^ 63"
  shows "http_chunk (h @ d @ sep @ R) = Some (of_nat (length h + length d + 2), length h, of_nat (length d))"
    "0 < sint (of_nat (length h + length d + 2) :: ssize_t)"
    "(of_nat (length d) :: size_t) = 0 \<longleftrightarrow> d = []"
proof -
  show "http_chunk (h @ d @ sep @ R) = Some (of_nat (length h + length d + 2), length h, of_nat (length d))"
    using chunk_of_header [OF h, of "d @ sep @ R"] sep len by simp
  have "length h + length d + 2 < 2 ^ 63" using sep len by simp
  from sint_of_nat64 [OF this] show "0 < sint (of_nat (length h + length d + 2) :: ssize_t)" by simp
  have "unat (of_nat (length d) :: size_t) = length d" using len by simp
  then show "(of_nat (length d) :: size_t) = 0 \<longleftrightarrow> d = []" unfolding word_unat_eq_iff by simp
qed

section \<open>Checking the chunks\<close>

lemma dechunk_check_chunked:
  assumes "chunked e b" "length (A @ e @ R) < 2 ^ 63"
  shows "http_dechunk_check (A @ e @ R) (of_nat (length A)) = Some (Inr (of_nat (length A + length e)))"
  using assms
proof (induction arbitrary: A rule: chunked.induct)
  case (last h sep)
  have A: "unat (of_nat (length A) :: size_t) = length A" using last.prems by simp
  have len_last: "length (h @ [] @ sep @ R) < 2 ^ 63" by (rule le_less_trans [OF _ last.prems]) simp
  have c: "http_chunk (h @ [] @ sep @ R) = Some (of_nat (length h + length ([] :: byte list) + 2), length h, of_nat (length ([] :: byte list)))"
    "0 < sint (of_nat (length h + length ([] :: byte list) + 2) :: ssize_t)"
    using chunk_result [of h "[]" sep R, OF _ last.hyps(2) len_last] last.hyps(1) by simp_all
  show ?case using A c last.hyps(2) by (subst http_dechunk_check.simps) (simp add: not_le add.assoc)
next
  case (more h d sep e b)
  let ?s = "A @ (h @ d @ sep @ e) @ R"
  have A: "unat (of_nat (length A) :: size_t) = length A" using more.prems by simp
  have len_more: "length (h @ d @ sep @ e @ R) < 2 ^ 63" by (rule le_less_trans [OF _ more.prems]) simp
  have c: "http_chunk (h @ d @ sep @ e @ R) = Some (of_nat (length h + length d + 2), length h, of_nat (length d))"
    "0 < sint (of_nat (length h + length d + 2) :: ssize_t)" "(of_nat (length d) :: size_t) = 0 \<longleftrightarrow> d = []"
    using chunk_result [OF more.hyps(1,3) len_more] by simp_all
  have "http_dechunk_check ((A @ h @ d @ sep) @ e @ R) (of_nat (length (A @ h @ d @ sep))) =
      Some (Inr (of_nat (length (A @ h @ d @ sep) + length e)))"
    by (rule more.IH) (use more.prems in simp)
  moreover have "(of_nat (length A) + of_nat (length h + length d + 2) :: size_t) = of_nat (length (A @ h @ d @ sep))"
    using more.hyps(3) by simp
  ultimately show ?case using A c more.hyps(2,3)
    by (subst http_dechunk_check.simps) (simp add: not_le ac_simps)
qed

lemma dechunk_check_total:
  assumes len: "length s < 2 ^ 63" and p: "p \<le> length s"
  shows "\<exists>r. http_dechunk_check s (of_nat p) = Some r \<and>
    (case r of Inl n \<Rightarrow> (n = 0 \<or> n = - 1) \<and> (\<nexists>e b R. drop p s = e @ R \<and> chunked e b)
     | Inr q \<Rightarrow> \<exists>e b R. drop p s = e @ R \<and> chunked e b)"
  using p
proof (induction "length s - p" arbitrary: p rule: less_induct)
  case less
  let ?t = "drop p s"
  have up: "unat (of_nat p :: size_t) = p" using less.prems len by simp
  have lt: "length ?t < 2 ^ 63" using len by simp
  note unfold = http_dechunk_check.simps [of s "of_nat p", unfolded up]
  have no: "\<nexists>e b R. ?t = e @ R \<and> chunked e b" if "\<And>h d sep R. \<not> chunk_at ?t h d sep R"
  proof safe
    fix e b R assume "?t = e @ R" "chunked e b"
    from \<open>chunked e b\<close> show False
    proof cases
      case (last h sep)
      then have "chunk_at ?t h [] sep R" using \<open>?t = e @ R\<close> by (simp add: chunk_at_def)
      then show False using that by blast
    next
      case (more h d sep e' b')
      then have "chunk_at ?t h d sep (e' @ R)" using \<open>?t = e @ R\<close> by (simp add: chunk_at_def)
      then show False using that by blast
    qed
  qed
  from lt show ?case
  proof (cases ?t rule: chunk_cases)
    case (stop r)
    then have "http_dechunk_check s (of_nat p) = Some (Inl r)" by (auto simp: unfold)
    then show ?thesis using stop(1) no [OF stop(3)] by auto
  next
    case (chunk h d sep R)
    have t: "?t = h @ d @ sep @ R" "chunk_header h (length d)" "length sep = 2" using chunk(1) by (simp_all add: chunk_at_def)
    have lt': "length (h @ d @ sep @ R) < 2 ^ 63" using lt t(1) by simp
    note c = chunk_result [OF t(2,3) lt']
    define q where "q = p + (length h + length d + 2)"
    have q: "drop q s = R" "length R = length s - q" "p < q" "q \<le> length s"
    proof -
      have "length ?t = length (h @ d @ sep @ R)" using t(1) by simp
      then have len_s: "length s - p = length h + length d + 2 + length R" using t(3) by simp
      have "drop q s = drop (length h + length d + 2) ?t" by (simp add: q_def add.commute)
      then show "drop q s = R" using t(1,3) by simp
      show "length R = length s - q" "p < q" "q \<le> length s" using len_s less.prems by (simp_all add: q_def)
    qed
    have sum: "(of_nat p + of_nat (length h + length d + 2) :: size_t) = of_nat q" by (simp add: q_def)
    show ?thesis
    proof (cases "d = []")
      case True
      then have "http_dechunk_check s (of_nat p) = Some (Inr (of_nat q))"
        using c sum by (simp only: unfold t(1) c(1)) (simp add: not_le)
      moreover have "chunked (h @ sep) []" using True t(2,3) chunked.last by simp
      moreover have "?t = (h @ sep) @ R" using t(1) True by simp
      ultimately show ?thesis by (intro exI [of _ "Inr (of_nat q)"]) (simp only: sum.case, blast)
    next
      case False
      then have step: "http_dechunk_check s (of_nat p) = http_dechunk_check s (of_nat q)"
        using c sum by (simp only: unfold t(1) c(1)) (simp add: not_le)
      have "length s - q < length s - p" using q(3,4) by simp
      from less.hyps [OF this q(4), unfolded q(1)] obtain r where r: "http_dechunk_check s (of_nat q) = Some r"
        "case r of Inl n \<Rightarrow> (n = 0 \<or> n = - 1) \<and> (\<nexists>e b R'. R = e @ R' \<and> chunked e b)
         | Inr q \<Rightarrow> \<exists>e b R'. R = e @ R' \<and> chunked e b"
        by blast
      show ?thesis
      proof (cases r)
        case (Inr z)
        then obtain e b R' where "R = e @ R'" "chunked e b" using r(2) by auto
        then have "?t = (h @ d @ sep @ e) @ R'" "chunked (h @ d @ sep @ e) (d @ b)"
          using t False chunked.more by auto
        then show ?thesis unfolding step r(1) Inr by (intro exI [of _ "Inr z"]) (simp only: sum.case, blast)
      next
        case (Inl n)
        have "\<nexists>e b R'. ?t = e @ R' \<and> chunked e b"
        proof safe
          fix e b R' assume e: "?t = e @ R'" "chunked e b"
          then have "http_dechunk_check (take p s @ e @ R') (of_nat (length (take p s))) = Some (Inr (of_nat (length (take p s) + length e)))"
            by (intro dechunk_check_chunked) (use len in \<open>simp_all flip: e(1)\<close>)
          moreover have "take p s @ e @ R' = s" "length (take p s) = p" using e(1) less.prems by (simp_all flip: e(1))
          ultimately show False using step r(1) Inl by simp
        qed
        then show ?thesis using r(2) unfolding step r(1) Inl by auto
      qed
    qed
  qed
qed

section \<open>Moving the chunks together\<close>

lemma bytes_move_chunk:
  "bytes_move (D @ (G @ h) @ d @ R) (length D) (length D + length (G @ h)) (length d) =
     Some (D @ d @ drop (length d) (G @ h @ d) @ R)"
proof -
  let ?s = "D @ (G @ h) @ d @ R" and ?p = "length D + length (G @ h)"
  have "drop ?p ?s = d @ R" by simp
  moreover have "drop (length D + length d) ?s = drop (length d) (G @ h @ d) @ R" by simp
  ultimately show ?thesis by (simp add: bytes_move_def)
qed

lemma dechunk_move_chunked:
  assumes "chunked e b" "length (D @ G @ e @ R) < 2 ^ 63"
  shows "\<exists>G'. http_dechunk_move (D @ G @ e @ R) (of_nat (length (D @ G))) (of_nat (length D)) =
      Some (D @ b @ G' @ R, of_nat (length (D @ G @ e)), of_nat (length (D @ b))) \<and> length (b @ G') = length (G @ e)"
  using assms
proof (induction arbitrary: D G rule: chunked.induct)
  case (last h sep)
  have u: "unat (of_nat (length (D @ G)) :: size_t) = length D + length G" "unat (of_nat (length D) :: size_t) = length D"
    using last.prems unat_of_nat64 [of "length (D @ G)"] by simp_all
  have len: "length (h @ [] @ sep @ R) < 2 ^ 63" by (rule le_less_trans [OF _ last.prems]) simp
  have c: "http_chunk (h @ sep @ R) = Some (of_nat (length h + 2), length h, 0)"
    using chunk_result(1) [of h "[]" sep R, OF _ last.hyps(2) len] last.hyps(1) by simp
  have "http_dechunk_move (D @ G @ (h @ sep) @ R) (of_nat (length (D @ G))) (of_nat (length D)) =
      Some (D @ G @ (h @ sep) @ R, of_nat (length (D @ G)) + of_nat (length h + 2), of_nat (length D))"
    by (subst http_dechunk_move.simps) (simp add: u [simplified] c bytes_move_def)
  then show ?case using last.hyps(2) by (intro exI [of _ "G @ h @ sep"]) (simp add: ac_simps)
next
  case (more h d sep e b)
  let ?s = "D @ G @ (h @ d @ sep @ e) @ R"
  have u: "unat (of_nat (length (D @ G)) :: size_t) = length D + length G" "unat (of_nat (length D) :: size_t) = length D"
    using more.prems unat_of_nat64 [of "length (D @ G)"] by simp_all
  have len: "length (h @ d @ sep @ e @ R) < 2 ^ 63" by (rule le_less_trans [OF _ more.prems]) simp
  note c = chunk_result [OF more.hyps(1,3) len]
  have ud: "unat (of_nat (length d) :: size_t) = length d" using len by simp
  obtain G2 where G2: "drop (length d) (G @ h @ d @ sep) = G2" "length G2 = length G + length h + 2"
    using more.hyps(3) by simp
  have mv: "bytes_move ?s (length D) (length D + length G + length h) (length d) = Some ((D @ d) @ G2 @ e @ R)"
    using bytes_move_chunk [of D G h d "sep @ e @ R"] more.hyps(3) unfolding G2(1) [symmetric] by (simp add: add.assoc)
  note G = G2(2)
  have "length ((D @ d) @ G2 @ e @ R) < 2 ^ 63" using more.prems G more.hyps(3) by simp
  from more.IH [OF this] obtain G' where G': "http_dechunk_move ((D @ d) @ G2 @ e @ R) (of_nat (length ((D @ d) @ G2))) (of_nat (length (D @ d))) =
      Some ((D @ d) @ b @ G' @ R, of_nat (length ((D @ d) @ G2 @ e)), of_nat (length ((D @ d) @ b)))"
    "length (b @ G') = length (G2 @ e)" by blast
  have sums: "(of_nat (length (D @ G)) + of_nat (length h + length d + 2) :: size_t) = of_nat (length ((D @ d) @ G2))"
    "(of_nat (length D) + of_nat (length d) :: size_t) = of_nat (length (D @ d))"
    by (simp_all only: length_append G of_nat_add add_ac of_nat_numeral)
  have "http_dechunk_move ?s (of_nat (length (D @ G))) (of_nat (length D)) =
      http_dechunk_move ((D @ d) @ G2 @ e @ R) (of_nat (length (D @ G)) + of_nat (length h + length d + 2)) (of_nat (length D) + of_nat (length d))"
    using c(1,3) more.hyps(2) by (subst http_dechunk_move.simps) (simp add: u [simplified] mv [simplified] ud)
  also have "\<dots> = Some ((D @ d) @ b @ G' @ R, of_nat (length ((D @ d) @ G2 @ e)), of_nat (length ((D @ d) @ b)))"
    unfolding sums by (rule G'(1))
  finally show ?case
    using G'(2) G more.hyps(3) by (intro exI [of _ G']) (simp add: ac_simps)
qed

lemma dechunk_chunked:
  assumes e: "chunked e b" and len: "length (e @ R) < 2 ^ 63"
  shows "\<exists>G. http_dechunk (e @ R) = Some (of_nat (length e), b @ G @ R, of_nat (length b)) \<and> length (b @ G) = length e"
proof -
  have "http_dechunk_check (e @ R) 0 = Some (Inr (of_nat (length e)))"
    using dechunk_check_chunked [OF e, of "[]" R] len by simp
  moreover obtain G where "http_dechunk_move (e @ R) 0 0 = Some (b @ G @ R, of_nat (length e), of_nat (length b))"
    "length (b @ G) = length e"
    using dechunk_move_chunked [OF e, of "[]" "[]" R] len by auto
  ultimately show ?thesis by (simp add: http_dechunk_def)
qed

lemma dechunk_not_chunked:
  assumes "length s < 2 ^ 63" "\<nexists>e b R. s = e @ R \<and> chunked e b"
  shows "\<exists>n. (n = 0 \<or> n = - 1) \<and> http_dechunk s = Some (n, s, 0) \<and> http_dechunk_check s 0 = Some (Inl n)"
proof -
  obtain r where r: "http_dechunk_check s 0 = Some r" "case r of Inl n \<Rightarrow> n = 0 \<or> n = - 1 | Inr q \<Rightarrow> \<exists>e b R. s = e @ R \<and> chunked e b"
    using dechunk_check_total [OF assms(1), of 0] by (fastforce split: sum.splits)
  then obtain n where "r = Inl n" "n = 0 \<or> n = - 1" using assms(2) by (auto split: sum.splits)
  then show ?thesis using r(1) by (intro exI [of _ n]) (simp add: http_dechunk_def)
qed

section \<open>Incomplete bodies\<close>

lemma chunk_incomplete:
  assumes h: "chunk_header h n" and p: "p @ q = h @ X" "length p < length h + n + 2" and len: "length p < 2 ^ 63"
  shows "http_chunk p = Some (0, 0, 0)"
proof (cases "length p < length h")
  case True
  obtain B1 D B2 E where e: "h = B1 @ D @ B2 @ E @ [13, 10]" "\<forall>c\<in>set (B1 @ B2). isblank c" "\<forall>c\<in>set D. isxdigit c" "10 \<notin> set E"
    using h unfolding chunk_header_def by blast
  then have "10 \<notin> set (butlast h)" using char_classes(1,2) by (auto simp: butlast_append)
  moreover have "p = take (length p) (butlast h)"
  proof -
    have "p = take (length p) (p @ q)" by simp
    also have "\<dots> = take (length p) h" using True by (simp add: p(1))
    finally have "p = take (length p) h" .
    moreover have "length p \<le> length h - 1" using True by linarith
    ultimately show ?thesis by (simp add: butlast_conv_take min_absorb1)
  qed
  ultimately have "10 \<notin> set p" by (metis in_set_takeD)
  then show ?thesis by (simp add: http_chunk_def http_chunk_size_def)
next
  case False
  then obtain R where R: "p = h @ R" using append_eq_append_conv2 [of p q h X] p(1) by auto
  then show ?thesis using chunk_of_header [OF h, of R] p(2) len by simp
qed

lemma dechunk_check_incomplete:
  assumes "chunked e b" "e = p @ q" "q \<noteq> []" "length (A @ p) < 2 ^ 63"
  shows "http_dechunk_check (A @ p) (of_nat (length A)) = Some (Inl 0)"
  using assms
proof (induction arbitrary: A p rule: chunked.induct)
  case (last h sep)
  have A: "unat (of_nat (length A) :: size_t) = length A" using last.prems(3) by simp
  have "length (h @ sep) = length p + length q" using last.prems(1) by simp
  then have "length p < length h + 0 + 2" using last.hyps(2) last.prems(2) by simp
  moreover have "length p < 2 ^ 63" using last.prems(3) by simp
  ultimately have "http_chunk p = Some (0, 0, 0)" using chunk_incomplete [OF last.hyps(1), of p q sep] last.prems(1) by simp
  then show ?case using A by (subst http_dechunk_check.simps) simp
next
  case (more h d sep e b)
  have A: "unat (of_nat (length A) :: size_t) = length A" using more.prems(3) by simp
  have lp: "length p < 2 ^ 63" using more.prems(3) by simp
  show ?case
  proof (cases "length p < length h + length d + 2")
    case True
    then have "http_chunk p = Some (0, 0, 0)"
      using chunk_incomplete [OF more.hyps(1), of p q "d @ sep @ e"] more.prems(1) lp by simp
    then show ?thesis using A by (subst http_dechunk_check.simps) simp
  next
    case False
    then have "length (h @ d @ sep) \<le> length p" using more.hyps(3) by simp
    then have short: "us = []" if "h @ d @ sep = p @ us" for us using arg_cong [OF that, of length] by simp
    obtain us where "(h @ d @ sep = p @ us \<and> us @ e = q) \<or> ((h @ d @ sep) @ us = p \<and> e = us @ q)"
      using append_eq_append_conv2 [of "h @ d @ sep" e p q] more.prems(1) by auto
    then obtain p' where p': "p = (h @ d @ sep) @ p'" "e = p' @ q"
      using short by (cases "h @ d @ sep = p @ us") auto
    have len: "length (h @ d @ sep @ p') < 2 ^ 63" using lp p'(1) by simp
    note c = chunk_result [OF more.hyps(1,3) len]
    have "http_dechunk_check ((A @ h @ d @ sep) @ p') (of_nat (length (A @ h @ d @ sep))) = Some (Inl 0)"
      by (rule more.IH [OF p'(2) more.prems(2)]) (use more.prems(3) p'(1) in simp)
    then show ?thesis using A c more.hyps(2,3) unfolding p'(1)
      by (subst http_dechunk_check.simps) (simp add: not_le ac_simps)
  qed
qed

section \<open>Properties\<close>

text \<open>
  C24: An input that starts with a chunked body is decoded: the result is the length of the body's
  encoding, the decoded bytes stand at the start of the input's memory, and the bytes behind the
  encoding have not been touched.
\<close>

theorem http_dechunk_decodes:
  assumes "chunked e b" "length (e @ R) < 2 ^ 63"
  shows "\<exists>mem. http_dechunk (e @ R) = Some (of_nat (length e), mem, of_nat (length b)) \<and>
    take (length b) mem = b \<and> drop (length e) mem = R \<and> length mem = length (e @ R)"
proof -
  obtain G where G: "http_dechunk (e @ R) = Some (of_nat (length e), b @ G @ R, of_nat (length b))" "length (b @ G) = length e"
    using dechunk_chunked [OF assms] by blast
  have "drop (length e) (b @ G @ R) = R" unfolding G(2) [symmetric] by simp
  then show ?thesis using G by (intro exI [of _ "b @ G @ R"]) simp
qed

text \<open>The body \<open>3;x\<close> CRLF \<open>abc\<close> CRLF \<open>0\<close> CRLF CRLF.\<close>

definition example_chunked :: "byte list" where
  "example_chunked = [51, 59, 120, 13, 10, 97, 98, 99, 13, 10, 48, 13, 10, 13, 10]"

lemma example_chunked: "chunked example_chunked [97, 98, 99]"
proof -
  have "chunk_header [48, 13, 10] 0"
    unfolding chunk_header_def ULONG_MAX_nat
    by (intro exI [of _ "[]"] exI [of _ "[48]"]) (simp add: isxdigit_def digits_value_def xdigit_def)
  then have last: "chunked ([48, 13, 10] @ [13, 10]) []" by (rule chunked.last) simp
  have "chunk_header [51, 59, 120, 13, 10] (length [97, 98, 99 :: byte])"
    unfolding chunk_header_def ULONG_MAX_nat
    by (rule exI [of _ "[]"], rule exI [of _ "[51]"], rule exI [of _ "[]"], rule exI [of _ "[59, 120]"])
      (simp add: isxdigit_def digits_value_def xdigit_def word_le_nat_alt)
  from chunked.more [OF this _ _ last, of "[13, 10]"] show ?thesis by (simp add: example_chunked_def)
qed

lemma http_dechunk_decodes_witness:
  "\<exists>mem. http_dechunk (example_chunked @ [71, 69]) = Some (15, mem, 3) \<and> take 3 mem = [97, 98, 99] \<and> drop 15 mem = [71, 69]"
proof -
  have l: "length example_chunked = 15" "length [97, 98, 99 :: byte] = 3" by (simp_all add: example_chunked_def)
  have "length (example_chunked @ [71, 69]) < 2 ^ 63" by (simp add: example_chunked_def)
  from http_dechunk_decodes [OF example_chunked this, unfolded l] show ?thesis by auto
qed



text \<open>
  When only a part of a chunked body has arrived, \<open>http_dechunk\<close> reports that more is needed
  and changes nothing, so that it can be called again on the longer input.
\<close>

theorem http_dechunk_incomplete:
  assumes "chunked (p @ q) b" "q \<noteq> []" "length p < 2 ^ 63"
  shows "http_dechunk p = Some (0, p, 0)"
  using dechunk_check_incomplete [OF assms(1) refl assms(2), of "[]"] assms(3) by (simp add: http_dechunk_def)

lemma http_dechunk_incomplete_witness: "http_dechunk (take 9 example_chunked) = Some (0, take 9 example_chunked, 0)"
  using http_dechunk_incomplete [of "take 9 example_chunked" "drop 9 example_chunked" "[97, 98, 99]"] example_chunked
  by (simp add: example_chunked_def)

end
