(* ===== verification/Http_Request.thy ===== *)
theory Http_Request
  imports Phr_Request Http_Dechunk
begin

text \<open>
  Reading a request from a stream: which part of the input is its body, for the framings a client
  can choose, and what happens when the body is incomplete or its framing is wrong.
\<close>

section \<open>Framing\<close>

text \<open>The value of the first field with the name, up to case; none is like an empty one.\<close>

definition field_named :: "byte list \<Rightarrow> byte list \<times> byte list \<Rightarrow> bool" where
  "field_named name f \<longleftrightarrow> map toupper (fst f) = map toupper name"

definition lookup_field :: "byte list \<Rightarrow> (byte list \<times> byte list) list \<Rightarrow> byte list" where
  "lookup_field name fs = (case find (field_named name) fs of None \<Rightarrow> [] | Some f \<Rightarrow> snd f)"

definition content_length :: "(byte list \<times> byte list) list \<Rightarrow> byte list" where
  "content_length fs = lookup_field (text_bytes ''Content-Length'') fs"

definition transfer_encoding :: "(byte list \<times> byte list) list \<Rightarrow> byte list" where
  "transfer_encoding fs = lookup_field (text_bytes ''Transfer-Encoding'') fs"

text \<open>The bytes behind the head that stand for a body.\<close>

definition framed :: "byte list \<Rightarrow> (byte list \<times> byte list) list \<Rightarrow> byte list \<Rightarrow> byte list \<Rightarrow> bool" where
  "framed m fs wire body \<longleftrightarrow>
     (if m = text_bytes ''GET'' then wire = [] \<and> body = []
      else if content_length fs \<noteq> []
      then transfer_encoding fs = [] \<and> list_all isdigit (content_length fs) \<and>
        digits_value 10 (content_length fs) = length body \<and> wire = body
      else if transfer_encoding fs \<noteq> []
      then map toupper (transfer_encoding fs) = map toupper (text_bytes ''Chunked'') \<and> chunked wire body
      else wire = [] \<and> body = [])"

section \<open>Data in the input\<close>

lemma readable_append: "readable (Some (map Some xs @ tail)) = xs @ readable (Some tail)"
  by (induction xs) (simp_all add: readable_def)

lemma readable_split:
  assumes "p = Some blk"
  obtains tail where "blk = map Some (readable p) @ tail"
proof -
  have "blk = takeWhile (\<lambda>c. c \<noteq> None) blk @ dropWhile (\<lambda>c. c \<noteq> None) blk" by simp
  moreover have "map Some (map the (takeWhile (\<lambda>c. c \<noteq> None) blk)) = takeWhile (\<lambda>c. c \<noteq> None) blk"
    by (induction blk) auto
  ultimately show ?thesis using assms that [of "dropWhile (\<lambda>c. c \<noteq> None) blk"] by (simp add: readable_def)
qed

lemma readable_ptr_add:
  assumes "q \<le> length (readable p)"
  shows "readable (ptr_add p q) = drop q (readable p)"
proof (cases p)
  case (Some blk)
  obtain rs tail where rs: "rs = readable p" "blk = map Some rs @ tail" using readable_split [OF Some] by metis
  have "readable p = rs @ readable (Some tail)" unfolding Some rs(2) by (rule readable_append)
  then have tail: "readable (Some tail) = []" unfolding rs(1) [symmetric] by simp
  have q: "q \<le> length rs" using assms unfolding rs(1) .
  have "drop q blk = map Some (drop q rs) @ tail" using q unfolding rs(2) by (simp add: drop_map)
  then have "ptr_add p q = Some (map Some (drop q rs) @ tail)" by (simp add: Some ptr_add_def)
  then have "readable (ptr_add p q) = drop q rs" using tail by (simp add: readable_append)
  then show ?thesis unfolding rs(1) .
qed (simp add: ptr_add_def readable_def)

lemma token_bytes:
  assumes "token_at (readable (data_base input)) (p, n) xs" "length xs < 2 ^ 64" "data_base input = Some blk"
  shows "data_bytes (token_data input (Some (p, n))) = Some xs"
proof (cases "xs = []")
  case True
  then show ?thesis using assms by (simp add: token_at_def token_data_def data_bytes_def ptr_bytes_def)
next
  case False
  obtain tail where blk: "blk = map Some (readable (data_base input)) @ tail" by (rule readable_split [OF assms(3)])
  let ?s = "readable (data_base input)"
  have t: "n = length xs" "take (length xs) (drop p ?s) = xs" using assms(1) by (auto simp: token_at_def)
  have "length xs \<le> length ?s - p" using arg_cong [OF t(2), of length] by simp
  then have l: "length xs \<le> length (drop p (map Some ?s))" by simp
  have p: "p \<le> length (map Some ?s)" using t(2) False by (cases "p \<le> length ?s") auto
  have "drop p blk = drop p (map Some ?s) @ tail" using blk p by simp
  then have "take (length xs) (drop p blk) = map Some xs" "length xs \<le> length (drop p blk)"
    using l t(2) by (simp_all add: drop_map take_map)
  then show ?thesis using assms(2,3) t(1) by (simp add: token_data_def data_bytes_def ptr_bytes_def ptr_add_def)
qed

lemma data_bytes_readable:
  assumes "data_bytes d = Some xs" "xs \<noteq> []"
  obtains blk r where "data_base d = Some blk" "readable (data_base d) = xs @ r"
proof -
  have "data_base d \<noteq> None" using assms by (cases "data_base d") (auto simp: data_bytes_def ptr_bytes_def split: if_splits)
  then obtain blk where b: "data_base d = Some blk" by blast
  then have "take (length xs) blk = map Some xs"
    using assms length_data_bytes [OF assms(1)] by (auto simp: data_bytes_def ptr_bytes_def split: if_splits)
  then have "blk = map Some xs @ drop (length xs) blk" by (metis append_take_drop_id)
  then show ?thesis using b that readable_append by metis
qed

section \<open>Fields\<close>

text \<open>A data vector in the input, with the end of its line behind it.\<close>

definition line_data :: "data \<Rightarrow> byte list \<Rightarrow> bool" where
  "line_data d xs \<longleftrightarrow> data_bytes d = Some xs \<and> (xs \<noteq> [] \<longrightarrow> (\<exists>r. readable (data_base d) = xs @ 13 # r))"

definition fields_in :: "http_field list \<Rightarrow> (byte list \<times> byte list) list \<Rightarrow> bool" where
  "fields_in hs fs \<longleftrightarrow> list_all2 (\<lambda>h f. data_bytes (field_name h) = Some (fst f) \<and> line_data (field_value h) (snd f)) hs fs"

lemma fields_in_hold: "fields_in hs fs \<Longrightarrow> fields_hold hs fs"
  unfolding fields_in_def fields_hold_def by (erule list_all2_mono) (auto simp: line_data_def split: prod.splits)

lemma lookup_from_field:
  "fields_in hs fs \<Longrightarrow> data_bytes name = Some n \<Longrightarrow>
     \<exists>v. http_field_lookup_from hs name = Some v \<and> line_data v (lookup_field n fs)"
  unfolding fields_in_def
proof (induction hs fs rule: list_all2_induct)
  case Nil
  then show ?case by (simp add: lookup_field_def line_data_def string_null_def data_bytes_def ptr_bytes_def)
next
  case (Cons h hs f fs)
  have e: "string_equal_case (field_name h) name = Some (map toupper (fst f) = map toupper n)"
    unfolding string_equal_case_def by (rule data_equal_case_bytes) (use Cons in auto)
  show ?case using Cons e by (auto simp: lookup_field_def field_named_def)
qed

lemma lookup_field_in:
  assumes "fields_in hs fs" "length s < 2 ^ 64" "unat k = length hs"
  obtains v where "http_field_lookup hs (unat k) (literal s) = Some v" "line_data v (lookup_field (text_bytes s) fs)"
  using lookup_from_field [OF assms(1) literal_bytes [OF assms(2)]] assms(3) by (auto simp: http_field_lookup_def)

text \<open>The headers the parser reports become such fields.\<close>

lemma header_fields:
  assumes hs: "list_all2 (header_at (readable (data_base input))) hs fs" and base: "data_base input = Some blk"
    and len: "length (readable (data_base input)) < 2 ^ 64"
  shows "fields_in (map (\<lambda>(name, val). http_field_define (token_data input name) (token_data input (Some val))) hs) fs"
  unfolding fields_in_def list.rel_map
proof (rule list_all2_mono [OF hs], clarsimp split: prod.splits)
  let ?s = "readable (data_base input)"
  fix name v k name' val' assume h: "header_at ?s (name, v, k) (name', val')"
  have short: "length xs < 2 ^ 64" if "token_at ?s t xs" for t xs
    using arg_cong [OF conjunct2 [OF that [unfolded token_at_def]], of length] len by simp
  obtain p n where name: "name = Some (p, n)" "token_at ?s (p, n) name'" using h by (auto simp: header_at_def)
  have v: "token_at ?s (v, k) val'" "char_at ?s (v + k) = Some 13" using h by (auto simp: header_at_def)
  have "data_bytes (token_data input name) = Some name'" using token_bytes [OF name(2) short [OF name(2)] base] name(1) by simp
  moreover have "data_bytes (token_data input (Some (v, k))) = Some val'" by (rule token_bytes [OF v(1) short [OF v(1)] base])
  moreover have "readable (data_base (token_data input (Some (v, k)))) = val' @ 13 # drop (Suc (v + k)) ?s"
  proof -
    have k: "v + k < length ?s" "?s ! (v + k) = 13" using v(2) by (auto simp: char_at_def split: if_splits)
    then have "drop v ?s = take k (drop v ?s) @ drop (v + k) ?s" by (metis add.commute append_take_drop_id drop_drop)
    also have "take k (drop v ?s) = val'" using v(1) by (simp add: token_at_def)
    also have "drop (v + k) ?s = 13 # drop (Suc (v + k)) ?s" using k by (metis Cons_nth_drop_Suc)
    finally show ?thesis using readable_ptr_add [of v "data_base input"] k by (simp add: token_data_def)
  qed
  ultimately show "data_bytes (field_name (http_field_define (token_data input name) (token_data input (Some (v, k))))) = Some name' \<and>
      line_data (field_value (http_field_define (token_data input name) (token_data input (Some (v, k))))) val'"
    by (auto simp: http_field_define_def line_data_def)
qed

section \<open>Decimal numbers\<close>

lemma strtoull_decimal:
  assumes "line_data d D" "D \<noteq> []" "list_all isdigit D" "digits_value 10 D < 2 ^ 64"
  shows "strtoull (data_base d) = Some (of_nat (digits_value 10 D))"
proof -
  obtain r where s: "readable (data_base d) = D @ 13 # r" using assms(1,2) by (auto simp: line_data_def)
  obtain c D' where D: "D = c # D'" using assms(2) by (cases D) auto
  have c: "\<not> isspace c" "c \<noteq> 43" "c \<noteq> 45" using assms(3) D by (auto simp: isdigit_def isspace_def word_le_nat_alt)
  have "char_scan isspace (D @ 13 # r) 0 = Some 0"
    using char_scan_split [of "[]" isspace c "[]" 0 "D' @ 13 # r"] c D by simp
  moreover have "char_scan isdigit (D @ 13 # r) 0 = Some (length D)"
    using char_scan_split [of D isdigit 13 "[]" 0 r] assms(3) by (simp add: list_all_iff isdigit_def)
  moreover have "char_at (D @ 13 # r) 0 = Some c" using D by (simp add: char_at_def)
  ultimately show ?thesis using c assms(4)
    by (simp add: strtoull_def strtoul_def s strtoul_digits_def range_of_def)
qed

section \<open>The head\<close>

lemma readable_length: "p = Some blk \<Longrightarrow> length (readable p) \<le> length blk"
  by (simp add: readable_def length_takeWhile_le)

lemma stream_read_readable:
  assumes ok: "stream_ok s inp flight waiting" and unread: "drop (unat (stream_input_consumed s)) inp = xs" "xs \<noteq> []"
  obtains blk r where "data_base (stream_read s) = Some blk" "readable (data_base (stream_read s)) = xs @ r"
    "length (xs @ r) < 2 ^ 64" "unat (data_size (stream_read s)) = length xs"
proof -
  have d: "data_bytes (stream_read s) = Some xs" using stream_read_bytes [OF ok] unread(1) by simp
  obtain blk r where b: "data_base (stream_read s) = Some blk" "readable (data_base (stream_read s)) = xs @ r"
    using data_bytes_readable [OF d unread(2)] .
  let ?b = "stream_input_buffer s"
  have "buffer_ok ?b" using ok by (simp add: stream_ok_def stream_input_ok_def buffer_holds_def)
  moreover have "data_base (stream_read s) = ptr_add (buffer_base ?b) (unat (stream_input_consumed s))"
    by (simp add: stream_read_def buffer_base_def buffer_data_def)
  ultimately have "length blk < 2 ^ 64"
    using b(1) by (auto simp: buffer_ok_def ptr_add_def split: option.splits intro: le_less_trans [OF diff_le_self])
  then have "length (xs @ r) < 2 ^ 64" using readable_length [OF b(1)] b(2) by simp
  then show ?thesis using that b length_data_bytes [OF d] by metis
qed

lemma scast_small: "n < 2 ^ 31 \<Longrightarrow> scast (of_nat n :: int32) = (of_nat n :: size_t)"
  by (simp add: scast_eq signed_of_nat signed_take_bit_int_eq_self)

lemma sint_small: "n < 2 ^ 31 \<Longrightarrow> sint (of_nat n :: int32) = int n"
  by (simp add: signed_of_nat signed_take_bit_int_eq_self)

text \<open>The request as far as the head says.\<close>

definition head_read :: "http_request \<Rightarrow> byte list \<Rightarrow> byte list \<Rightarrow> (byte list \<times> byte list) list \<Rightarrow> bool" where
  "head_read q m t fs \<longleftrightarrow> data_bytes (request_method q) = Some m \<and> data_bytes (request_target q) = Some t \<and>
     fields_in (request_fields q) fs \<and> unat (request_fields_count q) = length (request_fields q) \<and>
     length (request_fields q) = length fs \<and> request_body q = data_null"

lemma request_head_length: "0 < length (request_head m t fs)" "length fs \<le> length (request_head m t fs)"
proof -
  have "length fs \<le> length (field_lines fs)" by (induction fs) (auto simp: field_lines_def field_line_def)
  then show "0 < length (request_head m t fs)" "length fs \<le> length (request_head m t fs)" by (simp_all add: request_head_def)
qed

lemma read_request_head:
  assumes ok: "stream_ok s inp flight waiting"
    and unread: "drop (unat (stream_input_consumed s)) inp = request_head m t fs @ rest"
    and v: "valid_head m t fs" and max: "length fs \<le> unat (request_fields_count request)"
    and small: "length (request_head m t fs) < 2 ^ 31"
  obtains q where "http_read_request sse s request =
      (if m = text_bytes ''GET'' then Some (1, stream_consume s (of_nat (length (request_head m t fs))), q)
       else http_request_body s (stream_read s) (of_nat (length (request_head m t fs))) q)"
    "head_read q m t fs"
proof -
  let ?h = "request_head m t fs" and ?input = "stream_read s"
  have ne: "?h @ rest \<noteq> []" using request_head_length(1) [of m t fs] by auto
  obtain blk r where b: "data_base ?input = Some blk" "readable (data_base ?input) = (?h @ rest) @ r"
    "length ((?h @ rest) @ r) < 2 ^ 64" "unat (data_size ?input) = length (?h @ rest)"
    using stream_read_readable [OF ok unread ne] .
  have empty: "\<not> data_empty ?input" using b(4) ne by (auto simp: data_empty_def)
  have s: "readable (data_base ?input) = ?h @ (rest @ r)" using b(2) by simp
  obtain hs where hs: "phr_parse_request sse (readable (data_base ?input)) (unat (data_size ?input)) (unat (request_fields_count request)) 0 =
      Some \<lparr>phr_result = of_nat (length ?h), phr_method = Some (0, length m),
        phr_path = Some (length m + 1, length t), phr_minor_version = 1, phr_headers = hs\<rparr>"
    "list_all2 (header_at (readable (data_base ?input))) hs fs"
    "token_at (readable (data_base ?input)) (0, length m) m" "token_at (readable (data_base ?input)) (length m + 1, length t) t"
    using phr_parse_request_at [OF s v, of "unat (data_size ?input)" "unat (request_fields_count request)" sse] b(4) s max by auto
  define fl where "fl = map (\<lambda>(name, val). http_field_define (token_data ?input name) (token_data ?input (Some val))) hs"
  define q where "q = request\<lparr>request_method := token_data ?input (Some (0, length m)),
    request_target := token_data ?input (Some (length m + 1, length t)), request_fields := fl,
    request_fields_count := of_nat (length fl), request_body := data_null\<rparr>"
  have short: "length m < 2 ^ 64" "length t < 2 ^ 64" using b(3) by (simp_all add: request_head_def)
  have mt: "data_bytes (token_data ?input (Some (0, length m))) = Some m" "data_bytes (token_data ?input (Some (length m + 1, length t))) = Some t"
    by (rule token_bytes [OF hs(3) short(1) b(1)], rule token_bytes [OF hs(4) short(2) b(1)])
  have fl: "fields_in fl fs" unfolding fl_def by (rule header_fields [OF hs(2) b(1)]) (use b(2,3) in simp)
  then have lfl: "length fl = length fs" by (simp add: fields_in_def list_all2_lengthD)
  then have "length fl < 2 ^ 64" using request_head_length(2) [of fs m t] small by simp
  then have q: "head_read q m t fs" using mt fl lfl by (simp add: head_read_def q_def)
  have get: "string_equal (token_data ?input (Some (0, length m))) (literal ''GET'') = Some (m = text_bytes ''GET'')"
    unfolding string_equal_def by (rule data_equal_bytes [OF mt(1)]) (simp add: literal_bytes)
  have pos: "0 < sint (of_nat (length ?h) :: int32)" using sint_small [OF small] request_head_length(1) [of m t fs] by simp
  have "http_read_request sse s request =
      (if m = text_bytes ''GET'' then Some (1, stream_consume s (of_nat (length ?h)), q)
       else http_request_body s ?input (of_nat (length ?h)) q)"
    using empty hs(1) get pos scast_small [OF small]
    by (cases "m = text_bytes ''GET''") (simp_all add: http_read_request_def Let_def q_def fl_def)
  then show ?thesis using q by (rule that)
qed

section \<open>The body\<close>

lemma data_empty_bytes: "data_bytes d = Some xs \<Longrightarrow> data_empty d \<longleftrightarrow> xs = []"
  using length_data_bytes [of d xs] by (auto simp: data_empty_def word_unat_eq_iff)

lemma data_bytes_inner:
  assumes "data_bytes d = Some (A @ B @ C)" "unat k = length A"
  shows "data_bytes (data_of (ptr_add (data_base d) (unat k)) (of_nat (length B))) = Some B"
proof -
  have r: "ptr_read (data_base d) (unat (data_size d)) = Some (map Some (A @ B @ C))" by (rule data_bytes_read [OF assms(1)])
  have l: "length (A @ B @ C) = unat (data_size d)" by (rule length_data_bytes [OF assms(1)])
  then have "length B \<le> unat (data_size d)" by simp
  also have "\<dots> < 2 ^ 64" using unat_lt64 [of "data_size d"] by simp
  finally have "length B < 2 ^ 64" .
  then show ?thesis using ptr_read_add [OF r, of "length A" "length B"] l assms(2) by (simp add: data_bytes_def ptr_bytes_def)
qed

lemma poke_holds:
  assumes "buffer_holds b (A @ X)" "A @ X \<noteq> []" "unat pos = length A" "length src = length X"
  obtains b' where "buffer_poke b pos (map Some src) = Some b'" "buffer_holds b' (A @ src)" "buf_capacity b' = buf_capacity b"
    "src = X \<Longrightarrow> b' = b"
proof -
  have ok: "buffer_ok b" and cells: "buffer_cells b = map Some (A @ X)" and size: "unat (buffer_size b) = length (A @ X)"
    using buffer_holds_cells [OF assms(1)] by auto
  then obtain blk where blk: "buffer_base b = Some blk" "take (length (A @ X)) blk = map Some (A @ X)" "length blk = unat (buf_capacity b)"
    using assms(2) by (auto simp: buffer_cells_def buffer_ok_def split: option.splits)
  then have "blk = map Some A @ map Some X @ drop (length (A @ X)) blk" by (metis append.assoc append_take_drop_id map_append)
  then have base: "buffer_base b = Some (map Some A @ map Some X @ drop (length (A @ X)) blk)" using blk(1) by simp
  let ?b = "b\<lparr>buf_data := data_of (Some (map Some A @ map Some src @ drop (length (A @ X)) blk)) (buffer_size b)\<rparr>"
  have poke: "buffer_poke b pos (map Some src) = Some ?b" by (rule buffer_poke_simp [OF base]) (use assms in auto)
  have le: "length (A @ X) \<le> length blk" using ok blk(3) size by (simp add: buffer_ok_def)
  then have "buffer_holds ?b (A @ src)"
    using ok blk(3) size assms(4) by (auto simp: buffer_holds_def buffer_ok_def buffer_cells_def buffer_base_def buffer_size_def buffer_data_def)
  moreover have "?b = b" if "src = X"
    using base that by (cases b; cases "buf_data b") (simp add: buffer_base_def buffer_size_def buffer_data_def data_of_def data_base_def data_size_def)
  ultimately show ?thesis using that poke by simp
qed

text \<open>The lookups of the two fields, and the three ways on from there.\<close>

definition body_fields :: "http_request \<Rightarrow> (byte list \<times> byte list) list \<Rightarrow> string_t \<Rightarrow> string_t \<Rightarrow> bool" where
  "body_fields q fs E L \<longleftrightarrow> line_data E (transfer_encoding fs) \<and> line_data L (content_length fs) \<and>
     http_field_lookup (request_fields q) (unat (request_fields_count q)) (literal ''Transfer-Encoding'') = Some E \<and>
     http_field_lookup (request_fields q) (unat (request_fields_count q)) (literal ''Content-Length'') = Some L \<and>
     (data_empty E \<longleftrightarrow> transfer_encoding fs = []) \<and> (data_empty L \<longleftrightarrow> content_length fs = [])"

lemma request_body_fields:
  assumes "head_read q m t fs"
  obtains E L where "body_fields q fs E L"
proof -
  have q: "fields_in (request_fields q) fs" "unat (request_fields_count q) = length (request_fields q)"
    using assms by (auto simp: head_read_def)
  obtain E where E: "http_field_lookup (request_fields q) (unat (request_fields_count q)) (literal ''Transfer-Encoding'') = Some E"
    "line_data E (transfer_encoding fs)"
    using lookup_field_in [OF q(1) _ q(2), of "''Transfer-Encoding''"] unfolding transfer_encoding_def by auto
  obtain L where L: "http_field_lookup (request_fields q) (unat (request_fields_count q)) (literal ''Content-Length'') = Some L"
    "line_data L (content_length fs)"
    using lookup_field_in [OF q(1) _ q(2), of "''Content-Length''"] unfolding content_length_def by auto
  have "data_empty E \<longleftrightarrow> transfer_encoding fs = []" "data_empty L \<longleftrightarrow> content_length fs = []"
    using E(2) L(2) data_empty_bytes by (auto simp: line_data_def)
  then show ?thesis using E L that by (auto simp: body_fields_def)
qed

lemma encoding_chunked:
  assumes "body_fields q fs E L"
  shows "data_equal_case E (literal ''Chunked'') = Some (map toupper (transfer_encoding fs) = map toupper (text_bytes ''Chunked''))"
  by (rule data_equal_case_bytes) (use assms in \<open>simp add: body_fields_def line_data_def\<close>, simp add: literal_bytes)

lemma request_body_length:
  assumes q: "head_read q m t fs" and cl: "content_length fs \<noteq> []" "transfer_encoding fs = []" "list_all isdigit (content_length fs)"
    "digits_value 10 (content_length fs) < 2 ^ 64"
  shows "http_request_body s input n q =
    (let sz = of_nat (digits_value 10 (content_length fs))
     in if data_size input < scast n + sz then Some (0, s, q)
        else Some (1, stream_consume s (scast n + sz), q\<lparr>request_body := data_of (ptr_add (data_base input) (unat n)) sz\<rparr>))"
proof -
  obtain E L where l: "body_fields q fs E L" using request_body_fields [OF q] .
  then have "line_data L (content_length fs)" by (simp add: body_fields_def)
  from strtoull_decimal [OF this cl(1,3,4)] show ?thesis using l cl(1,2) by (simp add: http_request_body_def body_fields_def Let_def)
qed

lemma request_body_both:
  assumes q: "head_read q m t fs" and cl: "content_length fs \<noteq> []" "transfer_encoding fs \<noteq> []"
  shows "http_request_body s input n q = Some (- 1, s, q)"
proof -
  obtain E L where l: "body_fields q fs E L" using request_body_fields [OF q] .
  then show ?thesis using cl by (simp add: http_request_body_def body_fields_def)
qed

lemma request_body_none:
  assumes q: "head_read q m t fs" and cl: "content_length fs = []" "transfer_encoding fs = []"
  shows "http_request_body s input n q = Some (1, stream_consume s (scast n), q)"
proof -
  obtain E L where l: "body_fields q fs E L" using request_body_fields [OF q] .
  then show ?thesis using cl by (simp add: http_request_body_def body_fields_def)
qed

lemma request_body_unknown:
  assumes q: "head_read q m t fs" and cl: "content_length fs = []" "transfer_encoding fs \<noteq> []"
    and te: "map toupper (transfer_encoding fs) \<noteq> map toupper (text_bytes ''Chunked'')"
  shows "http_request_body s input n q = Some (- 1, s, q)"
proof -
  obtain E L where l: "body_fields q fs E L" using request_body_fields [OF q] .
  then show ?thesis using cl te encoding_chunked [OF l] by (simp add: http_request_body_def body_fields_def)
qed

text \<open>The chunked body is decoded in the input buffer.\<close>

lemma request_body_chunked:
  assumes ok: "stream_ok s inp flight waiting" and q: "head_read q m t fs"
    and unread: "drop (unat (stream_input_consumed s)) inp = hb @ wire" "hb \<noteq> []" "length hb < 2 ^ 31"
    and te: "content_length fs = []" "map toupper (transfer_encoding fs) = map toupper (text_bytes ''Chunked'')"
    and d: "http_dechunk wire = Some (sz, mem, k)" "length mem = length wire"
  obtains s' where "http_request_body s (stream_read s) (of_nat (length hb)) q =
      (if sint sz \<le> 0 then Some (sint sz, s', q)
       else Some (1, stream_consume s' (of_nat (length hb) + sz),
         q\<lparr>request_body := data_of (ptr_add (data_base (stream_read s')) (length hb)) k\<rparr>))"
    "stream_ok s' (take (unat (stream_input_consumed s)) inp @ hb @ mem) flight waiting"
    "stream_input_consumed s' = stream_input_consumed s" "mem = wire \<Longrightarrow> s' = s"
proof -
  let ?c = "stream_input_consumed s" and ?b = "stream_input_buffer s"
  obtain E L where l: "body_fields q fs E L" using request_body_fields [OF q] .
  have eq: "data_equal_case E (literal ''Chunked'') = Some True" using encoding_chunked [OF l] te(2) by simp
  have "transfer_encoding fs \<noteq> []" using te(2) by (auto simp: text_bytes_def)
  then have empty: "\<not> data_empty E" "data_empty L" using l te(1) by (auto simp: body_fields_def)
  have i: "buffer_holds ?b inp" "unat ?c \<le> length inp" "length inp + unat STREAM_BLOCK_SIZE \<le> buffer_limit"
    using ok by (auto simp: stream_ok_def stream_input_ok_def)
  have inp: "inp = (take (unat ?c) inp @ hb) @ wire" using unread(1) by (metis append.assoc append_take_drop_id)
  have lens: "unat ?c + length hb + length wire = length inp" using arg_cong [OF inp, of length] i(2) by simp
  have n: "scast (of_nat (length hb) :: int32) = (of_nat (length hb) :: size_t)" "unat (of_nat (length hb) :: int32) = length hb"
    "unat (of_nat (length hb) :: size_t) = length hb"
    using unread(3) scast_small by (simp_all add: unat_of_nat)
  have pos: "unat (?c + of_nat (length hb)) = length (take (unat ?c) inp @ hb)"
    using lens i(2,3) n(3) by (simp add: unat_add64 buffer_limit_def)
  obtain b' where b': "buffer_poke ?b (?c + of_nat (length hb)) (map Some mem) = Some b'"
    "buffer_holds b' ((take (unat ?c) inp @ hb) @ mem)" "buf_capacity b' = buf_capacity ?b" "mem = wire \<Longrightarrow> b' = ?b"
    using poke_holds [of ?b "take (unat ?c) inp @ hb" wire] i(1) inp unread(2) pos d(2) by auto
  have r: "data_bytes (stream_read s) = Some (hb @ wire)" using stream_read_bytes [OF ok] unread(1) by simp
  have "of_nat (length hb) \<le> data_size (stream_read s)"
    unfolding word_le_nat_alt n(3) using length_data_bytes [OF r] by simp
  then have off: "data_bytes (data_offset (stream_read s) (of_nat (length hb))) = Some wire"
    using data_bytes_offset [OF r] n(3) by simp
  let ?s = "s\<lparr>stream_input_buffer := b'\<rparr>"
  have "stream_ok ?s (take (unat ?c) inp @ hb @ mem) flight waiting"
    using ok b'(2,3) d(2) lens i(2) by (auto simp: stream_ok_def stream_input_ok_def stream_flight_ok_def stream_busy_def stream_waiting_ok_def)
  moreover have "http_request_body s (stream_read s) (of_nat (length hb)) q =
      (if sint sz \<le> 0 then Some (sint sz, ?s, q)
       else Some (1, stream_consume ?s (of_nat (length hb) + sz),
         q\<lparr>request_body := data_of (ptr_add (data_base (stream_read ?s)) (length hb)) k\<rparr>))"
    unfolding http_request_body_def using l [unfolded body_fields_def] eq empty n off d(1) b'(1) by (simp add: Let_def)
  moreover have "?s = s" if "mem = wire" using b'(4) [OF that] by simp
  ultimately show ?thesis using that by simp
qed

section \<open>Properties\<close>

text \<open>
  C12: A whole request at the start of the input is read: the result is 1, method, target, fields and
  body are those of the request, whichever framing it uses, and exactly its bytes are consumed, so
  that what follows it stays readable. A chunked body is decoded in the input buffer.
\<close>

theorem http_read_request_decodes:
  fixes s :: "'a stream"
  assumes ok: "stream_ok s inp flight waiting"
    and unread: "drop (unat (stream_input_consumed s)) inp = request_head m t fs @ wire @ rest"
    and v: "valid_head m t fs" and f: "framed m fs wire body"
    and max: "length fs \<le> unat (request_fields_count request)" and small: "length (request_head m t fs) < 2 ^ 31"
  shows "\<exists>s' q inp'. http_read_request sse s request = Some (1, s', q) \<and>
    data_bytes (request_method q) = Some m \<and> data_bytes (request_target q) = Some t \<and> data_bytes (request_body q) = Some body \<and>
    fields_hold (request_fields q) fs \<and> unat (request_fields_count q) = length fs \<and>
    stream_ok s' inp' flight waiting \<and> drop (unat (stream_input_consumed s')) inp' = rest"
proof -
  let ?h = "request_head m t fs" and ?c = "stream_input_consumed s"
  let ?n = "of_nat (length ?h) :: size_t"
  obtain q where r: "http_read_request sse s request =
      (if m = text_bytes ''GET'' then Some (1, stream_consume s ?n, q) else http_request_body s (stream_read s) (of_nat (length ?h)) q)"
    and q: "head_read q m t fs"
    using read_request_head [OF ok unread v max small] .
  have null: "data_bytes (request_body q) = Some []" using q by (simp add: head_read_def data_bytes_def ptr_bytes_def)
  have lim: "unat ?c + (length ?h + length wire + length rest) = length inp" "length inp < 2 ^ 63"
    using arg_cong [OF unread, of length] ok by (auto simp: stream_ok_def stream_input_ok_def buffer_limit_def STREAM_BLOCK_SIZE_def)
  have n: "scast (of_nat (length ?h) :: int32) = ?n" "unat (of_nat (length ?h) :: int32) = length ?h" "unat ?n = length ?h"
    using small scast_small by (simp_all add: unat_of_nat)
  have nw: "unat (?n + of_nat (length wire)) = length ?h + length wire" using lim n(3) by (simp add: unat_add64)
  text \<open>It is enough to know which data is the body.\<close>
  have finish: ?thesis
    if "http_read_request sse s request = Some (1, stream_consume s' k, q\<lparr>request_body := d\<rparr>)" "data_bytes d = Some body"
      "stream_ok s' inp' flight waiting" "stream_input_consumed s' = ?c" "unat k = length ?h + length wire" "length inp' = length inp"
      "drop (unat ?c) inp' = X @ rest" "length X = length ?h + length wire" for s' k d inp' X
  proof -
    have c: "unat (stream_input_consumed s') + unat k \<le> length inp'" using that(4,5,6) lim by simp
    have "drop (unat ?c + unat k) inp' = rest"
      using arg_cong [OF that(7), of "drop (unat k)"] that(5,8) by (simp add: add.commute)
    then show ?thesis
      using that(1,2) stream_consume_spec [OF that(3) c] q that(4) by (auto simp: head_read_def intro: fields_in_hold)
  qed
  have same: "q\<lparr>request_body := request_body q\<rparr> = q" by simp
  have X: "drop (unat ?c) inp = (?h @ wire) @ rest" using unread by simp
  consider "m = text_bytes ''GET''"
    | "m \<noteq> text_bytes ''GET''" "content_length fs \<noteq> []"
    | "m \<noteq> text_bytes ''GET''" "content_length fs = []" "transfer_encoding fs \<noteq> []"
    | "m \<noteq> text_bytes ''GET''" "content_length fs = []" "transfer_encoding fs = []" by blast
  then show ?thesis
  proof cases
    case 1
    then have "wire = []" "body = []" using f by (simp_all add: framed_def)
    then show ?thesis using finish [of s ?n "request_body q" inp "?h @ wire"] r 1 same null ok n(3) X by simp
  next
    case 2
    then have w: "transfer_encoding fs = []" "list_all isdigit (content_length fs)" "digits_value 10 (content_length fs) = length body" "wire = body"
      using f by (simp_all add: framed_def)
    have lb: "digits_value 10 (content_length fs) < 2 ^ 64" using lim w(3,4) by simp
    have d: "data_bytes (stream_read s) = Some (?h @ body @ rest)" using stream_read_bytes [OF ok] unread w(4) by simp
    have "\<not> data_size (stream_read s) < ?n + of_nat (length body)"
      unfolding word_less_nat_alt using nw length_data_bytes [OF d] w(4) by simp
    then have "http_read_request sse s request = Some (1, stream_consume s (?n + of_nat (length wire)),
        q\<lparr>request_body := data_of (ptr_add (data_base (stream_read s)) (unat ?n)) (of_nat (length body))\<rparr>)"
      using r 2 request_body_length [OF q 2(2) w(1,2) lb, of s "stream_read s" "of_nat (length ?h)"] w(3,4) n by (simp add: Let_def)
    then show ?thesis using finish [of s _ _ inp "?h @ wire"] data_bytes_inner [OF d n(3)] ok nw X by simp
  next
    case 3
    then have w: "map toupper (transfer_encoding fs) = map toupper (text_bytes ''Chunked'')" "chunked wire body"
      using f by (simp_all add: framed_def)
    have "length (wire @ rest) < 2 ^ 63" using lim by simp
    then obtain G where G: "http_dechunk (wire @ rest) = Some (of_nat (length wire), body @ G @ rest, of_nat (length body))"
      "length (body @ G) = length wire" using dechunk_chunked [OF w(2)] by blast
    have lm: "length (body @ G @ rest) = length (wire @ rest)" using G(2) by simp
    obtain s' where s': "http_request_body s (stream_read s) (of_nat (length ?h)) q =
        (if sint (of_nat (length wire) :: ssize_t) \<le> 0 then Some (sint (of_nat (length wire) :: ssize_t), s', q)
         else Some (1, stream_consume s' (?n + of_nat (length wire)),
           q\<lparr>request_body := data_of (ptr_add (data_base (stream_read s')) (length ?h)) (of_nat (length body))\<rparr>))"
      "stream_ok s' (take (unat ?c) inp @ ?h @ body @ G @ rest) flight waiting" "stream_input_consumed s' = ?c"
      using request_body_chunked [OF ok q unread _ small 3(2) w(1) G(1) lm] request_head_length(1) [of m t fs] by blast
    have "wire \<noteq> []" using w(2) chunk_header_length by (auto elim!: chunked.cases)
    then have pos: "\<not> sint (of_nat (length wire) :: ssize_t) \<le> 0" using sint_of_nat64 [of "length wire"] lim by simp
    have tc: "length (take (unat ?c) inp) = unat ?c" using lim by simp
    then have X': "drop (unat ?c) (take (unat ?c) inp @ ?h @ body @ G @ rest) = (?h @ body @ G) @ rest" by simp
    then have "data_bytes (stream_read s') = Some (?h @ body @ (G @ rest))" using stream_read_bytes [OF s'(2)] s'(3) by simp
    from data_bytes_inner [OF this n(3)] n(3)
    have b: "data_bytes (data_of (ptr_add (data_base (stream_read s')) (length ?h)) (of_nat (length body))) = Some body" by simp
    have "length (take (unat ?c) inp @ ?h @ body @ G @ rest) = length inp" using tc lm lim by simp
    then show ?thesis using finish [OF _ b s'(2,3) nw _ X'] r 3 s'(1) pos G(2) by simp
  next
    case 4
    then have "wire = []" "body = []" using f by (simp_all add: framed_def)
    then show ?thesis
      using finish [of s ?n "request_body q" inp "?h @ wire"] r 4 request_body_none [OF q 4(2,3), of s "stream_read s" "of_nat (length ?h)"] same null ok n X by simp
  qed
qed

text \<open>A stream that has just received the given bytes.\<close>

definition stream_with_input :: "byte list \<Rightarrow> nat stream" where
  "stream_with_input bs = (stream_construct (Some (User 1)) (Number 0))\<lparr>stream_input_buffer := buffer_of bs\<rparr>"

definition empty_request :: http_request where
  "empty_request = \<lparr>request_method = data_null, request_target = data_null, request_body = data_null,
     request_fields = [], request_fields_count = 16\<rparr>"

lemma stream_with_input_ok:
  assumes "length bs < 2 ^ 32"
  shows "stream_ok (stream_with_input bs) bs [] []"
proof -
  have "buffer_holds (buffer_of bs) bs"
    using assms by (simp add: buffer_holds_def buffer_ok_def buffer_cells_def buffer_of_def buffer_base_def buffer_size_def buffer_data_def data_literal_def)
  then show ?thesis
    using stream_construct_ok [of "Some (User (1::nat))" "Number 0"] assms
    by (simp add: stream_with_input_def stream_ok_def stream_input_ok_def stream_flight_ok_def stream_busy_def stream_waiting_ok_def
        stream_construct_def buffer_limit_def STREAM_BLOCK_SIZE_def)
qed

lemma consumed_with_input [simp]: "stream_input_consumed (stream_with_input bs) = 0"
  by (simp add: stream_with_input_def stream_construct_def)

lemmas head_eval = valid_head_def valid_token_def valid_field_def text_bytes_def token_end_def name_char_def token_char_map_def
  control_char_def blank_def framed_def content_length_def transfer_encoding_def lookup_field_def field_named_def toupper_def

lemma http_read_request_decodes_witness:
  "let h = request_head (text_bytes ''POST'') (text_bytes ''/'') [(text_bytes ''transfer-encoding'', text_bytes ''chunked'')]
   in \<exists>s' q inp'. http_read_request True (stream_with_input (h @ example_chunked @ [71])) empty_request = Some (1, s', q) \<and>
    data_bytes (request_method q) = Some (text_bytes ''POST'') \<and> data_bytes (request_target q) = Some (text_bytes ''/'') \<and>
    data_bytes (request_body q) = Some [97, 98, 99] \<and>
    fields_hold (request_fields q) [(text_bytes ''transfer-encoding'', text_bytes ''chunked'')] \<and> unat (request_fields_count q) = length [(text_bytes ''transfer-encoding'', text_bytes ''chunked'')] \<and>
    stream_ok s' inp' [] [] \<and> drop (unat (stream_input_consumed s')) inp' = [71]"
  unfolding Let_def
proof (rule http_read_request_decodes)
  show "stream_ok (stream_with_input (request_head (text_bytes ''POST'') (text_bytes ''/'')
      [(text_bytes ''transfer-encoding'', text_bytes ''chunked'')] @ example_chunked @ [71]))
    (request_head (text_bytes ''POST'') (text_bytes ''/'') [(text_bytes ''transfer-encoding'', text_bytes ''chunked'')] @ example_chunked @ [71]) [] []"
    by (rule stream_with_input_ok) (simp add: request_head_def text_bytes_def field_lines_def field_line_def example_chunked_def)
  show "framed (text_bytes ''POST'') [(text_bytes ''transfer-encoding'', text_bytes ''chunked'')] example_chunked [97, 98, 99]"
    using example_chunked by (simp add: head_eval)
qed (simp_all add: head_eval empty_request_def request_head_def field_lines_def field_line_def)

text \<open>
  C13: While the end of the body is missing nothing is consumed and the stream is not touched, so that
  the request is read again, from its start, when more has arrived.
\<close>

theorem http_read_request_incomplete:
  fixes s :: "'a stream"
  assumes ok: "stream_ok s inp flight waiting"
    and unread: "drop (unat (stream_input_consumed s)) inp = request_head m t fs @ arrived"
    and v: "valid_head m t fs" and f: "framed m fs (arrived @ missing) body" and "missing \<noteq> []" "length (arrived @ missing) < 2 ^ 63"
    and max: "length fs \<le> unat (request_fields_count request)" and small: "length (request_head m t fs) < 2 ^ 31"
  shows "\<exists>q. http_read_request sse s request = Some (0, s, q)"
proof -
  let ?h = "request_head m t fs"
  let ?n = "of_nat (length ?h) :: size_t"
  obtain q where r: "http_read_request sse s request =
      (if m = text_bytes ''GET'' then Some (1, stream_consume s ?n, q) else http_request_body s (stream_read s) (of_nat (length ?h)) q)"
    and q: "head_read q m t fs"
    using read_request_head [OF ok unread v max small] .
  have n: "scast (of_nat (length ?h) :: int32) = ?n" "unat ?n = length ?h" using small scast_small by (simp_all add: unat_of_nat)
  have d: "data_bytes (stream_read s) = Some (?h @ arrived)" using stream_read_bytes [OF ok] unread by simp
  have get: "m \<noteq> text_bytes ''GET''" using f assms(5) by (auto simp: framed_def)
  show ?thesis
  proof (cases "content_length fs = []")
    case False
    then have w: "transfer_encoding fs = []" "list_all isdigit (content_length fs)" "digits_value 10 (content_length fs) = length (arrived @ missing)"
      using f get by (auto simp: framed_def)
    define L where "L = length (arrived @ missing)"
    have L: "length arrived < L" "L < 2 ^ 63" "digits_value 10 (content_length fs) = L" using assms(5,6) w(3) by (simp_all add: L_def)
    then have nl: "unat (?n + of_nat L) = length ?h + L"
      using small n(2) unat_add64 [of ?n "of_nat L"] by simp
    have "data_size (stream_read s) < ?n + of_nat L"
      unfolding word_less_nat_alt nl using length_data_bytes [OF d] L(1) by simp
    then show ?thesis
      using r get request_body_length [OF q False w(1,2), of s "stream_read s" "of_nat (length ?h)"] L n(1) by (simp add: Let_def)
  next
    case True
    then have w: "map toupper (transfer_encoding fs) = map toupper (text_bytes ''Chunked'')" "chunked (arrived @ missing) body"
      using f get assms(5) by (auto simp: framed_def split: if_splits)
    have "http_dechunk_check arrived 0 = Some (Inl 0)"
      using dechunk_check_incomplete [OF w(2) refl assms(5), of "[]"] assms(6) by simp
    then have "http_dechunk arrived = Some (0, arrived, 0)" by (simp add: http_dechunk_def)
    then obtain s' where "http_request_body s (stream_read s) (of_nat (length ?h)) q = Some (0, s', q)" "s' = s"
      using request_body_chunked [OF ok q unread _ small True w(1), of 0 arrived 0] request_head_length(1) [of m t fs] by auto
    then show ?thesis using r get by simp
  qed
qed

lemma http_read_request_incomplete_witness:
  "let h = request_head (text_bytes ''PUT'') (text_bytes ''/'') [(text_bytes ''Content-Length'', text_bytes ''12'')]
   in \<exists>q. http_read_request False (stream_with_input (h @ [1, 2, 3])) empty_request = Some (0, stream_with_input (h @ [1, 2, 3]), q)"
  unfolding Let_def
proof (rule http_read_request_incomplete [where arrived = "[1, 2, 3]" and missing = "replicate 9 0" and body = "[1, 2, 3] @ replicate 9 0" and
      m = "text_bytes ''PUT''" and t = "text_bytes ''/''" and fs = "[(text_bytes ''Content-Length'', text_bytes ''12'')]"])
  show "stream_ok (stream_with_input (request_head (text_bytes ''PUT'') (text_bytes ''/'') [(text_bytes ''Content-Length'', text_bytes ''12'')] @ [1, 2, 3]))
    (request_head (text_bytes ''PUT'') (text_bytes ''/'') [(text_bytes ''Content-Length'', text_bytes ''12'')] @ [1, 2, 3]) [] []"
    by (rule stream_with_input_ok) (simp add: request_head_def text_bytes_def field_lines_def field_line_def)
  show "framed (text_bytes ''PUT'') [(text_bytes ''Content-Length'', text_bytes ''12'')] ([1, 2, 3] @ replicate 9 0) ([1, 2, 3] @ replicate 9 0)"
    by (simp add: head_eval isdigit_def digits_value_def xdigit_def)
qed (simp_all add: head_eval empty_request_def request_head_def field_lines_def field_line_def)

text \<open>
  C14: A length close to \<^term>\<open>2 ^ 64 :: nat\<close> is not recognised as too large: the sum of head and body
  wraps around, and the request is reported as complete with a body larger than all of memory while
  not even its head is consumed.
\<close>

theorem http_read_request_length_wraps:
  fixes s :: "'a stream"
  assumes ok: "stream_ok s inp flight waiting"
    and unread: "drop (unat (stream_input_consumed s)) inp = request_head m t fs @ rest"
    and v: "valid_head m t fs" and m: "m \<noteq> text_bytes ''GET''"
    and cl: "content_length fs \<noteq> []" "transfer_encoding fs = []" "list_all isdigit (content_length fs)"
    and wrap: "digits_value 10 (content_length fs) < 2 ^ 64" "2 ^ 64 \<le> length (request_head m t fs) + digits_value 10 (content_length fs)"
    and max: "length fs \<le> unat (request_fields_count request)" and small: "length (request_head m t fs) < 2 ^ 31"
  shows "\<exists>q k. http_read_request sse s request = Some (1, stream_consume s k, q) \<and>
    unat (data_size (request_body q)) = digits_value 10 (content_length fs) \<and> unat k < length (request_head m t fs)"
proof -
  let ?h = "request_head m t fs" and ?l = "digits_value 10 (content_length fs)"
  let ?n = "of_nat (length ?h) :: size_t" and ?k = "of_nat ?l :: size_t"
  obtain q where r: "http_read_request sse s request =
      (if m = text_bytes ''GET'' then Some (1, stream_consume s ?n, q) else http_request_body s (stream_read s) (of_nat (length ?h)) q)"
    and q: "head_read q m t fs"
    using read_request_head [OF ok unread v max small] .
  have n: "scast (of_nat (length ?h) :: int32) = ?n" "unat ?n = length ?h" "unat ?k = ?l"
    using small scast_small wrap(1) by (simp_all add: unat_of_nat)
  have d: "data_bytes (stream_read s) = Some (?h @ rest)" using stream_read_bytes [OF ok] unread by simp
  have "unat (?n + ?k) = length ?h + ?l - 2 ^ 64"
    using n(2,3) wrap small by (simp add: unat_word_ariths mod_if)
  then have k: "unat (?n + ?k) < length ?h" using wrap by simp
  then have "\<not> data_size (stream_read s) < ?n + ?k" unfolding word_less_nat_alt using length_data_bytes [OF d] by simp
  then show ?thesis
    using r m request_body_length [OF q cl wrap(1), of s "stream_read s" "of_nat (length ?h)"] n k by (simp add: Let_def) blast
qed

lemma http_read_request_length_wraps_witness:
  "let fs = [(text_bytes ''Content-Length'', text_bytes ''18446744073709551615'')]; h = request_head (text_bytes ''PUT'') (text_bytes ''/'') fs
   in \<exists>q k. http_read_request False (stream_with_input (h @ [])) empty_request = Some (1, stream_consume (stream_with_input (h @ [])) k, q) \<and>
    unat (data_size (request_body q)) = digits_value 10 (content_length fs) \<and> unat k < length h"
  unfolding Let_def
proof (rule http_read_request_length_wraps [where rest = "[]" and m = "text_bytes ''PUT''" and t = "text_bytes ''/''"])
  show "stream_ok (stream_with_input (request_head (text_bytes ''PUT'') (text_bytes ''/'') [(text_bytes ''Content-Length'', text_bytes ''18446744073709551615'')] @ []))
    (request_head (text_bytes ''PUT'') (text_bytes ''/'') [(text_bytes ''Content-Length'', text_bytes ''18446744073709551615'')] @ []) [] []"
    by (rule stream_with_input_ok) (simp add: request_head_def text_bytes_def field_lines_def field_line_def)
qed (simp_all add: head_eval isdigit_def digits_value_def xdigit_def empty_request_def request_head_def field_lines_def field_line_def)

end
