(* ===== verification/Spec2Isabelle.thy ===== *)
theory Spec2Isabelle
  imports Timeout Signal Queue_Run Encode_Decode Maps Http_Request Utf8_Escape
begin

text \<open>
  A verification development for libreactorng, a C library for event-driven servers on top of the
  \<^verbatim>\<open>io_uring\<close> interface of Linux. All file names are relative to \<^verbatim>\<open>src/\<close> of the repository.

  \<^bold>\<open>The program and its parts.\<close> The library is a stack. At the bottom are containers: data vectors and
  strings (\<^verbatim>\<open>src/reactor/data.c\<close>, \<^verbatim>\<open>string.c\<close>), byte buffers (\<^verbatim>\<open>buffer.c\<close>), vectors (\<^verbatim>\<open>vector.c\<close>), linked
  rings (\<^verbatim>\<open>list.c\<close>), hash tables with three instances (\<^verbatim>\<open>map.c\<close>, \<^verbatim>\<open>mapi.c\<close>, \<^verbatim>\<open>maps.c\<close>, \<^verbatim>\<open>mapd.c\<close>, over \<^verbatim>\<open>hash.c\<close>)
  and an object pool (\<^verbatim>\<open>pool.c\<close>). On them stands the event loop (\<^verbatim>\<open>reactor.c\<close>): a request is a user (a
  callback with its state) from the pool and an entry in the submission ring shared with the kernel;
  the loop calls the user when the completion arrives. Timers (\<^verbatim>\<open>timeout.c\<close>), signals (\<^verbatim>\<open>signal.c\<close>),
  queues through pipes (\<^verbatim>\<open>queue.c\<close>) and streams (\<^verbatim>\<open>stream.c\<close>) are clients of the loop: each keeps the ids
  of its requests in flight, cancels them when it is closed, and tells the handlers on the C stack
  with an \<open>abort\<close> variable when its memory goes away. HTTP messages (\<^verbatim>\<open>http.c\<close>, with the parser of request
  heads in \<^verbatim>\<open>src/picohttpparser/picohttpparser.c\<close>) are read from and written to the buffers of a stream. Apart
  from this stand dynamic values (\<^verbatim>\<open>value.c\<close>) with a JSON decoder (\<^verbatim>\<open>decode.c\<close>) and encoder (\<^verbatim>\<open>encode.c\<close>).

  \<^bold>\<open>How C is represented.\<close> Machine integers are words of their width, so every sum wraps around as in C;
  \<open>ssize_t\<close> and \<open>int\<close> are words read with \<open>sint\<close>. A memory block is a list of cells, each a byte or \<open>None\<close>
  (not initialised), and a pointer is the rest of its block from the position it points to, \<open>None\<close> for
  \<open>NULL\<close>. Linked structures live on explicit heaps: a partial map from addresses to items, in which freed
  addresses are unmapped. Reading or writing outside a block, following a pointer to a freed item, a
  failed \<open>assert\<close> and a null pointer that is dereferenced all have the result \<open>None\<close>: a theorem that an
  operation is \<open>Some\<close> includes its memory safety. Loops whose termination is not structural are
  \<^verbatim>\<open>partial_function (option)\<close>, where not returning is \<open>None\<close> too; there is no fuel in the development, so a
  theorem with \<open>Some\<close> also says that the loop ends. Error returns of the code are values of a sum type or
  the numbers the code returns.

  \<^bold>\<open>Parameters\<close>, for what is not code of the repository: the kernel (\<open>env_enter\<close> of a \<open>reactor_env\<close> is the
  system call that takes submissions and posts completions, \<open>env_clock\<close> the clock, \<open>env_calloc\<close> the address
  the allocator gives to a chunk of users), \<open>fstat\<close>, \<open>eventfd\<close>, \<open>pipe\<close>, \<open>read\<close> and \<open>write\<close>; a supply of addresses
  for \<open>malloc\<close> in the JSON decoder; the pair \<open>strtold\<close> and \<open>snprintf\<close> of the C library as a \<open>number_format\<close>; and the
  user's callbacks (\<open>invoke\<close>). \<open>qsort\<close> and \<open>strtoul\<close> are modelled as what the C standard says of them.

  \<^bold>\<open>Theories.\<close>
  \<^item> \<open>Prelude\<close>: machine types, blocks and pointers, the lemmas on words and lists that are shared.
  \<^item> \<open>Data\<close>, \<open>Buffer\<close>, \<open>Vector\<close>, \<open>Rlist\<close>, \<open>Pool\<close>, \<open>Hash\<close>, \<open>Rmap\<close>, \<open>Maps\<close>: the containers, one theory per C file
    (the three instances of the hash table in \<open>Maps\<close>). Each has an abstraction (\<open>buffer_holds b bs\<close>,
    \<open>vector_holds v objects\<close>, \<open>ring h l items\<close>, \<open>pool_inv\<close>, the lookup function of a map) and its lemmas
    say what each operation does to it.
  \<^item> \<open>Utf8\<close>, \<open>Utf8_Decoder\<close>, \<open>Utf8_Escape\<close>: \<^verbatim>\<open>string.c\<close>; the table-driven decoder read as an automaton, and
    escaping with its way back.
  \<^item> \<open>Reactor\<close>, \<open>Reactor_Requests\<close>, \<open>Reactor_Loop\<close>: \<^verbatim>\<open>reactor.c\<close>; state and operations, the invariant
    \<open>reactor_inv\<close> and what a request adds to the submission ring, cancelling and the loop.
  \<^item> \<open>Handlers\<close>: the handlers of the library as a datatype (function pointers of the code), the world a
    handler runs in, and requests on a reactor with room for them.
  \<^item> \<open>Timeout\<close>, \<open>Signal\<close>, \<open>Queue\<close> with \<open>Queue_Run\<close>: \<^verbatim>\<open>timeout.c\<close>, \<^verbatim>\<open>signal.c\<close>, \<^verbatim>\<open>queue.c\<close>.
  \<^item> \<open>Stream\<close>, \<open>Stream_IO\<close>, \<open>Stream_Run\<close>, \<open>Stream_Correct\<close>: \<^verbatim>\<open>stream.c\<close>; operations, their effect on the bytes
    received, in flight and waiting, runs of a stream with any interleaving of calls and completions.
  \<^item> \<open>Phr\<close>, \<open>Phr_Correct\<close>, \<open>Phr_Request\<close>: the parser of request heads in its two builds, a grammar of
    request heads and the round trip.
  \<^item> \<open>Http\<close>, \<open>Http_Chunked\<close>, \<open>Http_Dechunk\<close>, \<open>Http_Response\<close>, \<open>Http_Request\<close>: \<^verbatim>\<open>http.c\<close>; a grammar of chunked
    bodies, the chunk decoder, the response writer, and reading requests.
  \<^item> \<open>Value\<close>, \<open>Value_Owned\<close>, \<open>Value_Ops\<close>: \<^verbatim>\<open>value.c\<close>; \<open>owns c v j A\<close> says that the value at \<open>v\<close> is the tree \<open>j\<close>
    whose blocks are exactly \<open>A\<close>.
  \<^item> \<open>Decode\<close>, \<open>Decode_Tokens\<close>, \<open>Decode_Sound\<close>, \<open>Decode_Texts\<close>, \<open>Decode_Complete\<close>: \<^verbatim>\<open>decode.c\<close>; what it does for any
    text, a grammar of JSON texts, and that each of them is accepted.
  \<^item> \<open>Encode\<close>, \<open>Encode_Keys\<close>, \<open>Encode_Correct\<close>, \<open>Encode_Decode\<close>: \<^verbatim>\<open>encode.c\<close>; the sorted keys of an object, a
    reference printer, and the round trip with the decoder.

  \<^bold>\<open>Interfaces.\<close> Four contracts are locales, interpreted on the models: \<open>byte_sink\<close> (appending; the buffer),
  \<open>object_stack\<close> (push, pop, top; the vector), \<open>map_callbacks\<close> (hash, set and equal of a hash table; the
  three typed maps, and with it all lemmas of \<open>Rmap\<close>), and \<open>finite_map\<close> (insertion, deletion and lookup
  against a mathematical map; the three typed maps).

  \<^bold>\<open>Bounds.\<close> Sizes of blocks stay below \<open>buffer_limit\<close> \<open>= 2 ^ 63\<close>, what an allocator can give; texts and trees of
  the JSON theorems stay below \<open>2 ^ 59\<close> so that buffers may double; a map has at most \<open>2 ^ 62\<close> elements.
  \<open>reactor_ready r n\<close> says that the reactor's invariant holds and that \<open>n\<close> more users can be allocated and \<open>n\<close>
  more entries submitted; the code itself asserts that the allocator and the ring provide them. Within
  these bounds no operation of the theorems runs out of anything.

  \<^bold>\<open>Not modelled.\<close>
  \<^item> Of \<^verbatim>\<open>reactor.c\<close>: \<open>reactor_ring_construct\<close> and \<open>reactor_ring_destruct\<close> (mapping the shared memory of
    the rings) and \<open>reactor_async\<close> (a thread that runs a callback): what they do happens in the kernel
    and in another thread.
  \<^item> Of \<^verbatim>\<open>picohttpparser.c\<close>: parsing responses and bare headers and the incremental chunk decoder, which the
    library does not call.
  \<^item> \<^verbatim>\<open>server.c\<close>, \<^verbatim>\<open>network.c\<close>, \<^verbatim>\<open>notify.c\<close>: the glue between accepted sockets, streams and HTTP messages;
    resolving and connecting; the watches of an inotify descriptor.
  \<^item> \<^verbatim>\<open>flow.c\<close>: a graph of nodes in threads, with modules loaded at run time and pointers passed between
    threads.
  \<^item> The tests, examples, the umbrella header and the build files.
\<close>

end
